(* ===== verification/Prelude.thy ===== *)
theory Prelude
  imports Main "HOL-Library.Word" "HOL-Library.Char_ord" "HOL-Library.List_Lexorder"
begin

text \<open>
  Shared vocabulary of the development.  A Rust \<open>u8\<close> in a buffer and a byte of a Rust
  \<open>String\<close> are both an Isabelle \<open>char\<close>, which has exactly 256 values, so \<open>Vec<u8>\<close>,
  \<open>&[u8]\<close> and \<open>String\<close> are all \<open>char list\<close> and an ASCII literal needs no conversion.
  \<open>Result<T, E>\<close> is a sum with \<open>Ok\<close> and \<open>Err\<close> as names of its injections.  The rest of
  the theory models the parts of the Rust standard library the sources use on strings and
  numbers (little-endian conversion, UTF-8 validation, splitting, decimal parsing) and holds
  the generic lemmas the components share.
\<close>

type_synonym bytes = "char list"
type_synonym digest = bytes

named_theorems bind_simps \<open>unfolding of result binds on known outcomes\<close>

subsection \<open>Results\<close>

abbreviation Ok :: "'a \<Rightarrow> 'e + 'a" where "Ok \<equiv> Inr"
abbreviation Err :: "'e \<Rightarrow> 'e + 'a" where "Err \<equiv> Inl"

text \<open>The question mark operator: an error returns early, a value is passed on.\<close>

definition bindR :: "'e + 'a \<Rightarrow> ('a \<Rightarrow> 'e + 'b) \<Rightarrow> 'e + 'b" where
  "bindR m f = (case m of Inl e \<Rightarrow> Inl e | Inr a \<Rightarrow> f a)"

lemma bindR_Ok [simp, bind_simps]: "bindR (Ok a) f = f a"
  by (simp add: bindR_def)

lemma bindR_Err [simp, bind_simps]: "bindR (Err e) f = Err e"
  by (simp add: bindR_def)

lemma bindR_eq_Ok: "bindR m f = Ok b \<longleftrightarrow> (\<exists>a. m = Ok a \<and> f a = Ok b)"
  by (cases m) auto

lemma bindR_eq_Err: "bindR m f = Err e \<longleftrightarrow> m = Err e \<or> (\<exists>a. m = Ok a \<and> f a = Err e)"
  by (cases m) auto

text \<open>Iterating a fallible step over a list, stopping at the first error.\<close>

fun foldR :: "('a \<Rightarrow> 's \<Rightarrow> 'e + 's) \<Rightarrow> 'a list \<Rightarrow> 's \<Rightarrow> 'e + 's" where
  "foldR f [] s = Ok s"
| "foldR f (x # xs) s = bindR (f x s) (foldR f xs)"

lemma foldR_append: "foldR f (xs @ ys) s = bindR (foldR f xs s) (foldR f ys)"
  by (induction xs arbitrary: s) (auto simp: bindR_def split: sum.splits)

text \<open>The same for operations on a state that keep what they did before the error.\<close>

definition bindS :: "('s \<Rightarrow> ('e + 'a) \<times> 's) \<Rightarrow> ('a \<Rightarrow> 's \<Rightarrow> ('e + 'b) \<times> 's) \<Rightarrow> 's \<Rightarrow> ('e + 'b) \<times> 's" where
  "bindS m f s = (case m s of (r, s') \<Rightarrow> (case r of Inl e \<Rightarrow> (Inl e, s') | Inr a \<Rightarrow> f a s'))"

definition returnS :: "'a \<Rightarrow> 's \<Rightarrow> ('e + 'a) \<times> 's" where
  "returnS a s = (Ok a, s)"

lemma bindS_Ok [bind_simps]: "m s = (Ok a, s') \<Longrightarrow> bindS m f s = f a s'"
  by (simp add: bindS_def)

lemma bindS_Err [bind_simps]: "m s = (Err e, s') \<Longrightarrow> bindS m f s = (Err e, s')"
  by (simp add: bindS_def)

lemma bindS_eq_Ok:
  "bindS m f s = (Ok b, t) \<longleftrightarrow> (\<exists>a s'. m s = (Ok a, s') \<and> f a s' = (Ok b, t))"
  by (auto simp: bindS_def split: prod.splits sum.splits)

subsection \<open>Little-endian integers\<close>

fun le_bytes :: "nat \<Rightarrow> nat \<Rightarrow> bytes" where
  "le_bytes 0 n = []"
| "le_bytes (Suc k) n = char_of (n mod 256) # le_bytes k (n div 256)"

fun from_le :: "bytes \<Rightarrow> nat" where
  "from_le [] = 0"
| "from_le (c # cs) = of_char c + 256 * from_le cs"

definition u64_to_le_bytes :: "nat \<Rightarrow> bytes" where
  "u64_to_le_bytes n = le_bytes 8 n"

lemma length_le_bytes [simp]: "length (le_bytes k n) = k"
  by (induction k arbitrary: n) auto

lemma length_u64_to_le_bytes [simp]: "length (u64_to_le_bytes n) = 8"
  by (simp add: u64_to_le_bytes_def)

lemma of_char_less_256: "(of_char c :: nat) < 256"
  by (metis nat_of_char_less_256)

lemma from_le_le_bytes: "from_le (le_bytes k n) = n mod 256 ^ k"
proof (induction k arbitrary: n)
  case 0
  then show ?case by simp
next
  case (Suc k)
  have "from_le (le_bytes (Suc k) n) = n mod 256 + 256 * (n div 256 mod 256 ^ k)"
    by (simp add: Suc.IH)
  also have "\<dots> = n mod (256 * 256 ^ k)"
    by (simp add: mod_mult2_eq)
  finally show ?case by simp
qed

lemma from_le_u64: "n < 2 ^ 64 \<Longrightarrow> from_le (u64_to_le_bytes n) = n"
  by (simp add: u64_to_le_bytes_def from_le_le_bytes)

lemma from_le_less: "from_le cs < 256 ^ length cs"
proof (induction cs)
  case Nil
  then show ?case by simp
next
  case (Cons c cs)
  have "(of_char c :: nat) < 256" by (rule of_char_less_256)
  moreover have "from_le cs + 1 \<le> 256 ^ length cs" using Cons.IH by simp
  then have "256 * from_le cs + 256 \<le> 256 * 256 ^ length cs" by simp
  ultimately show ?case unfolding from_le.simps length_Cons power_Suc by linarith
qed

lemma le_bytes_inj: "m < 256 ^ k \<Longrightarrow> n < 256 ^ k \<Longrightarrow> le_bytes k m = le_bytes k n \<Longrightarrow> m = n"
  by (metis from_le_le_bytes mod_less)

subsection \<open>UTF-8 validation, as \<open>String::from_utf8\<close> decides it\<close>

definition utf8_cont :: "nat \<Rightarrow> bool" where
  "utf8_cont b \<longleftrightarrow> 128 \<le> b \<and> b \<le> 191"

fun utf8_ok :: "nat list \<Rightarrow> bool" where
  "utf8_ok [] = True"
| "utf8_ok (a # xs) =
     (if a < 128 then utf8_ok xs
      else if 194 \<le> a \<and> a \<le> 223 then
        (case xs of b # ys \<Rightarrow> utf8_cont b \<and> utf8_ok ys | _ \<Rightarrow> False)
      else if 224 \<le> a \<and> a \<le> 239 then
        (case xs of b # c # ys \<Rightarrow>
           (if a = 224 then 160 \<le> b \<and> b \<le> 191
            else if a = 237 then 128 \<le> b \<and> b \<le> 159
            else utf8_cont b) \<and> utf8_cont c \<and> utf8_ok ys
         | _ \<Rightarrow> False)
      else if 240 \<le> a \<and> a \<le> 244 then
        (case xs of b # c # d # ys \<Rightarrow>
           (if a = 240 then 144 \<le> b \<and> b \<le> 191
            else if a = 244 then 128 \<le> b \<and> b \<le> 143
            else utf8_cont b) \<and> utf8_cont c \<and> utf8_cont d \<and> utf8_ok ys
         | _ \<Rightarrow> False)
      else False)"

definition utf8_valid :: "bytes \<Rightarrow> bool" where
  "utf8_valid s = utf8_ok (map of_char s)"

lemma utf8_valid_Nil [simp]: "utf8_valid []"
  by (simp add: utf8_valid_def)

lemma utf8_ok_ascii: "\<forall>n \<in> set ns. n < 128 \<Longrightarrow> utf8_ok ns"
  by (induction ns) auto

subsection \<open>List views\<close>

lemma take_drop_view: "drop p xs = ys @ zs \<Longrightarrow> take (length ys) (drop p xs) = ys"
  by simp

lemma drop_add_view: "drop p xs = ys @ zs \<Longrightarrow> drop (p + length ys) xs = zs"
  by (metis add.commute append_eq_conv_conj drop_drop)

lemma drop_view_length: "drop p xs = ys @ zs \<Longrightarrow> ys \<noteq> [] \<Longrightarrow> p + length ys \<le> length xs"
  by (metis append_is_Nil_conv drop_eq_Nil2 length_append length_drop less_or_eq_imp_le
      linorder_not_less le_add1 Nat.le_diff_conv2 add.commute)

subsection \<open>String operations of the standard library\<close>

text \<open>\<open>s.rsplit(c).next()\<close> and \<open>s.split(c).next()\<close>: the last and the first segment, never
  absent.\<close>

definition last_segment :: "char \<Rightarrow> string \<Rightarrow> string" where
  "last_segment c s = rev (takeWhile (\<lambda>x. x \<noteq> c) (rev s))"

definition first_segment :: "char \<Rightarrow> string \<Rightarrow> string" where
  "first_segment c s = takeWhile (\<lambda>x. x \<noteq> c) s"

text \<open>\<open>s.split_once(pat)\<close> at the first occurrence of a character or of a string.\<close>

definition split_once :: "char \<Rightarrow> string \<Rightarrow> (string \<times> string) option" where
  "split_once c s =
     (case dropWhile (\<lambda>x. x \<noteq> c) s of [] \<Rightarrow> None | _ # r \<Rightarrow> Some (first_segment c s, r))"

fun split_once_str :: "string \<Rightarrow> string \<Rightarrow> (string \<times> string) option" where
  "split_once_str pat s =
     (if take (length pat) s = pat then Some ([], drop (length pat) s)
      else case s of [] \<Rightarrow> None
           | c # cs \<Rightarrow> map_option (\<lambda>(a, b). (c # a, b)) (split_once_str pat cs))"

declare split_once_str.simps [simp del]

text \<open>\<open>s.split(c)\<close>: all segments, at least one.\<close>

fun split_on :: "char \<Rightarrow> string \<Rightarrow> string list" where
  "split_on c [] = [[]]"
| "split_on c (x # xs) =
     (if x = c then [] # split_on c xs
      else (case split_on c xs of [] \<Rightarrow> [[x]] | w # ws \<Rightarrow> (x # w) # ws))"

fun join :: "string \<Rightarrow> string list \<Rightarrow> string" where
  "join sep [] = []"
| "join sep [x] = x"
| "join sep (x # xs) = x @ sep @ join sep xs"

text \<open>\<open>s.strip_prefix(p)\<close> and \<open>s.strip_suffix(p)\<close>.\<close>

definition strip_prefix :: "string \<Rightarrow> string \<Rightarrow> string option" where
  "strip_prefix p s = (if take (length p) s = p then Some (drop (length p) s) else None)"

definition strip_suffix :: "string \<Rightarrow> string \<Rightarrow> string option" where
  "strip_suffix p s =
     (if length p \<le> length s \<and> drop (length s - length p) s = p then Some (take (length s - length p) s) else None)"

text \<open>\<open>s.lines()\<close>: segments ended by a newline, without a final carriage return each; the part
  after the last newline counts when it is not empty.\<close>

abbreviation NL :: char where "NL \<equiv> CHR 0x0A"
abbreviation CR :: char where "CR \<equiv> CHR 0x0D"

definition strip_cr :: "string \<Rightarrow> string" where
  "strip_cr s = (if s \<noteq> [] \<and> last s = CR then butlast s else s)"

fun lines_aux :: "string \<Rightarrow> string \<Rightarrow> string list" where
  "lines_aux cur [] = (if cur = [] then [] else [cur])"
| "lines_aux cur (c # cs) = (if c = NL then strip_cr cur # lines_aux [] cs else lines_aux (cur @ [c]) cs)"

definition lines :: "string \<Rightarrow> string list" where
  "lines s = lines_aux [] s"

text \<open>Unicode white space at the front of a UTF-8 string, as a number of bytes (0: none).\<close>

definition ws_len :: "string \<Rightarrow> nat" where
  "ws_len s =
     (case map of_char s of
        [] \<Rightarrow> 0
      | (a::nat) # r \<Rightarrow>
          if (9 \<le> a \<and> a \<le> 13) \<or> a = 32 then 1
          else if a = 194 \<and> (case r of b # _ \<Rightarrow> b = 133 \<or> b = 160 | _ \<Rightarrow> False) then 2
          else if a = 225 \<and> (case r of b # c # _ \<Rightarrow> b = 154 \<and> c = 128 | _ \<Rightarrow> False) then 3
          else if a = 226 \<and> (case r of b # c # _ \<Rightarrow>
              b = 128 \<and> (128 \<le> c \<and> c \<le> 138 \<or> c = 168 \<or> c = 169 \<or> c = 175) \<or> b = 129 \<and> c = 159
              | _ \<Rightarrow> False) then 3
          else if a = 227 \<and> (case r of b # c # _ \<Rightarrow> b = 128 \<and> c = 128 | _ \<Rightarrow> False) then 3
          else 0)"

fun split_ws_aux :: "string \<Rightarrow> nat \<Rightarrow> string \<Rightarrow> string list" where
  "split_ws_aux cur k [] = (if cur = [] then [] else [cur])"
| "split_ws_aux cur (Suc k) (c # cs) = split_ws_aux cur k cs"
| "split_ws_aux cur 0 (c # cs) =
     (if ws_len (c # cs) > 0
      then (if cur = [] then [] else [cur]) @ split_ws_aux [] (ws_len (c # cs) - 1) cs
      else split_ws_aux (cur @ [c]) 0 cs)"

definition split_whitespace :: "string \<Rightarrow> string list" where
  "split_whitespace s = split_ws_aux [] 0 s"

definition is_ascii_digit :: "char \<Rightarrow> bool" where
  "is_ascii_digit c \<longleftrightarrow> 48 \<le> (of_char c :: nat) \<and> (of_char c :: nat) \<le> 57"

definition digit_char :: "nat \<Rightarrow> char" where
  "digit_char d = char_of (48 + d)"

fun show_nat :: "nat \<Rightarrow> string" where
  "show_nat n = (if n < 10 then [digit_char n] else show_nat (n div 10) @ [digit_char (n mod 10)])"

declare show_nat.simps [simp del]

definition digits_value :: "string \<Rightarrow> nat" where
  "digits_value s = foldl (\<lambda>a c. 10 * a + (of_char c - 48)) 0 s"

text \<open>\<open>s.parse::<u64>()\<close>: an optional plus sign, decimal digits, no overflow.\<close>

definition parse_u64 :: "string \<Rightarrow> nat option" where
  "parse_u64 s =
     (let ds = (case s of c # d # r \<Rightarrow> if c = CHR ''+'' then d # r else s | _ \<Rightarrow> s) in
      if ds \<noteq> [] \<and> list_all is_ascii_digit ds \<and> digits_value ds < 2 ^ 64
      then Some (digits_value ds) else None)"

lemma last_segment_notin: "c \<notin> set (last_segment c s)"
  by (auto simp: last_segment_def dest: set_takeWhileD)

lemma last_segment_append: "c \<notin> set t \<Longrightarrow> last_segment c (s @ c # t) = t"
  by (simp add: last_segment_def takeWhile_append)

lemma last_segment_id: "c \<notin> set t \<Longrightarrow> last_segment c t = t"
proof -
  assume "c \<notin> set t"
  then have "takeWhile (\<lambda>x. x \<noteq> c) (rev t) = rev t" by (auto simp: takeWhile_eq_all_conv)
  then show ?thesis unfolding last_segment_def by (metis rev_rev_ident)
qed

lemma first_segment_id: "c \<notin> set t \<Longrightarrow> first_segment c t = t"
  by (auto simp: first_segment_def takeWhile_eq_all_conv)

lemma first_segment_append: "c \<notin> set t \<Longrightarrow> first_segment c (t @ c # u) = t"
  by (auto simp: first_segment_def takeWhile_append)

lemma split_once_append: "c \<notin> set k \<Longrightarrow> split_once c (k @ c # v) = Some (k, v)"
  by (auto simp: split_once_def first_segment_append dropWhile_append)

lemma split_once_None: "c \<notin> set k \<Longrightarrow> split_once c k = None"
proof -
  assume "c \<notin> set k"
  then have "dropWhile (\<lambda>x. x \<noteq> c) k = []" by (auto simp: dropWhile_eq_Nil_conv)
  then show ?thesis unfolding split_once_def by (simp only: list.case)
qed

lemma split_on_notin: "c \<notin> set s \<Longrightarrow> split_on c s = [s]"
  by (induction s) auto

lemma split_on_append: "c \<notin> set s \<Longrightarrow> split_on c (s @ c # t) = s # split_on c t"
  by (induction s) auto

lemma split_on_join:
  "xs \<noteq> [] \<Longrightarrow> \<forall>x \<in> set xs. c \<notin> set x \<Longrightarrow> split_on c (join [c] xs) = xs"
proof (induction xs rule: induct_list012)
  case (3 x y zs)
  then show ?case using split_on_append[of c x "join [c] (y # zs)"] by simp
qed (auto simp: split_on_notin)

lemma lines_aux_line:
  "NL \<notin> set l \<Longrightarrow> lines_aux cur (l @ NL # rest) = strip_cr (cur @ l) # lines_aux [] rest"
  by (induction l arbitrary: cur) auto

lemma lines_line: "NL \<notin> set l \<Longrightarrow> l = [] \<or> last l \<noteq> CR \<Longrightarrow> lines (l @ NL # rest) = l # lines rest"
  by (auto simp: lines_def lines_aux_line strip_cr_def)

lemma lines_Nil [simp]: "lines [] = []"
  by (simp add: lines_def)

lemma of_char_digit_char: "d < 10 \<Longrightarrow> (of_char (digit_char d) :: nat) = 48 + d"
  by (simp add: digit_char_def)

lemma is_ascii_digit_digit_char: "d < 10 \<Longrightarrow> is_ascii_digit (digit_char d)"
  by (simp add: is_ascii_digit_def of_char_digit_char)

lemma show_nat_digits: "show_nat n \<noteq> [] \<and> list_all is_ascii_digit (show_nat n)"
proof (induction n rule: show_nat.induct)
  case (1 n)
  then show ?case
    by (cases "n < 10") (simp_all add: show_nat.simps[of n] is_ascii_digit_digit_char)
qed

lemma digits_value_show_nat: "digits_value (show_nat n) = n"
proof (induction n rule: show_nat.induct)
  case (1 n)
  show ?case
  proof (cases "n < 10")
    case True
    then show ?thesis
      by (simp add: show_nat.simps[of n] digits_value_def of_char_digit_char)
  next
    case False
    have "digits_value (show_nat n) = 10 * digits_value (show_nat (n div 10)) + n mod 10"
      using False by (simp add: show_nat.simps[of n] digits_value_def of_char_digit_char)
    then show ?thesis using 1 False by simp
  qed
qed

lemma parse_u64_show_nat: "n < 2 ^ 64 \<Longrightarrow> parse_u64 (show_nat n) = Some n"
proof -
  assume n: "n < 2 ^ 64"
  obtain c r where s: "show_nat n = c # r" using show_nat_digits[of n] by (cases "show_nat n") auto
  then have "c \<noteq> CHR ''+''" using show_nat_digits[of n] by (auto simp: is_ascii_digit_def)
  then have "(case show_nat n of c # d # r \<Rightarrow> if c = CHR ''+'' then d # r else show_nat n | _ \<Rightarrow> show_nat n)
      = show_nat n"
    by (auto simp: s split: list.splits)
  then show ?thesis
    using n show_nat_digits[of n] digits_value_show_nat[of n] by (simp add: parse_u64_def)
qed

lemma digit_neq: "is_ascii_digit c \<Longrightarrow> c \<noteq> NL \<and> c \<noteq> CR"
  by (auto simp: is_ascii_digit_def)

lemma show_nat_no_NL: "NL \<notin> set (show_nat n) \<and> last (show_nat n) \<noteq> CR"
  using show_nat_digits[of n] digit_neq last_in_set by (fastforce simp: list_all_iff)

text \<open>White space splitting of plain words joined by single spaces.\<close>

definition no_ws :: "string \<Rightarrow> bool" where
  "no_ws s \<longleftrightarrow> (\<forall>i < length s. \<forall>t. ws_len (drop i s @ CHR '' '' # t) = 0 \<and> ws_len (drop i s) = 0)"

lemma no_ws_Cons: "no_ws (c # cs) \<Longrightarrow> no_ws cs"
  by (force simp: no_ws_def)

lemma split_ws_word:
  "no_ws w \<Longrightarrow> split_ws_aux cur 0 (w @ CHR '' '' # rest) =
     (if cur @ w = [] then [] else [cur @ w]) @ split_ws_aux [] 0 rest"
proof (induction w arbitrary: cur)
  case Nil
  then show ?case by (simp add: ws_len_def)
next
  case (Cons c cs)
  then have "ws_len ((c # cs) @ CHR '' '' # rest) = 0" by (force simp: no_ws_def)
  then show ?case using Cons by (auto dest: no_ws_Cons)
qed

lemma split_ws_last: "no_ws w \<Longrightarrow> split_ws_aux cur 0 w = (if cur @ w = [] then [] else [cur @ w])"
proof (induction w arbitrary: cur)
  case (Cons c cs)
  then have "ws_len (c # cs) = 0" by (force simp: no_ws_def)
  then show ?case using Cons by (auto dest: no_ws_Cons)
qed simp

lemma split_whitespace_join:
  "\<forall>w \<in> set ws. no_ws w \<and> w \<noteq> [] \<Longrightarrow> split_whitespace (join '' '' ws) = ws"
proof (induction ws rule: induct_list012)
  case (3 x y zs)
  then show ?case by (simp add: split_whitespace_def split_ws_word)
qed (auto simp: split_whitespace_def split_ws_last)

text \<open>Visible ASCII characters, all that store path names are made of.\<close>

definition visible :: "char \<Rightarrow> bool" where
  "visible c \<longleftrightarrow> 33 \<le> (of_char c :: nat) \<and> (of_char c :: nat) < 128"

lemma ws_len_visible: "visible c \<Longrightarrow> ws_len (c # cs) = 0"
  by (auto simp: ws_len_def visible_def)

lemma no_ws_visible: "\<forall>c \<in> set s. visible c \<Longrightarrow> no_ws s"
  by (auto simp: no_ws_def Cons_nth_drop_Suc[symmetric] ws_len_visible)

lemma strip_prefix_Some: "strip_prefix p s = Some t \<longleftrightarrow> s = p @ t"
  by (auto simp: strip_prefix_def) (metis append_take_drop_id)

end
