(* ===== verification/Table.thy ===== *)
theory Table
  imports Main
begin

text \<open>
  The SQL the server's and the client's stores use, on tables with a primary key: a table is the
  list of its rows in row order, a row a pair of key and columns.  \<open>INSERT OR IGNORE\<close>,
  \<open>INSERT OR REPLACE\<close>, \<open>DELETE ... WHERE key = ?\<close>, \<open>UPDATE ... WHERE key = ?\<close> and the
  \<open>ORDER BY\<close> selection of one file's rows.
\<close>

type_synonym ('k, 'v) table = "('k \<times> 'v) list"

definition insert_or_ignore :: "'k \<Rightarrow> 'v \<Rightarrow> ('k, 'v) table \<Rightarrow> ('k, 'v) table" where
  "insert_or_ignore k v t = (if map_of t k = None then t @ [(k, v)] else t)"

definition delete_key :: "'k \<Rightarrow> ('k, 'v) table \<Rightarrow> ('k, 'v) table" where
  "delete_key k t = filter (\<lambda>r. fst r \<noteq> k) t"

definition insert_or_replace :: "'k \<Rightarrow> 'v \<Rightarrow> ('k, 'v) table \<Rightarrow> ('k, 'v) table" where
  "insert_or_replace k v t = delete_key k t @ [(k, v)]"

definition update_key :: "'k \<Rightarrow> ('v \<Rightarrow> 'v) \<Rightarrow> ('k, 'v) table \<Rightarrow> ('k, 'v) table" where
  "update_key k f t = map (\<lambda>r. if fst r = k then (k, f (snd r)) else r) t"

definition wf_table :: "('k, 'v) table \<Rightarrow> bool" where
  "wf_table t \<longleftrightarrow> distinct (map fst t)"

named_theorems table_simps

lemma map_of_insert_or_ignore [table_simps]:
  "map_of (insert_or_ignore k v t) = (if map_of t k = None then (map_of t)(k \<mapsto> v) else map_of t)"
  by (auto simp: insert_or_ignore_def map_add_def fun_eq_iff split: option.splits)

lemma map_of_delete_key [table_simps]: "map_of (delete_key k t) = (map_of t)(k := None)"
  unfolding delete_key_def by (induction t) (auto simp: fun_eq_iff)

lemma map_of_insert_or_replace [table_simps]:
  "map_of (insert_or_replace k v t) = (map_of t)(k \<mapsto> v)"
  by (auto simp: insert_or_replace_def table_simps map_add_def fun_eq_iff split: option.split)

lemma map_of_update_key [table_simps]:
  "map_of (update_key k f t) = (map_of t)(k := map_option f (map_of t k))"
  unfolding update_key_def by (induction t) (auto simp: fun_eq_iff)

lemma set_insert_or_ignore:
  "set (insert_or_ignore k v t) = (if map_of t k = None then insert (k, v) (set t) else set t)"
  by (auto simp: insert_or_ignore_def)

lemma set_delete_key [table_simps]: "set (delete_key k t) = {r \<in> set t. fst r \<noteq> k}"
  by (simp add: delete_key_def)

lemma set_insert_or_replace [table_simps]:
  "set (insert_or_replace k v t) = insert (k, v) {r \<in> set t. fst r \<noteq> k}"
  by (auto simp: insert_or_replace_def table_simps)

lemma keys_update_key [simp]: "map fst (update_key k f t) = map fst t"
  unfolding update_key_def by (induction t) auto

lemma wf_table_Nil [simp]: "wf_table []"
  by (simp add: wf_table_def)

lemma wf_insert_or_ignore [intro]: "wf_table t \<Longrightarrow> wf_table (insert_or_ignore k v t)"
  by (auto simp: wf_table_def insert_or_ignore_def map_of_eq_None_iff)

lemma distinct_map_filter_fst: "distinct (map fst t) \<Longrightarrow> distinct (map fst (filter P t))"
  by (induction t) auto

lemma wf_filter [intro]: "wf_table t \<Longrightarrow> wf_table (filter P t)"
  by (simp add: wf_table_def distinct_map_filter_fst)

lemma wf_delete_key [intro]: "wf_table t \<Longrightarrow> wf_table (delete_key k t)"
  unfolding delete_key_def by (rule wf_filter)

lemma wf_insert_or_replace [intro]: "wf_table t \<Longrightarrow> wf_table (insert_or_replace k v t)"
  using wf_delete_key[of t k] by (auto simp: insert_or_replace_def wf_table_def table_simps)

lemma wf_update_key [intro]: "wf_table t \<Longrightarrow> wf_table (update_key k f t)"
  by (simp add: wf_table_def)

lemma wf_map_of: "wf_table t \<Longrightarrow> map_of t k = Some v \<longleftrightarrow> (k, v) \<in> set t"
  unfolding wf_table_def by (rule map_of_eq_Some_iff)

lemma map_of_filter:
  assumes "wf_table t"
  shows "map_of (filter P t) k = (case map_of t k of None \<Rightarrow> None | Some v \<Rightarrow> if P (k, v) then Some v else None)"
proof (cases "map_of (filter P t) k")
  case None
  then have "\<And>v. (k, v) \<in> set t \<Longrightarrow> \<not> P (k, v)" by (force simp: map_of_eq_None_iff)
  then show ?thesis using None by (auto split: option.splits dest: map_of_SomeD)
next
  case (Some v)
  then have "(k, v) \<in> set t" "P (k, v)" by (auto dest: map_of_SomeD)
  moreover from this(1) have "map_of t k = Some v" using assms by (simp add: wf_map_of)
  ultimately show ?thesis using Some by simp
qed

text \<open>\<open>SELECT SUM(...)\<close> and deleting one row.\<close>

lemma delete_key_id: "map_of t k = None \<Longrightarrow> delete_key k t = t"
  unfolding delete_key_def by (induction t) (auto split: if_splits)

lemma sum_delete_key:
  assumes "wf_table t"
  shows "sum_list (map g t) = sum_list (map g (delete_key k t)) +
    (case map_of t k of None \<Rightarrow> 0 | Some v \<Rightarrow> (g (k, v) :: nat))"
  using assms
proof (induction t)
  case (Cons r t)
  show ?case
  proof (cases "fst r = k")
    case True
    then have "map_of t k = None" using Cons.prems by (auto simp: wf_table_def map_of_eq_None_iff)
    then show ?thesis using True delete_key_id[of t k] by (cases r) (simp add: delete_key_def)
  next
    case False
    then show ?thesis using Cons by (cases r) (simp add: delete_key_def wf_table_def)
  qed
qed (simp add: delete_key_def)

lemma map_of_Some_key: "map_of t k = Some v \<Longrightarrow> k \<in> fst ` set t"
  by (metis map_of_eq_None_iff option.distinct(1))

lemma length_delete_key:
  "wf_table t \<Longrightarrow> map_of t k = Some v \<Longrightarrow> length t = Suc (length (delete_key k t))"
proof (induction t)
  case (Cons r t)
  show ?case
  proof (cases "fst r = k")
    case True
    then have "map_of t k = None" using Cons.prems by (auto simp: wf_table_def map_of_eq_None_iff)
    then show ?thesis using True delete_key_id[of t k] by (simp add: delete_key_def)
  next
    case False
    then show ?thesis using Cons by (cases r) (simp add: delete_key_def wf_table_def)
  qed
qed simp

lemma length_insert_or_replace:
  "wf_table t \<Longrightarrow> length (insert_or_replace k v t) = (if map_of t k = None then Suc (length t) else length t)"
  by (cases "map_of t k") (auto simp: insert_or_replace_def delete_key_id length_delete_key)

subsection \<open>Rows of one file, in order\<close>

text \<open>\<open>SELECT cols FROM t WHERE file = ? ORDER BY idx\<close> for a table with the key \<open>(file, idx)\<close>.\<close>

definition rows_of :: "'f \<Rightarrow> ('f \<times> nat, 'v) table \<Rightarrow> 'v list" where
  "rows_of f t = map snd (sort_key (\<lambda>r. snd (fst r)) (filter (\<lambda>r. fst (fst r) = f) t))"

lemma set_rows_of: "set (rows_of f t) = {v. \<exists>i. ((f, i), v) \<in> set t}"
  by (force simp: rows_of_def)

lemma rows_of_Nil_iff: "rows_of f t = [] \<longleftrightarrow> (\<forall>i. map_of t (f, i) = None)"
proof -
  have "rows_of f t = [] \<longleftrightarrow> (\<forall>i v. ((f, i), v) \<notin> set t)"
    using set_rows_of[of f t] by (auto simp flip: set_empty)
  also have "\<dots> \<longleftrightarrow> (\<forall>i. map_of t (f, i) = None)"
    by (force simp: map_of_eq_None_iff)
  finally show ?thesis .
qed

lemma sorted_distinct_upt:
  "sorted xs \<Longrightarrow> distinct xs \<Longrightarrow> set xs = {0..<n} \<Longrightarrow> xs = [0..<n]"
  by (rule sorted_distinct_set_unique) auto

lemma rows_of_eq:
  assumes wf: "wf_table t"
    and rows: "\<And>i. map_of t (f, i) = (if i < length vs then Some (vs ! i) else None)"
  shows "rows_of f t = vs"
proof -
  let ?idx = "\<lambda>r :: ('a \<times> nat) \<times> 'b. snd (fst r)"
  let ?l = "filter (\<lambda>r. fst (fst r) = f) t"
  let ?s = "sort_key ?idx ?l"
  have "distinct (map ?idx ?s)"
    unfolding distinct_map distinct_sort set_sort
    using wf by (auto simp: wf_table_def distinct_map inj_on_def prod_eq_iff)
  moreover have "set (map ?idx ?s) = {0..<length vs}"
  proof (intro equalityI subsetI)
    fix i assume "i \<in> set (map ?idx ?s)"
    then obtain v where "((f, i), v) \<in> set t" by auto
    then have "map_of t (f, i) = Some v" using wf by (simp add: wf_map_of)
    then show "i \<in> {0..<length vs}" using rows[of i] by (auto split: if_splits)
  next
    fix i assume "i \<in> {0..<length vs}"
    then have "((f, i), vs ! i) \<in> set t" using rows[of i] by (auto dest: map_of_SomeD)
    then show "i \<in> set (map ?idx ?s)" by force
  qed
  ultimately have idx: "map ?idx ?s = [0..<length vs]"
    using sorted_sort_key[of ?idx ?l] by (blast intro: sorted_distinct_upt)
  then have "length (map ?idx ?s) = length vs" by (simp only: length_upt)
  then have len: "length ?s = length vs" by simp
  show ?thesis unfolding rows_of_def
  proof (rule nth_equalityI)
    show "length (map snd ?s) = length vs" using len by simp
  next
    fix i assume "i < length (map snd ?s)"
    then have i: "i < length vs" "i < length ?s" using len by simp_all
    have "map ?idx ?s ! i = i" using i(1) unfolding idx by simp
    then have "?idx (?s ! i) = i" using i(2) by (simp only: nth_map)
    moreover have "?s ! i \<in> set ?s" using i(2) by (rule nth_mem)
    then have "fst (fst (?s ! i)) = f" "?s ! i \<in> set t" unfolding set_sort by simp_all
    ultimately have "fst (?s ! i) = (f, i)" by (simp only: prod_eq_iff fst_conv snd_conv)
    with \<open>?s ! i \<in> set t\<close> have "((f, i), snd (?s ! i)) \<in> set t" by (metis prod.collapse)
    then have "map_of t (f, i) = Some (snd (?s ! i))" using wf by (simp add: wf_map_of)
    then have "snd (?s ! i) = vs ! i" using rows[of i] i(1) by simp
    then show "map snd ?s ! i = vs ! i" using i(2) by simp
  qed
qed

end
