(* ===== verification/HomeServices.thy ===== *)
theory HomeServices
  imports Prelude Table "HOL-Library.List_Lexorder" "HOL-Library.Char_ord" "HOL-Library.Sublist"
begin

text \<open>
  The manifest of user services: \<open>HomeServices\<close> and \<open>HomeServiceEntry\<close> of \<open>crates/ekapkgs/src/config.rs\<close>, the templates of
  \<open>service_templates.rs\<close> and the manifest commands of \<open>commands/home.rs\<close>.  A TOML table is the list of its rows in
  the order of their keys, as the ordered map behind it; a float is the text Rust prints for it.  The manifest
  commands work on the manifest as loaded; reading and writing its file is left to the TOML library.
\<close>

subsection \<open>TOML tables\<close>

datatype toml =
    TString string
  | TInteger int
  | TFloat string
  | TBoolean bool
  | TArray "toml list"
  | TTable "(string \<times> toml) list"
  | TDatetime string

type_synonym toml_table = "(string \<times> toml) list"

fun btree_insert :: "'k::linorder \<Rightarrow> 'v \<Rightarrow> ('k \<times> 'v) list \<Rightarrow> ('k \<times> 'v) list" where
  "btree_insert k v [] = [(k, v)]"
| "btree_insert k v (r # t) =
     (if k < fst r then (k, v) # r # t else if k = fst r then (k, v) # t else r # btree_insert k v t)"

lemma map_of_btree_insert [table_simps]: "map_of (btree_insert k v t) = (map_of t)(k \<mapsto> v)"
  by (induction t) (auto simp: fun_eq_iff)

lemma set_btree_insert: "set (btree_insert k v t) \<subseteq> insert (k, v) (set t)"
  by (induction t) auto

lemma fst_btree_insert: "fst ` set (btree_insert k v t) = insert k (fst ` set t)"
  by (induction t) auto

lemma sorted_btree_insert: "sorted_wrt (<) (map fst t) \<Longrightarrow> sorted_wrt (<) (map fst (btree_insert k v t))"
proof (induction t)
  case (Cons r t)
  have "\<forall>x \<in> fst ` set (btree_insert k v t). fst r < x" if "fst r < k"
    using Cons.prems that unfolding fst_btree_insert by auto
  then show ?case using Cons by (auto simp: not_less order.order_iff_strict)
qed simp

lemma sorted_delete_key: "sorted_wrt (<) (map fst t) \<Longrightarrow> sorted_wrt (<) (map fst (delete_key k t))"
  unfolding delete_key_def by (induction t) auto

text \<open>Keys in order, at every level.\<close>

fun toml_wf :: "toml \<Rightarrow> bool" where
  "toml_wf (TArray vs) \<longleftrightarrow> (\<forall>v \<in> set vs. toml_wf v)"
| "toml_wf (TTable t) \<longleftrightarrow> sorted_wrt (<) (map fst t) \<and> (\<forall>r \<in> set t. toml_wf (snd r))"
| "toml_wf v \<longleftrightarrow> True"

definition table_wf :: "toml_table \<Rightarrow> bool" where
  "table_wf t \<longleftrightarrow> sorted_wrt (<) (map fst t) \<and> (\<forall>r \<in> set t. toml_wf (snd r))"

lemma toml_wf_table [simp]: "toml_wf (TTable t) = table_wf t"
  by (simp add: table_wf_def)

declare toml_wf.simps(2) [simp del]

lemma table_wf_Nil [simp]: "table_wf []"
  by (simp add: table_wf_def)

lemma table_wf_Cons [simp]: "table_wf (r # t) \<longleftrightarrow> (\<forall>k \<in> fst ` set t. fst r < k) \<and> toml_wf (snd r) \<and> table_wf t"
  by (auto simp: table_wf_def)

lemma table_wf_insert: "table_wf t \<Longrightarrow> toml_wf v \<Longrightarrow> table_wf (btree_insert k v t)"
  using set_btree_insert[of k v t] sorted_btree_insert[of t k v] by (auto simp: table_wf_def)

lemma table_wf_delete: "table_wf t \<Longrightarrow> table_wf (delete_key k t)"
  by (auto simp: table_wf_def table_simps sorted_delete_key)

lemma table_wf_row: "table_wf t \<Longrightarrow> map_of t k = Some v \<Longrightarrow> toml_wf v"
  by (force simp: table_wf_def dest: map_of_SomeD)

subsection \<open>Dotted configuration keys\<close>

text \<open>The two \<open>expect\<close>s of \<open>set_config\<close>.\<close>

datatype config_panic = EmptyKey | NotATable string

fun config_set :: "string list \<Rightarrow> toml \<Rightarrow> toml_table \<Rightarrow> config_panic + toml_table" where
  "config_set [] v t = Err EmptyKey"
| "config_set [leaf] v t = Ok (btree_insert leaf v t)"
| "config_set (seg # segs) v t =
     (case map_of t seg of
        None \<Rightarrow> bindR (config_set segs v []) (\<lambda>u. Ok (btree_insert seg (TTable u) t))
      | Some (TTable u) \<Rightarrow> bindR (config_set segs v u) (\<lambda>u. Ok (btree_insert seg (TTable u) t))
      | Some _ \<Rightarrow> Err (NotATable seg))"

definition set_config :: "string \<Rightarrow> toml \<Rightarrow> toml_table \<Rightarrow> config_panic + toml_table" where
  "set_config key v t = config_set (split_on (CHR ''.'') key) v t"

fun config_unset :: "string list \<Rightarrow> toml_table \<Rightarrow> bool \<times> toml_table" where
  "config_unset [] t = (False, t)"
| "config_unset [leaf] t = (map_of t leaf \<noteq> None, delete_key leaf t)"
| "config_unset (seg # segs) t =
     (case map_of t seg of
        Some (TTable u) \<Rightarrow> (let (found, u) = config_unset segs u in (found, btree_insert seg (TTable u) t))
      | _ \<Rightarrow> (False, t))"

definition unset_config :: "string \<Rightarrow> toml_table \<Rightarrow> bool \<times> toml_table" where
  "unset_config key t = config_unset (split_on (CHR ''.'') key) t"

fun config_has :: "string list \<Rightarrow> toml_table \<Rightarrow> bool" where
  "config_has [] t = False"
| "config_has [leaf] t = (map_of t leaf \<noteq> None)"
| "config_has (seg # segs) t = (case map_of t seg of Some (TTable u) \<Rightarrow> config_has segs u | _ \<Rightarrow> False)"

definition has_config_key :: "toml_table \<Rightarrow> string \<Rightarrow> bool" where
  "has_config_key t key = config_has (split_on (CHR ''.'') key) t"

text \<open>The specification: the value at a path of keys.\<close>

fun config_get :: "string list \<Rightarrow> toml_table \<Rightarrow> toml option" where
  "config_get [] t = Some (TTable t)"
| "config_get (seg # segs) t =
     (case map_of t seg of
        None \<Rightarrow> None
      | Some v \<Rightarrow> if segs = [] then Some v else (case v of TTable u \<Rightarrow> config_get segs u | _ \<Rightarrow> None))"

lemma split_on_nonempty [simp]: "split_on c s \<noteq> []"
  by (induction s) (auto split: list.split)

lemma config_has_get: "ks \<noteq> [] \<Longrightarrow> config_has ks t = (config_get ks t \<noteq> None)"
  by (induction ks t rule: config_has.induct) (auto split: option.splits toml.splits)

lemma config_set_wf: "config_set ks v t = Ok t' \<Longrightarrow> table_wf t \<Longrightarrow> toml_wf v \<Longrightarrow> table_wf t'"
proof (induction ks v t arbitrary: t' rule: config_set.induct)
  case (3 seg s segs v t)
  note wf = table_wf_row[OF 3(4), of seg]
  show ?case using 3 wf by (fastforce intro: table_wf_insert simp: bindR_eq_Ok split: option.splits toml.splits)
qed (auto intro: table_wf_insert)

lemma config_unset_wf: "table_wf t \<Longrightarrow> table_wf (snd (config_unset ks t))"
proof (induction ks t rule: config_unset.induct)
  case (3 seg s segs t)
  note wf = table_wf_row[OF 3(2), of seg]
  show ?case using 3 wf by (auto intro: table_wf_insert split: option.splits toml.splits prod.splits)
qed (auto intro: table_wf_delete)

lemma config_get_nil_table: "ks \<noteq> [] \<Longrightarrow> config_get ks [] = None"
  by (cases ks) auto

text \<open>A successful write under a first key: the table below it before and after.\<close>

lemma config_set_below:
  assumes "config_set (seg # s # segs) v t = Ok t'"
  shows "\<exists>u u'. (case map_of t seg of None \<Rightarrow> u = [] | Some w \<Rightarrow> w = TTable u) \<and> config_set (s # segs) v u = Ok u' \<and>
    t' = btree_insert seg (TTable u') t"
  using assms by (auto simp: bindR_eq_Ok split: option.splits toml.splits)

lemma config_get_below: "qs \<noteq> [] \<Longrightarrow> config_get (seg # qs) (btree_insert seg (TTable u) t) = config_get qs u"
  by (simp add: table_simps)

lemma config_set_get: "config_set ks v t = Ok t' \<Longrightarrow> config_get ks t' = Some v"
proof (induction ks arbitrary: t t' rule: induct_list012)
  case (3 seg s segs)
  then obtain u u' where "config_set (s # segs) v u = Ok u'" "t' = btree_insert seg (TTable u') t"
    using config_set_below by blast
  then show ?case using 3(2)[of u u'] config_get_below[of "s # segs"] by simp
qed (auto simp: table_simps)

lemma config_set_other:
  "config_set ks v t = Ok t' \<Longrightarrow> \<not> prefix ks qs \<Longrightarrow> \<not> prefix qs ks \<Longrightarrow> config_get qs t' = config_get qs t"
proof (induction ks arbitrary: t t' qs rule: induct_list012)
  case (2 leaf)
  then obtain q qs' where "qs = q # qs'" "q \<noteq> leaf" by (cases qs) auto
  then show ?case using 2 by (auto simp: table_simps)
next
  case (3 seg s segs)
  then obtain q qs' where qs: "qs = q # qs'" by (cases qs) auto
  obtain u u' where u: "case map_of t seg of None \<Rightarrow> u = [] | Some w \<Rightarrow> w = TTable u" "config_set (s # segs) v u = Ok u'"
      "t' = btree_insert seg (TTable u') t" using config_set_below[OF 3(3)] by blast
  show ?case
  proof (cases "q = seg")
    case False
    then show ?thesis using u(3) qs by (simp add: table_simps)
  next
    case True
    then have np: "\<not> prefix (s # segs) qs'" "\<not> prefix qs' (s # segs)" "qs' \<noteq> []" using 3(4,5) qs by auto
    have "config_get qs t = config_get qs' u"
      using u(1) np(3) True qs config_get_nil_table by (auto split: option.splits)
    then show ?thesis using 3(2)[OF u(2) np(1,2)] config_get_below[OF np(3)] u(3) True qs by simp
  qed
qed simp

lemma strict_prefix_Cons_iff:
  "qs \<noteq> [] \<and> strict_prefix qs (k # s # ks) \<longleftrightarrow> qs = [k] \<or> (\<exists>qs'. qs = k # qs' \<and> qs' \<noteq> [] \<and> strict_prefix qs' (s # ks))"
  by (cases qs) (auto simp: strict_prefix_def)

text \<open>Writing fails exactly when a key on the way holds something else than a table.\<close>

lemma config_set_panics:
  "ks \<noteq> [] \<Longrightarrow> (\<exists>e. config_set ks v t = Err e) \<longleftrightarrow>
    (\<exists>qs w. (qs \<noteq> [] \<and> strict_prefix qs ks) \<and> config_get qs t = Some w \<and> (\<forall>u. w \<noteq> TTable u))"
proof (induction ks arbitrary: t rule: induct_list012)
  case (2 leaf)
  then show ?case by (auto simp: strict_prefix_def prefix_Cons)
next
  case (3 seg s segs)
  have get: "config_get (seg # qs) t = (case map_of t seg of Some (TTable u) \<Rightarrow> config_get qs u | _ \<Rightarrow> None)" if "qs \<noteq> []" for qs
    using that by (auto split: option.splits)
  show ?case
  proof (cases "map_of t seg")
    case None
    have "\<not> (\<exists>e. config_set (s # segs) v [] = Err e)" unfolding 3(2)[of "[]", simplified] by (auto simp: config_get_nil_table)
    then show ?thesis unfolding strict_prefix_Cons_iff by (auto simp: None get bindR_eq_Err)
  next
    case (Some w)
    show ?thesis
    proof (cases "\<exists>u. w = TTable u")
      case True
      then obtain u where w: "w = TTable u" by blast
      have "(\<exists>e. config_set (seg # s # segs) v t = Err e) \<longleftrightarrow> (\<exists>e. config_set (s # segs) v u = Err e)"
        by (auto simp: Some w bindR_eq_Err)
      also have "\<dots> \<longleftrightarrow> (\<exists>qs w. (qs \<noteq> [] \<and> strict_prefix qs (s # segs)) \<and> config_get qs u = Some w \<and> (\<forall>u. w \<noteq> TTable u))"
        by (rule 3(2)) simp
      also have "\<dots> \<longleftrightarrow> (\<exists>qs w. (qs \<noteq> [] \<and> strict_prefix qs (seg # s # segs)) \<and> config_get qs t = Some w \<and> (\<forall>u. w \<noteq> TTable u))"
        unfolding strict_prefix_Cons_iff by (auto simp: Some w get)
      finally show ?thesis .
    next
      case False
      then have "config_set (seg # s # segs) v t = Err (NotATable seg)" using Some by (cases w) auto
      moreover have "config_get [seg] t = Some w" using Some by simp
      ultimately show ?thesis using False unfolding strict_prefix_Cons_iff by blast
    qed
  qed
qed simp

lemma config_unset_found: "fst (config_unset ks t) = config_has ks t"
  by (induction ks t rule: config_unset.induct) (auto split: option.splits toml.splits prod.splits)

lemma config_unset_get: "ks \<noteq> [] \<Longrightarrow> config_get ks (snd (config_unset ks t)) = None"
proof (induction ks arbitrary: t rule: induct_list012)
  case (3 seg s segs)
  show ?case
  proof (cases "\<exists>u. map_of t seg = Some (TTable u)")
    case True
    then obtain u where "map_of t seg = Some (TTable u)" by blast
    then have "snd (config_unset (seg # s # segs) t) = btree_insert seg (TTable (snd (config_unset (s # segs) u))) t"
      by (simp add: split_def Let_def)
    then show ?thesis using 3(2)[of u] config_get_below[of "s # segs"] by simp
  next
    case False
    then show ?thesis by (auto split: option.splits toml.splits)
  qed
qed (auto simp: table_simps)

lemma config_unset_other:
  "\<not> prefix ks qs \<Longrightarrow> \<not> prefix qs ks \<Longrightarrow> config_get qs (snd (config_unset ks t)) = config_get qs t"
proof (induction ks arbitrary: t qs rule: induct_list012)
  case (2 leaf)
  then obtain q qs' where "qs = q # qs'" "q \<noteq> leaf" by (cases qs) auto
  then show ?case using 2 by (auto simp: table_simps)
next
  case (3 seg s segs)
  then obtain q qs' where qs: "qs = q # qs'" by (cases qs) auto
  show ?case
  proof (cases "\<exists>u. map_of t seg = Some (TTable u)")
    case True
    then obtain u where u: "map_of t seg = Some (TTable u)" by blast
    have t': "snd (config_unset (seg # s # segs) t) = btree_insert seg (TTable (snd (config_unset (s # segs) u))) t"
      by (simp add: u split_def Let_def)
    show ?thesis
    proof (cases "q = seg")
      case True
      then have np: "\<not> prefix (s # segs) qs'" "\<not> prefix qs' (s # segs)" "qs' \<noteq> []" using 3(3,4) qs by auto
      have "config_get qs t = config_get qs' u" using np(3) True qs u by simp
      then show ?thesis unfolding t' using 3(2)[OF np(1,2)] config_get_below[OF np(3)] True qs by simp
    next
      case False
      then show ?thesis unfolding t' qs by (simp add: table_simps)
    qed
  next
    case False
    then show ?thesis by (auto split: option.splits toml.splits)
  qed
qed simp

text \<open>C14. Dotted keys are set and unset exactly.  Setting a key panics if and only if one of the keys on the way to it holds
  something else than a table; otherwise the key then holds the value.  Unsetting answers whether the key
  was there, and then it is not.  Neither changes what is found under keys that are neither above nor below.\<close>

theorem dotted_keys_exact:
  defines "path \<equiv> split_on (CHR ''.'')"
  shows "((\<exists>e. set_config key v t = Err e) \<longleftrightarrow>
      (\<exists>qs w. (qs \<noteq> [] \<and> strict_prefix qs (path key)) \<and> config_get qs t = Some w \<and> (\<forall>u. w \<noteq> TTable u))) \<and>
    (\<forall>t'. set_config key v t = Ok t' \<longrightarrow> config_get (path key) t' = Some v \<and> has_config_key t' key \<and>
      (\<forall>qs. \<not> prefix (path key) qs \<longrightarrow> \<not> prefix qs (path key) \<longrightarrow> config_get qs t' = config_get qs t)) \<and>
    (\<forall>found t'. unset_config key t = (found, t') \<longrightarrow> found = has_config_key t key \<and> \<not> has_config_key t' key \<and>
      (\<forall>qs. \<not> prefix (path key) qs \<longrightarrow> \<not> prefix qs (path key) \<longrightarrow> config_get qs t' = config_get qs t))"
proof (intro conjI)
  have ne: "path key \<noteq> []" by (simp add: path_def)
  show "(\<exists>e. set_config key v t = Err e) \<longleftrightarrow>
      (\<exists>qs w. (qs \<noteq> [] \<and> strict_prefix qs (path key)) \<and> config_get qs t = Some w \<and> (\<forall>u. w \<noteq> TTable u))"
    unfolding set_config_def path_def[symmetric] by (rule config_set_panics[OF ne])
  show "\<forall>t'. set_config key v t = Ok t' \<longrightarrow> config_get (path key) t' = Some v \<and> has_config_key t' key \<and>
      (\<forall>qs. \<not> prefix (path key) qs \<longrightarrow> \<not> prefix qs (path key) \<longrightarrow> config_get qs t' = config_get qs t)"
    unfolding set_config_def has_config_key_def path_def[symmetric]
    using config_set_get[of "path key" v t] config_set_other[of "path key" v t] config_has_get[OF ne] by simp
  show "\<forall>found t'. unset_config key t = (found, t') \<longrightarrow> found = has_config_key t key \<and> \<not> has_config_key t' key \<and>
      (\<forall>qs. \<not> prefix (path key) qs \<longrightarrow> \<not> prefix qs (path key) \<longrightarrow> config_get qs t' = config_get qs t)"
    unfolding unset_config_def has_config_key_def path_def[symmetric]
    using config_unset_found[of "path key" t] config_unset_get[OF ne, of t] config_unset_other[of "path key" _ t] config_has_get[OF ne]
    by (metis fst_conv snd_conv)
qed

theorem dotted_keys_exact_witness:
  "config_get [''ports'', ''http''] (snd (unset_config ''a.b''
     (projr (set_config ''ports.http'' (TInteger 80) [(''a'', TTable [(''b'', TBoolean True)])])))) = Some (TInteger 80)"
proof -
  let ?t = "[(''a'', TTable [(''b'', TBoolean True)])]"
  have "split_on (CHR ''.'') ''ports.http'' = [''ports'', ''http'']" "split_on (CHR ''.'') ''a.b'' = [''a'', ''b'']" by simp_all
  moreover obtain t1 where t1: "set_config ''ports.http'' (TInteger 80) ?t = Ok t1" by (simp add: set_config_def bindR_def)
  moreover obtain found t2 where "unset_config ''a.b'' t1 = (found, t2)" by fastforce
  moreover have "config_get [''ports'', ''http''] t1 = Some (TInteger 80)"
    using dotted_keys_exact[where key = "''ports.http''" and v = "TInteger 80" and t = ?t] calculation by simp
  moreover have "config_get [''ports'', ''http''] t2 = config_get [''ports'', ''http''] t1"
    using dotted_keys_exact[where key = "''a.b''" and t = t1] calculation(2,4) by (simp del: config_get.simps)
  ultimately show ?thesis by (simp del: config_get.simps)
qed

subsection \<open>Values from the command line\<close>

text \<open>\<open>s.parse::<i64>()\<close>.\<close>

definition parse_i64 :: "string \<Rightarrow> int option" where
  "parse_i64 s =
     (let (neg, ds) = (case s of c # r \<Rightarrow> if c = CHR ''-'' then (True, r) else if c = CHR ''+'' then (False, r) else (False, s) | [] \<Rightarrow> (False, []))
      in if ds = [] \<or> \<not> list_all is_ascii_digit ds then None
         else let v = (if neg then - int (digits_value ds) else int (digits_value ds))
              in if - (2 ^ 63) \<le> v \<and> v < 2 ^ 63 then Some v else None)"

datatype json_value =
    VNull
  | VBool bool
  | VInt int
  | VFloat string
  | VString string
  | VArray "json_value list"
  | VObject "(string \<times> json_value) list"

text \<open>\<open>json_to_toml\<close>: nulls are dropped.  A number that is not an \<open>i64\<close> comes as the text of its float.\<close>

fun insert_rows :: "(string \<times> toml option) list \<Rightarrow> toml_table \<Rightarrow> toml_table" where
  "insert_rows [] t = t"
| "insert_rows ((k, None) # rows) t = insert_rows rows t"
| "insert_rows ((k, Some v) # rows) t = insert_rows rows (btree_insert k v t)"

fun json_to_toml :: "json_value \<Rightarrow> toml option" where
  "json_to_toml VNull = None"
| "json_to_toml (VBool b) = Some (TBoolean b)"
| "json_to_toml (VInt i) = Some (TInteger i)"
| "json_to_toml (VFloat f) = Some (TFloat f)"
| "json_to_toml (VString s) = Some (TString s)"
| "json_to_toml (VArray vs) = Some (TArray (List.map_filter id (map json_to_toml vs)))"
| "json_to_toml (VObject rows) = Some (TTable (insert_rows (map (\<lambda>(k, v). (k, json_to_toml v)) rows) []))"

text \<open>The float and JSON parsers are parameters; the first answers the text Rust prints for the float.\<close>

record value_parsers =
  vp_f64 :: "string \<Rightarrow> string option"
  vp_json_array :: "string \<Rightarrow> json_value list option"

definition parse_toml_value :: "value_parsers \<Rightarrow> string \<Rightarrow> toml" where
  "parse_toml_value vp s =
     (if s = ''true'' then TBoolean True
      else if s = ''false'' then TBoolean False
      else case parse_i64 s of
             Some n \<Rightarrow> TInteger n
           | None \<Rightarrow>
              (case (if CHR ''.'' \<in> set s then vp_f64 vp s else None) of
                 Some f \<Rightarrow> TFloat f
               | None \<Rightarrow>
                  (case (if take 1 s = ''['' then vp_json_array vp s else None) of
                     Some vs \<Rightarrow> TArray (List.map_filter json_to_toml vs)
                   | None \<Rightarrow> TString s)))"

lemma insert_rows_wf: "table_wf t \<Longrightarrow> \<forall>(k, v) \<in> set rows. \<forall>w. v = Some w \<longrightarrow> toml_wf w \<Longrightarrow> table_wf (insert_rows rows t)"
  by (induction rows t rule: insert_rows.induct) (auto intro: table_wf_insert)

lemma json_to_toml_wf: "json_to_toml j = Some v \<Longrightarrow> toml_wf v"
proof (induction j arbitrary: v rule: json_to_toml.induct)
  case (6 vs)
  then show ?case by (auto simp: List.map_filter_def)
next
  case (7 rows)
  have "\<forall>(k, v) \<in> set (map (\<lambda>(k, v). (k, json_to_toml v)) rows). \<forall>w. v = Some w \<longrightarrow> toml_wf w" using 7(1) by fastforce
  then show ?case using insert_rows_wf[of "[]"] 7(2) by auto
qed auto

lemma parse_toml_value_wf: "toml_wf (parse_toml_value vp s)"
  using json_to_toml_wf by (auto simp: parse_toml_value_def List.map_filter_def split: option.splits)

subsection \<open>The manifest\<close>

record service_entry =
  se_name :: string
  se_enable :: bool
  se_flake :: "string option"
  se_config :: toml_table

record home_services =
  hs_version :: nat
  hs_flake :: string
  hs_services :: "service_entry list"

definition services_add :: "service_entry \<Rightarrow> home_services \<Rightarrow> bool \<times> home_services" where
  "services_add e m =
     (if list_ex (\<lambda>s. se_name s = se_name e) (hs_services m) then (False, m) else (True, m\<lparr>hs_services := hs_services m @ [e]\<rparr>))"

definition services_remove :: "string \<Rightarrow> home_services \<Rightarrow> bool \<times> home_services" where
  "services_remove name m =
     (let kept = filter (\<lambda>s. se_name s \<noteq> name) (hs_services m)
      in (length kept < length (hs_services m), m\<lparr>hs_services := kept\<rparr>))"

definition services_get :: "string \<Rightarrow> home_services \<Rightarrow> service_entry option" where
  "services_get name m = List.find (\<lambda>s. se_name s = name) (hs_services m)"

text \<open>A change through \<open>get_mut\<close>: of the first entry with the name.\<close>

fun update_first :: "('a \<Rightarrow> bool) \<Rightarrow> ('a \<Rightarrow> 'a) \<Rightarrow> 'a list \<Rightarrow> 'a list" where
  "update_first P f [] = []"
| "update_first P f (x # xs) = (if P x then f x # xs else x # update_first P f xs)"

definition services_update :: "string \<Rightarrow> (service_entry \<Rightarrow> service_entry) \<Rightarrow> home_services \<Rightarrow> home_services" where
  "services_update name f m = m\<lparr>hs_services := update_first (\<lambda>s. se_name s = name) f (hs_services m)\<rparr>"

subsection \<open>Templates\<close>

record service_template =
  tm_name :: string
  tm_description :: string
  tm_package :: string
  tm_command :: string
  tm_args :: string
  tm_port :: nat
  tm_protocol :: string
  tm_port_label :: string
  tm_data_dir :: string
  tm_health_check :: "string option"
  tm_stop_signal :: string

definition set_default :: "string \<Rightarrow> toml \<Rightarrow> toml_table \<Rightarrow> toml_table" where
  "set_default k v t = (if map_of t k = None then btree_insert k v t else t)"

definition apply_template :: "service_template \<Rightarrow> toml_table \<Rightarrow> toml_table" where
  "apply_template tm t =
     (let t = set_default ''command'' (TString (tm_command tm)) t;
          t = (if tm_args tm \<noteq> [] then set_default ''args'' (TString (tm_args tm)) t else t);
          t = set_default ''description'' (TString (tm_description tm)) t;
          t = set_default ''stop_signal'' (TString (tm_stop_signal tm)) t;
          t = (case tm_health_check tm of None \<Rightarrow> t | Some hc \<Rightarrow> set_default ''health_check'' (TString hc) t);
          port_entry = btree_insert ''protocol'' (TString (tm_protocol tm)) (btree_insert ''port'' (TInteger (int (tm_port tm))) [])
      in set_default ''ports'' (TTable (btree_insert (tm_port_label tm) (TTable port_entry) [])) t)"

definition find_template :: "service_template list \<Rightarrow> string \<Rightarrow> service_template option" where
  "find_template all_templates name = List.find (\<lambda>t. tm_name t = name) all_templates"

lemma set_default_wf: "table_wf t \<Longrightarrow> toml_wf v \<Longrightarrow> table_wf (set_default k v t)"
  by (simp add: set_default_def table_wf_insert)

lemma apply_template_wf: "table_wf t \<Longrightarrow> table_wf (apply_template tm t)"
  by (auto simp: apply_template_def Let_def intro!: set_default_wf table_wf_insert split: option.split)

subsection \<open>Ports\<close>

definition as_integer :: "toml option \<Rightarrow> int option" where
  "as_integer v = (case v of Some (TInteger i) \<Rightarrow> Some i | _ \<Rightarrow> None)"

definition to_u16 :: "int \<Rightarrow> nat option" where
  "to_u16 i = (if 0 \<le> i \<and> i < 2 ^ 16 then Some (nat i) else None)"

definition extract_ports :: "toml_table \<Rightarrow> nat list" where
  "extract_ports config =
     (case map_of config ''ports'' of
        Some (TTable ports) \<Rightarrow>
          List.map_filter (\<lambda>r. case snd r of TTable t \<Rightarrow> Option.bind (as_integer (map_of t ''port'')) to_u16 | _ \<Rightarrow> None) ports
      | _ \<Rightarrow> []) @
     (case Option.bind (as_integer (map_of config ''port'')) to_u16 of None \<Rightarrow> [] | Some p \<Rightarrow> [p])"

text \<open>The warnings of \<open>check_port_conflicts\<close>: a port and the service that has it, or no service for a port in use.\<close>

definition check_port_conflicts :: "(nat \<Rightarrow> bool) \<Rightarrow> toml_table \<Rightarrow> home_services \<Rightarrow> (nat \<times> string option) list" where
  "check_port_conflicts in_use config m =
     (let new_ports = extract_ports config in
      concat (map (\<lambda>e. map (\<lambda>p. (p, Some (se_name e))) (filter (\<lambda>p. p \<in> set (extract_ports (se_config e))) new_ports)) (hs_services m)) @
      map (\<lambda>p. (p, None)) (filter in_use new_ports))"

subsection \<open>The manifest commands\<close>

datatype service_error =
    ServiceExists string
  | UnknownTemplate string
  | InvalidSet string
  | NotInManifest string
  | ConfigPanic config_panic

fun apply_sets :: "value_parsers \<Rightarrow> string list \<Rightarrow> toml_table \<Rightarrow> service_error + toml_table" where
  "apply_sets vp [] t = Ok t"
| "apply_sets vp (kv # kvs) t =
     (case split_once (CHR ''='') kv of
        None \<Rightarrow> Err (InvalidSet kv)
      | Some (key, v) \<Rightarrow>
         (case set_config key (parse_toml_value vp v) t of
            Inl e \<Rightarrow> Err (ConfigPanic e)
          | Inr t \<Rightarrow> apply_sets vp kvs t))"

definition cmd_services_add ::
  "value_parsers \<Rightarrow> service_template list \<Rightarrow> string \<Rightarrow> string option \<Rightarrow> string option \<Rightarrow> string list \<Rightarrow> home_services
   \<Rightarrow> service_error + home_services" where
  "cmd_services_add vp all_templates service template_name flake sets m =
     (if services_get service m \<noteq> None then Err (ServiceExists service)
      else bindR (case template_name of
                    None \<Rightarrow> Ok []
                  | Some name \<Rightarrow> (case find_template all_templates name of
                                    None \<Rightarrow> Err (UnknownTemplate name) | Some tm \<Rightarrow> Ok (apply_template tm [])))
             (\<lambda>config. bindR (apply_sets vp sets config) (\<lambda>config.
                Ok (snd (services_add \<lparr>se_name = service, se_enable = True, se_flake = flake, se_config = config\<rparr> m)))))"

definition cmd_services_remove :: "string list \<Rightarrow> home_services \<Rightarrow> nat \<times> home_services" where
  "cmd_services_remove names m =
     fold (\<lambda>name (removed, m). case services_remove name m of (found, m) \<Rightarrow> (if found then removed + 1 else removed, m)) names (0, m)"

definition cmd_services_set :: "value_parsers \<Rightarrow> string \<Rightarrow> string \<Rightarrow> string \<Rightarrow> home_services \<Rightarrow> service_error + home_services" where
  "cmd_services_set vp service key v m =
     (case services_get service m of
        None \<Rightarrow> Err (NotInManifest service)
      | Some e \<Rightarrow>
         (case set_config key (parse_toml_value vp v) (se_config e) of
            Inl p \<Rightarrow> Err (ConfigPanic p)
          | Inr config \<Rightarrow> Ok (services_update service (\<lambda>e. e\<lparr>se_config := config\<rparr>) m)))"

definition cmd_services_unset :: "string \<Rightarrow> string \<Rightarrow> home_services \<Rightarrow> service_error + bool \<times> home_services" where
  "cmd_services_unset service key m =
     (case services_get service m of
        None \<Rightarrow> Err (NotInManifest service)
      | Some e \<Rightarrow>
         (case unset_config key (se_config e) of
            (True, config) \<Rightarrow> Ok (True, services_update service (\<lambda>e. e\<lparr>se_config := config\<rparr>) m)
          | (False, _) \<Rightarrow> Ok (False, m)))"

definition set_enabled :: "bool \<Rightarrow> string list \<Rightarrow> home_services \<Rightarrow> nat \<times> home_services" where
  "set_enabled on names m =
     fold (\<lambda>name (count, m). case services_get name m of
             Some e \<Rightarrow> if se_enable e \<noteq> on then (count + 1, services_update name (\<lambda>e. e\<lparr>se_enable := on\<rparr>) m) else (count, m)
           | None \<Rightarrow> (count, m)) names (0, m)"

definition cmd_services_enable :: "string list \<Rightarrow> home_services \<Rightarrow> nat \<times> home_services" where
  "cmd_services_enable names m = set_enabled True names m"

definition cmd_services_disable :: "string list \<Rightarrow> home_services \<Rightarrow> nat \<times> home_services" where
  "cmd_services_disable names m = set_enabled False names m"

definition cmd_services_import :: "home_services \<Rightarrow> bool \<Rightarrow> home_services \<Rightarrow> home_services" where
  "cmd_services_import imported merge current =
     (if merge then fold (\<lambda>e m. let m = snd (services_remove (se_name e) m) in m\<lparr>hs_services := hs_services m @ [e]\<rparr>)
                      (hs_services imported) current
      else imported)"

subsection \<open>The manifest stays well formed\<close>

definition manifest_ok :: "home_services \<Rightarrow> bool" where
  "manifest_ok m \<longleftrightarrow> distinct (map se_name (hs_services m)) \<and> (\<forall>e \<in> set (hs_services m). table_wf (se_config e))"

lemma manifest_okI: "distinct (map se_name (hs_services m)) \<Longrightarrow> (\<And>e. e \<in> set (hs_services m) \<Longrightarrow> table_wf (se_config e)) \<Longrightarrow> manifest_ok m"
  by (simp add: manifest_ok_def)

lemma map_update_first: "(\<And>x. g (f x) = g x) \<Longrightarrow> map g (update_first P f xs) = map g xs"
  by (induction xs) auto

lemma set_update_first: "set (update_first P f xs) \<subseteq> set xs \<union> f ` set xs"
  by (induction xs) auto

lemma services_update_ok:
  assumes "manifest_ok m" and "\<And>e. se_name (f e) = se_name e" and "\<And>e. e \<in> set (hs_services m) \<Longrightarrow> table_wf (se_config (f e))"
  shows "manifest_ok (services_update name f m)"
proof (rule manifest_okI)
  show "distinct (map se_name (hs_services (services_update name f m)))"
    using assms(1,2) by (simp add: services_update_def map_update_first manifest_ok_def)
  fix e assume "e \<in> set (hs_services (services_update name f m))"
  then have "e \<in> set (hs_services m) \<union> f ` set (hs_services m)"
    using set_update_first[of _ f "hs_services m"] by (auto simp: services_update_def)
  then show "table_wf (se_config e)" using assms(1,3) by (auto simp: manifest_ok_def)
qed

lemma services_get_Some: "services_get name m = Some e \<Longrightarrow> e \<in> set (hs_services m) \<and> se_name e = name"
  by (auto simp: services_get_def find_Some_iff)

lemma services_add_ok: "manifest_ok m \<Longrightarrow> table_wf (se_config e) \<Longrightarrow> manifest_ok (snd (services_add e m))"
  by (auto simp: services_add_def manifest_ok_def list_ex_iff)

lemma services_remove_ok: "manifest_ok m \<Longrightarrow> manifest_ok (snd (services_remove name m))"
  by (auto simp: services_remove_def manifest_ok_def Let_def distinct_map inj_on_def)

lemma remove_all_ok: "manifest_ok m \<Longrightarrow>
    manifest_ok (snd (fold (\<lambda>name (removed, m). case services_remove name m of (found, m) \<Rightarrow> (if found then removed + 1 else removed, m))
      names (k, m)))"
proof (induction names arbitrary: k m)
  case (Cons name names)
  obtain found m1 where 1: "services_remove name m = (found, m1)" by fastforce
  then have "manifest_ok m1" using services_remove_ok[OF Cons.prems, of name] by simp
  then show ?case using Cons.IH 1 by simp
qed simp

lemma set_enabled_ok: "manifest_ok m \<Longrightarrow> manifest_ok (snd (set_enabled on names m))"
proof -
  let ?step = "\<lambda>name (count, m). case services_get name m of
     Some e \<Rightarrow> if se_enable e \<noteq> on then (count + 1, services_update name (\<lambda>e. e\<lparr>se_enable := on\<rparr>) m) else (count, m)
   | None \<Rightarrow> (count, m)"
  have "manifest_ok m \<Longrightarrow> manifest_ok (snd (fold ?step names (k, m)))" for k :: nat
  proof (induction names arbitrary: k m)
    case (Cons name names)
    have "manifest_ok (services_update name (\<lambda>e. e\<lparr>se_enable := on\<rparr>) m)"
      by (rule services_update_ok[OF Cons.prems]) (use Cons.prems in \<open>auto simp: manifest_ok_def\<close>)
    then have "manifest_ok (snd (?step name (k, m)))" using Cons.prems by (simp split: option.split)
    then show ?case using Cons.IH[of "snd (?step name (k, m))" "fst (?step name (k, m))"] by (simp add: split_def del: split_paired_All)
  qed simp
  then show "manifest_ok m \<Longrightarrow> ?thesis" unfolding set_enabled_def by blast
qed

lemma merge_ok: "\<forall>e \<in> set es. table_wf (se_config e) \<Longrightarrow> manifest_ok m \<Longrightarrow>
    manifest_ok (fold (\<lambda>e m. let m = snd (services_remove (se_name e) m) in m\<lparr>hs_services := hs_services m @ [e]\<rparr>) es m)"
proof (induction es arbitrary: m)
  case (Cons e es)
  let ?m = "snd (services_remove (se_name e) m)"
  have "manifest_ok (?m\<lparr>hs_services := hs_services ?m @ [e]\<rparr>)"
    using services_remove_ok[OF Cons.prems(2), of "se_name e"] Cons.prems(1)
    by (auto simp: manifest_ok_def services_remove_def Let_def)
  then show ?case using Cons by (simp add: Let_def)
qed simp

lemma apply_sets_wf: "apply_sets vp kvs t = Ok t' \<Longrightarrow> table_wf t \<Longrightarrow> table_wf t'"
proof (induction kvs arbitrary: t)
  case (Cons kv kvs)
  then obtain key v u where "split_once (CHR ''='') kv = Some (key, v)" "set_config key (parse_toml_value vp v) t = Ok u" "apply_sets vp kvs u = Ok t'"
    by (auto split: option.splits sum.splits prod.splits)
  then show ?case using Cons.IH[of u] config_set_wf[OF _ Cons.prems(2) parse_toml_value_wf] by (auto simp: set_config_def)
qed simp

lemma cmd_add_ok:
  assumes "cmd_services_add vp templates service template_name flake sets m = Ok m'" and "manifest_ok m"
  shows "manifest_ok m'"
proof -
  obtain t0 t1 where "(case template_name of
                    None \<Rightarrow> Ok []
                  | Some name \<Rightarrow> (case find_template templates name of
                                    None \<Rightarrow> Err (UnknownTemplate name) | Some tm \<Rightarrow> Ok (apply_template tm []))) = Ok t0"
    and t1: "apply_sets vp sets t0 = Ok t1"
    and m': "m' = snd (services_add \<lparr>se_name = service, se_enable = True, se_flake = flake, se_config = t1\<rparr> m)"
    using assms(1) unfolding cmd_services_add_def by (auto simp: bindR_eq_Ok split: if_splits)
  then have t: "table_wf t0" "apply_sets vp sets t0 = Ok t1"
    using apply_template_wf[of "[]"] by (auto split: option.splits)
  show ?thesis unfolding m' using services_add_ok[OF assms(2)] apply_sets_wf[OF t(2,1)] by simp
qed

lemma cmd_set_ok:
  assumes "cmd_services_set vp service key v m = Ok m'" and "manifest_ok m"
  shows "manifest_ok m'"
proof -
  obtain e config where e: "services_get service m = Some e" "set_config key (parse_toml_value vp v) (se_config e) = Ok config"
      "m' = services_update service (\<lambda>e. e\<lparr>se_config := config\<rparr>) m"
    using assms(1) by (auto simp: cmd_services_set_def split: option.splits sum.splits)
  have "table_wf (se_config e)" using services_get_Some[OF e(1)] assms(2) by (simp add: manifest_ok_def)
  then have "table_wf config" using config_set_wf[OF e(2)[unfolded set_config_def] _ parse_toml_value_wf] by blast
  then show ?thesis unfolding e(3) by (intro services_update_ok[OF assms(2)]) simp_all
qed

lemma cmd_unset_ok:
  assumes "cmd_services_unset service key m = Ok (found, m')" and "manifest_ok m"
  shows "manifest_ok m'"
proof -
  obtain e where e: "services_get service m = Some e"
      "m' = m \<or> m' = services_update service (\<lambda>e'. e'\<lparr>se_config := snd (unset_config key (se_config e))\<rparr>) m"
    using assms(1) by (auto simp: cmd_services_unset_def split: option.splits prod.splits bool.splits)
  have "table_wf (se_config e)" using services_get_Some[OF e(1)] assms(2) by (simp add: manifest_ok_def)
  then have wf: "table_wf (snd (unset_config key (se_config e)))" unfolding unset_config_def by (rule config_unset_wf)
  then have "manifest_ok (services_update service (\<lambda>e'. e'\<lparr>se_config := snd (unset_config key (se_config e))\<rparr>) m)"
    by (intro services_update_ok[OF assms(2)]) simp_all
  then show ?thesis using e(2) assms(2) by blast
qed

text \<open>The commands that change the manifest, when they succeed; not among them the import that replaces it.\<close>

inductive manifest_step :: "home_services \<Rightarrow> home_services \<Rightarrow> bool" where
  add: "cmd_services_add vp templates service template_name flake sets m = Ok m' \<Longrightarrow> manifest_step m m'"
| remove: "cmd_services_remove names m = (removed, m') \<Longrightarrow> manifest_step m m'"
| set_key: "cmd_services_set vp service key v m = Ok m' \<Longrightarrow> manifest_step m m'"
| unset_key: "cmd_services_unset service key m = Ok (found, m') \<Longrightarrow> manifest_step m m'"
| enable: "cmd_services_enable names m = (count, m') \<Longrightarrow> manifest_step m m'"
| disable: "cmd_services_disable names m = (count, m') \<Longrightarrow> manifest_step m m'"
| merge: "\<forall>e \<in> set (hs_services imported). table_wf (se_config e) \<Longrightarrow> manifest_step m (cmd_services_import imported True m)"

text \<open>C13. The manifest stays well formed.  Through any commands, except an import that replaces the manifest, service names stay
  distinct and every configuration is a table whose keys are in order and distinct at every level; an
  import that merges may bring entries of the same name, as long as their configurations are such tables
  (which is how the TOML parser makes them).  An import without merging takes the file as it is, duplicate names
  included.\<close>

theorem manifest_stays_well_formed:
  assumes "manifest_step\<^sup>*\<^sup>* m m'" and "manifest_ok m"
  shows "manifest_ok m'"
  using assms
proof (induction rule: rtranclp_induct)
  case (step m1 m2)
  then have "manifest_ok m1" by blast
  with step(2) show ?case
  proof (cases rule: manifest_step.cases)
    case (remove names removed)
    then show ?thesis using remove_all_ok[OF \<open>manifest_ok m1\<close>, of names "0::nat"] by (simp add: cmd_services_remove_def)
  next
    case (enable names count)
    then show ?thesis using set_enabled_ok[OF \<open>manifest_ok m1\<close>, of True names] by (simp add: cmd_services_enable_def)
  next
    case (disable names count)
    then show ?thesis using set_enabled_ok[OF \<open>manifest_ok m1\<close>, of False names] by (simp add: cmd_services_disable_def)
  next
    case (merge imported)
    then show ?thesis using merge_ok \<open>manifest_ok m1\<close> by (simp add: cmd_services_import_def)
  qed (auto intro: cmd_add_ok cmd_set_ok cmd_unset_ok simp: cmd_services_import_def)
qed simp

definition sample_parsers :: value_parsers where
  "sample_parsers = \<lparr>vp_f64 = (\<lambda>_. None), vp_json_array = (\<lambda>_. None)\<rparr>"

theorem manifest_stays_well_formed_witness:
  "\<exists>m. cmd_services_add sample_parsers [] ''web'' None None [''ports.http.port=80''] \<lparr>hs_version = 1, hs_flake = ''nixpkgs'', hs_services = []\<rparr> = Ok m \<and>
     manifest_ok (snd (cmd_services_disable [''web''] m)) \<and> map se_enable (hs_services (snd (cmd_services_disable [''web''] m))) = [False]"
proof -
  let ?start = "\<lparr>hs_version = 1, hs_flake = ''nixpkgs'', hs_services = []\<rparr>"
  let ?add = "cmd_services_add sample_parsers [] ''web'' None None [''ports.http.port=80''] ?start"
  obtain t where t: "apply_sets sample_parsers [''ports.http.port=80''] [] = Ok t"
    by (simp add: split_once_def first_segment_def set_config_def bindR_def)
  let ?m = "\<lparr>hs_version = 1, hs_flake = ''nixpkgs'',
      hs_services = [\<lparr>se_name = ''web'', se_enable = True, se_flake = None, se_config = t\<rparr>]\<rparr>"
  from t have run: "?add = Ok \<lparr>hs_version = 1, hs_flake = ''nixpkgs'',
      hs_services = [\<lparr>se_name = ''web'', se_enable = True, se_flake = None, se_config = t\<rparr>]\<rparr>" 
    by (simp add: cmd_services_add_def services_get_def services_add_def bindR_def)
  have "manifest_step ?start ?m" by (rule manifest_step.add[OF run])
  moreover have "manifest_step ?m (snd (cmd_services_disable [''web''] ?m))" by (rule manifest_step.disable[OF prod.collapse[symmetric]])
  ultimately have "manifest_step\<^sup>*\<^sup>* ?start (snd (cmd_services_disable [''web''] ?m))" by simp
  then have "manifest_ok (snd (cmd_services_disable [''web''] ?m))"
    by (rule manifest_stays_well_formed) (simp add: manifest_ok_def)
  then show ?thesis using run by (simp add: cmd_services_disable_def set_enabled_def services_get_def services_update_def)
qed

end
