(* ===== verification/Strings.thy ===== *)
theory Strings
  imports Prelude
begin

text \<open>
  Further functions on strings of the Rust standard library: trimming of white space; and when a
  character of an escaped text is preceded by a backslash that is not itself escaped.
\<close>

abbreviation BACKSLASH :: char where "BACKSLASH \<equiv> CHR 0x5C"
abbreviation QUOTE :: char where "QUOTE \<equiv> CHR 0x22"
abbreviation TAB :: char where "TAB \<equiv> CHR 0x09"

text \<open>\<open>s.trim()\<close>.\<close>

function trim_start :: "string \<Rightarrow> string" where
  "trim_start s = (if s = [] \<or> ws_len s = 0 then s else trim_start (drop (ws_len s) s))"
  by auto
termination by (relation "measure length") auto

definition trailing_ws :: "string \<Rightarrow> nat" where
  "trailing_ws s = (case filter (\<lambda>k. k \<le> length s \<and> ws_len (drop (length s - k) s) = k) [1, 2, 3] of [] \<Rightarrow> 0 | k # _ \<Rightarrow> k)"

function trim_end :: "string \<Rightarrow> string" where
  "trim_end s = (if s = [] \<or> trailing_ws s = 0 then s else trim_end (take (length s - trailing_ws s) s))"
  by auto
termination by (relation "measure length") auto

declare trim_start.simps [simp del] trim_end.simps [simp del]

definition trim :: "string \<Rightarrow> string" where
  "trim s = trim_end (trim_start s)"

lemma trim_visible:
  assumes "\<forall>c \<in> set s. visible c"
  shows "trim s = s" and "trim (CHR '' '' # s) = s"
proof -
  have "s = [] \<or> ws_len s = 0" using assms by (cases s) (simp_all add: ws_len_visible)
  then have ts: "trim_start s = s" by (simp add: trim_start.simps[of s])
  have "ws_len (CHR '' '' # s) = 1" by (simp add: ws_len_def)
  then have ts2: "trim_start (CHR '' '' # s) = s" using ts by (simp add: trim_start.simps[of "CHR '' '' # s"])
  have "ws_len (drop k s) = 0" for k
  proof (cases "drop k s")
    case (Cons c cs)
    then have "c \<in> set s" by (metis in_set_dropD list.set_intros(1))
    then show ?thesis using Cons assms by (simp add: ws_len_visible)
  qed (simp add: ws_len_def)
  then have "trailing_ws s = 0" by (simp add: trailing_ws_def)
  then have te: "trim_end s = s" by (simp add: trim_end.simps[of s])
  show "trim s = s" "trim (CHR '' '' # s) = s" unfolding trim_def ts ts2 te by simp_all
qed

subsection \<open>Escaped positions\<close>

text \<open>What follows \<open>p\<close> is escaped: an odd number of backslashes ends \<open>p\<close>.\<close>

definition escaped_after :: "string \<Rightarrow> bool" where
  "escaped_after p \<longleftrightarrow> odd (length (takeWhile (\<lambda>c. c = BACKSLASH) (rev p)))"

lemma escaped_after_simps [simp]:
  "\<not> escaped_after []"
  "escaped_after (p @ [c]) \<longleftrightarrow> c = BACKSLASH \<and> \<not> escaped_after p"
  "escaped_after [c] \<longleftrightarrow> c = BACKSLASH"
  by (auto simp: escaped_after_def)

lemma escaped_after_pair [simp]: "escaped_after (p @ [BACKSLASH, c]) \<longleftrightarrow> c = BACKSLASH \<and> escaped_after p"
  using escaped_after_simps(2)[of "p @ [BACKSLASH]" c] by simp

text \<open>A text made of units: a character that is no backslash, or a backslash and a character.\<close>

definition escape_unit :: "string \<Rightarrow> bool" where
  "escape_unit u \<longleftrightarrow> (\<exists>c. c \<noteq> BACKSLASH \<and> u = [c]) \<or> (\<exists>c. u = [BACKSLASH, c])"

lemma escape_unit_cases:
  assumes "escape_unit u"
  obtains (single) c where "c \<noteq> BACKSLASH" "u = [c]" | (pair) c where "u = [BACKSLASH, c]"
  using assms unfolding escape_unit_def by blast

lemma escaped_after_unit:
  assumes "escape_unit u" and "\<not> escaped_after p"
  shows "\<not> escaped_after (p @ u)"
  using assms(1) by (cases rule: escape_unit_cases) (simp_all add: assms(2))

lemma units_end: "\<forall>u \<in> set us. escape_unit u \<Longrightarrow> \<not> escaped_after p \<Longrightarrow> \<not> escaped_after (p @ concat us)"
proof (induction us arbitrary: p)
  case (Cons u us)
  have "\<not> escaped_after (p @ u)" using Cons.prems by (intro escaped_after_unit) simp_all
  then show ?case using Cons.IH[of "p @ u"] Cons.prems by simp
qed simp

text \<open>A character that is no unit by itself is escaped wherever it occurs.\<close>

lemma units_escaped:
  "\<forall>u \<in> set us. escape_unit u \<Longrightarrow> [c] \<notin> set us \<Longrightarrow> c \<noteq> BACKSLASH \<Longrightarrow> \<not> escaped_after p \<Longrightarrow>
    concat us = a @ c # b \<Longrightarrow> escaped_after (p @ a)"
proof (induction us arbitrary: p a)
  case (Cons u us)
  have u: "escape_unit u" using Cons.prems(1) by simp
  note not = escaped_after_unit[OF u Cons.prems(4)]
  from u show ?case
  proof (cases rule: escape_unit_cases)
    case (single d)
    then have "d \<noteq> c" using Cons.prems(2) by auto
    then obtain a' where a: "a = d # a'" "concat us = a' @ c # b" using Cons.prems(5) single(2) by (cases a) auto
    have "escaped_after ((p @ u) @ a')" using Cons.IH[OF _ _ Cons.prems(3) not a(2)] Cons.prems(1,2) by simp
    then show ?thesis using single a by simp
  next
    case (pair d)
    then obtain a' where a: "a = BACKSLASH # a'" using Cons.prems(3,5) by (cases a) auto
    show ?thesis
    proof (cases a')
      case Nil
      then show ?thesis using Cons.prems(4) a by simp
    next
      case (Cons e a'')
      then have "e = d" "concat us = a'' @ c # b" using Cons.prems(5) pair a by simp_all
      then have "escaped_after ((p @ u) @ a'')" using Cons.IH[OF _ _ Cons.prems(3) not] Cons.prems(1,2) by simp
      then show ?thesis using pair a Cons \<open>e = d\<close> by simp
    qed
  qed
qed simp

end
