(* ===== verification/NixExpr.thy ===== *)
theory NixExpr
  imports HomeServices Strings
begin

text \<open>
  From the manifest to a Nix expression: \<open>toml_value_to_nix\<close>, the escapes and \<open>build_services_nix_expr\<close> of
  \<open>crates/ekapkgs/src/commands/home.rs\<close>.  Nix itself is not modelled: what is shown of an escaped string is
  which of its characters a backslash precedes.
\<close>

subsection \<open>Replacing and escaping\<close>

text \<open>\<open>s.replace(pat, rep)\<close>: the occurrences from left to right that do not overlap.\<close>

function str_replace :: "string \<Rightarrow> string \<Rightarrow> string \<Rightarrow> string" where
  "str_replace pat rep s =
     (if s = [] \<or> pat = [] then s
      else if take (length pat) s = pat then rep @ str_replace pat rep (drop (length pat) s)
      else hd s # str_replace pat rep (tl s))"
  by auto
termination by (relation "measure (\<lambda>(pat, rep, s). length s)") auto

declare str_replace.simps [simp del]

definition escape_nix_string :: "string \<Rightarrow> string" where
  "escape_nix_string s =
     str_replace ''${'' (BACKSLASH # ''${'')
       (str_replace [TAB] [BACKSLASH, CHR ''t'']
         (str_replace [NL] [BACKSLASH, CHR ''n'']
           (str_replace [QUOTE] [BACKSLASH, QUOTE]
             (str_replace [BACKSLASH] [BACKSLASH, BACKSLASH] s))))"

definition is_ascii_alphanumeric :: "char \<Rightarrow> bool" where
  "is_ascii_alphanumeric c =
     (let n = of_char c :: nat in (48 \<le> n \<and> n \<le> 57) \<or> (65 \<le> n \<and> n \<le> 90) \<or> (97 \<le> n \<and> n \<le> 122))"

definition escape_nix_key :: "string \<Rightarrow> string" where
  "escape_nix_key key =
     (if list_all (\<lambda>c. is_ascii_alphanumeric c \<or> c = CHR ''_'' \<or> c = CHR ''-'') key then key
      else [QUOTE] @ escape_nix_string key @ [QUOTE])"

subsection \<open>Values and tables\<close>

definition show_int :: "int \<Rightarrow> string" where
  "show_int i = (if i < 0 then CHR ''-'' # show_nat (nat (- i)) else show_nat (nat i))"

fun toml_value_to_nix :: "toml \<Rightarrow> string" where
  "toml_value_to_nix (TString s) = [QUOTE] @ escape_nix_string s @ [QUOTE]"
| "toml_value_to_nix (TInteger n) = show_int n"
| "toml_value_to_nix (TFloat f) = (if CHR ''.'' \<in> set f then f else f @ ''.0'')"
| "toml_value_to_nix (TBoolean b) = (if b then ''true'' else ''false'')"
| "toml_value_to_nix (TArray vs) = ''[ '' @ join '' '' (map toml_value_to_nix vs) @ '' ]''"
| "toml_value_to_nix (TTable t) =
     ''{ '' @ join '' '' (map (\<lambda>(k, v). escape_nix_key k @ '' = '' @ toml_value_to_nix v @ '';'') t) @ '' }''"
| "toml_value_to_nix (TDatetime d) = [QUOTE] @ d @ [QUOTE]"

definition toml_table_to_nix :: "toml_table \<Rightarrow> string" where
  "toml_table_to_nix t = join '' '' (map (\<lambda>(k, v). escape_nix_key k @ '' = '' @ toml_value_to_nix v @ '';'') t)"

text \<open>\<open>resolve_flake_ref\<close> with the file system's canonical paths as a parameter, \<open>None\<close> when the current directory is gone.\<close>

definition resolve_flake_ref :: "(string \<Rightarrow> string option) \<Rightarrow> string \<Rightarrow> string option" where
  "resolve_flake_ref canonical flake =
     (if flake = ''.'' \<or> strip_prefix ''./'' flake \<noteq> None \<or> strip_prefix ''/'' flake \<noteq> None then canonical flake else Some flake)"

definition service_def :: "service_entry \<Rightarrow> string" where
  "service_def e = ''    '' @ [QUOTE] @ escape_nix_string (se_name e) @ [QUOTE] @ '' = { enable = true; '' @
     toml_table_to_nix (se_config e) @ '' };''"

definition copy_command :: "service_entry \<Rightarrow> string" where
  "copy_command e =
     ''    for f in ${units.'' @ [QUOTE] @ escape_nix_string (se_name e) @ [QUOTE] @ ''}/*; do'' @ [NL] @
     ''      case '' @ [QUOTE] @ ''$f'' @ [QUOTE] @ '' in'' @ [NL] @
     ''        *.service|*.socket|*.timer) cp '' @ [QUOTE] @ ''$f'' @ [QUOTE] @ '' '' @ [QUOTE] @ ''$out/$(basename '' @ [QUOTE] @ ''$f'' @ [QUOTE] @
       '')'' @ [QUOTE] @ '' ;;'' @ [NL] @
     ''      esac'' @ [NL] @ ''    done''"

definition infra_flake :: "home_services \<Rightarrow> string" where
  "infra_flake m =
     (case List.map_filter se_flake (filter se_enable (hs_services m)) of [] \<Rightarrow> hs_flake m | f # _ \<Rightarrow> f)"

definition build_services_nix_expr :: "(string \<Rightarrow> string option) \<Rightarrow> home_services \<Rightarrow> string option" where
  "build_services_nix_expr canonical m =
     map_option (\<lambda>flake_ref.
       join [NL]
         [[], ''let'',
          ''  flake = builtins.getFlake '' @ [QUOTE] @ escape_nix_string flake_ref @ [QUOTE] @ '';'',
          ''  system = builtins.currentSystem;'',
          ''  pkgs = flake.legacyPackages.${system}'', ''         or flake.pkgs.${system}'', ''         or (import <nixpkgs> {});'',
          ''  services = import (flake.outPath + '' @ [QUOTE] @ ''/services/default.nix'' @ [QUOTE] @ '') { inherit pkgs; };'', [],
          ''  serviceConfig = {'', join [NL] (map service_def (filter se_enable (hs_services m))), ''  };'', [],
          ''  units = services.buildSystemdUserServices serviceConfig;'', [],
          ''  # Merge all unit file derivations into a single output directory'',
          ''  merged = pkgs.runCommand '' @ [QUOTE] @ ''ekapkgs-user-services'' @ [QUOTE] @ '' {} '' @ [CHR 0x27, CHR 0x27], ''    mkdir -p $out'',
          ''    '' @ join [NL] (map copy_command (filter se_enable (hs_services m))), ''  '' @ [CHR 0x27, CHR 0x27, CHR '';''], ''in merged'', []])
       (resolve_flake_ref canonical (infra_flake m))"

subsection \<open>What the escapes leave\<close>

text \<open>All five replacements at once.\<close>

fun nix_escape :: "string \<Rightarrow> string" where
  "nix_escape [] = []"
| "nix_escape (c # s) =
     (if c = BACKSLASH then [BACKSLASH, BACKSLASH]
      else if c = QUOTE then [BACKSLASH, QUOTE]
      else if c = NL then [BACKSLASH, CHR ''n'']
      else if c = TAB then [BACKSLASH, CHR ''t'']
      else if c = CHR ''$'' \<and> take 1 s = ''{'' then [BACKSLASH, CHR ''$'']
      else [c]) @ nix_escape s"

lemma str_replace_char: "str_replace [a] rep s = concat (map (\<lambda>c. if c = a then rep else [c]) s)"
  by (induction s) (auto simp: str_replace.simps[of "[a]"])

lemma str_replace_interp:
  "str_replace ''${'' rep [] = []"
  "str_replace ''${'' rep (c # s) = (if c = CHR ''$'' \<and> take 1 s = ''{'' then rep @ str_replace ''${'' rep (tl s) else c # str_replace ''${'' rep s)"
  by (cases s; simp add: str_replace.simps[of "''${''"])+

definition escape_char :: "char \<Rightarrow> string" where
  "escape_char c = (if c = BACKSLASH then [BACKSLASH, BACKSLASH] else if c = QUOTE then [BACKSLASH, QUOTE]
     else if c = NL then [BACKSLASH, CHR ''n''] else if c = TAB then [BACKSLASH, CHR ''t''] else [c])"

lemma escape_nix_string_step:
  "escape_nix_string s = str_replace ''${'' (BACKSLASH # ''${'') (concat (map escape_char s))"
proof -
  have "str_replace [TAB] [BACKSLASH, CHR ''t'']
         (str_replace [NL] [BACKSLASH, CHR ''n'']
           (str_replace [QUOTE] [BACKSLASH, QUOTE]
             (str_replace [BACKSLASH] [BACKSLASH, BACKSLASH] s))) = concat (map escape_char s)"
    by (induction s) (simp_all add: str_replace_char escape_char_def)
  then show ?thesis by (simp add: escape_nix_string_def)
qed

lemma concat_escape_brace: "take 1 (concat (map escape_char s)) = ''{'' \<longleftrightarrow> take 1 s = ''{''"
  by (cases s) (auto simp: escape_char_def)

lemma escape_nix_string_eq: "escape_nix_string s = nix_escape s"
  unfolding escape_nix_string_step
proof (induction s)
  case Nil
  then show ?case by (simp add: str_replace_interp)
next
  case (Cons c s)
  show ?case
  proof (cases "c = CHR ''$'' \<and> take 1 s = ''{''")
    case True
    then obtain r where s: "s = CHR ''{'' # r" by (cases s) auto
    show ?thesis using Cons True by (simp add: s escape_char_def str_replace_interp)
  next
    case False
    then have nb: "\<not> (c = CHR ''$'' \<and> take 1 (concat (map escape_char s)) = ''{'')" using concat_escape_brace by blast
    have "str_replace ''${'' rep (escape_char c @ x) = escape_char c @ str_replace ''${'' rep x"
      if "\<not> (c = CHR ''$'' \<and> take 1 x = ''{'')" for x rep
      using that by (auto simp: escape_char_def str_replace_interp)
    moreover have "nix_escape (c # s) = escape_char c @ nix_escape s" using False by (auto simp: escape_char_def)
    ultimately show ?thesis using Cons nb by simp
  qed
qed

text \<open>The same, unit by unit.\<close>

fun nix_units :: "string \<Rightarrow> string list" where
  "nix_units [] = []"
| "nix_units (c # s) =
     (if c = BACKSLASH then [BACKSLASH, BACKSLASH]
      else if c = QUOTE then [BACKSLASH, QUOTE]
      else if c = NL then [BACKSLASH, CHR ''n'']
      else if c = TAB then [BACKSLASH, CHR ''t'']
      else if c = CHR ''$'' \<and> take 1 s = ''{'' then [BACKSLASH, CHR ''$'']
      else [c]) # nix_units s"

lemma nix_escape_units: "nix_escape s = concat (nix_units s)"
  by (induction s) auto

lemma nix_units_ok: "\<forall>u \<in> set (nix_units s). escape_unit u \<and> u \<noteq> [QUOTE] \<and> u \<noteq> [NL] \<and> u \<noteq> [TAB]"
  by (induction s) (auto simp: escape_unit_def)

lemma nix_escape_brace: "take 1 (nix_escape s) = ''{'' \<longleftrightarrow> take 1 s = ''{''"
  by (cases s) auto

text \<open>A dollar sign before an opening brace.\<close>

lemma interpolation_escaped: "nix_escape s = a @ ''${'' @ b \<Longrightarrow> \<not> escaped_after p \<Longrightarrow> escaped_after (p @ a)"
proof (induction s arbitrary: p a)
  case (Cons c s)
  define u where "u = hd (nix_units (c # s))"
  have u: "nix_escape (c # s) = u @ nix_escape s" by (simp add: u_def)
  have unit: "escape_unit u" using nix_units_ok[of "c # s"] by (simp add: u_def)
  have plain: "take 1 s \<noteq> ''{''" if "u = [CHR ''$'']" using that by (auto simp: u_def split: if_splits)
  note not = escaped_after_unit[OF unit Cons.prems(2)]
  from unit show ?case
  proof (cases rule: escape_unit_cases)
    case (single d)
    show ?thesis
    proof (cases a)
      case Nil
      from Cons.prems(1)[unfolded u single(2) Nil] have "d = CHR ''$''" "nix_escape s = CHR ''{'' # b" by simp_all
      then have "u = [CHR ''$'']" "take 1 (nix_escape s) = ''{''" using single(2) by simp_all
      then show ?thesis using plain nix_escape_brace by blast
    next
      case (Cons e a')
      from Cons.prems(1)[unfolded u single(2) Cons] have "e = d" "nix_escape s = a' @ ''${'' @ b" by simp_all
      from Cons.IH[OF this(2) not] have "escaped_after ((p @ u) @ a')" .
      then show ?thesis using single Cons \<open>e = d\<close> by simp
    qed
  next
    case (pair d)
    from Cons.prems(1)[unfolded u pair] obtain a' where a: "a = BACKSLASH # a'" by (cases a) simp_all
    show ?thesis
    proof (cases a')
      case Nil
      then show ?thesis using Cons.prems(2) a by simp
    next
      case (Cons e a'')
      from Cons.prems(1)[unfolded u pair a Cons] have "e = d" "nix_escape s = a'' @ ''${'' @ b" by simp_all
      from Cons.IH[OF this(2) not] have "escaped_after ((p @ u) @ a'')" .
      then show ?thesis using pair a Cons \<open>e = d\<close> by simp
    qed
  qed
qed simp

lemma nix_escape_inj: "nix_escape s = nix_escape t \<Longrightarrow> s = t"
proof (induction s arbitrary: t)
  case Nil
  then show ?case by (cases t) (auto split: if_splits)
next
  case (Cons c s)
  then obtain d t' where t: "t = d # t'" by (cases t) (auto split: if_splits)
  have "c = d \<and> nix_escape s = nix_escape t'"
    using Cons.prems unfolding t
    by (cases "c = CHR ''$''"; cases "d = CHR ''$''") (auto split: if_splits)
  then show ?case using Cons.IH t by blast
qed

text \<open>C15. Configuration values cannot escape their quotes.  The text of a string value is a pair of quotes around its
  escaped characters.  Between them every quote and every dollar sign before an opening brace has an odd
  number of backslashes in front of it, no line break and no tab is left, and the number of backslashes before
  the closing quote is even: where an odd number of backslashes makes a character literal, as in Nix, the
  closing quote ends the string, nothing before it does, and no interpolation begins.  Different values have
  different texts.\<close>

theorem nix_strings_are_inert:
  "toml_value_to_nix (TString s) = QUOTE # escape_nix_string s @ [QUOTE] \<and>
   (\<forall>a b. escape_nix_string s = a @ QUOTE # b \<longrightarrow> escaped_after a) \<and>
   (\<forall>a b. escape_nix_string s = a @ ''${'' @ b \<longrightarrow> escaped_after a) \<and>
   \<not> escaped_after (escape_nix_string s) \<and> NL \<notin> set (escape_nix_string s) \<and> TAB \<notin> set (escape_nix_string s) \<and>
   (\<forall>t. escape_nix_string t = escape_nix_string s \<longrightarrow> t = s)"
proof (intro conjI allI impI)
  have ok: "\<forall>u \<in> set (nix_units s). escape_unit u" and q: "[QUOTE] \<notin> set (nix_units s)" using nix_units_ok[of s] by blast+
  have e: "escape_nix_string s = concat (nix_units s)" by (simp add: escape_nix_string_eq nix_escape_units)
  show "toml_value_to_nix (TString s) = QUOTE # escape_nix_string s @ [QUOTE]" by simp
  show "escaped_after a" if "escape_nix_string s = a @ QUOTE # b" for a b
    using units_escaped[OF ok q _ escaped_after_simps(1), of a b] that by (simp add: e)
  show "escaped_after a" if "escape_nix_string s = a @ ''${'' @ b" for a b
    using interpolation_escaped[of s a b "[]"] that by (simp add: escape_nix_string_eq)
  show "\<not> escaped_after (escape_nix_string s)" using units_end[OF ok, of "[]"] by (simp add: e)
  have "c \<notin> set (nix_escape s)" if "c = NL \<or> c = TAB" for c using that by (induction s) auto
  then show "NL \<notin> set (escape_nix_string s)" "TAB \<notin> set (escape_nix_string s)" by (simp_all add: escape_nix_string_eq)
  show "t = s" if "escape_nix_string t = escape_nix_string s" for t
    using that nix_escape_inj by (simp add: escape_nix_string_eq)
qed

theorem nix_strings_are_inert_witness:
  "escape_nix_string ''x${y}'' = (''x'' @ [BACKSLASH]) @ ''${'' @ ''y}'' \<and> escaped_after (''x'' @ [BACKSLASH])"
proof -
  have e: "escape_nix_string ''x${y}'' = (''x'' @ [BACKSLASH]) @ ''${'' @ ''y}''" by (simp add: escape_nix_string_eq)
  moreover have "escaped_after (''x'' @ [BACKSLASH])" using nix_strings_are_inert[of "''x${y}''"] e by blast
  ultimately show ?thesis by blast
qed

end
