(* ===== verification/EnvTrust.thy ===== *)
theory EnvTrust
  imports NixExpr Strings
begin

text \<open>
  Directory environments: \<open>EnvManifest\<close> and \<open>TrustedEnvs\<close> of \<open>crates/ekapkgs/src/config.rs\<close> and the commands of \<open>commands/env.rs\<close> that
  change them, build the profile of a directory and hand out its environment to a shell.  BLAKE3, TOML, Nix and the
  canonical form of a path are functions of an environment; a hash map is the table of its rows, and what is
  written from one is in the order the environment gives its keys.  Locks and \<open>git\<close> are left out.
\<close>

subsection \<open>Manifests\<close>

record env_package =
  ep_name :: string
  ep_flake :: "string option"

record env_flake =
  fl_ref :: string
  fl_devshell :: string
  fl_rev :: "string option"
  fl_inputs :: "(string, string) table"

record env_manifest =
  em_version :: nat
  em_flake :: string
  em_packages :: "env_package list"
  em_flakes :: "env_flake list"

definition ENV_MANIFEST_NAME :: string where
  "ENV_MANIFEST_NAME = ''.ekapkgs-env.toml''"

definition manifest_add :: "env_package \<Rightarrow> env_manifest \<Rightarrow> bool \<times> env_manifest" where
  "manifest_add e m =
     (if list_ex (\<lambda>p. ep_name p = ep_name e) (em_packages m) then (False, m) else (True, m\<lparr>em_packages := em_packages m @ [e]\<rparr>))"

definition manifest_remove :: "string \<Rightarrow> env_manifest \<Rightarrow> bool \<times> env_manifest" where
  "manifest_remove name m =
     (let kept = filter (\<lambda>p. ep_name p \<noteq> name) (em_packages m)
      in (length kept < length (em_packages m), m\<lparr>em_packages := kept\<rparr>))"

definition resolve_installable :: "env_package \<Rightarrow> env_manifest \<Rightarrow> string" where
  "resolve_installable e m = (case ep_flake e of None \<Rightarrow> em_flake m | Some f \<Rightarrow> f) @ ''#'' @ ep_name e"

definition add_flake :: "env_flake \<Rightarrow> env_manifest \<Rightarrow> bool \<times> env_manifest" where
  "add_flake e m =
     (if list_ex (\<lambda>f. fl_ref f = fl_ref e) (em_flakes m) then (False, m) else (True, m\<lparr>em_flakes := em_flakes m @ [e]\<rparr>))"

definition remove_flake :: "string \<Rightarrow> env_manifest \<Rightarrow> bool \<times> env_manifest" where
  "remove_flake r m =
     (let kept = filter (\<lambda>f. fl_ref f \<noteq> r) (em_flakes m)
      in (length kept < length (em_flakes m), m\<lparr>em_flakes := kept\<rparr>))"

subsection \<open>The files, the trust database and the caches\<close>

record env_file =
  ef_content :: bytes
  ef_modified :: nat

text \<open>What \<open>nix profile install\<close> is told: the installable and the overridden inputs.\<close>

type_synonym install = "string \<times> (string \<times> string) list"

text \<open>The cache of one directory: its profile, absent when it was removed, and the files beside it.\<close>

record env_cache =
  ec_profile :: "install list option"
  ec_files :: "(string, bytes) table"

record dev_env =
  de_variables :: "(string, string \<times> string) table"
  de_functions :: "(string, string) table"

record env_ops =
  ev_canonical :: "string \<Rightarrow> string"
  ev_b3 :: "bytes \<Rightarrow> string"
  ev_parse :: "bytes \<Rightarrow> env_manifest option"
  ev_print :: "env_manifest \<Rightarrow> bytes"
  ev_install :: "install \<Rightarrow> bool"
  ev_uninstall :: "string \<Rightarrow> install list \<Rightarrow> install list"
  ev_has_bin :: "install list \<Rightarrow> bool"
  ev_dev_env :: "install \<Rightarrow> dev_env option"
  ev_revision :: "string \<Rightarrow> string option"
  ev_order :: "string list \<Rightarrow> string list"
  ev_system :: string
  ev_cache_dir :: string

record env_world =
  ew_files :: "(string \<times> string, env_file) table"
  ew_trusted :: "(string, string) table"
  ew_caches :: "(string, env_cache) table"

datatype env_error =
    NoManifest
  | BadManifest
  | ManifestExists
  | InstallFailed string
  | NotTrusted
  | NoFlakes
  | DevEnvFailed string
  | FlakeNotInManifest string
  | NoRevision string

definition read_env_file :: "env_ops \<Rightarrow> string \<Rightarrow> string \<Rightarrow> env_world \<Rightarrow> env_file option" where
  "read_env_file env dir name w = map_of (ew_files w) (ev_canonical env dir, name)"

definition write_env_file :: "env_ops \<Rightarrow> nat \<Rightarrow> string \<Rightarrow> string \<Rightarrow> bytes \<Rightarrow> env_world \<Rightarrow> env_world" where
  "write_env_file env now dir name c w =
     w\<lparr>ew_files := insert_or_replace (ev_canonical env dir, name) \<lparr>ef_content = c, ef_modified = now\<rparr> (ew_files w)\<rparr>"

definition load_from :: "env_ops \<Rightarrow> string \<Rightarrow> env_world \<Rightarrow> env_error + env_manifest" where
  "load_from env dir w =
     (case read_env_file env dir ENV_MANIFEST_NAME w of
        None \<Rightarrow> Err NoManifest
      | Some f \<Rightarrow> (case (if utf8_valid (ef_content f) then ev_parse env (ef_content f) else None) of None \<Rightarrow> Err BadManifest | Some m \<Rightarrow> Ok m))"

definition save_to :: "env_ops \<Rightarrow> nat \<Rightarrow> string \<Rightarrow> env_manifest \<Rightarrow> env_world \<Rightarrow> env_world" where
  "save_to env now dir m w = write_env_file env now dir ENV_MANIFEST_NAME (ev_print env m) w"

definition content_hash :: "env_ops \<Rightarrow> string \<Rightarrow> env_world \<Rightarrow> string option" where
  "content_hash env dir w = map_option (\<lambda>f. take 64 (ev_b3 env (ef_content f))) (read_env_file env dir ENV_MANIFEST_NAME w)"

definition trust_allow :: "env_ops \<Rightarrow> string \<Rightarrow> env_world \<Rightarrow> env_error + env_world" where
  "trust_allow env dir w =
     (case content_hash env dir w of
        None \<Rightarrow> Err NoManifest
      | Some h \<Rightarrow> Ok (w\<lparr>ew_trusted := insert_or_replace (ev_canonical env dir) h (ew_trusted w)\<rparr>))"

definition trust_disallow :: "env_ops \<Rightarrow> string \<Rightarrow> env_world \<Rightarrow> env_world" where
  "trust_disallow env dir w = w\<lparr>ew_trusted := delete_key (ev_canonical env dir) (ew_trusted w)\<rparr>"

definition is_trusted :: "env_ops \<Rightarrow> string \<Rightarrow> env_world \<Rightarrow> bool" where
  "is_trusted env dir w =
     (case map_of (ew_trusted w) (ev_canonical env dir) of
        None \<Rightarrow> False
      | Some stored \<Rightarrow> (case content_hash env dir w of None \<Rightarrow> False | Some current \<Rightarrow> stored = current))"

text \<open>The cache directory of a project, made on first use.\<close>

definition env_key :: "env_ops \<Rightarrow> string \<Rightarrow> string" where
  "env_key env dir = take 32 (ev_b3 env (ev_canonical env dir))"

definition env_dir_path :: "env_ops \<Rightarrow> string \<Rightarrow> string" where
  "env_dir_path env dir = ev_cache_dir env @ ''/envs/'' @ env_key env dir"

definition profile_path :: "env_ops \<Rightarrow> string \<Rightarrow> string" where
  "profile_path env dir = env_dir_path env dir @ ''/profile''"

definition cache_of :: "env_ops \<Rightarrow> string \<Rightarrow> env_world \<Rightarrow> env_cache" where
  "cache_of env dir w = (case map_of (ew_caches w) (env_key env dir) of None \<Rightarrow> \<lparr>ec_profile = None, ec_files = []\<rparr> | Some c \<Rightarrow> c)"

definition update_cache :: "env_ops \<Rightarrow> string \<Rightarrow> (env_cache \<Rightarrow> env_cache) \<Rightarrow> env_world \<Rightarrow> env_world" where
  "update_cache env dir f w = w\<lparr>ew_caches := insert_or_replace (env_key env dir) (f (cache_of env dir w)) (ew_caches w)\<rparr>"

definition profile_bin :: "env_ops \<Rightarrow> string \<Rightarrow> env_world \<Rightarrow> string option" where
  "profile_bin env dir w =
     (case ec_profile (cache_of env dir w) of
        Some p \<Rightarrow> if ev_has_bin env p then Some (profile_path env dir @ ''/bin'') else None
      | None \<Rightarrow> None)"

subsection \<open>Building the profile\<close>

definition nix_install :: "env_ops \<Rightarrow> string \<Rightarrow> install \<Rightarrow> env_world \<Rightarrow> bool \<times> env_world" where
  "nix_install env dir i w =
     (if ev_install env i
      then (True, update_cache env dir (\<lambda>c. c\<lparr>ec_profile := Some ((case ec_profile c of None \<Rightarrow> [] | Some p \<Rightarrow> p) @ [i])\<rparr>) w)
      else (False, w))"

text \<open>\<open>ev_order\<close> of the keys, with their values.\<close>

definition rows_in_order :: "env_ops \<Rightarrow> (string, 'v) table \<Rightarrow> (string \<times> 'v) list" where
  "rows_in_order env t = List.map_filter (\<lambda>k. map_option (Pair k) (map_of t k)) (ev_order env (map fst t))"

definition flake_install :: "env_ops \<Rightarrow> env_flake \<Rightarrow> install" where
  "flake_install env e =
     (let ref = (case fl_rev e of Some r \<Rightarrow> if CHR ''?'' \<in> set (fl_ref e) then fl_ref e else fl_ref e @ ''?rev='' @ r | None \<Rightarrow> fl_ref e)
      in (ref @ ''#devShells.'' @ ev_system env @ ''.'' @ fl_devshell e, rows_in_order env (fl_inputs e)))"

definition manifest_installs :: "env_ops \<Rightarrow> env_manifest \<Rightarrow> install list" where
  "manifest_installs env m = map (flake_install env) (em_flakes m) @ map (\<lambda>p. (resolve_installable p m, [])) (em_packages m)"

definition sync_profile_from_manifest :: "env_ops \<Rightarrow> env_manifest \<Rightarrow> string \<Rightarrow> env_world \<Rightarrow> env_world" where
  "sync_profile_from_manifest env m dir w =
     fold (\<lambda>i w. snd (nix_install env dir i w)) (manifest_installs env m)
       (update_cache env dir (\<lambda>c. c\<lparr>ec_profile := None\<rparr>) w)"

subsection \<open>Rendering the environment of dev shells\<close>

definition SKIP_VARIABLES :: "string list" where
  "SKIP_VARIABLES =
     [''HOME'', ''USER'', ''LOGNAME'', ''SHELL'', ''TERM'', ''DISPLAY'', ''WAYLAND_DISPLAY'', ''XDG_RUNTIME_DIR'', ''XDG_SESSION_TYPE'',
      ''SSH_AUTH_SOCK'', ''SSH_AGENT_PID'', ''DBUS_SESSION_BUS_ADDRESS'', ''GPG_AGENT_INFO'', ''TMPDIR'', ''TMP'', ''TEMP'', ''PWD'',
      ''OLDPWD'', ''SHLVL'', ''_'', ''BASH'', ''BASHOPTS'', ''BASH_VERSION'', ''BASH_VERSINFO'', ''SHELLOPTS'', ''IFS'', ''LINENO'',
      ''MACHTYPE'', ''HOSTTYPE'', ''OSTYPE'', ''OPTERR'', ''UID'', ''EUID'', ''PPID'', ''RANDOM'', ''SECONDS'', ''COLUMNS'', ''LINES'',
      ''NIX_BUILD_TOP'', ''NIX_STORE'', ''NIX_LOG_FD'', ''NIX_BUILD_CORES'', ''NIX_ATTRS_JSON_FILE'', ''NIX_ATTRS_SH_FILE'']"

text \<open>The variables with their type and value, the search path and the functions collected so far.\<close>

record merged_env =
  me_vars :: "(string, string \<times> string) table"
  me_path :: "string list"
  me_functions :: "(string, string) table"

definition add_path_part :: "string \<Rightarrow> string list \<Rightarrow> string list" where
  "add_path_part p ps = (if p \<noteq> [] \<and> p \<notin> set ps then ps @ [p] else ps)"

definition merge_variable :: "string \<times> string \<times> string \<Rightarrow> merged_env \<Rightarrow> merged_env" where
  "merge_variable v me =
     (case v of (name, ty, val) \<Rightarrow>
        if name \<in> set SKIP_VARIABLES then me
        else if name = ''PATH'' then me\<lparr>me_path := fold add_path_part (split_on (CHR '':'') val) (me_path me)\<rparr>
        else if ty = ''exported'' \<or> ty = ''var'' then me\<lparr>me_vars := insert_or_replace name (ty, val) (me_vars me)\<rparr>
        else me)"

definition merge_dev_env :: "env_ops \<Rightarrow> dev_env \<Rightarrow> merged_env \<Rightarrow> merged_env" where
  "merge_dev_env env d me =
     fold (\<lambda>(name, body) me. me\<lparr>me_functions := insert_or_replace name body (me_functions me)\<rparr>) (rows_in_order env (de_functions d))
       (fold merge_variable (rows_in_order env (de_variables d)) me)"

fun merge_flakes :: "env_ops \<Rightarrow> env_flake list \<Rightarrow> merged_env \<Rightarrow> env_error + merged_env" where
  "merge_flakes env [] me = Ok me"
| "merge_flakes env (e # es) me =
     (case ev_dev_env env (flake_install env e) of
        None \<Rightarrow> Err (DevEnvFailed (fl_ref e))
      | Some d \<Rightarrow> merge_flakes env es (merge_dev_env env d me))"

abbreviation SQUOTE :: char where "SQUOTE \<equiv> CHR 0x27"

definition escape_bash :: "string \<Rightarrow> string" where
  "escape_bash v = str_replace [QUOTE] [BACKSLASH, QUOTE] (str_replace [BACKSLASH] [BACKSLASH, BACKSLASH] v)"

definition escape_fish :: "string \<Rightarrow> string" where
  "escape_fish v = str_replace [SQUOTE] [BACKSLASH, SQUOTE] (str_replace [BACKSLASH] [BACKSLASH, BACKSLASH] v)"

definition GENERATED :: string where
  "GENERATED = ''# Generated by ekapkgs env '' @ [CHR 0xE2, CHR 0x80, CHR 0x94] @ '' do not edit''"

definition bash_line :: "string \<times> string \<times> string \<Rightarrow> string" where
  "bash_line v =
     (case v of (name, ty, val) \<Rightarrow>
        (if ty = ''exported'' then ''export '' else []) @ name @ ''='' @ [QUOTE] @ escape_bash val @ [QUOTE])"

definition bash_script :: "env_ops \<Rightarrow> merged_env \<Rightarrow> string" where
  "bash_script env me =
     join [NL] ([GENERATED, []] @ map bash_line (rows_in_order env (me_vars me)) @
       (if me_path me \<noteq> [] then [''export PATH='' @ [QUOTE] @ join '':'' (me_path me) @ '':${PATH}'' @ [QUOTE]] else []) @
       [''export IN_NIX_SHELL=impure'', []] @
       map (\<lambda>(name, body). name @ ''() '' @ body) (rows_in_order env (me_functions me)))"

definition fish_line :: "string \<times> string \<times> string \<Rightarrow> string" where
  "fish_line v =
     (case v of (name, ty, val) \<Rightarrow>
        (if ty = ''exported'' then ''set -gx '' else ''set -g '') @ name @ '' '' @ [SQUOTE] @ escape_fish val @ [SQUOTE])"

definition fish_script :: "env_ops \<Rightarrow> merged_env \<Rightarrow> string" where
  "fish_script env me =
     join [NL] ([GENERATED, []] @ map fish_line (rows_in_order env (me_vars me)) @
       (if me_path me \<noteq> [] then [''set -gx PATH '' @ join '' '' (map (\<lambda>p. [SQUOTE] @ p @ [SQUOTE]) (me_path me)) @ '' $PATH''] else []) @
       [''set -gx IN_NIX_SHELL impure''])"

text \<open>The time of modification of the three files, sixteen bytes each, of those there are.\<close>

definition compute_fingerprint :: "env_ops \<Rightarrow> string \<Rightarrow> env_world \<Rightarrow> string" where
  "compute_fingerprint env dir w =
     take 32 (ev_b3 env (concat (map (\<lambda>name. case read_env_file env dir name w of None \<Rightarrow> [] | Some f \<Rightarrow> le_bytes 16 (ef_modified f))
       [ENV_MANIFEST_NAME, ''flake.nix'', ''flake.lock''])))"

definition write_cache_file :: "env_ops \<Rightarrow> string \<Rightarrow> string \<Rightarrow> bytes \<Rightarrow> env_world \<Rightarrow> env_world" where
  "write_cache_file env dir name c w = update_cache env dir (\<lambda>e. e\<lparr>ec_files := insert_or_replace name c (ec_files e)\<rparr>) w"

definition render_dev_env :: "env_ops \<Rightarrow> env_manifest \<Rightarrow> string \<Rightarrow> env_world \<Rightarrow> (env_error + unit) \<times> env_world" where
  "render_dev_env env m dir w =
     (if em_flakes m = [] then (Ok (), w)
      else case merge_flakes env (em_flakes m) \<lparr>me_vars = [], me_path = [], me_functions = []\<rparr> of
             Inl e \<Rightarrow> (Err e, w)
           | Inr me \<Rightarrow>
              let me = (case profile_bin env dir w of
                          Some b \<Rightarrow> if b \<in> set (me_path me) then me else me\<lparr>me_path := b # me_path me\<rparr>
                        | None \<Rightarrow> me);
                  w = write_cache_file env dir ''env.bash'' (bash_script env me) w;
                  w = write_cache_file env dir ''env.zsh'' (bash_script env me) w;
                  w = write_cache_file env dir ''env.fish'' (fish_script env me) w;
                  w = write_cache_file env dir ''env.fingerprint'' (compute_fingerprint env dir w) w
              in (Ok (), w))"

definition is_env_fresh :: "env_ops \<Rightarrow> string \<Rightarrow> env_world \<Rightarrow> bool" where
  "is_env_fresh env dir w =
     (case map_of (ec_files (cache_of env dir w)) ''env.fingerprint'' of
        None \<Rightarrow> False
      | Some stored \<Rightarrow> utf8_valid stored \<and> trim stored = compute_fingerprint env dir w)"

datatype shell = Bash | Zsh | Fish

definition shell_name :: "shell \<Rightarrow> string" where
  "shell_name sh = (case sh of Bash \<Rightarrow> ''bash'' | Zsh \<Rightarrow> ''zsh'' | Fish \<Rightarrow> ''fish'')"

definition script_path :: "env_ops \<Rightarrow> string \<Rightarrow> shell \<Rightarrow> string" where
  "script_path env dir sh = env_dir_path env dir @ ''/env.'' @ shell_name sh"

definition fresh_env_script :: "env_ops \<Rightarrow> string \<Rightarrow> shell \<Rightarrow> env_world \<Rightarrow> string option" where
  "fresh_env_script env dir sh w =
     (if \<not> is_env_fresh env dir w then None
      else if map_of (ec_files (cache_of env dir w)) (''env.'' @ shell_name sh) = None then None
      else Some (script_path env dir sh))"

subsection \<open>The commands\<close>

definition cmd_init :: "env_ops \<Rightarrow> nat \<Rightarrow> string \<Rightarrow> string \<Rightarrow> env_world \<Rightarrow> (env_error + unit) \<times> env_world" where
  "cmd_init env now fl dir w =
     (if read_env_file env dir ENV_MANIFEST_NAME w \<noteq> None then (Err ManifestExists, w)
      else (Ok (), save_to env now dir \<lparr>em_version = 1, em_flake = fl, em_packages = [], em_flakes = []\<rparr> w))"

text \<open>One package after the other; the manifest is saved after each, so those before a failure stay.\<close>

fun add_packages ::
  "env_ops \<Rightarrow> nat \<Rightarrow> string option \<Rightarrow> string \<Rightarrow> string list \<Rightarrow> env_manifest \<Rightarrow> nat \<Rightarrow> env_world \<Rightarrow> (env_error + nat) \<times> env_world" where
  "add_packages env now fl dir [] m added w = (Ok added, w)"
| "add_packages env now fl dir (name # names) m added w =
     (if list_ex (\<lambda>p. ep_name p = name) (em_packages m) then add_packages env now fl dir names m added w
      else let e = \<lparr>ep_name = name, ep_flake = fl\<rparr>
           in case nix_install env dir (resolve_installable e m, []) w of
                (False, w) \<Rightarrow> (Err (InstallFailed name), w)
              | (True, w) \<Rightarrow> let m = snd (manifest_add e m) in add_packages env now fl dir names m (added + 1) (save_to env now dir m w))"

definition cmd_add :: "env_ops \<Rightarrow> nat \<Rightarrow> string list \<Rightarrow> string option \<Rightarrow> string \<Rightarrow> env_world \<Rightarrow> (env_error + nat) \<times> env_world" where
  "cmd_add env now names fl dir w =
     (case load_from env dir w of Inl e \<Rightarrow> (Err e, w) | Inr m \<Rightarrow> add_packages env now fl dir names m 0 w)"

fun remove_packages :: "env_ops \<Rightarrow> string \<Rightarrow> string list \<Rightarrow> env_manifest \<Rightarrow> nat \<Rightarrow> env_world \<Rightarrow> nat \<times> env_manifest \<times> env_world" where
  "remove_packages env dir [] m removed w = (removed, m, w)"
| "remove_packages env dir (name # names) m removed w =
     (case manifest_remove name m of
        (False, m) \<Rightarrow> remove_packages env dir names m removed w
      | (True, m) \<Rightarrow> remove_packages env dir names m (removed + 1)
                      (update_cache env dir (\<lambda>c. c\<lparr>ec_profile := map_option (ev_uninstall env name) (ec_profile c)\<rparr>) w))"

definition cmd_remove :: "env_ops \<Rightarrow> nat \<Rightarrow> string list \<Rightarrow> string \<Rightarrow> env_world \<Rightarrow> (env_error + nat) \<times> env_world" where
  "cmd_remove env now names dir w =
     (case load_from env dir w of
        Inl e \<Rightarrow> (Err e, w)
      | Inr m \<Rightarrow> (case remove_packages env dir names m 0 w of (removed, m, w) \<Rightarrow> (Ok removed, save_to env now dir m w)))"

definition parse_inputs :: "string list \<Rightarrow> (string, string) table" where
  "parse_inputs ss = fold (\<lambda>(k, v) t. insert_or_replace k v t) (List.map_filter (split_once (CHR ''='')) ss) []"

definition cmd_flake_add ::
  "env_ops \<Rightarrow> nat \<Rightarrow> string \<Rightarrow> string \<Rightarrow> string option \<Rightarrow> string list \<Rightarrow> string \<Rightarrow> env_world \<Rightarrow> (env_error + bool) \<times> env_world" where
  "cmd_flake_add env now r devshell pin override_inputs dir w =
     (case load_from env dir w of
        Inl e \<Rightarrow> (Err e, w)
      | Inr m \<Rightarrow>
         (case add_flake \<lparr>fl_ref = r, fl_devshell = devshell, fl_rev = pin, fl_inputs = parse_inputs override_inputs\<rparr> m of
            (False, _) \<Rightarrow> (Ok False, w)
          | (True, m) \<Rightarrow> (Ok True, save_to env now dir m w)))"

definition cmd_flake_remove :: "env_ops \<Rightarrow> nat \<Rightarrow> string \<Rightarrow> string \<Rightarrow> env_world \<Rightarrow> (env_error + bool) \<times> env_world" where
  "cmd_flake_remove env now r dir w =
     (case load_from env dir w of
        Inl e \<Rightarrow> (Err e, w)
      | Inr m \<Rightarrow> (case remove_flake r m of (False, _) \<Rightarrow> (Ok False, w) | (True, m) \<Rightarrow> (Ok True, save_to env now dir m w)))"

definition cmd_flake_pin :: "env_ops \<Rightarrow> nat \<Rightarrow> string \<Rightarrow> string option \<Rightarrow> string \<Rightarrow> env_world \<Rightarrow> (env_error + string) \<times> env_world" where
  "cmd_flake_pin env now r pin dir w =
     (case load_from env dir w of
        Inl e \<Rightarrow> (Err e, w)
      | Inr m \<Rightarrow>
         if \<not> list_ex (\<lambda>f. fl_ref f = r) (em_flakes m) then (Err (FlakeNotInManifest r), w)
         else (case (case pin of Some p \<Rightarrow> Some p | None \<Rightarrow> ev_revision env r) of
                 None \<Rightarrow> (Err (NoRevision r), w)
               | Some p \<Rightarrow>
                  (Ok p, save_to env now dir (m\<lparr>em_flakes := update_first (\<lambda>f. fl_ref f = r) (\<lambda>f. f\<lparr>fl_rev := Some p\<rparr>) (em_flakes m)\<rparr>) w)))"

definition cmd_clean :: "env_ops \<Rightarrow> string \<Rightarrow> env_world \<Rightarrow> env_world" where
  "cmd_clean env dir w = w\<lparr>ew_caches := delete_key (env_key env dir) (ew_caches w)\<rparr>"

definition cmd_allow :: "env_ops \<Rightarrow> string \<Rightarrow> env_world \<Rightarrow> (env_error + unit) \<times> env_world" where
  "cmd_allow env dir w = (case trust_allow env dir w of Inl e \<Rightarrow> (Err e, w) | Inr w \<Rightarrow> (Ok (), w))"

definition cmd_disallow :: "env_ops \<Rightarrow> string \<Rightarrow> env_world \<Rightarrow> env_world" where
  "cmd_disallow env dir w = trust_disallow env dir w"

definition cmd_reload :: "env_ops \<Rightarrow> string \<Rightarrow> env_world \<Rightarrow> (env_error + unit) \<times> env_world" where
  "cmd_reload env dir w =
     (case load_from env dir w of
        Inl e \<Rightarrow> (Err e, w)
      | Inr m \<Rightarrow>
         (case render_dev_env env m dir (sync_profile_from_manifest env m dir w) of
            (Inl e, w) \<Rightarrow> (Err e, w)
          | (Inr _, w) \<Rightarrow> cmd_allow env dir w))"

text \<open>The commands of the shell hooks, with the line they print.\<close>

definition cmd_profile_bin :: "env_ops \<Rightarrow> string \<Rightarrow> env_world \<Rightarrow> string option" where
  "cmd_profile_bin env dir w = (if is_trusted env dir w then profile_bin env dir w else None)"

definition cmd_reload_hook :: "env_ops \<Rightarrow> string \<Rightarrow> env_world \<Rightarrow> (env_error + string option) \<times> env_world" where
  "cmd_reload_hook env dir w =
     (if \<not> is_trusted env dir w then (Ok None, w)
      else case load_from env dir w of
             Inl e \<Rightarrow> (Err e, w)
           | Inr m \<Rightarrow> let w = sync_profile_from_manifest env m dir w in (Ok (profile_bin env dir w), w))"

text \<open>\<open>Ok None\<close>: the command ends with status 1 and prints nothing.\<close>

definition cmd_has_devshell :: "env_ops \<Rightarrow> string \<Rightarrow> shell \<Rightarrow> env_world \<Rightarrow> env_error + string option" where
  "cmd_has_devshell env dir sh w =
     (if \<not> is_trusted env dir w then Ok None
      else case load_from env dir w of
             Inl e \<Rightarrow> Err e
           | Inr m \<Rightarrow> if em_flakes m = [] then Ok None else Ok (fresh_env_script env dir sh w))"

definition cmd_render_env :: "env_ops \<Rightarrow> string \<Rightarrow> shell \<Rightarrow> env_world \<Rightarrow> (env_error + string) \<times> env_world" where
  "cmd_render_env env dir sh w =
     (if \<not> is_trusted env dir w then (Err NotTrusted, w)
      else case load_from env dir w of
             Inl e \<Rightarrow> (Err e, w)
           | Inr m \<Rightarrow>
              if em_flakes m = [] then (Err NoFlakes, w)
              else (case render_dev_env env m dir (sync_profile_from_manifest env m dir w) of
                      (Inl e, w) \<Rightarrow> (Err e, w)
                    | (Inr _, w) \<Rightarrow> (Ok (script_path env dir sh), w)))"

subsection \<open>Only what was approved reaches a shell\<close>

text \<open>A world together with the approvals that stand: directory and content of its manifest.  Files may change at any time.\<close>

type_synonym approvals = "(string \<times> bytes) set"

definition approve :: "env_ops \<Rightarrow> string \<Rightarrow> env_world \<Rightarrow> approvals \<Rightarrow> approvals" where
  "approve env dir w A =
     {a \<in> A. fst a \<noteq> ev_canonical env dir} \<union>
     (case read_env_file env dir ENV_MANIFEST_NAME w of Some f \<Rightarrow> {(ev_canonical env dir, ef_content f)} | None \<Rightarrow> {})"

inductive env_step :: "env_ops \<Rightarrow> env_world \<times> approvals \<Rightarrow> env_world \<times> approvals \<Rightarrow> bool" for env where
  edit: "env_step env (w, A) (w\<lparr>ew_files := fs\<rparr>, A)"
| init: "cmd_init env now fl dir w = (r, w') \<Longrightarrow> env_step env (w, A) (w', A)"
| add: "cmd_add env now names fl dir w = (q, w') \<Longrightarrow> env_step env (w, A) (w', A)"
| remove: "cmd_remove env now names dir w = (q, w') \<Longrightarrow> env_step env (w, A) (w', A)"
| flake_add: "cmd_flake_add env now ref devshell pin inputs dir w = (b, w') \<Longrightarrow> env_step env (w, A) (w', A)"
| flake_remove: "cmd_flake_remove env now ref dir w = (b, w') \<Longrightarrow> env_step env (w, A) (w', A)"
| flake_pin: "cmd_flake_pin env now ref pin dir w = (s, w') \<Longrightarrow> env_step env (w, A) (w', A)"
| clean: "env_step env (w, A) (cmd_clean env dir w, A)"
| allow: "cmd_allow env dir w = (Ok (), w') \<Longrightarrow> env_step env (w, A) (w', approve env dir w A)"
| disallow: "env_step env (w, A) (cmd_disallow env dir w, {a \<in> A. fst a \<noteq> ev_canonical env dir})"
| reload: "cmd_reload env dir w = (Ok (), w') \<Longrightarrow> env_step env (w, A) (w', approve env dir w A)"
| reload_fails: "cmd_reload env dir w = (Err e, w') \<Longrightarrow> env_step env (w, A) (w', A)"
| reload_hook: "cmd_reload_hook env dir w = (p, w') \<Longrightarrow> env_step env (w, A) (w', A)"
| render: "cmd_render_env env dir sh w = (s, w') \<Longrightarrow> env_step env (w, A) (w', A)"

named_theorems env_simps

lemma update_cache_frame [env_simps]:
  "ew_trusted (update_cache env dir f w) = ew_trusted w" "ew_files (update_cache env dir f w) = ew_files w"
  "cache_of env dir (update_cache env dir f w) = f (cache_of env dir w)"
  by (simp_all add: update_cache_def cache_of_def table_simps)

lemma write_frame [env_simps]:
  "ew_trusted (write_env_file env now dir name c w) = ew_trusted w" "ew_trusted (save_to env now dir m w) = ew_trusted w"
  "ew_trusted (write_cache_file env dir name c w) = ew_trusted w" "ew_files (write_cache_file env dir name c w) = ew_files w"
  by (simp_all add: write_env_file_def save_to_def write_cache_file_def env_simps)

lemma install_frame [env_simps]:
  "ew_trusted (snd (nix_install env dir i w)) = ew_trusted w" "ew_files (snd (nix_install env dir i w)) = ew_files w"
  by (simp_all add: nix_install_def env_simps)

lemma sync_frame [env_simps]:
  "ew_trusted (sync_profile_from_manifest env m dir w) = ew_trusted w" "ew_files (sync_profile_from_manifest env m dir w) = ew_files w"
proof -
  have "ew_trusted (fold (\<lambda>i w. snd (nix_install env dir i w)) is w) = ew_trusted w \<and>
      ew_files (fold (\<lambda>i w. snd (nix_install env dir i w)) is w) = ew_files w" for "is" w
    by (induction "is" arbitrary: w) (simp_all add: env_simps)
  then show "ew_trusted (sync_profile_from_manifest env m dir w) = ew_trusted w" "ew_files (sync_profile_from_manifest env m dir w) = ew_files w"
    by (simp_all add: sync_profile_from_manifest_def env_simps)
qed

lemma read_files_cong: "ew_files w' = ew_files w \<Longrightarrow> read_env_file env dir name w' = read_env_file env dir name w"
  by (simp add: read_env_file_def)

lemma render_frame [env_simps]:
  "ew_trusted (snd (render_dev_env env m dir w)) = ew_trusted w" "ew_files (snd (render_dev_env env m dir w)) = ew_files w"
  by (simp_all add: render_dev_env_def Let_def env_simps split: sum.split)

lemma add_packages_frame: "ew_trusted (snd (add_packages env now fl dir names m k w)) = ew_trusted w"
proof (induction names arbitrary: m k w)
  case (Cons name names)
  obtain b w1 where i: "nix_install env dir (resolve_installable \<lparr>ep_name = name, ep_flake = fl\<rparr> m, []) w = (b, w1)" by fastforce
  have "ew_trusted w1 = ew_trusted w" using install_frame(1)[of env dir _ w] i by (metis snd_conv)
  then show ?case using Cons by (cases b) (simp_all add: i Let_def env_simps)
qed simp

lemma remove_packages_frame: "ew_trusted (snd (snd (remove_packages env dir names m k w))) = ew_trusted w"
proof (induction names arbitrary: m k w)
  case (Cons name names)
  obtain b m1 where "manifest_remove name m = (b, m1)" by fastforce
  then show ?case using Cons by (cases b) (simp_all add: env_simps)
qed simp

definition approvals_cover :: "env_ops \<Rightarrow> env_world \<times> approvals \<Rightarrow> bool" where
  "approvals_cover env s \<longleftrightarrow>
     (\<forall>c h. map_of (ew_trusted (fst s)) c = Some h \<longrightarrow> (\<exists>b. (c, b) \<in> snd s \<and> h = take 64 (ev_b3 env b)))"

lemma covered_frame: "approvals_cover env (w, A) \<Longrightarrow> ew_trusted w' = ew_trusted w \<Longrightarrow> approvals_cover env (w', A)"
  by (simp add: approvals_cover_def)

lemma allow_covered:
  assumes "cmd_allow env dir w1 = (Ok (), w')" and "approvals_cover env (w, A)" and "ew_trusted w1 = ew_trusted w" and "ew_files w1 = ew_files w"
  shows "approvals_cover env (w', approve env dir w A)"
proof -
  obtain f where f: "read_env_file env dir ENV_MANIFEST_NAME w = Some f"
      "w' = w1\<lparr>ew_trusted := insert_or_replace (ev_canonical env dir) (take 64 (ev_b3 env (ef_content f))) (ew_trusted w1)\<rparr>"
    using assms(1) read_files_cong[OF assms(4)] by (auto simp: cmd_allow_def trust_allow_def content_hash_def split: option.splits)
  show ?thesis using assms(2,3) by (auto simp: approvals_cover_def f approve_def table_simps)
qed

lemma step_covered:
  assumes "env_step env s s'" and "approvals_cover env s"
  shows "approvals_cover env s'"
  using assms
proof (induction rule: env_step.induct)
  case (allow dir w w' A)
  then show ?case using allow_covered by blast
next
  case (reload dir w w' A)
  then obtain m w1 where w1: "render_dev_env env m dir (sync_profile_from_manifest env m dir w) = (Ok (), w1)" "cmd_allow env dir w1 = (Ok (), w')"
    by (auto simp: cmd_reload_def split: sum.splits prod.splits)
  have "ew_trusted w1 = ew_trusted w" "ew_files w1 = ew_files w"
    using render_frame[of env m dir "sync_profile_from_manifest env m dir w"] w1(1) by (simp_all add: env_simps)
  then show ?case using allow_covered[OF w1(2) reload(2)] by blast
next
  case (reload_fails dir w e w' A)
  have "ew_trusted w' = ew_trusted w"
  proof -
    have "w' = w \<or> (\<exists>m. w' = snd (render_dev_env env m dir (sync_profile_from_manifest env m dir w)))"
      using reload_fails(1) by (auto simp: cmd_reload_def cmd_allow_def split: sum.splits prod.splits) (metis snd_conv)+
    then show ?thesis by (auto simp: env_simps)
  qed
  then show ?case by (rule covered_frame[OF reload_fails(2)])
next
  case (disallow w A dir)
  then show ?case by (auto simp: approvals_cover_def cmd_disallow_def trust_disallow_def table_simps split: if_splits)
next
  case (add now names fl dir w q w' A)
  have "ew_trusted w' = ew_trusted w"
    using add(1) add_packages_frame by (auto simp: cmd_add_def split: sum.splits) (metis snd_conv)
  then show ?case by (rule covered_frame[OF add(2)])
next
  case (remove now names dir w q w' A)
  have "ew_trusted w' = ew_trusted w"
    using remove(1) remove_packages_frame[of env dir names _ 0 w] by (auto simp: cmd_remove_def env_simps split: sum.splits prod.splits) (metis snd_conv)
  then show ?case by (rule covered_frame[OF remove(2)])
next
  case (render dir sh w s w' A)
  have "w' = w \<or> (\<exists>m. w' = snd (render_dev_env env m dir (sync_profile_from_manifest env m dir w)))"
    using render(1) by (auto simp: cmd_render_env_def split: sum.splits prod.splits if_splits) (metis snd_conv)+
  then have "ew_trusted w' = ew_trusted w" by (auto simp: env_simps)
  then show ?case by (rule covered_frame[OF render(2)])
next
  case (edit w A fs)
  then show ?case by (rule covered_frame) simp
next
  case (clean w A dir)
  then show ?case by (rule covered_frame) (simp add: cmd_clean_def)
next
  case (init now fl dir w r w' A)
  have "ew_trusted w' = ew_trusted w" using init(1) by (auto simp: cmd_init_def env_simps split: if_splits)
  then show ?case by (rule covered_frame[OF init(2)])
next
  case (flake_add now ref devshell pin inputs dir w b w' A)
  have "ew_trusted w' = ew_trusted w" using flake_add(1) by (auto simp: cmd_flake_add_def env_simps split: sum.splits prod.splits bool.splits)
  then show ?case by (rule covered_frame[OF flake_add(2)])
next
  case (flake_remove now ref dir w b w' A)
  have "ew_trusted w' = ew_trusted w" using flake_remove(1) by (auto simp: cmd_flake_remove_def env_simps split: sum.splits prod.splits bool.splits)
  then show ?case by (rule covered_frame[OF flake_remove(2)])
next
  case (flake_pin now ref pin dir w s w' A)
  have "ew_trusted w' = ew_trusted w" using flake_pin(1) by (auto simp: cmd_flake_pin_def env_simps split: sum.splits if_splits option.splits)
  then show ?case by (rule covered_frame[OF flake_pin(2)])
next
  case (reload_hook dir w p w' A)
  have "ew_trusted w' = ew_trusted w" using reload_hook(1) by (auto simp: cmd_reload_hook_def env_simps Let_def split: sum.splits if_splits)
  then show ?case by (rule covered_frame[OF reload_hook(2)])
qed

lemma reachable_covered: "(env_step env)\<^sup>*\<^sup>* s s' \<Longrightarrow> approvals_cover env s \<Longrightarrow> approvals_cover env s'"
  by (induction rule: rtranclp_induct) (auto intro: step_covered)

lemma trusted_approved:
  assumes "approvals_cover env (w, A)" and "is_trusted env dir w"
  shows "\<exists>f b. read_env_file env dir ENV_MANIFEST_NAME w = Some f \<and> (ev_canonical env dir, b) \<in> A \<and>
    take 64 (ev_b3 env b) = take 64 (ev_b3 env (ef_content f))"
  using assms by (fastforce simp: is_trusted_def approvals_cover_def content_hash_def split: option.splits)


subsection \<open>Reloading\<close>

lemma fold_installs:
  assumes "\<forall>i \<in> set is. ev_install env i"
  shows "ec_profile (cache_of env dir (fold (\<lambda>i w. snd (nix_install env dir i w)) is w)) =
      (if is = [] then ec_profile (cache_of env dir w)
       else Some ((case ec_profile (cache_of env dir w) of None \<Rightarrow> [] | Some p \<Rightarrow> p) @ is))"
  using assms by (induction "is" arbitrary: w) (simp_all add: nix_install_def env_simps)

lemma sync_profile_exact:
  assumes "\<forall>i \<in> set (manifest_installs env m). ev_install env i" and "manifest_installs env m \<noteq> []"
  shows "ec_profile (cache_of env dir (sync_profile_from_manifest env m dir w)) = Some (manifest_installs env m)"
  using fold_installs[OF assms(1)] assms(2) by (simp add: sync_profile_from_manifest_def env_simps)

text \<open>What a digest is printed as: visible characters.\<close>

definition hex_digests :: "env_ops \<Rightarrow> bool" where
  "hex_digests env \<longleftrightarrow> (\<forall>b. utf8_valid (take 32 (ev_b3 env b)) \<and> (\<forall>c \<in> set (ev_b3 env b). visible c))"

lemma compute_fingerprint_cong: "ew_files w' = ew_files w \<Longrightarrow> compute_fingerprint env dir w' = compute_fingerprint env dir w"
  by (simp add: compute_fingerprint_def read_env_file_def cong: map_cong)

lemma write_cache_files [env_simps]:
  "ec_files (cache_of env dir (write_cache_file env dir name c w)) = insert_or_replace name c (ec_files (cache_of env dir w))"
  "ec_profile (cache_of env dir (write_cache_file env dir name c w)) = ec_profile (cache_of env dir w)"
  by (simp_all add: write_cache_file_def env_simps)

lemma render_files:
  assumes "render_dev_env env m dir w = (Ok (), w')" and "em_flakes m \<noteq> []"
  shows "map_of (ec_files (cache_of env dir w')) ''env.fingerprint'' = Some (compute_fingerprint env dir w)"
    and "map_of (ec_files (cache_of env dir w')) (''env.'' @ shell_name sh) \<noteq> None"
    and "ec_profile (cache_of env dir w') = ec_profile (cache_of env dir w)"
proof -
  obtain b fi v where w': "w' = write_cache_file env dir ''env.fingerprint'' (compute_fingerprint env dir v)
      (write_cache_file env dir ''env.fish'' fi (write_cache_file env dir ''env.zsh'' b (write_cache_file env dir ''env.bash'' b w)))"
      and v: "ew_files v = ew_files w"
    using assms unfolding render_dev_env_def Let_def by (auto simp: env_simps split: sum.splits if_splits)
  have fp: "compute_fingerprint env dir v = compute_fingerprint env dir w" by (rule compute_fingerprint_cong[OF v])
  show "map_of (ec_files (cache_of env dir w')) ''env.fingerprint'' = Some (compute_fingerprint env dir w)"
    by (simp add: w' env_simps table_simps fp)
  show "map_of (ec_files (cache_of env dir w')) (''env.'' @ shell_name sh) \<noteq> None"
    by (cases sh) (simp_all add: w' env_simps table_simps shell_name_def)
  show "ec_profile (cache_of env dir w') = ec_profile (cache_of env dir w)" by (simp add: w' env_simps)
qed

lemma reload_current:
  assumes "load_from env dir w = Ok m" and "em_flakes m \<noteq> []" and "\<forall>i \<in> set (manifest_installs env m). ev_install env i"
    and "merge_flakes env (em_flakes m) \<lparr>me_vars = [], me_path = [], me_functions = []\<rparr> = Ok me" and "hex_digests env"
  shows "\<exists>w'. cmd_reload env dir w = (Ok (), w') \<and> ec_profile (cache_of env dir w') = Some (manifest_installs env m) \<and> is_trusted env dir w' \<and>
    (\<forall>sh fs. map_option ef_content (map_of fs (ev_canonical env dir, ENV_MANIFEST_NAME)) =
        map_option ef_content (read_env_file env dir ENV_MANIFEST_NAME w) \<longrightarrow>
      cmd_has_devshell env dir sh (w'\<lparr>ew_files := fs\<rparr>) =
        Ok (if compute_fingerprint env dir (w'\<lparr>ew_files := fs\<rparr>) = compute_fingerprint env dir w then Some (script_path env dir sh) else None))"
proof -
  let ?w1 = "sync_profile_from_manifest env m dir w"
  obtain w2 where w2: "render_dev_env env m dir ?w1 = (Ok (), w2)"
    using assms(2,4) by (simp add: render_dev_env_def Let_def)
  have frame: "ew_files w2 = ew_files w" using render_frame(2)[of env m dir ?w1] by (simp add: w2 env_simps)
  obtain f where f: "read_env_file env dir ENV_MANIFEST_NAME w = Some f" using assms(1) by (auto simp: load_from_def split: option.splits)
  define h where "h = take 64 (ev_b3 env (ef_content f))"
  define w' where "w' = w2\<lparr>ew_trusted := insert_or_replace (ev_canonical env dir) h (ew_trusted w2)\<rparr>"
  have run: "cmd_reload env dir w = (Ok (), w')"
    by (simp add: cmd_reload_def assms(1) w2 cmd_allow_def trust_allow_def content_hash_def read_files_cong[OF frame] f w'_def h_def)
  have cache: "cache_of env dir w' = cache_of env dir w2" by (simp add: w'_def cache_of_def)
  have "manifest_installs env m \<noteq> []" using assms(2) by (simp add: manifest_installs_def)
  then have prof: "ec_profile (cache_of env dir w') = Some (manifest_installs env m)"
    unfolding cache render_files(3)[OF w2 assms(2)] by (rule sync_profile_exact[OF assms(3)])
  have fp: "map_of (ec_files (cache_of env dir w')) ''env.fingerprint'' = Some (compute_fingerprint env dir w)"
    unfolding cache render_files(1)[OF w2 assms(2)] by (rule arg_cong[of _ _ Some], rule compute_fingerprint_cong) (simp add: env_simps)
  have vis: "trim (compute_fingerprint env dir w) = compute_fingerprint env dir w" "utf8_valid (compute_fingerprint env dir w)"
    using assms(5) trim_visible(1)[of "compute_fingerprint env dir w"] by (auto simp: hex_digests_def compute_fingerprint_def dest!: in_set_takeD)
  have sh: "map_of (ec_files (cache_of env dir w')) (''env.'' @ shell_name sh) \<noteq> None" for sh
    unfolding cache by (rule render_files(2)[OF w2 assms(2)])
  have dev: "cmd_has_devshell env dir sh (w'\<lparr>ew_files := fs\<rparr>) =
        Ok (if compute_fingerprint env dir (w'\<lparr>ew_files := fs\<rparr>) = compute_fingerprint env dir w then Some (script_path env dir sh) else None)"
    if same: "map_option ef_content (map_of fs (ev_canonical env dir, ENV_MANIFEST_NAME)) = map_option ef_content (read_env_file env dir ENV_MANIFEST_NAME w)" for sh fs
  proof -
    let ?v = "w'\<lparr>ew_files := fs\<rparr>"
    obtain f' where f': "read_env_file env dir ENV_MANIFEST_NAME ?v = Some f'" "ef_content f' = ef_content f"
      using same f by (auto simp: read_env_file_def)
    have t: "is_trusted env dir ?v" using f' by (simp add: is_trusted_def content_hash_def w'_def table_simps h_def)
    have l: "load_from env dir ?v = Ok m" using assms(1) unfolding load_from_def f f'(1) option.case f'(2) .
    have c: "cache_of env dir ?v = cache_of env dir w'" by (simp add: cache_of_def)
    show ?thesis using sh[of sh] by (auto simp: cmd_has_devshell_def t l assms(2) fresh_env_script_def is_env_fresh_def c fp vis)
  qed
  have "is_trusted env dir w'"
    by (simp add: is_trusted_def content_hash_def w'_def table_simps h_def read_env_file_def frame) (use f in \<open>simp add: read_env_file_def\<close>)
  then show ?thesis using run prof dev by blast
qed

text \<open>Reloading makes the environment current.  When Nix builds everything, the profile of the directory holds the manifest's
  shells and packages in order and nothing else, the manifest is trusted, and every shell is given its script for as
  long as the manifest's content is the same and exactly while the fingerprint of the files is.\<close>

theorem reload_makes_current:
  assumes "load_from env dir w = Ok m" and "em_flakes m \<noteq> []" and "\<forall>i \<in> set (manifest_installs env m). ev_install env i"
    and "merge_flakes env (em_flakes m) \<lparr>me_vars = [], me_path = [], me_functions = []\<rparr> = Ok me" and "hex_digests env"
  shows "\<exists>w'. cmd_reload env dir w = (Ok (), w') \<and> ec_profile (cache_of env dir w') = Some (manifest_installs env m) \<and> is_trusted env dir w' \<and>
    (\<forall>sh fs. map_option ef_content (map_of fs (ev_canonical env dir, ENV_MANIFEST_NAME)) =
        map_option ef_content (read_env_file env dir ENV_MANIFEST_NAME w) \<longrightarrow>
      cmd_has_devshell env dir sh (w'\<lparr>ew_files := fs\<rparr>) =
        Ok (if compute_fingerprint env dir (w'\<lparr>ew_files := fs\<rparr>) = compute_fingerprint env dir w then Some (script_path env dir sh) else None))"
  using assms by (rule reload_current)

subsection \<open>Quoting\<close>

text \<open>The shells are not modelled: what is shown of an escaped value is which of its characters a backslash precedes.\<close>

definition bash_unit :: "char \<Rightarrow> string" where
  "bash_unit c = (if c = BACKSLASH then [BACKSLASH, BACKSLASH] else if c = QUOTE then [BACKSLASH, QUOTE] else [c])"

definition fish_unit :: "char \<Rightarrow> string" where
  "fish_unit c = (if c = BACKSLASH then [BACKSLASH, BACKSLASH] else if c = SQUOTE then [BACKSLASH, SQUOTE] else [c])"

lemma escape_bash_units: "escape_bash v = concat (map bash_unit v)"
  unfolding escape_bash_def str_replace_char by (induction v) (simp_all add: bash_unit_def)

lemma escape_fish_units: "escape_fish v = concat (map fish_unit v)"
  unfolding escape_fish_def str_replace_char by (induction v) (simp_all add: fish_unit_def)

lemma shell_units:
  "\<forall>u \<in> set (map bash_unit v). escape_unit u" "[QUOTE] \<notin> set (map bash_unit v)"
  "\<forall>u \<in> set (map fish_unit v). escape_unit u" "[SQUOTE] \<notin> set (map fish_unit v)"
  by (auto simp: bash_unit_def fish_unit_def escape_unit_def)

lemma bash_end: "\<not> escaped_after (escape_bash v)"
  unfolding escape_bash_units using units_end[OF shell_units(1) escaped_after_simps(1)] by simp

text \<open>Values of a development shell are expanded by bash.  Both scripts put a value between quotes: every quote of its kind
  inside has an odd number of backslashes in front of it, and the closing one an even number.  That makes
  the value inert between the single quotes of fish; between the double quotes of bash and zsh it does not: a dollar sign
  before an opening parenthesis, and a backquote, stay where they are with an even number of backslashes in front of
  them, so the shell that sources the script begins a command substitution there.\<close>

theorem bash_values_are_expanded:
  "fish_line (name, ''exported'', v) = ''set -gx '' @ name @ '' '' @ SQUOTE # escape_fish v @ [SQUOTE] \<and>
   (\<forall>a b. escape_fish v = a @ SQUOTE # b \<longrightarrow> escaped_after a) \<and> \<not> escaped_after (escape_fish v) \<and>
   bash_line (name, ''exported'', v) = ''export '' @ name @ ''='' @ QUOTE # escape_bash v @ [QUOTE] \<and>
   (\<forall>a b. escape_bash v = a @ QUOTE # b \<longrightarrow> escaped_after a) \<and> \<not> escaped_after (escape_bash v) \<and>
   (\<forall>a command. v = a @ ''$('' @ command \<longrightarrow>
      escape_bash v = escape_bash a @ ''$('' @ escape_bash command \<and> \<not> escaped_after (escape_bash a)) \<and>
   (\<forall>a command. v = a @ CHR 0x60 # command \<longrightarrow>
      escape_bash v = escape_bash a @ CHR 0x60 # escape_bash command \<and> \<not> escaped_after (escape_bash a))"
proof (intro conjI allI impI)
  show "fish_line (name, ''exported'', v) = ''set -gx '' @ name @ '' '' @ SQUOTE # escape_fish v @ [SQUOTE]" by (simp add: fish_line_def)
  show "bash_line (name, ''exported'', v) = ''export '' @ name @ ''='' @ QUOTE # escape_bash v @ [QUOTE]" by (simp add: bash_line_def)
  show "escaped_after a" if "escape_fish v = a @ SQUOTE # b" for a b
    using units_escaped[OF shell_units(3,4) _ escaped_after_simps(1), where a = a and b = b] that by (simp add: escape_fish_units)
  show "escaped_after a" if "escape_bash v = a @ QUOTE # b" for a b
    using units_escaped[OF shell_units(1,2) _ escaped_after_simps(1), where a = a and b = b] that by (simp add: escape_bash_units)
  show "\<not> escaped_after (escape_fish v)"
    unfolding escape_fish_units using units_end[OF shell_units(3) escaped_after_simps(1)] by simp
  show "\<not> escaped_after (escape_bash v)" by (rule bash_end)
  show "escape_bash v = escape_bash a @ ''$('' @ escape_bash command" if "v = a @ ''$('' @ command" for a command
    unfolding escape_bash_units that by (simp add: bash_unit_def)
  show "escape_bash v = escape_bash a @ CHR 0x60 # escape_bash command" if "v = a @ CHR 0x60 # command" for a command
    unfolding escape_bash_units that by (simp add: bash_unit_def)
  show "\<not> escaped_after (escape_bash a)" if "v = a @ ''$('' @ command" for a command by (rule bash_end)
  show "\<not> escaped_after (escape_bash a)" if "v = a @ CHR 0x60 # command" for a command by (rule bash_end)
qed

subsection \<open>Concrete inputs\<close>

definition sample_shell :: env_flake where
  "sample_shell = \<lparr>fl_ref = ''.'', fl_devshell = ''default'', fl_rev = None, fl_inputs = []\<rparr>"

definition sample_project :: env_manifest where
  "sample_project = \<lparr>em_version = 1, em_flake = ''nixpkgs'', em_packages = [\<lparr>ep_name = ''jq'', ep_flake = None\<rparr>], em_flakes = [sample_shell]\<rparr>"

definition sample_ops :: env_ops where
  "sample_ops = \<lparr>ev_canonical = (\<lambda>p. p), ev_b3 = (\<lambda>b. show_nat (length b)), ev_parse = (\<lambda>_. Some sample_project), ev_print = (\<lambda>_. ''x''),
     ev_install = (\<lambda>_. True), ev_uninstall = (\<lambda>n p. filter (\<lambda>i. fst i \<noteq> n) p), ev_has_bin = (\<lambda>p. p \<noteq> []),
     ev_dev_env = (\<lambda>_. Some \<lparr>de_variables = [(''CC'', (''exported'', ''gcc''))], de_functions = []\<rparr>),
     ev_revision = (\<lambda>_. None), ev_order = (\<lambda>ks. ks), ev_system = ''x86_64-linux'', ev_cache_dir = ''/cache''\<rparr>"

definition sample_world :: env_world where
  "sample_world = \<lparr>ew_files = [((''/p'', ENV_MANIFEST_NAME), \<lparr>ef_content = ''x'', ef_modified = 7\<rparr>)], ew_trusted = [], ew_caches = []\<rparr>"

lemma sample_load: "load_from sample_ops ''/p'' sample_world = Ok sample_project"
  by (simp add: load_from_def read_env_file_def sample_world_def sample_ops_def utf8_valid_def)

lemma sample_merge: "\<exists>me. merge_flakes sample_ops (em_flakes sample_project) \<lparr>me_vars = [], me_path = [], me_functions = []\<rparr> = Ok me"
  by (simp add: sample_project_def sample_ops_def)

lemma sample_hex: "hex_digests sample_ops"
proof -
  have d: "\<forall>c \<in> set (show_nat n). is_ascii_digit c" for n using show_nat_digits[of n] by (simp add: list_all_iff)
  then have "\<forall>c \<in> set (take 32 (show_nat n)). is_ascii_digit c" for n by (meson in_set_takeD)
  then have "utf8_valid (take 32 (show_nat n))" for n unfolding utf8_valid_def by (intro utf8_ok_ascii) (fastforce simp: is_ascii_digit_def)
  moreover have "visible c" if "is_ascii_digit c" for c using that by (auto simp: visible_def is_ascii_digit_def)
  ultimately show ?thesis using d by (auto simp: hex_digests_def sample_ops_def)
qed

lemma sample_installs: "\<forall>i \<in> set (manifest_installs sample_ops sample_project). ev_install sample_ops i" "em_flakes sample_project \<noteq> []"
  by (simp_all add: sample_ops_def sample_project_def)

theorem reload_makes_current_witness:
  "\<exists>w'. cmd_reload sample_ops ''/p'' sample_world = (Ok (), w') \<and>
     ec_profile (cache_of sample_ops ''/p'' w') = Some (manifest_installs sample_ops sample_project) \<and> is_trusted sample_ops ''/p'' w'"
proof -
  obtain me where "merge_flakes sample_ops (em_flakes sample_project) \<lparr>me_vars = [], me_path = [], me_functions = []\<rparr> = Ok me"
    using sample_merge by blast
  from reload_makes_current[OF sample_load sample_installs(2,1) this sample_hex] show ?thesis by blast
qed


theorem bash_values_are_expanded_witness:
  "escape_bash ''a$(id)'' = ''a$(id)''"
  using bash_values_are_expanded[of "''CC''" "''a$(id)''"]
  by (simp add: escape_bash_units bash_unit_def)

end
