(* ===== verification/HomeApply.thy ===== *)
theory HomeApply
  imports NixExpr Strings
begin

text \<open>
  \<open>ekapkgs home services apply\<close> (\<open>crates/ekapkgs/src/commands/home.rs\<close>): from the manifest and the user's unit directory
  to the directory it leaves and the commands it gives systemd.  The directory is a table from file names to
  contents.  The Nix build, the search for a command's binary, the order in which a hash set is walked and
  whether systemd can start a unit are parameters; reading, writing and removing files succeeds.
\<close>

subsection \<open>Unit files\<close>

type_synonym unit_dir = "(string, string) table"

definition MANAGED_MARKER :: string where
  "MANAGED_MARKER = ''# ekapkgs-managed''"

definition MANAGED_UNIT_SUFFIXES :: "string list" where
  "MANAGED_UNIT_SUFFIXES = [''.service'', ''.socket'', ''.timer'']"

definition is_managed_unit_file :: "string \<Rightarrow> bool" where
  "is_managed_unit_file name \<longleftrightarrow> list_ex (\<lambda>s. strip_suffix s name \<noteq> None) MANAGED_UNIT_SUFFIXES"

definition strip_unit_suffix :: "string \<Rightarrow> string" where
  "strip_unit_suffix name = (case List.map_filter (\<lambda>s. strip_suffix s name) MANAGED_UNIT_SUFFIXES of [] \<Rightarrow> name | base # _ \<Rightarrow> base)"

text \<open>The logical service a managed unit file belongs to, from its first line or else its name.\<close>

definition unit_service :: "string \<Rightarrow> string \<Rightarrow> string option" where
  "unit_service name contents =
     (if strip_prefix MANAGED_MARKER contents = None then None
      else let first_line = (case lines contents of [] \<Rightarrow> [] | l # _ \<Rightarrow> l)
           in Some (case strip_prefix MANAGED_MARKER first_line of
                      Some rest \<Rightarrow> (case strip_prefix ''service='' (trim rest) of Some s \<Rightarrow> trim s | None \<Rightarrow> strip_unit_suffix name)
                    | None \<Rightarrow> strip_unit_suffix name))"

definition installed_managed_units :: "unit_dir \<Rightarrow> string list" where
  "installed_managed_units dir =
     remdups (List.map_filter (\<lambda>(name, c). if is_managed_unit_file name then unit_service name c else None) dir)"

definition installed_managed_unit_files :: "unit_dir \<Rightarrow> string list" where
  "installed_managed_unit_files dir =
     map fst (filter (\<lambda>(name, c). is_managed_unit_file name \<and> strip_prefix MANAGED_MARKER c \<noteq> None) dir)"

definition belongs_to :: "string \<Rightarrow> string \<Rightarrow> bool" where
  "belongs_to svc base \<longleftrightarrow> base = svc \<or> strip_prefix (svc @ ''-'') base \<noteq> None"

subsection \<open>Building\<close>

definition as_str :: "toml option \<Rightarrow> string option" where
  "as_str v = (case v of Some (TString s) \<Rightarrow> Some s | _ \<Rightarrow> None)"

text \<open>\<open>ap_order\<close> is the order in which one run goes through its set of enabled names: the set is a hash set
  with a key of its own in every process, so another run is another environment.\<close>

record apply_env =
  ap_build :: "home_services \<Rightarrow> (string \<times> string) list option"
  ap_resolve :: "string \<Rightarrow> string \<Rightarrow> string \<Rightarrow> string"
  ap_order :: "string list \<Rightarrow> string list"
  ap_starts :: "string \<Rightarrow> bool"

text \<open>The literal of the source: a backslash, a line break and the indentation stand where \<open>\n\<close> is meant.\<close>

definition unit_text :: "string \<Rightarrow> string \<Rightarrow> string \<Rightarrow> string" where
  "unit_text description exec_start stop_signal =
     ''[Unit]'' @ [NL] @ ''Description='' @ description @ [NL, NL] @ ''[Service]'' @ [NL] @ ''Type=simple'' @ [NL] @
     ''ExecStart='' @ exec_start @ [BACKSLASH, NL] @
     ''         nRestart=on-failure'' @ [NL] @ ''RestartSec=5'' @ [NL] @ ''KillSignal='' @ stop_signal @ [NL, NL] @ ''[Install]'' @ [BACKSLASH, NL] @
     ''         nWantedBy=default.target'' @ [NL]"

definition generate_direct_unit_file :: "apply_env \<Rightarrow> service_entry \<Rightarrow> string \<Rightarrow> string option" where
  "generate_direct_unit_file env e manifest_flake =
     map_option (\<lambda>command.
       let args = (case as_str (map_of (se_config e) ''args'') of None \<Rightarrow> [] | Some a \<Rightarrow> a);
           description = (case as_str (map_of (se_config e) ''description'') of None \<Rightarrow> se_name e | Some d \<Rightarrow> d);
           flake = (case se_flake e of None \<Rightarrow> manifest_flake | Some f \<Rightarrow> f);
           resolved = ap_resolve env (se_name e) command flake;
           exec_start = (if args = [] then resolved else resolved @ '' '' @ args);
           stop_signal = (case as_str (map_of (se_config e) ''stop_signal'') of None \<Rightarrow> ''SIGTERM'' | Some s \<Rightarrow> s)
       in unit_text description exec_start stop_signal)
       (as_str (map_of (se_config e) ''command''))"

definition is_direct :: "service_entry \<Rightarrow> bool" where
  "is_direct e \<longleftrightarrow> as_str (map_of (se_config e) ''command'') \<noteq> None"

text \<open>The temporary directory: unit files generated for services with a command, then what the Nix build of all enabled
  services made, if one of them has no command.\<close>

definition direct_units :: "apply_env \<Rightarrow> home_services \<Rightarrow> service_entry list \<Rightarrow> unit_dir" where
  "direct_units env m es =
     fold (\<lambda>e d. case generate_direct_unit_file env e (hs_flake m) of None \<Rightarrow> d | Some t \<Rightarrow> insert_or_replace (se_name e @ ''.service'') t d) es []"

definition built_units :: "apply_env \<Rightarrow> home_services \<Rightarrow> unit_dir option" where
  "built_units env m =
     (let enabled = filter se_enable (hs_services m);
          direct = direct_units env m (filter is_direct enabled)
      in if filter (\<lambda>e. \<not> is_direct e) enabled = [] then Some direct
         else map_option (\<lambda>files. fold (\<lambda>(name, c). insert_or_replace name c) (filter (\<lambda>r. is_managed_unit_file (fst r)) files) direct)
                (ap_build env m))"

subsection \<open>Applying\<close>

datatype unit_action =
    Stop string
  | Disable string
  | Enable string
  | Restart string
  | DaemonReload

datatype apply_error =
    BuildFailed
  | StartFailed "string list"

datatype apply_result =
    NothingToApply
  | DryRun (to_add: "string list") (to_update: "string list") (to_remove: "string list")
  | Applied

text \<open>Phase 1 for one service: its three units are stopped, then the files that belong to it by name are removed.\<close>

definition remove_unit :: "string \<Rightarrow> unit_dir \<times> unit_action list \<Rightarrow> unit_dir \<times> unit_action list" where
  "remove_unit f dl =
     (case dl of (dir, log) \<Rightarrow> if map_of dir f = None then (dir, log) else (delete_key f dir, log @ [Stop f, Disable f]))"

definition remove_service :: "string list \<Rightarrow> string \<Rightarrow> unit_dir \<times> unit_action list \<Rightarrow> unit_dir \<times> unit_action list" where
  "remove_service existing name dl =
     fold remove_unit (filter (\<lambda>f. belongs_to name (strip_unit_suffix f)) existing)
       (fst dl, snd dl @ concat (map (\<lambda>s. [Stop (name @ s), Disable (name @ s)]) MANAGED_UNIT_SUFFIXES))"

definition owning_service :: "apply_env \<Rightarrow> string list \<Rightarrow> string \<Rightarrow> string" where
  "owning_service env names f =
     (case List.find (\<lambda>svc. belongs_to svc (strip_unit_suffix f)) (ap_order env names) of Some svc \<Rightarrow> svc | None \<Rightarrow> strip_unit_suffix f)"

definition marked :: "string \<Rightarrow> string \<Rightarrow> string" where
  "marked owner contents = MANAGED_MARKER @ '' service='' @ owner @ [NL] @ contents"

text \<open>Phase 3: the built files are written with their marker, then managed files of enabled services that were not built go.\<close>

definition install_unit :: "apply_env \<Rightarrow> string list \<Rightarrow> string \<times> string \<Rightarrow> unit_dir \<Rightarrow> unit_dir" where
  "install_unit env names r dir =
     (if is_managed_unit_file (fst r) then insert_or_replace (fst r) (marked (owning_service env names (fst r)) (snd r)) dir else dir)"

definition remove_stale :: "string list \<Rightarrow> unit_dir \<Rightarrow> string list \<Rightarrow> unit_dir \<times> unit_action list \<Rightarrow> unit_dir \<times> unit_action list" where
  "remove_stale names built existing dl =
     fold remove_unit
       (filter (\<lambda>f. list_ex (\<lambda>svc. belongs_to svc (strip_unit_suffix f)) names \<and> map_of built f = None) existing) dl"

text \<open>Phase 4 for one service.\<close>

definition start_service :: "apply_env \<Rightarrow> unit_dir \<Rightarrow> string \<Rightarrow> string list \<times> unit_action list \<Rightarrow> string list \<times> unit_action list" where
  "start_service env built name fl =
     (let log = snd fl @ [Enable (name @ ''.service'')] @
            concat (map (\<lambda>s. if map_of built (name @ s) \<noteq> None then [Enable (name @ s), Restart (name @ s)] else []) [''.socket'', ''.timer'']) @
            [Restart (name @ ''.service'')]
      in (if ap_starts env name then fst fl else fst fl @ [name], log))"

definition cmd_services_apply ::
  "apply_env \<Rightarrow> bool \<Rightarrow> home_services \<Rightarrow> unit_dir \<Rightarrow> (apply_error + apply_result) \<times> unit_dir \<times> unit_action list" where
  "cmd_services_apply env dry_run m dir =
     (let enabled = filter se_enable (hs_services m);
          current = installed_managed_units dir;
          desired = remdups (map se_name enabled);
          adds = filter (\<lambda>n. n \<notin> set current) desired;
          removes = filter (\<lambda>n. n \<notin> set desired) current;
          updates = filter (\<lambda>n. n \<in> set current) desired
      in if enabled = [] \<and> removes = [] then (Ok NothingToApply, dir, [])
         else if dry_run then (Ok (DryRun adds updates removes), dir, [])
         else let existing = installed_managed_unit_files dir;
                  (dir, log) = fold (remove_service existing) removes (dir, [])
              in if enabled = [] then (Ok Applied, dir, log @ [DaemonReload])
                 else case built_units env m of
                        None \<Rightarrow> (Err BuildFailed, dir, log)
                      | Some built \<Rightarrow>
                         (let dir = fold (install_unit env desired) built dir;
                              (dir, log) = remove_stale desired built existing (dir, log);
                              (failed, log) = fold (start_service env built) (map se_name enabled) ([], log @ [DaemonReload])
                          in (if failed = [] then Ok Applied else Err (StartFailed failed), dir, log)))"

subsection \<open>Directories after each phase\<close>

lemma strip_prefix_None: "strip_prefix p s = None \<longleftrightarrow> (\<forall>t. s \<noteq> p @ t)"
  using strip_prefix_Some[of p s] by (metis option.exhaust option.distinct(1))

lemma map_of_remove_units: "map_of (fst (fold remove_unit fs dl)) f = (if f \<in> set fs then None else map_of (fst dl) f)"
proof (induction fs arbitrary: dl)
  case (Cons g fs)
  have "map_of (fst (remove_unit g dl)) f = (if f = g then None else map_of (fst dl) f)" for f
    by (cases dl) (auto simp: remove_unit_def table_simps)
  then show ?case using Cons by simp
qed simp

lemma wf_remove_units: "wf_table (fst dl) \<Longrightarrow> wf_table (fst (fold remove_unit fs dl))"
proof (induction fs arbitrary: dl)
  case (Cons g fs)
  have "wf_table (fst (remove_unit g dl))" using Cons.prems by (cases dl) (auto simp: remove_unit_def)
  then show ?case using Cons.IH by simp
qed simp

lemma map_of_remove_services:
  "map_of (fst (fold (remove_service existing) names dl)) f =
    (if f \<in> set existing \<and> (\<exists>n \<in> set names. belongs_to n (strip_unit_suffix f)) then None else map_of (fst dl) f)"
proof (induction names arbitrary: dl)
  case (Cons n names)
  show ?case unfolding fold_simps Cons.IH by (auto simp: remove_service_def map_of_remove_units)
qed simp

lemma wf_remove_services: "wf_table (fst dl) \<Longrightarrow> wf_table (fst (fold (remove_service existing) names dl))"
proof (induction names arbitrary: dl)
  case (Cons n names)
  have "wf_table (fst (remove_service existing n dl))" using Cons.prems unfolding remove_service_def by (intro wf_remove_units) simp
  then show ?case using Cons.IH by simp
qed simp

lemma map_of_install:
  "wf_table built \<Longrightarrow> \<forall>r \<in> set built. is_managed_unit_file (fst r) \<Longrightarrow>
    map_of (fold (install_unit env names) built dir) f =
      (case map_of built f of Some c \<Rightarrow> Some (marked (owning_service env names f) c) | None \<Rightarrow> map_of dir f)"
proof (induction built arbitrary: dir)
  case (Cons r built)
  have "wf_table built" "fst r \<notin> fst ` set built" using Cons.prems(1) by (auto simp: wf_table_def)
  moreover then have "f = fst r \<Longrightarrow> map_of built f = None" by (simp add: map_of_eq_None_iff)
  ultimately show ?case using Cons by (cases r) (auto simp: install_unit_def table_simps split: option.split)
qed simp

lemma wf_install: "wf_table dir \<Longrightarrow> wf_table (fold (install_unit env names) built dir)"
  by (induction built arbitrary: dir) (auto simp: install_unit_def)

lemma service_suffix_managed: "is_managed_unit_file (n @ ''.service'')"
  by (simp add: is_managed_unit_file_def MANAGED_UNIT_SUFFIXES_def strip_suffix_def)

lemma built_units_ok:
  assumes "built_units env m = Some built"
  shows "wf_table built \<and> (\<forall>r \<in> set built. is_managed_unit_file (fst r))"
proof -
  let ?ok = "\<lambda>d. wf_table d \<and> (\<forall>r \<in> set d. is_managed_unit_file (fst r))"
  have insert: "?ok (insert_or_replace f c d)" if "?ok d" "is_managed_unit_file f" for f d and c :: string
    using that by (auto simp: table_simps)
  have "?ok d \<Longrightarrow> ?ok (fold (\<lambda>e d. case generate_direct_unit_file env e fl of None \<Rightarrow> d
      | Some t \<Rightarrow> insert_or_replace (se_name e @ ''.service'') t d) es d)" for es fl d
  proof (induction es arbitrary: d)
    case (Cons e es)
    have "?ok (case generate_direct_unit_file env e fl of None \<Rightarrow> d | Some t \<Rightarrow> insert_or_replace (se_name e @ ''.service'') t d)"
      using insert[OF Cons.prems service_suffix_managed] Cons.prems by (cases "generate_direct_unit_file env e fl") simp_all
    then show ?case using Cons.IH by simp
  qed simp
  from this[of "[]"] have direct: "?ok (direct_units env m es)" for es by (simp add: direct_units_def)
  have "?ok d \<Longrightarrow> \<forall>r \<in> set files. is_managed_unit_file (fst r) \<Longrightarrow> ?ok (fold (\<lambda>(name, c). insert_or_replace name c) files d)"
    for files :: "(string \<times> string) list" and d
  proof (induction files arbitrary: d)
    case (Cons r files)
    have "is_managed_unit_file (fst r)" using Cons.prems(2) by simp
    from insert[OF Cons.prems(1) this] have "?ok (insert_or_replace (fst r) (snd r) d)" .
    then show ?case using Cons by (simp add: split_def)
  qed simp
  note nix = this[OF direct]
  show ?thesis
  proof (cases "filter (\<lambda>e. \<not> is_direct e) (filter se_enable (hs_services m)) = []")
    case True
    then have "built = direct_units env m (filter is_direct (filter se_enable (hs_services m)))"
      using assms unfolding built_units_def Let_def by simp
    then show ?thesis using direct by blast
  next
    case False
    then obtain files where "built = fold (\<lambda>(name, c). insert_or_replace name c) (filter (\<lambda>r. is_managed_unit_file (fst r)) files)
        (direct_units env m (filter is_direct (filter se_enable (hs_services m))))"
      using assms unfolding built_units_def Let_def if_not_P[OF False] by blast
    moreover have "\<forall>r \<in> set (filter (\<lambda>r. is_managed_unit_file (fst r)) files). is_managed_unit_file (fst r)" by simp
    ultimately show ?thesis using nix by blast
  qed
qed

subsection \<open>The marker\<close>

lemma unit_service_line:
  assumes "lines c = (MANAGED_MARKER @ w) # ls" and "strip_prefix MANAGED_MARKER c \<noteq> None" and "strip_prefix ''service='' (trim w) = Some svc"
    and "trim svc = svc"
  shows "unit_service f c = Some svc"
proof -
  have "strip_prefix MANAGED_MARKER (MANAGED_MARKER @ w) = Some w" by (simp add: strip_prefix_Some)
  then show ?thesis using assms by (simp add: unit_service_def)
qed

lemma unit_service_marked:
  assumes "\<forall>c \<in> set svc. visible c"
  shows "unit_service f (marked svc c) = Some svc"
proof -
  have "\<not> visible NL" "\<not> visible CR" by (simp_all add: visible_def)
  then have no: "NL \<notin> set svc" "svc = [] \<or> last svc \<noteq> CR" using assms last_in_set[of svc] by metis+
  then have "lines ((MANAGED_MARKER @ '' service='' @ svc) @ NL # c) = (MANAGED_MARKER @ '' service='' @ svc) # lines c"
    by (intro lines_line) (auto simp: MANAGED_MARKER_def)
  then have l: "lines (marked svc c) = (MANAGED_MARKER @ '' service='' @ svc) # lines c" by (simp add: marked_def)
  have "marked svc c = MANAGED_MARKER @ ('' service='' @ svc @ [NL] @ c)" by (simp add: marked_def)
  then have p: "strip_prefix MANAGED_MARKER (marked svc c) \<noteq> None" by (metis strip_prefix_Some option.distinct(1))
  have "trim ('' service='' @ svc) = ''service='' @ svc"
    using trim_visible(2)[of "''service='' @ svc"] assms by (auto simp: visible_def)
  then have "strip_prefix ''service='' (trim ('' service='' @ svc)) = Some svc" by (metis strip_prefix_Some)
  then show ?thesis by (rule unit_service_line[OF l p _ trim_visible(1)[OF assms]])
qed

lemma unit_service_Some: "(unit_service f c \<noteq> None) = (strip_prefix MANAGED_MARKER c \<noteq> None)"
  by (simp add: unit_service_def Let_def)

lemma strip_unit_suffix_visible: "\<forall>c \<in> set f. visible c \<Longrightarrow> \<forall>c \<in> set (strip_unit_suffix f). visible c"
  by (auto simp: strip_unit_suffix_def MANAGED_UNIT_SUFFIXES_def List.map_filter_def strip_suffix_def dest: in_set_takeD)

text \<open>Directories in which every managed file belongs, by name, to the service its marker names.\<close>

definition unit_dir_ok :: "unit_dir \<Rightarrow> bool" where
  "unit_dir_ok dir \<longleftrightarrow> wf_table dir \<and>
     (\<forall>f c svc. map_of dir f = Some c \<longrightarrow> is_managed_unit_file f \<longrightarrow> unit_service f c = Some svc \<longrightarrow> belongs_to svc (strip_unit_suffix f))"

lemma existing_iff:
  "wf_table dir \<Longrightarrow> f \<in> set (installed_managed_unit_files dir) \<longleftrightarrow>
    is_managed_unit_file f \<and> (\<exists>c. map_of dir f = Some c \<and> strip_prefix MANAGED_MARKER c \<noteq> None)"
  by (auto simp: installed_managed_unit_files_def wf_map_of image_iff)

lemma current_iff:
  "wf_table dir \<Longrightarrow> svc \<in> set (installed_managed_units dir) \<longleftrightarrow>
    (\<exists>f c. map_of dir f = Some c \<and> is_managed_unit_file f \<and> unit_service f c = Some svc)"
  by (force simp: installed_managed_units_def wf_map_of List.map_filter_def split: if_splits)

lemma existing_owner:
  assumes "unit_dir_ok dir" and "f \<in> set (installed_managed_unit_files dir)"
  shows "\<exists>svc \<in> set (installed_managed_units dir). belongs_to svc (strip_unit_suffix f)"
proof -
  have wf: "wf_table dir" using assms(1) by (simp add: unit_dir_ok_def)
  obtain c where c: "is_managed_unit_file f" "map_of dir f = Some c" "unit_service f c \<noteq> None"
    using assms(2) existing_iff[OF wf] unit_service_Some by blast
  then obtain svc where "unit_service f c = Some svc" by blast
  then show ?thesis using c assms(1) current_iff[OF wf] unfolding unit_dir_ok_def by blast
qed

lemma owning_service_belongs: "belongs_to (owning_service env names f) (strip_unit_suffix f)"
  by (auto simp: owning_service_def belongs_to_def find_Some_iff split: option.split)

lemma owning_service_visible:
  assumes "\<And>xs. set (ap_order env xs) = set xs" and "\<forall>n \<in> set names. \<forall>c \<in> set n. visible c" and "\<forall>c \<in> set f. visible c"
  shows "\<forall>c \<in> set (owning_service env names f). visible c"
proof (cases "List.find (\<lambda>svc. belongs_to svc (strip_unit_suffix f)) (ap_order env names)")
  case None
  then show ?thesis using strip_unit_suffix_visible[OF assms(3)] by (simp add: owning_service_def)
next
  case (Some svc)
  then have "svc \<in> set (ap_order env names)" by (auto simp: find_Some_iff)
  then show ?thesis using Some assms(1,2) by (simp add: owning_service_def)
qed

subsection \<open>What applying leaves\<close>

definition enabled_names :: "home_services \<Rightarrow> string list" where
  "enabled_names m = remdups (map se_name (filter se_enable (hs_services m)))"

definition removed_names :: "home_services \<Rightarrow> unit_dir \<Rightarrow> string list" where
  "removed_names m dir = filter (\<lambda>n. n \<notin> set (enabled_names m)) (installed_managed_units dir)"

lemma enabled_names_Nil: "enabled_names m = [] \<longleftrightarrow> filter se_enable (hs_services m) = []"
  by (simp add: enabled_names_def)

lemma apply_dir:
  assumes "cmd_services_apply env False m dir = (r, dir', log)" and "built_units env m = Some built"
  shows "r \<noteq> Err BuildFailed"
    and "enabled_names m = [] \<Longrightarrow> removed_names m dir = [] \<Longrightarrow> dir' = dir"
    and "enabled_names m = [] \<Longrightarrow> removed_names m dir \<noteq> [] \<Longrightarrow>
      dir' = fst (fold (remove_service (installed_managed_unit_files dir)) (removed_names m dir) (dir, []))"
    and "enabled_names m \<noteq> [] \<Longrightarrow> \<exists>log'. dir' = fst (remove_stale (enabled_names m) built (installed_managed_unit_files dir)
      (fold (install_unit env (enabled_names m)) built
        (fst (fold (remove_service (installed_managed_unit_files dir)) (removed_names m dir) (dir, []))), log'))"
proof -
  note run = assms(1)[unfolded cmd_services_apply_def Let_def assms(2) option.case, folded enabled_names_def, folded removed_names_def]
  show "r \<noteq> Err BuildFailed" using run by (auto simp: enabled_names_Nil split: prod.splits if_splits)
  show "enabled_names m = [] \<Longrightarrow> removed_names m dir = [] \<Longrightarrow> dir' = dir"
    using run by (simp add: enabled_names_Nil)
  show "enabled_names m = [] \<Longrightarrow> removed_names m dir \<noteq> [] \<Longrightarrow>
      dir' = fst (fold (remove_service (installed_managed_unit_files dir)) (removed_names m dir) (dir, []))"
    using run by (simp add: enabled_names_Nil split: prod.splits)
  show "enabled_names m \<noteq> [] \<Longrightarrow> \<exists>log'. dir' = fst (remove_stale (enabled_names m) built (installed_managed_unit_files dir)
      (fold (install_unit env (enabled_names m)) built
        (fst (fold (remove_service (installed_managed_unit_files dir)) (removed_names m dir) (dir, []))), log'))"
    using run by (auto simp: enabled_names_Nil split: prod.splits) (metis fst_conv)
qed

text \<open>The directory \<open>apply\<close> leaves, as a map.\<close>

definition applied_dir :: "apply_env \<Rightarrow> home_services \<Rightarrow> unit_dir \<Rightarrow> unit_dir \<Rightarrow> string \<Rightarrow> string option" where
  "applied_dir env m built dir f =
     (case map_of built f of
        Some c \<Rightarrow> Some (marked (owning_service env (enabled_names m) f) c)
      | None \<Rightarrow> if f \<in> set (installed_managed_unit_files dir) then None else map_of dir f)"

lemma built_units_none: "enabled_names m = [] \<Longrightarrow> built_units env m = Some []"
  by (simp add: enabled_names_Nil built_units_def direct_units_def)

lemma apply_leaves:
  assumes "cmd_services_apply env False m dir = (r, dir', log)" and built: "built_units env m = Some built" and ok: "unit_dir_ok dir"
  shows "map_of dir' f = applied_dir env m built dir f" and "wf_table dir'"
proof -
  let ?existing = "installed_managed_unit_files dir" and ?names = "enabled_names m" and ?removes = "removed_names m dir"
  note run = apply_dir[OF assms(1,2)] and b = built_units_ok[OF built]
  have owner: "(\<exists>n \<in> set ?names. belongs_to n (strip_unit_suffix f)) \<or> (\<exists>n \<in> set ?removes. belongs_to n (strip_unit_suffix f))"
    if "f \<in> set ?existing" for f
    using existing_owner[OF ok that] by (auto simp: removed_names_def)
  have wf: "wf_table dir" using ok by (simp add: unit_dir_ok_def)
  define dir1 where "dir1 = fst (fold (remove_service ?existing) ?removes (dir, []))"
  have 1: "map_of dir1 f = (if f \<in> set ?existing \<and> (\<exists>n \<in> set ?removes. belongs_to n (strip_unit_suffix f)) then None else map_of dir f)" for f
    unfolding dir1_def map_of_remove_services by (simp only: fst_conv)
  have wf1: "wf_table dir1" unfolding dir1_def by (rule wf_remove_services) (simp add: wf)
  have "map_of dir' f = applied_dir env m built dir f \<and> wf_table dir'"
  proof (cases "?names = []")
    case True
    then have "built = []" using built built_units_none[OF True] by simp
    moreover have "map_of dir' f = map_of dir1 f \<and> wf_table dir'"
    proof (cases "?removes = []")
      case True
      then show ?thesis using run(2) \<open>?names = []\<close> wf by (simp add: dir1_def)
    next
      case False
      then show ?thesis using run(3) \<open>?names = []\<close> wf1 by (simp add: dir1_def)
    qed
    ultimately show ?thesis using 1[of f] owner[of f] True by (simp add: applied_dir_def)
  next
    case False
    define dir2 where "dir2 = fold (install_unit env ?names) built dir1"
    have 2: "map_of dir2 f = (case map_of built f of Some c \<Rightarrow> Some (marked (owning_service env ?names f) c) | None \<Rightarrow> map_of dir1 f)"
      unfolding dir2_def using b by (intro map_of_install) simp_all
    have wf2: "wf_table dir2" unfolding dir2_def by (rule wf_install[OF wf1])
    obtain log' where d: "dir' = fst (remove_stale ?names built ?existing (dir2, log'))"
      using run(4)[OF False] unfolding dir2_def dir1_def by blast
    have "wf_table dir'" unfolding d remove_stale_def by (rule wf_remove_units) (simp add: wf2)
    moreover have "map_of dir' f = applied_dir env m built dir f"
      unfolding d remove_stale_def map_of_remove_units applied_dir_def
      using 1 2 owner[of f] by (auto simp: list_ex_iff split: option.splits)
    ultimately show ?thesis by blast
  qed
  then show "map_of dir' f = applied_dir env m built dir f" "wf_table dir'" by blast+
qed

text \<open>Unit and service names are visible ASCII.\<close>

definition visible_names :: "home_services \<Rightarrow> unit_dir \<Rightarrow> bool" where
  "visible_names m built \<longleftrightarrow> (\<forall>n \<in> set (enabled_names m) \<union> fst ` set built. \<forall>c \<in> set n. visible c)"

lemma applied_existing:
  assumes "wf_table dir" and "wf_table dir'" and "\<And>f. map_of dir' f = applied_dir env m built dir f" and "built_units env m = Some built"
  shows "set (installed_managed_unit_files dir') = fst ` set built"
proof (rule set_eqI)
  fix f
  note b = built_units_ok[OF assms(4)]
  have mark: "strip_prefix MANAGED_MARKER (marked svc c) \<noteq> None" for svc c
    unfolding marked_def append_assoc by (metis strip_prefix_Some option.distinct(1))
  show "f \<in> set (installed_managed_unit_files dir') \<longleftrightarrow> f \<in> fst ` set built"
  proof (cases "map_of built f")
    case None
    have "f \<notin> set (installed_managed_unit_files dir')"
      unfolding existing_iff[OF assms(2)] assms(3) using existing_iff[OF assms(1)] None by (auto simp: applied_dir_def split: if_splits)
    then show ?thesis using None by (simp add: map_of_eq_None_iff)
  next
    case (Some c)
    then have f: "f \<in> fst ` set built" using map_of_Some_key by fast
    then have "is_managed_unit_file f" using b by auto
    then show ?thesis unfolding existing_iff[OF assms(2)] assms(3) using Some f mark by (simp add: applied_dir_def)
  qed
qed

lemma applied_ok:
  assumes ok: "unit_dir_ok dir" and "wf_table dir'" and "\<And>f. map_of dir' f = applied_dir env m built dir f"
    and order: "\<And>xs. set (ap_order env xs) = set xs" and vis: "visible_names m built"
  shows "unit_dir_ok dir'"
  unfolding unit_dir_ok_def
proof (intro conjI allI impI)
  fix f c svc
  assume f: "map_of dir' f = Some c" "is_managed_unit_file f" "unit_service f c = Some svc"
  have wf: "wf_table dir" using ok by (simp add: unit_dir_ok_def)
  show "belongs_to svc (strip_unit_suffix f)"
  proof (cases "map_of built f")
    case None
    then have d: "map_of dir f = Some c" using f(1) unfolding assms(3) by (auto simp: applied_dir_def split: if_splits)
    then show ?thesis using ok f(2,3) unfolding unit_dir_ok_def by blast
  next
    case (Some b)
    let ?o = "owning_service env (enabled_names m) f"
    have c: "c = marked ?o b" using f(1) Some unfolding assms(3) by (simp add: applied_dir_def)
    have "f \<in> fst ` set built" using map_of_Some_key[OF Some] .
    then have "\<forall>c \<in> set ?o. visible c" using vis unfolding visible_names_def by (intro owning_service_visible order) blast+
    then have "svc = ?o" using unit_service_marked f(3) unfolding c by simp
    then show ?thesis using owning_service_belongs by simp
  qed
qed (rule assms(2))

lemma owning_service_unique:
  assumes "\<forall>xs. set (ap_order env xs) = set xs" and "svc \<in> set names" and "belongs_to svc (strip_unit_suffix f)"
    and "\<forall>n \<in> set names. belongs_to n (strip_unit_suffix f) \<longrightarrow> n = svc"
  shows "owning_service env names f = svc"
proof -
  let ?p = "\<lambda>n. belongs_to n (strip_unit_suffix f)"
  have "List.find ?p (ap_order env names) \<noteq> None" using assms(1-3) by (auto simp: find_None_iff)
  then obtain n where n: "List.find ?p (ap_order env names) = Some n" by blast
  then have "n \<in> set (ap_order env names)" "?p n" by (auto simp: find_Some_iff)
  then have "n = svc" using assms(1,4) by simp
  then show ?thesis using n by (simp add: owning_service_def)
qed

lemma built_units_order [simp]: "built_units (env\<lparr>ap_order := ord, ap_starts := starts\<rparr>) m = built_units env m"
proof -
  have "generate_direct_unit_file (env\<lparr>ap_order := ord, ap_starts := starts\<rparr>) e fl = generate_direct_unit_file env e fl" for e fl
    by (simp add: generate_direct_unit_file_def)
  then show ?thesis by (simp add: built_units_def direct_units_def cong: if_cong)
qed

text \<open>C11. Applying converges.  When the build succeeds and every file it makes belongs by name to exactly one
  enabled service, its owner, the managed unit files are afterwards exactly the built ones, each with the
  contents built and the marker of its owner; every other file is as it was.  Applying the same manifest
  once more changes nothing, though the second run may go through the set of enabled services in another
  order and other services may fail to start.
\<close>

theorem apply_converges:
  assumes "unit_dir_ok dir" and "built_units env m = Some built" and "visible_names m built"
    and "\<forall>xs. set (ap_order env xs) = set xs" and "\<forall>xs. set (order' xs) = set xs"
    and owner: "\<forall>f \<in> fst ` set built. owner f \<in> set (enabled_names m) \<and> belongs_to (owner f) (strip_unit_suffix f) \<and>
      (\<forall>n \<in> set (enabled_names m). belongs_to n (strip_unit_suffix f) \<longrightarrow> n = owner f)"
    and "cmd_services_apply env False m dir = (r, dir', log)"
    and "cmd_services_apply (env\<lparr>ap_order := order', ap_starts := starts'\<rparr>) False m dir' = (r', dir'', log')"
  shows "r \<noteq> Err BuildFailed \<and> set (installed_managed_unit_files dir') = fst ` set built \<and>
    (\<forall>f c. map_of built f = Some c \<longrightarrow> map_of dir' f = Some (marked (owner f) c)) \<and>
    (\<forall>f. map_of built f = None \<longrightarrow> f \<notin> set (installed_managed_unit_files dir) \<longrightarrow> map_of dir' f = map_of dir f) \<and>
    unit_dir_ok dir' \<and> r' \<noteq> Err BuildFailed \<and> map_of dir'' = map_of dir'"
proof -
  let ?env' = "env\<lparr>ap_order := order', ap_starts := starts'\<rparr>"
  have built': "built_units ?env' m = Some built" using assms(2) by simp
  have order': "\<forall>xs. set (ap_order ?env' xs) = set xs" using assms(5) by simp
  note after = apply_leaves[OF assms(7,2,1)]
  have wf: "wf_table dir" using assms(1) by (simp add: unit_dir_ok_def)
  note existing = applied_existing[OF wf after(2,1) assms(2)]
  have ok': "unit_dir_ok dir'" using applied_ok[OF assms(1) after(2,1) _ assms(3)] assms(4) by blast
  note again = apply_leaves(1)[OF assms(8) built' ok']
  have own: "owning_service e (enabled_names m) f = owner f"
    if "\<forall>xs. set (ap_order e xs) = set xs" "map_of built f = Some c" for e f c
  proof -
    have "f \<in> fst ` set built" using map_of_Some_key[OF that(2)] .
    then show ?thesis using owner by (intro owning_service_unique[OF that(1)]) blast+
  qed
  have marks: "map_of dir' f = Some (marked (owner f) c)" if "map_of built f = Some c" for f c
    using after(1)[of f] that own[OF assms(4) that] by (simp add: applied_dir_def)
  have twice: "map_of dir'' f = map_of dir' f" for f
  proof (cases "map_of built f")
    case None
    then have "f \<notin> set (installed_managed_unit_files dir')" using existing by (simp add: map_of_eq_None_iff)
    then show ?thesis using again[of f] None by (simp add: applied_dir_def)
  next
    case (Some c)
    then show ?thesis using again[of f] own[OF order' Some] marks[OF Some] by (simp add: applied_dir_def)
  qed
  have other: "map_of dir' f = map_of dir f" if "map_of built f = None" "f \<notin> set (installed_managed_unit_files dir)" for f
    using after(1)[of f] that by (simp add: applied_dir_def)
  show ?thesis
    using apply_dir(1)[OF assms(7,2)] apply_dir(1)[OF assms(8) built'] existing marks other ok'
      ext[of "map_of dir''" "map_of dir'", OF twice] by blast
qed

subsection \<open>What goes wrong\<close>

lemma remove_units_keep_log: "a \<in> set (snd dl) \<Longrightarrow> a \<in> set (snd (fold remove_unit fs dl))"
proof (induction fs arbitrary: dl)
  case (Cons g fs)
  have "a \<in> set (snd (remove_unit g dl))" using Cons.prems by (cases dl) (auto simp: remove_unit_def)
  then show ?case using Cons.IH by simp
qed simp

lemma remove_units_log:
  "f \<in> set fs \<Longrightarrow> map_of (fst dl) f \<noteq> None \<Longrightarrow> Stop f \<in> set (snd (fold remove_unit fs dl))"
proof (induction fs arbitrary: dl)
  case (Cons g fs)
  show ?case
  proof (cases "f = g")
    case True
    then have "Stop f \<in> set (snd (remove_unit g dl))" using Cons.prems by (cases dl) (auto simp: remove_unit_def)
    then show ?thesis using remove_units_keep_log by simp
  next
    case False
    then have "map_of (fst (remove_unit g dl)) f \<noteq> None" using Cons.prems by (cases dl) (auto simp: remove_unit_def table_simps)
    then show ?thesis using Cons False by simp
  qed
qed simp

lemma remove_services_keep_log: "a \<in> set (snd dl) \<Longrightarrow> a \<in> set (snd (fold (remove_service existing) names dl))"
proof (induction names arbitrary: dl)
  case (Cons k names)
  have "a \<in> set (snd (remove_service existing k dl))"
    using Cons.prems unfolding remove_service_def by (intro remove_units_keep_log) simp
  then show ?case using Cons.IH by simp
qed simp

lemma remove_services_log:
  "n \<in> set names \<Longrightarrow> f \<in> set existing \<Longrightarrow> belongs_to n (strip_unit_suffix f) \<Longrightarrow> map_of (fst dl) f \<noteq> None \<Longrightarrow>
    Stop f \<in> set (snd (fold (remove_service existing) names dl))"
proof (induction names arbitrary: dl)
  case (Cons k names)
  show ?case
  proof (cases "belongs_to k (strip_unit_suffix f)")
    case True
    have "Stop f \<in> set (snd (remove_service existing k dl))"
      using Cons.prems True unfolding remove_service_def by (intro remove_units_log) simp_all
    then show ?thesis using remove_services_keep_log by simp
  next
    case False
    have "map_of (fst (remove_service existing k dl)) f \<noteq> None"
      using Cons.prems False by (simp add: remove_service_def map_of_remove_units)
    then show ?thesis using Cons.IH[of "remove_service existing k dl"] Cons.prems False by auto
  qed
qed simp

text \<open>C12. Removing one service takes down another.  When a service that is no longer wanted has a name that an enabled one
  continues after a dash, and the build then fails, the enabled service has been stopped and its unit file is
  gone, although nothing about it was to change.\<close>

theorem failed_apply_removes_other_service:
  assumes "wf_table dir" and "old \<in> set (installed_managed_units dir)" and "old \<notin> set (enabled_names m)"
    and "b = old @ ''-'' @ rest" and "b \<in> set (enabled_names m)" and "b @ ''.service'' \<in> set (installed_managed_unit_files dir)"
    and "built_units env m = None"
  shows "\<exists>dir' log. cmd_services_apply env False m dir = (Err BuildFailed, dir', log) \<and>
    map_of dir (b @ ''.service'') \<noteq> None \<and> map_of dir' (b @ ''.service'') = None \<and> Stop (b @ ''.service'') \<in> set log"
proof -
  let ?f = "b @ ''.service''" and ?existing = "installed_managed_unit_files dir" and ?removes = "removed_names m dir"
  obtain dir' log where fold: "fold (remove_service ?existing) ?removes (dir, []) = (dir', log)" by fastforce
  have ne: "filter se_enable (hs_services m) \<noteq> []" using assms(5) enabled_names_Nil[of m] by auto
  then have run: "cmd_services_apply env False m dir = (Err BuildFailed, dir', log)"
    using fold unfolding cmd_services_apply_def Let_def enabled_names_def[symmetric] removed_names_def[symmetric]
    by (simp add: assms(7))
  have rm: "old \<in> set ?removes" using assms(2,3) by (simp add: removed_names_def)
  have "strip_unit_suffix ?f = b" by (simp add: strip_unit_suffix_def MANAGED_UNIT_SUFFIXES_def List.map_filter_def strip_suffix_def)
  then have own: "belongs_to old (strip_unit_suffix ?f)"
    unfolding belongs_to_def assms(4) by (simp add: strip_prefix_def)
  have here: "map_of dir ?f \<noteq> None" using assms(6) existing_iff[OF assms(1)] by blast
  have "map_of dir' ?f = None"
    using map_of_remove_services[of ?existing ?removes "(dir, [])" ?f] rm own assms(6) unfolding fold by auto
  moreover have "Stop ?f \<in> set log"
    using remove_services_log[OF rm assms(6) own, of "(dir, [])"] here unfolding fold by simp
  ultimately show ?thesis using run here by blast
qed

subsection \<open>Instances\<close>

definition sample_apply :: apply_env where
  "sample_apply = \<lparr>ap_build = (\<lambda>_. None), ap_resolve = (\<lambda>_ c _. c), ap_order = id, ap_starts = (\<lambda>_. True)\<rparr>"

definition sample_service :: "string \<Rightarrow> toml_table \<Rightarrow> service_entry" where
  "sample_service n t = \<lparr>se_name = n, se_enable = True, se_flake = None, se_config = t\<rparr>"

definition sample_web :: home_services where
  "sample_web = \<lparr>hs_version = 1, hs_flake = ''nixpkgs'',
     hs_services = [sample_service ''web'' [(''command'', TString ''/bin/web''), (''description'', TString ''Web'')]]\<rparr>"

definition sample_units :: unit_dir where
  "sample_units = [(''my.service'', ''[Unit]''), (''foo.service'', marked ''foo'' ''x''), (''foo-bar.service'', marked ''foo-bar'' ''y'')]"

lemma sample_names [simp]:
  "is_managed_unit_file ''my.service''" "is_managed_unit_file ''foo.service''" "is_managed_unit_file ''foo-bar.service''"
  "strip_unit_suffix ''foo.service'' = ''foo''" "strip_unit_suffix ''foo-bar.service'' = ''foo-bar''" "strip_unit_suffix ''web.service'' = ''web''"
  by (simp_all add: is_managed_unit_file_def strip_unit_suffix_def MANAGED_UNIT_SUFFIXES_def List.map_filter_def strip_suffix_def)

lemma sample_owners [simp]:
  "unit_service ''my.service'' ''[Unit]'' = None" "unit_service f (marked ''foo'' c) = Some ''foo''"
  "unit_service f (marked ''foo-bar'' c) = Some ''foo-bar''" "strip_prefix MANAGED_MARKER (marked svc c) \<noteq> None"
  "strip_prefix MANAGED_MARKER ''[Unit]'' = None"
proof -
  show "strip_prefix MANAGED_MARKER (marked svc c) \<noteq> None"
    unfolding marked_def append_assoc by (metis strip_prefix_Some option.distinct(1))
  show "unit_service ''my.service'' ''[Unit]'' = None" "strip_prefix MANAGED_MARKER ''[Unit]'' = None"
    by (simp_all add: unit_service_def strip_prefix_def MANAGED_MARKER_def)
qed (rule unit_service_marked; simp add: visible_def)+

lemma sample_units_ok: "unit_dir_ok sample_units"
  by (auto simp: unit_dir_ok_def wf_table_def sample_units_def belongs_to_def split: if_splits)

lemma sample_units_files: "installed_managed_unit_files sample_units = [''foo.service'', ''foo-bar.service'']"
  using sample_owners(4) by (simp add: installed_managed_unit_files_def sample_units_def)

lemma sample_web_built:
  "built_units sample_apply sample_web = Some [(''web.service'', unit_text ''Web'' ''/bin/web'' ''SIGTERM'')]"
  by (simp add: built_units_def direct_units_def sample_web_def sample_service_def is_direct_def as_str_def generate_direct_unit_file_def
      sample_apply_def insert_or_replace_def delete_key_def Let_def)

theorem apply_converges_witness:
  "let (r, dir, log) = cmd_services_apply sample_apply False sample_web sample_units
   in set (installed_managed_unit_files dir) = {''web.service''} \<and> map_of dir ''my.service'' = Some ''[Unit]'' \<and>
      map_of dir ''web.service'' = Some (marked ''web'' (unit_text ''Web'' ''/bin/web'' ''SIGTERM''))"
proof -
  let ?built = "[(''web.service'', unit_text ''Web'' ''/bin/web'' ''SIGTERM'')]"
  obtain r dir log where run: "cmd_services_apply sample_apply False sample_web sample_units = (r, dir, log)" by (metis prod.exhaust)
  obtain r2 dir2 log2 where again:
      "cmd_services_apply (sample_apply\<lparr>ap_order := rev, ap_starts := \<lambda>_. False\<rparr>) False sample_web dir = (r2, dir2, log2)"
    by (metis prod.exhaust)
  have names: "visible_names sample_web ?built"
    by (simp add: visible_names_def enabled_names_def sample_web_def sample_service_def visible_def)
  have order: "\<forall>xs. set (ap_order sample_apply xs) = set xs" "\<forall>xs :: string list. set (rev xs) = set xs"
    by (simp_all add: sample_apply_def)
  have owner: "\<forall>f \<in> fst ` set ?built. ''web'' \<in> set (enabled_names sample_web) \<and> belongs_to ''web'' (strip_unit_suffix f) \<and>
      (\<forall>n \<in> set (enabled_names sample_web). belongs_to n (strip_unit_suffix f) \<longrightarrow> n = ''web'')"
    by (simp add: enabled_names_def sample_web_def sample_service_def belongs_to_def)
  note c = apply_converges[OF sample_units_ok sample_web_built names order owner run again]
  have my: "map_of dir ''my.service'' = Some ''[Unit]''"
    using c sample_units_files by (simp add: sample_units_def)
  have "set (installed_managed_unit_files dir) = {''web.service''}" using c by simp
  moreover have "map_of dir ''web.service'' = Some (marked ''web'' (unit_text ''Web'' ''/bin/web'' ''SIGTERM''))" using c by simp
  ultimately show ?thesis unfolding run using my by simp
qed

theorem failed_apply_removes_other_service_witness:
  "let m = \<lparr>hs_version = 1, hs_flake = ''nixpkgs'', hs_services = [sample_service ''foo-bar'' []]\<rparr>
   in \<exists>dir' log. cmd_services_apply sample_apply False m sample_units = (Err BuildFailed, dir', log) \<and> map_of dir' ''foo-bar.service'' = None"
proof -
  let ?m = "\<lparr>hs_version = 1, hs_flake = ''nixpkgs'', hs_services = [sample_service ''foo-bar'' []]\<rparr>"
  have wf: "wf_table sample_units" using sample_units_ok by (simp add: unit_dir_ok_def)
  have names: "enabled_names ?m = [''foo-bar'']" by (simp add: enabled_names_def sample_service_def)
  have "map_of sample_units ''foo.service'' = Some (marked ''foo'' ''x'')" by (simp add: sample_units_def)
  then have foo: "''foo'' \<in> set (installed_managed_units sample_units)"
    unfolding current_iff[OF wf] by (metis sample_names(2) sample_owners(2))
  have build: "built_units sample_apply ?m = None"
    by (simp add: built_units_def sample_service_def is_direct_def as_str_def sample_apply_def)
  have "''foo'' \<notin> set (enabled_names ?m)" "''foo-bar'' \<in> set (enabled_names ?m)" using names by simp_all
  from failed_apply_removes_other_service[where rest = "''bar''", OF wf foo this(1) _ this(2) _ build]
  show ?thesis unfolding Let_def using sample_units_files by auto
qed

end
