(* ===== verification/NarInfo.thy ===== *)
theory NarInfo
  imports Prelude
begin

text \<open>
  Store path names (\<open>crates/ekapkgs-nix/src/store.rs\<close>, \<open>installable.rs\<close>), the narinfo text
  format (\<open>crates/ekapkgs-serve/src/storage/mod.rs\<close>) and the fingerprint that is signed
  (\<open>crates/ekapkgs-serve/src/signing.rs\<close>).
\<close>

subsection \<open>Store path names\<close>

definition store_path_hash :: "string \<Rightarrow> string option" where
  "store_path_hash path = Some (first_segment (CHR ''-'') (last_segment (CHR ''/'') path))"

text \<open>The loop over \<open>0..len - 1\<close> looking for a dash that a digit follows.\<close>

fun find_version :: "string \<Rightarrow> string \<Rightarrow> string \<times> string" where
  "find_version pre (c # d # r) =
     (if c = CHR ''-'' \<and> is_ascii_digit d then (pre, d # r) else find_version (pre @ [c]) (d # r))"
| "find_version pre s = (pre @ s, [])"

definition parse_store_path_name :: "string \<Rightarrow> string \<times> string" where
  "parse_store_path_name path =
     (let basename = last_segment (CHR ''/'') path in
      case split_once (CHR ''-'') basename of
        None \<Rightarrow> (basename, [])
      | Some (_, name_version) \<Rightarrow> find_version [] name_version)"

definition flake_ref :: "string \<Rightarrow> string option" where
  "flake_ref raw = map_option fst (split_once (CHR ''#'') raw)"

definition attr_path :: "string \<Rightarrow> string option" where
  "attr_path raw = map_option snd (split_once (CHR ''#'') raw)"

lemma find_version_no_version:
  "(\<forall>i. Suc i < length s \<longrightarrow> \<not> (s ! i = CHR ''-'' \<and> is_ascii_digit (s ! Suc i))) \<Longrightarrow>
   find_version pre s = (pre @ s, [])"
proof (induction pre s rule: find_version.induct)
  case (1 pre c d r)
  have "\<not> (c = CHR ''-'' \<and> is_ascii_digit d)" using "1.prems"[rule_format, of 0] by simp
  moreover have "\<forall>i. Suc i < length (d # r) \<longrightarrow>
      \<not> ((d # r) ! i = CHR ''-'' \<and> is_ascii_digit ((d # r) ! Suc i))"
  proof (intro allI impI)
    fix i assume "Suc i < length (d # r)"
    then show "\<not> ((d # r) ! i = CHR ''-'' \<and> is_ascii_digit ((d # r) ! Suc i))"
      using "1.prems"[rule_format, of "Suc i"] by simp
  qed
  ultimately have "find_version (pre @ [c]) (d # r) = ((pre @ [c]) @ d # r, [])"
    by (intro "1.IH") auto
  with \<open>\<not> (c = CHR ''-'' \<and> is_ascii_digit d)\<close> show ?case by auto
qed auto

text \<open>A name without a dash-digit pair.\<close>

definition name_ok :: "string \<Rightarrow> bool" where
  "name_ok s \<longleftrightarrow> (\<forall>i. Suc i < length s \<longrightarrow> \<not> (s ! i = CHR ''-'' \<and> is_ascii_digit (s ! Suc i)))"

lemma name_ok_Cons: "name_ok (c # s) \<Longrightarrow> name_ok s"
  unfolding name_ok_def
proof (intro allI impI)
  fix i assume a: "\<forall>i. Suc i < length (c # s) \<longrightarrow>
      \<not> ((c # s) ! i = CHR ''-'' \<and> is_ascii_digit ((c # s) ! Suc i))" and "Suc i < length s"
  then show "\<not> (s ! i = CHR ''-'' \<and> is_ascii_digit (s ! Suc i))" using a[rule_format, of "Suc i"] by simp
qed

lemma find_version_split:
  assumes "name_ok name" and "is_ascii_digit d"
  shows "find_version pre (name @ CHR ''-'' # d # v) = (pre @ name, d # v)"
  using assms
proof (induction name arbitrary: pre)
  case Nil
  then show ?case by simp
next
  case (Cons c name)
  have IH: "find_version (pre @ [c]) (name @ CHR ''-'' # d # v) = ((pre @ [c]) @ name, d # v)"
    using Cons.IH[OF name_ok_Cons[OF Cons.prems(1)]] Cons.prems by simp
  show ?case
  proof (cases name)
    case Nil
    then show ?thesis using IH by (simp add: is_ascii_digit_def)
  next
    case (Cons e es)
    have "\<not> (c = CHR ''-'' \<and> is_ascii_digit e)"
      using \<open>name_ok (c # name)\<close> unfolding name_ok_def Cons by (metis One_nat_def Suc_less_eq
          length_Cons nth_Cons_0 nth_Cons_Suc zero_less_Suc)
    then show ?thesis using IH Cons by auto
  qed
qed

subsection \<open>The narinfo record\<close>

record narinfo =
  ni_store_path :: string
  ni_url :: string
  ni_compression :: string
  ni_file_hash :: string
  ni_file_size :: nat
  ni_nar_hash :: string
  ni_nar_size :: nat
  ni_references :: "string list"
  ni_deriver :: "string option"
  ni_signatures :: "string list"
  ni_ca :: "string option"

definition basename :: "string \<Rightarrow> string" where
  "basename r = last_segment (CHR ''/'') r"

definition line :: "string \<Rightarrow> string \<Rightarrow> string" where
  "line key v = key @ '': '' @ v @ [NL]"

definition to_narinfo_string :: "narinfo \<Rightarrow> string" where
  "to_narinfo_string ni =
     line ''StorePath'' (ni_store_path ni) @
     line ''URL'' (ni_url ni) @
     line ''Compression'' (ni_compression ni) @
     (if ni_file_hash ni \<noteq> [] then line ''FileHash'' (ni_file_hash ni) else []) @
     (if ni_file_size ni > 0 then line ''FileSize'' (show_nat (ni_file_size ni)) else []) @
     line ''NarHash'' (ni_nar_hash ni) @
     line ''NarSize'' (show_nat (ni_nar_size ni)) @
     (if ni_references ni \<noteq> []
      then line ''References'' (join '' '' (map basename (ni_references ni))) else []) @
     (case ni_deriver ni of None \<Rightarrow> [] | Some d \<Rightarrow> line ''Deriver'' d) @
     concat (map (line ''Sig'') (ni_signatures ni)) @
     (case ni_ca ni of None \<Rightarrow> [] | Some c \<Rightarrow> line ''CA'' c)"

text \<open>The local variables of \<open>NarInfo::parse\<close>.\<close>

record narinfo_acc =
  a_store_path :: "string option"
  a_url :: "string option"
  a_compression :: "string option"
  a_file_hash :: "string option"
  a_file_size :: "nat option"
  a_nar_hash :: "string option"
  a_nar_size :: "nat option"
  a_references :: "string list"
  a_deriver :: "string option"
  a_signatures :: "string list"
  a_ca :: "string option"

definition acc_init :: narinfo_acc where
  "acc_init = \<lparr>a_store_path = None, a_url = None, a_compression = None, a_file_hash = None,
     a_file_size = None, a_nar_hash = None, a_nar_size = None, a_references = [],
     a_deriver = None, a_signatures = [], a_ca = None\<rparr>"

definition parse_field :: "string \<Rightarrow> string \<Rightarrow> narinfo_acc \<Rightarrow> narinfo_acc option" where
  "parse_field key v a =
     (if key = ''StorePath'' then Some (a\<lparr>a_store_path := Some v\<rparr>)
      else if key = ''URL'' then Some (a\<lparr>a_url := Some v\<rparr>)
      else if key = ''Compression'' then Some (a\<lparr>a_compression := Some v\<rparr>)
      else if key = ''FileHash'' then Some (a\<lparr>a_file_hash := Some v\<rparr>)
      else if key = ''FileSize'' then map_option (\<lambda>n. a\<lparr>a_file_size := Some n\<rparr>) (parse_u64 v)
      else if key = ''NarHash'' then Some (a\<lparr>a_nar_hash := Some v\<rparr>)
      else if key = ''NarSize'' then map_option (\<lambda>n. a\<lparr>a_nar_size := Some n\<rparr>) (parse_u64 v)
      else if key = ''References'' then Some (a\<lparr>a_references := split_whitespace v\<rparr>)
      else if key = ''Deriver'' then Some (a\<lparr>a_deriver := Some v\<rparr>)
      else if key = ''Sig'' then Some (a\<lparr>a_signatures := a_signatures a @ [v]\<rparr>)
      else if key = ''CA'' then Some (a\<lparr>a_ca := Some v\<rparr>)
      else Some a)"

definition parse_line :: "string \<Rightarrow> narinfo_acc \<Rightarrow> narinfo_acc option" where
  "parse_line l a =
     (case split_once_str '': '' l of None \<Rightarrow> None | Some (key, v) \<Rightarrow> parse_field key v a)"

fun parse_lines :: "string list \<Rightarrow> narinfo_acc \<Rightarrow> narinfo_acc option" where
  "parse_lines [] a = Some a"
| "parse_lines (l # ls) a =
     (case parse_line l a of None \<Rightarrow> None | Some a' \<Rightarrow> parse_lines ls a')"

definition finish :: "narinfo_acc \<Rightarrow> narinfo option" where
  "finish a =
     (case (a_store_path a, a_url a, a_nar_hash a, a_nar_size a) of
        (Some sp, Some u, Some nh, Some ns) \<Rightarrow>
          Some \<lparr>ni_store_path = sp, ni_url = u,
            ni_compression = (case a_compression a of None \<Rightarrow> ''none'' | Some c \<Rightarrow> c),
            ni_file_hash = (case a_file_hash a of None \<Rightarrow> [] | Some h \<Rightarrow> h),
            ni_file_size = (case a_file_size a of None \<Rightarrow> 0 | Some n \<Rightarrow> n),
            ni_nar_hash = nh, ni_nar_size = ns, ni_references = a_references a,
            ni_deriver = a_deriver a, ni_signatures = a_signatures a, ni_ca = a_ca a\<rparr>
      | _ \<Rightarrow> None)"

definition parse_narinfo :: "string \<Rightarrow> narinfo option" where
  "parse_narinfo txt =
     (case parse_lines (lines txt) acc_init of None \<Rightarrow> None | Some a \<Rightarrow> finish a)"

definition narinfo_store_path_hash :: "narinfo \<Rightarrow> string option" where
  "narinfo_store_path_hash ni = store_path_hash (ni_store_path ni)"

subsection \<open>The signed fingerprint\<close>

definition fingerprint :: "string \<Rightarrow> string \<Rightarrow> nat \<Rightarrow> string list \<Rightarrow> string" where
  "fingerprint store_path nar_hash nar_size references =
     ''1;'' @ store_path @ '';'' @ nar_hash @ '';'' @ show_nat nar_size @ '';'' @ join '','' references"

subsection \<open>Reading back a narinfo\<close>

definition clean :: "string \<Rightarrow> bool" where
  "clean v \<longleftrightarrow> NL \<notin> set v \<and> (v = [] \<or> last v \<noteq> CR)"

definition narinfo_clean :: "narinfo \<Rightarrow> bool" where
  "narinfo_clean ni \<longleftrightarrow> clean (ni_store_path ni) \<and> clean (ni_url ni) \<and> clean (ni_compression ni)
     \<and> clean (ni_file_hash ni) \<and> clean (ni_nar_hash ni) \<and> ni_file_size ni < 2 ^ 64 \<and> ni_nar_size ni < 2 ^ 64
     \<and> (\<forall>r \<in> set (ni_references ni). basename r \<noteq> [] \<and> (\<forall>c \<in> set (basename r). visible c))
     \<and> (\<forall>d. ni_deriver ni = Some d \<longrightarrow> clean d) \<and> (\<forall>s \<in> set (ni_signatures ni). clean s)
     \<and> (\<forall>c. ni_ca ni = Some c \<longrightarrow> clean c)"

lemma split_once_str_key:
  "CHR '':'' \<notin> set key \<Longrightarrow> split_once_str '': '' (key @ '': '' @ v) = Some (key, v)"
  by (induction key) (auto simp: split_once_str.simps[of "'': ''"])

lemma lines_append_line:
  assumes "clean v" and "NL \<notin> set key"
  shows "lines (line key v @ rest) = (key @ '': '' @ v) # lines rest"
  using lines_line[of "key @ '': '' @ v" rest] assms by (cases "v = []") (simp_all add: line_def clean_def)

lemma parse_lines_line:
  assumes "clean v" and "NL \<notin> set key" and "CHR '':'' \<notin> set key"
  shows "parse_lines (lines (line key v @ rest)) a =
    (case parse_field key v a of None \<Rightarrow> None | Some a' \<Rightarrow> parse_lines (lines rest) a')"
  using assms split_once_str_key[of key v] by (simp add: lines_append_line parse_line_def)

lemma parse_lines_sigs:
  "\<forall>s \<in> set ss. clean s \<Longrightarrow> parse_lines (lines (concat (map (line ''Sig'') ss) @ rest)) a =
     parse_lines (lines rest) (a\<lparr>a_signatures := a_signatures a @ ss\<rparr>)"
  by (induction ss arbitrary: a) (auto simp: parse_lines_line parse_field_def)

lemma clean_show_nat [simp]: "clean (show_nat n)"
  using show_nat_no_NL by (simp add: clean_def)

lemma clean_refs:
  assumes "\<forall>r \<in> set rs. r \<noteq> [] \<and> (\<forall>c \<in> set r. visible c)"
  shows "clean (join '' '' rs)"
proof -
  have "set (join '' '' rs) \<subseteq> {CHR '' ''} \<union> \<Union> (set ` set rs)"
    by (induction rs rule: induct_list012) auto
  moreover have "\<not> visible NL" "\<not> visible CR" by (simp_all add: visible_def)
  ultimately have "NL \<notin> set (join '' '' rs)" "CR \<notin> set (join '' '' rs)" using assms by auto
  then show ?thesis by (auto simp: clean_def dest: last_in_set)
qed

lemma clean_cases [simp]: "clean v \<Longrightarrow> NL \<notin> set v"
  by (simp add: clean_def)

lemma to_narinfo_string_parses:
  assumes "narinfo_clean ni"
  shows "parse_lines (lines (to_narinfo_string ni)) acc_init =
    Some \<lparr>a_store_path = Some (ni_store_path ni), a_url = Some (ni_url ni),
      a_compression = Some (ni_compression ni),
      a_file_hash = (if ni_file_hash ni = [] then None else Some (ni_file_hash ni)),
      a_file_size = (if ni_file_size ni = 0 then None else Some (ni_file_size ni)),
      a_nar_hash = Some (ni_nar_hash ni), a_nar_size = Some (ni_nar_size ni),
      a_references = map basename (ni_references ni), a_deriver = ni_deriver ni,
      a_signatures = ni_signatures ni, a_ca = ni_ca ni\<rparr>"
proof -
  have refs: "split_whitespace (join '' '' (map basename (ni_references ni))) = map basename (ni_references ni)"
    using assms by (intro split_whitespace_join) (auto simp: narinfo_clean_def intro: no_ws_visible)
  have rc: "clean (join '' '' (map basename (ni_references ni)))"
    using assms by (intro clean_refs) (auto simp: narinfo_clean_def)
  have last: "parse_lines (lines (line ''CA'' c)) a = Some (a\<lparr>a_ca := Some c\<rparr>)" if "clean c" for a c
    using that parse_lines_line[of c "''CA''" "[]" a] by (simp add: parse_field_def)
  show ?thesis
    using assms unfolding to_narinfo_string_def narinfo_clean_def
    by (cases "ni_deriver ni"; cases "ni_ca ni")
      (simp_all add: parse_lines_line parse_field_def parse_u64_show_nat parse_lines_sigs last refs rc
        acc_init_def parse_lines_sigs[where rest = "[]", simplified])
qed

lemma narinfo_roundtrip_lemma:
  assumes "narinfo_clean ni"
  shows "parse_narinfo (to_narinfo_string ni) =
    Some (ni\<lparr>ni_references := map basename (ni_references ni)\<rparr>)"
  unfolding parse_narinfo_def to_narinfo_string_parses[OF assms]
  by (simp add: finish_def)

subsection \<open>Properties\<close>

text \<open>Round trip: parsing the text a narinfo is served as gives the same record, with the
  references reduced to their base names.\<close>

theorem narinfo_roundtrip:
  assumes "narinfo_clean ni"
  shows "parse_narinfo (to_narinfo_string ni) =
    Some (ni\<lparr>ni_references := map basename (ni_references ni)\<rparr>)"
  using assms by (rule narinfo_roundtrip_lemma)

definition sample_narinfo :: narinfo where
  "sample_narinfo = \<lparr>ni_store_path = ''/nix/store/abc-hello'', ni_url = ''nar/abc.nar'',
     ni_compression = ''xz'', ni_file_hash = [], ni_file_size = 5, ni_nar_hash = ''sha256:1'',
     ni_nar_size = 67890, ni_references = [''/nix/store/xyz-glibc'', ''abc-hello''],
     ni_deriver = None, ni_signatures = [''k:s''], ni_ca = Some ''text''\<rparr>"

lemma sample_narinfo_clean: "narinfo_clean sample_narinfo"
  by (simp add: narinfo_clean_def sample_narinfo_def clean_def basename_def last_segment_def visible_def)

theorem narinfo_roundtrip_witness:
  "parse_narinfo (to_narinfo_string sample_narinfo) =
    Some (sample_narinfo\<lparr>ni_references := [''xyz-glibc'', ''abc-hello'']\<rparr>)"
  using narinfo_roundtrip[OF sample_narinfo_clean]
  by (simp add: sample_narinfo_def basename_def last_segment_def)

lemma join_inj:
  assumes "\<forall>r \<in> set rs. r \<noteq> [] \<and> c \<notin> set r" and "\<forall>r \<in> set qs. r \<noteq> [] \<and> c \<notin> set r"
    and "join [c] rs = join [c] qs"
  shows "rs = qs"
proof -
  have e: "join [c] xs = [] \<longleftrightarrow> xs = []" if "\<forall>r \<in> set xs. r \<noteq> [] \<and> c \<notin> set r" for xs
    using that by (induction xs rule: induct_list012) auto
  show ?thesis
  proof (cases "rs = [] \<or> qs = []")
    case True
    then show ?thesis using assms e by metis
  next
    case False
    then show ?thesis using split_on_join[of rs c] split_on_join[of qs c] assms by metis
  qed
qed

text \<open>The signed fingerprint determines what is signed: no two narinfos whose path and hash
  hold no semicolon and whose references are non-empty and hold no comma share it.\<close>

theorem fingerprint_inj:
  assumes "CHR '';'' \<notin> set sp" "CHR '';'' \<notin> set sp'" "CHR '';'' \<notin> set nh" "CHR '';'' \<notin> set nh'"
    and "\<forall>r \<in> set refs. r \<noteq> [] \<and> CHR '','' \<notin> set r" and "\<forall>r \<in> set refs'. r \<noteq> [] \<and> CHR '','' \<notin> set r"
    and "fingerprint sp nh n refs = fingerprint sp' nh' n' refs'"
  shows "sp = sp' \<and> nh = nh' \<and> n = n' \<and> refs = refs'"
proof -
  have dig: "CHR '';'' \<notin> set (show_nat m)" for m
    using show_nat_digits[of m] by (auto simp: list_all_iff is_ascii_digit_def)
  let ?c = "CHR '';''"
  have e: "sp @ ?c # nh @ ?c # show_nat n @ ?c # join '','' refs =
      sp' @ ?c # nh' @ ?c # show_nat n' @ ?c # join '','' refs'"
    using assms(7) by (simp add: fingerprint_def)
  then have "Some (sp, nh @ ?c # show_nat n @ ?c # join '','' refs) =
      Some (sp', nh' @ ?c # show_nat n' @ ?c # join '','' refs')"
    by (metis assms(1,2) split_once_append)
  then have e2: "sp = sp'" "nh @ ?c # show_nat n @ ?c # join '','' refs =
      nh' @ ?c # show_nat n' @ ?c # join '','' refs'" by simp_all
  then have "Some (nh, show_nat n @ ?c # join '','' refs) = Some (nh', show_nat n' @ ?c # join '','' refs')"
    by (metis assms(3,4) split_once_append)
  then have e3: "nh = nh'" "show_nat n @ ?c # join '','' refs = show_nat n' @ ?c # join '','' refs'"
    by simp_all
  then have "Some (show_nat n, join '','' refs) = Some (show_nat n', join '','' refs')"
    by (metis dig split_once_append)
  then have e4: "show_nat n = show_nat n'" "join '','' refs = join '','' refs'" by simp_all
  then have "n = n'" by (metis digits_value_show_nat)
  with e2 e3 e4 show ?thesis using join_inj[OF assms(5,6)] by simp
qed

theorem fingerprint_inj_witness:
  "''/nix/store/a-x'' = ''/nix/store/a-x'' \<and> ''sha256:1'' = ''sha256:1'' \<and> (7::nat) = 7 \<and> [''b-y''] = [''b-y'']"
  by (rule fingerprint_inj) simp_all

text \<open>A store path \<open>dir/hash-name-version\<close>, whose name has no dash followed by a digit and
  whose version starts with one, is taken apart into its hash, name and version.\<close>

theorem parse_store_path_name_parts:
  assumes "CHR ''/'' \<notin> set (h @ CHR ''-'' # name @ CHR ''-'' # d # v)" and "CHR ''-'' \<notin> set h"
    and "name_ok name" and "is_ascii_digit d"
  shows "parse_store_path_name (dir @ CHR ''/'' # h @ CHR ''-'' # name @ CHR ''-'' # d # v) = (name, d # v)
    \<and> store_path_hash (dir @ CHR ''/'' # h @ CHR ''-'' # name @ CHR ''-'' # d # v) = Some h"
  using assms last_segment_append[OF assms(1), of dir] find_version_split[OF assms(3,4), of "[]" v]
  by (simp add: parse_store_path_name_def store_path_hash_def split_once_append first_segment_append)

theorem parse_store_path_name_parts_witness:
  "parse_store_path_name (''/nix/store'' @ CHR ''/'' # ''abc123'' @ CHR ''-'' # ''python3.11-requests''
      @ CHR ''-'' # CHR ''2'' # ''.31'') = (''python3.11-requests'', CHR ''2'' # ''.31'')
    \<and> store_path_hash (''/nix/store'' @ CHR ''/'' # ''abc123'' @ CHR ''-'' # ''python3.11-requests''
      @ CHR ''-'' # CHR ''2'' # ''.31'') = Some ''abc123''"
  by (rule parse_store_path_name_parts)
    (simp_all add: name_ok_def is_ascii_digit_def All_less_Suc2)

end
