(* ===== verification/SystemGen.thy ===== *)
theory SystemGen
  imports Strings Table
begin

text \<open>
  Generations of the system, \<open>crates/ekapkgs/src/commands/system.rs\<close>: activation with its rollback, the rollback command, the listing
  of generations and the pruning of boot entries.  The file system is the directories of profile links;
  \<open>nix build\<close>, \<open>nix-env --set\<close>, the garbage collector and the activation scripts are functions of an environment,
  and a log records the commands that change the system.  Profile names are taken to have no \<open>.\<close> and \<open>..\<close> components.
\<close>

subsection \<open>Profile links\<close>

text \<open>A directory entry: the target when it is a link, and its time of modification when it can be told.\<close>

record dir_link =
  dl_target :: "string option"
  dl_modified :: "nat option"

type_synonym file_system = "(string, (string, dir_link) table) table"

text \<open>\<open>Path::file_name\<close> and \<open>Path::parent\<close>.\<close>

definition path_trim :: "string \<Rightarrow> string" where
  "path_trim p = rev (dropWhile (\<lambda>c. c = CHR ''/'') (rev p))"

definition file_name :: "string \<Rightarrow> string" where
  "file_name p = last_segment (CHR ''/'') (path_trim p)"

definition parent_dir :: "string \<Rightarrow> string" where
  "parent_dir p = path_trim (rev (dropWhile (\<lambda>c. c \<noteq> CHR ''/'') (rev (path_trim p))))"

definition read_link :: "file_system \<Rightarrow> string \<Rightarrow> string option" where
  "read_link fs p = Option.bind (map_of fs (parent_dir p)) (\<lambda>d. Option.bind (map_of d (file_name p)) dl_target)"

definition SYSTEM_PROFILE :: string where
  "SYSTEM_PROFILE = ''/nix/var/nix/profiles/system''"

definition resolve_profile_path :: "string option \<Rightarrow> string" where
  "resolve_profile_path profile_name =
     (case profile_name of Some name \<Rightarrow> ''/nix/var/nix/profiles/system-profiles/'' @ name | None \<Rightarrow> SYSTEM_PROFILE)"

record generation =
  gn_number :: nat
  gn_path :: string
  gn_created :: nat

definition generation_of :: "string \<Rightarrow> string \<times> dir_link \<Rightarrow> generation option" where
  "generation_of base r =
     Option.bind (strip_prefix (base @ ''-'') (fst r)) (\<lambda>rest.
       Option.bind (strip_suffix ''-link'' rest) (\<lambda>num.
         Option.bind (parse_u64 num) (\<lambda>n.
           Option.bind (dl_target (snd r)) (\<lambda>path.
             map_option (\<lambda>t. \<lparr>gn_number = n, gn_path = path, gn_created = t\<rparr>) (dl_modified (snd r))))))"

text \<open>\<open>None\<close> when the directory cannot be read.\<close>

definition discover_generations :: "file_system \<Rightarrow> string \<Rightarrow> generation list option" where
  "discover_generations fs profile =
     map_option (\<lambda>d. sort_key gn_number (List.map_filter (generation_of (file_name profile)) d)) (map_of fs (parent_dir profile))"

subsection \<open>Commands that change the system\<close>

datatype exit_status = NotStarted | Exited nat | Killed

definition success :: "exit_status \<Rightarrow> bool" where
  "success st \<longleftrightarrow> st = Exited 0"

definition exit_code :: "exit_status \<Rightarrow> nat" where
  "exit_code st = (case st of Exited n \<Rightarrow> n | _ \<Rightarrow> 1)"

record system_env =
  sx_build :: "string \<Rightarrow> string option"
  sx_exists :: "string \<Rightarrow> bool"
  sx_mkdir :: "string \<Rightarrow> file_system \<Rightarrow> file_system"
  sx_set :: "string \<Rightarrow> string \<Rightarrow> file_system \<Rightarrow> exit_status \<times> file_system"
  sx_run :: "string \<Rightarrow> string list \<Rightarrow> string \<Rightarrow> exit_status"
  sx_collect :: "bool \<Rightarrow> file_system \<Rightarrow> exit_status \<times> file_system"

datatype action =
    SetProfile string string exit_status
  | Activate string "string list" string exit_status

datatype system_error =
    SystemBuildFailed
  | NoSpecialisation string
  | SetNotStarted
  | SetProfileFailed nat
  | ActivationNotStarted
  | ActivationFailed nat
  | NoProfileLink
  | NoProfileDir
  | NoGeneration nat
  | OldestGeneration
  | NoGenerations
  | PathNotUtf8
  | CollectNotStarted
  | CollectFailed nat
  | CannotRemove string

record activate_opts =
  ao_profile_name :: "string option"
  ao_install_bootloader :: bool
  ao_specialisation :: "string option"

definition switch_script :: "string \<Rightarrow> string" where
  "switch_script path = path @ ''/bin/switch-to-configuration''"

definition activation_variables :: "activate_opts \<Rightarrow> string list" where
  "activation_variables opts =
     (if ao_install_bootloader opts then [''NIXOS_INSTALL_BOOTLOADER=1''] else []) @
     (case ao_specialisation opts of Some spec \<Rightarrow> [''NIXOS_SPECIALISATION='' @ spec] | None \<Rightarrow> [])"

text \<open>What \<open>cmd_activate\<close> does when the activation failed: back to the previous target of the profile, if there was one.\<close>

definition restore_previous :: "system_env \<Rightarrow> string \<Rightarrow> string option \<Rightarrow> file_system \<Rightarrow> file_system \<times> action list" where
  "restore_previous env profile prev fs =
     (case prev of
        None \<Rightarrow> (fs, [])
      | Some p \<Rightarrow>
         (let (st, fs) = sx_set env profile p fs
          in (fs, SetProfile profile p st #
                (if success st then [Activate (switch_script p) [] ''switch'' (sx_run env (switch_script p) [] ''switch'')] else []))))"

definition cmd_activate ::
  "system_env \<Rightarrow> string \<Rightarrow> string \<Rightarrow> bool \<Rightarrow> activate_opts \<Rightarrow> file_system \<Rightarrow> (system_error + unit) \<times> file_system \<times> action list" where
  "cmd_activate env installable mode dry_run opts fs =
     (case sx_build env installable of
        None \<Rightarrow> (Err SystemBuildFailed, fs, [])
      | Some system_path \<Rightarrow>
         if (case ao_specialisation opts of Some spec \<Rightarrow> \<not> sx_exists env (system_path @ ''/specialisation/'' @ spec) | None \<Rightarrow> False)
         then (Err (NoSpecialisation (the (ao_specialisation opts))), fs, [])
         else if dry_run then (Ok (), fs, [])
         else let profile = resolve_profile_path (ao_profile_name opts);
                  fs = (if ao_profile_name opts \<noteq> None \<and> map_of fs (parent_dir profile) = None then sx_mkdir env (parent_dir profile) fs else fs);
                  prev = read_link fs profile;
                  (st, fs) = sx_set env profile system_path fs;
                  log = [SetProfile profile system_path st]
              in if st = NotStarted then (Err SetNotStarted, fs, log)
                 else if \<not> success st then (Err (SetProfileFailed (exit_code st)), fs, log)
                 else let run = sx_run env (switch_script system_path) (activation_variables opts) mode;
                          log = log @ [Activate (switch_script system_path) (activation_variables opts) mode run]
                      in if run = NotStarted then (Err ActivationNotStarted, fs, log)
                         else if \<not> success run
                         then (case restore_previous env profile prev fs of (fs, log') \<Rightarrow> (Err (ActivationFailed (exit_code run)), fs, log @ log'))
                         else (Ok (), fs, log))"

definition cmd_build_system :: "system_env \<Rightarrow> string \<Rightarrow> string option \<Rightarrow> file_system \<Rightarrow> (system_error + string) \<times> file_system \<times> action list" where
  "cmd_build_system env installable profile_name fs =
     (case sx_build env installable of
        None \<Rightarrow> (Err SystemBuildFailed, fs, [])
      | Some store_path \<Rightarrow>
         (case profile_name of
            None \<Rightarrow> (Ok store_path, fs, [])
          | Some name \<Rightarrow>
             let profile = resolve_profile_path (Some name);
                 fs = (if map_of fs (parent_dir profile) = None then sx_mkdir env (parent_dir profile) fs else fs);
                 (st, fs) = sx_set env profile store_path fs;
                 log = [SetProfile profile store_path st]
             in if st = NotStarted then (Err SetNotStarted, fs, log)
                else if \<not> success st then (Err (SetProfileFailed (exit_code st)), fs, log)
                else (Ok store_path, fs, log)))"

subsection \<open>Listing and rolling back\<close>

definition cmd_list_generations :: "string \<Rightarrow> file_system \<Rightarrow> system_error + (generation \<times> bool) list" where
  "cmd_list_generations profile fs =
     (case discover_generations fs profile of
        None \<Rightarrow> Err NoProfileDir
      | Some gens \<Rightarrow> Ok (map (\<lambda>g. (g, read_link fs profile = Some (gn_path g))) gens))"

fun index_where :: "('a \<Rightarrow> bool) \<Rightarrow> 'a list \<Rightarrow> nat option" where
  "index_where P [] = None"
| "index_where P (x # xs) = (if P x then Some 0 else map_option Suc (index_where P xs))"

definition rollback_target :: "nat option \<Rightarrow> string \<Rightarrow> generation list \<Rightarrow> system_error + generation" where
  "rollback_target target_gen current_target gens =
     (case target_gen of
        Some num \<Rightarrow> (case List.find (\<lambda>g. gn_number g = num) gens of Some g \<Rightarrow> Ok g | None \<Rightarrow> Err (NoGeneration num))
      | None \<Rightarrow>
         (case index_where (\<lambda>g. gn_path g = current_target) gens of
            Some idx \<Rightarrow> if idx > 0 then Ok (gens ! (idx - 1)) else Err OldestGeneration
          | None \<Rightarrow> if gens = [] then Err NoGenerations else Ok (last gens)))"

datatype rollback_result = AlreadyActive nat | WouldRollBack nat string | RolledBack nat

definition cmd_rollback ::
  "system_env \<Rightarrow> nat option \<Rightarrow> bool \<Rightarrow> string \<Rightarrow> file_system \<Rightarrow> (system_error + rollback_result) \<times> file_system \<times> action list" where
  "cmd_rollback env target_gen dry_run profile fs =
     (case read_link fs profile of
        None \<Rightarrow> (Err NoProfileLink, fs, [])
      | Some current_target \<Rightarrow>
         (case discover_generations fs profile of
            None \<Rightarrow> (Err NoProfileDir, fs, [])
          | Some gens \<Rightarrow>
             (case rollback_target target_gen current_target gens of
                Inl e \<Rightarrow> (Err e, fs, [])
              | Inr target \<Rightarrow>
                 if gn_path target = current_target then (Ok (AlreadyActive (gn_number target)), fs, [])
                 else if dry_run then (Ok (WouldRollBack (gn_number target) (gn_path target)), fs, [])
                 else if \<not> utf8_valid (gn_path target) then (Err PathNotUtf8, fs, [])
                 else let (st, fs) = sx_set env profile (gn_path target) fs;
                          log = [SetProfile profile (gn_path target) st]
                      in if st = NotStarted then (Err SetNotStarted, fs, log)
                         else if \<not> success st then (Err (SetProfileFailed (exit_code st)), fs, log)
                         else let run = sx_run env (switch_script (gn_path target)) [] ''switch'';
                                  log = log @ [Activate (switch_script (gn_path target)) [] ''switch'' run]
                              in if run = NotStarted then (Err ActivationNotStarted, fs, log)
                                 else if \<not> success run then (Err (ActivationFailed (exit_code run)), fs, log)
                                 else (Ok (RolledBack (gn_number target)), fs, log))))"

subsection \<open>Boot entries\<close>

definition parse_entry_generation :: "string \<Rightarrow> nat option" where
  "parse_entry_generation filename =
     (case split_once_str ''-generation-'' filename of
        None \<Rightarrow> None
      | Some (_, after) \<Rightarrow> parse_u64 (takeWhile (\<lambda>c. c \<noteq> CHR ''-'' \<and> c \<noteq> CHR ''.'') after))"

definition collect_efi_refs :: "string \<Rightarrow> string list" where
  "collect_efi_refs contents =
     concat (map (\<lambda>l. List.map_filter (\<lambda>p. map_option (\<lambda>path. last_segment (CHR ''/'') (trim path)) (strip_prefix p (trim l)))
       [''linux '', ''initrd '', ''devicetree '']) (lines contents))"

text \<open>The loop of the three pruning functions over the files of a directory: the orphans are removed, or counted in a dry run.
  A file that cannot be removed ends it.\<close>

fun prune_loop ::
  "(string \<times> 'a \<Rightarrow> bool) \<Rightarrow> (string \<Rightarrow> bool) \<Rightarrow> bool \<Rightarrow> (string \<times> 'a) list \<Rightarrow> nat \<Rightarrow> (string, 'a) table
   \<Rightarrow> (system_error + nat) \<times> (string, 'a) table" where
  "prune_loop orphan can_remove dry_run [] removed dir = (Ok removed, dir)"
| "prune_loop orphan can_remove dry_run (r # rs) removed dir =
     (if orphan r
      then if dry_run then prune_loop orphan can_remove dry_run rs (removed + 1) dir
           else if can_remove (fst r) then prune_loop orphan can_remove dry_run rs (removed + 1) (delete_key (fst r) dir)
           else (Err (CannotRemove (fst r)), dir)
      else prune_loop orphan can_remove dry_run rs removed dir)"

definition entry_generation :: "string \<Rightarrow> nat option" where
  "entry_generation name =
     (if strip_prefix ''nixos'' name = None \<or> strip_suffix ''.conf'' name = None then None else parse_entry_generation name)"

definition orphan_entry :: "nat list \<Rightarrow> string \<times> bytes \<Rightarrow> bool" where
  "orphan_entry active_gens r = (case entry_generation (fst r) of Some g \<Rightarrow> g \<notin> set active_gens | None \<Rightarrow> False)"

text \<open>A live entry that cannot be read as UTF-8 contributes no references.\<close>

definition live_refs :: "nat list \<Rightarrow> string \<times> bytes \<Rightarrow> string list" where
  "live_refs active_gens r =
     (case entry_generation (fst r) of
        Some g \<Rightarrow> if g \<in> set active_gens \<and> utf8_valid (snd r) then collect_efi_refs (snd r) else []
      | None \<Rightarrow> [])"

definition prune_entry_files ::
  "(string \<Rightarrow> bool) \<Rightarrow> nat list \<Rightarrow> bool \<Rightarrow> (string, bytes) table \<Rightarrow> (system_error + nat \<times> string list) \<times> (string, bytes) table" where
  "prune_entry_files can_remove active_gens dry_run entries =
     (case prune_loop (orphan_entry active_gens) can_remove dry_run entries 0 entries of
        (r, entries') \<Rightarrow> (bindR r (\<lambda>removed. Ok (removed, concat (map (live_refs active_gens) entries))), entries'))"

text \<open>The files of \<open>EFI/nixos\<close> with whether each is a directory.\<close>

definition orphan_efi :: "string list \<Rightarrow> string \<times> bool \<Rightarrow> bool" where
  "orphan_efi referenced r \<longleftrightarrow> \<not> snd r \<and> fst r \<notin> set referenced"

definition prune_efi_files ::
  "(string \<Rightarrow> bool) \<Rightarrow> string list \<Rightarrow> bool \<Rightarrow> (string, bool) table \<Rightarrow> (system_error + nat) \<times> (string, bool) table" where
  "prune_efi_files can_remove referenced dry_run files = prune_loop (orphan_efi referenced) can_remove dry_run files 0 files"

definition orphan_uki :: "nat list \<Rightarrow> string \<times> unit \<Rightarrow> bool" where
  "orphan_uki active_gens r \<longleftrightarrow>
     strip_prefix ''ekaos-'' (fst r) \<noteq> None \<and> strip_suffix ''.efi'' (fst r) \<noteq> None \<and>
     (case parse_entry_generation (fst r) of Some g \<Rightarrow> g \<notin> set active_gens | None \<Rightarrow> False)"

definition prune_uki_files ::
  "(string \<Rightarrow> bool) \<Rightarrow> nat list \<Rightarrow> bool \<Rightarrow> (string, unit) table \<Rightarrow> (system_error + nat) \<times> (string, unit) table" where
  "prune_uki_files can_remove active_gens dry_run files = prune_loop (orphan_uki active_gens) can_remove dry_run files 0 files"

text \<open>The boot partition: \<open>None\<close> where a directory is missing.\<close>

record boot_partition =
  bp_entries :: "(string, bytes) table option"
  bp_nixos :: "(string, bool) table option"
  bp_linux :: "(string, unit) table option"

definition collect_active_generations :: "file_system \<Rightarrow> nat list option" where
  "collect_active_generations fs = map_option (\<lambda>gens. remdups (map gn_number gens)) (discover_generations fs SYSTEM_PROFILE)"

text \<open>The three stages of \<open>cmd_prune_boot_entries\<close> on a partition; the number of files removed so far is passed along.\<close>

definition prune_entries_stage ::
  "(string \<Rightarrow> bool) \<Rightarrow> nat list \<Rightarrow> bool \<Rightarrow> boot_partition \<Rightarrow> (system_error + nat) \<times> boot_partition" where
  "prune_entries_stage can_remove active_gens dry_run boot =
     (case bp_entries boot of
        None \<Rightarrow> (Ok 0, boot)
      | Some entries \<Rightarrow>
         (case prune_entry_files can_remove active_gens dry_run entries of
            (Inl e, entries) \<Rightarrow> (Err e, boot\<lparr>bp_entries := Some entries\<rparr>)
          | (Inr (removed, referenced), entries) \<Rightarrow>
             let boot = boot\<lparr>bp_entries := Some entries\<rparr>
             in (case bp_nixos boot of
                   None \<Rightarrow> (Ok removed, boot)
                 | Some files \<Rightarrow>
                    (case prune_efi_files can_remove referenced dry_run files of
                       (r, files) \<Rightarrow> (bindR r (\<lambda>n. Ok (removed + n)), boot\<lparr>bp_nixos := Some files\<rparr>)))))"

definition prune_uki_stage ::
  "(string \<Rightarrow> bool) \<Rightarrow> nat list \<Rightarrow> bool \<Rightarrow> nat \<Rightarrow> boot_partition \<Rightarrow> (system_error + nat) \<times> boot_partition" where
  "prune_uki_stage can_remove active_gens dry_run removed boot =
     (case bp_linux boot of
        None \<Rightarrow> (Ok removed, boot)
      | Some files \<Rightarrow>
         (case prune_uki_files can_remove active_gens dry_run files of
            (r, files) \<Rightarrow> (bindR r (\<lambda>n. Ok (removed + n)), boot\<lparr>bp_linux := Some files\<rparr>)))"

datatype prune_result = NoActiveGenerations | Pruned nat

definition cmd_prune_boot_entries ::
  "system_env \<Rightarrow> (string \<Rightarrow> bool) \<Rightarrow> bool \<Rightarrow> bool \<Rightarrow> file_system \<Rightarrow> boot_partition
   \<Rightarrow> (system_error + prune_result) \<times> file_system \<times> boot_partition" where
  "cmd_prune_boot_entries env can_remove gc dry_run fs boot =
     (let (st, fs) = (if gc then sx_collect env dry_run fs else (Exited 0, fs))
      in if st = NotStarted then (Err CollectNotStarted, fs, boot)
         else if \<not> success st then (Err (CollectFailed (exit_code st)), fs, boot)
         else (case collect_active_generations fs of
                 None \<Rightarrow> (Err NoProfileDir, fs, boot)
               | Some active_gens \<Rightarrow>
                  if active_gens = [] then (Ok NoActiveGenerations, fs, boot)
                  else (case prune_entries_stage can_remove active_gens dry_run boot of
                          (Inl e, boot) \<Rightarrow> (Err e, fs, boot)
                        | (Inr removed, boot) \<Rightarrow>
                           (case prune_uki_stage can_remove active_gens dry_run removed boot of
                              (r, boot) \<Rightarrow> (bindR r (\<lambda>n. Ok (Pruned n)), fs, boot)))))"

subsection \<open>What pruning removes\<close>

lemma prune_loop_dry: "prune_loop orphan can_remove True rs k dir = (Ok (k + length (filter orphan rs)), dir)"
  by (induction rs arbitrary: k) simp_all

lemma prune_loop_all:
  "prune_loop orphan (\<lambda>_. True) False rs k dir =
     (Ok (k + length (filter orphan rs)), filter (\<lambda>r. fst r \<notin> fst ` set (filter orphan rs)) dir)"
proof (induction rs arbitrary: k dir)
  case (Cons r rs)
  then show ?case by (auto simp: delete_key_def intro!: filter_cong)
qed simp

lemma prune_loop_keeps:
  assumes "prune_loop orphan can_remove dry_run rs k dir = (res, dir')" and "wf_table dir"
    and "r \<in> set dir" and "\<not> orphan r" and "set rs \<subseteq> set dir0" and "wf_table dir0" and "r \<in> set dir0"
  shows "r \<in> set dir' \<and> wf_table dir' \<and> set dir' \<subseteq> set dir"
  using assms
proof (induction orphan can_remove dry_run rs k dir rule: prune_loop.induct)
  case (2 orphan can_remove dry_run q rs removed dir)
  have "fst r = fst q \<Longrightarrow> r = q" using 2 by (metis (no_types, lifting) list.set_intros(1) prod.collapse subsetD wf_map_of option.inject)
  then have keep: "orphan q \<Longrightarrow> r \<in> set (delete_key (fst q) dir)" using 2 by (auto simp: table_simps)
  show ?case
  proof (cases "orphan q \<and> \<not> dry_run")
    case True
    then show ?thesis using 2 keep by (auto split: if_splits simp: table_simps)
  qed (use 2 in \<open>auto split: if_splits\<close>)
qed auto

lemma filter_orphans: "wf_table dir \<Longrightarrow> filter (\<lambda>r. fst r \<notin> fst ` set (filter orphan dir)) dir = filter (\<lambda>r. \<not> orphan r) dir"
  by (rule filter_cong) (auto, metis eq_key_imp_eq_value wf_table_def)

lemma prune_dir_all: "wf_table dir \<Longrightarrow> prune_loop orphan (\<lambda>_. True) False dir k dir = (Ok (k + length (filter orphan dir)), filter (\<lambda>r. \<not> orphan r) dir)"
  unfolding prune_loop_all by (simp only: filter_orphans)

lemma prune_loop_keep: "prune_loop orphan can_remove dry_run dir k dir = (res, dir') \<Longrightarrow> wf_table dir \<Longrightarrow> r \<in> set dir \<Longrightarrow> \<not> orphan r \<Longrightarrow> r \<in> set dir'"
  using prune_loop_keeps[of orphan can_remove dry_run dir k dir res dir' r dir] by blast

subsection \<open>Names and lines of boot entries\<close>

lemma take_while_number: "c = CHR ''.'' \<or> c = CHR ''-'' \<Longrightarrow> takeWhile (\<lambda>c. c \<noteq> CHR ''-'' \<and> c \<noteq> CHR ''.'') (show_nat g @ c # s) = show_nat g"
  and take_while_number_nil: "takeWhile (\<lambda>c. c \<noteq> CHR ''-'' \<and> c \<noteq> CHR ''.'') (show_nat g) = show_nat g"
proof -
  have d: "\<forall>d \<in> set (show_nat g). d \<noteq> CHR ''-'' \<and> d \<noteq> CHR ''.''"
    using show_nat_digits[of g] by (auto simp: list_all_iff is_ascii_digit_def)
  then show "c = CHR ''.'' \<or> c = CHR ''-'' \<Longrightarrow> takeWhile (\<lambda>c. c \<noteq> CHR ''-'' \<and> c \<noteq> CHR ''.'') (show_nat g @ c # s) = show_nat g"
    by (subst takeWhile_append2) auto
  show "takeWhile (\<lambda>c. c \<noteq> CHR ''-'' \<and> c \<noteq> CHR ''.'') (show_nat g) = show_nat g"
    using d by (simp add: takeWhile_eq_all_conv)
qed

text \<open>The part of an entry's name before the number: ''nixos'' with or without a profile name.\<close>

definition generation_prefix :: "string \<Rightarrow> bool" where
  "generation_prefix p \<longleftrightarrow> (\<forall>s. split_once_str ''-generation-'' (p @ ''-generation-'' @ s) = Some (p, s))"

lemma split_at_marker: "split_once_str pat (pat @ s) = Some ([], s)"
  by (subst split_once_str.simps) simp

lemma generation_prefix_no_dash: "CHR ''-'' \<notin> set p \<Longrightarrow> generation_prefix p"
  unfolding generation_prefix_def
proof (induction p)
  case Nil
  then show ?case using split_at_marker[of "''-generation-''"] by simp
next
  case (Cons c p)
  then show ?case by (subst split_once_str.simps) auto
qed

lemma parse_entry_name:
  assumes "generation_prefix p" and "g < 2 ^ 64" and "c = CHR ''.'' \<or> c = CHR ''-''"
  shows "parse_entry_generation (p @ ''-generation-'' @ show_nat g @ c # s) = Some g"
  using assms take_while_number[OF assms(3)] by (simp add: parse_entry_generation_def generation_prefix_def parse_u64_show_nat)

lemma strip_suffix_end: "strip_suffix t (s @ t) = Some s"
  by (simp add: strip_suffix_def)

lemma entry_generation_plain: "g < 2 ^ 64 \<Longrightarrow> entry_generation (''nixos-generation-'' @ show_nat g @ ''.conf'') = Some g"
proof -
  assume g: "g < 2 ^ 64"
  have "strip_suffix ''.conf'' (''nixos-generation-'' @ show_nat g @ ''.conf'') \<noteq> None"
    using strip_suffix_end[of "''.conf''" "''nixos-generation-'' @ show_nat g"] by simp
  then show ?thesis
    using parse_entry_name[OF generation_prefix_no_dash[of "''nixos''"] g, of "CHR ''.''" "''conf''"]
    by (simp add: entry_generation_def strip_prefix_def)
qed

text \<open>A name with boot counters, as the boot loader specification has them: a plus sign after the number.\<close>

lemma entry_generation_counted:
  assumes "list_all is_ascii_digit tries"
  shows "entry_generation (''nixos-generation-'' @ show_nat g @ ''+'' @ tries @ ''.conf'') = None"
proof -
  let ?s = "show_nat g @ ''+'' @ tries"
  have d: "\<forall>d \<in> set (show_nat g) \<union> set tries. d \<noteq> CHR ''-'' \<and> d \<noteq> CHR ''.''"
    using show_nat_digits[of g] assms by (auto simp: list_all_iff is_ascii_digit_def)
  have "takeWhile (\<lambda>c. c \<noteq> CHR ''-'' \<and> c \<noteq> CHR ''.'') (?s @ ''.conf'') = ?s"
    using d by (subst takeWhile_append2) auto
  moreover have "parse_u64 ?s = None"
  proof -
    obtain a as where a: "show_nat g = a # as" "is_ascii_digit a" using show_nat_digits[of g] by (cases "show_nat g") auto
    then have "a \<noteq> CHR ''+''" by (auto simp: is_ascii_digit_def)
    then have "(case ?s of c # d # r \<Rightarrow> if c = CHR ''+'' then d # r else ?s | _ \<Rightarrow> ?s) = ?s" using a(1) by (simp split: list.split)
    moreover have "\<not> list_all is_ascii_digit ?s" by (simp add: is_ascii_digit_def)
    ultimately show ?thesis by (simp only: parse_u64_def Let_def) simp
  qed
  ultimately have "parse_entry_generation (''nixos'' @ ''-generation-'' @ ?s @ ''.conf'') = None"
    using generation_prefix_no_dash[of "''nixos''"] by (simp add: parse_entry_generation_def generation_prefix_def)
  then show ?thesis by (simp add: entry_generation_def)
qed

lemma trim_ends:
  assumes "visible a" and "visible b"
  shows "trim (a # s @ [b]) = a # s @ [b]"
proof -
  let ?s = "a # s @ [b]"
  have ts: "trim_start ?s = ?s" using assms(1) by (subst trim_start.simps) (simp add: ws_len_visible)
  have b: "b \<noteq> char_of n" if "n = 133 \<or> n = 160 \<or> 128 \<le> n \<and> n < 256" for n :: nat
    using assms(2) that by (auto simp: visible_def)
  have "trailing_ws ?s = 0"
  proof -
    have 1: "ws_len [b] = 0" using assms(2) by (simp add: ws_len_visible)
    have two: "ws_len [c, b] \<noteq> 2" for c using assms(2) by (auto simp: ws_len_def visible_def split: if_splits)
    have three: "ws_len [c, d, b] \<noteq> 3" for c d using assms(2) by (auto simp: ws_len_def visible_def split: if_splits)
    have "ws_len (drop (length ?s - k) ?s) \<noteq> k" if "k \<in> {1, 2, 3}" "k \<le> length ?s" for k
    proof -
      have "drop (length ?s - k) ?s = drop (length ?s - k) (a # s) @ [b]" "length (drop (length ?s - k) (a # s)) = k - 1"
        using that by (cases "length ?s - k"; auto)+
      then obtain u where u: "drop (length ?s - k) ?s = u @ [b]" "length u = k - 1" by blast
      from that(1) consider "k = 1" | "k = 2" | "k = 3" by blast
      then show ?thesis
      proof cases
        case 1
        then show ?thesis using u \<open>ws_len [b] = 0\<close> by simp
      next
        case 2
        then obtain c where "u = [c]" using u(2) by (cases u) auto
        then show ?thesis using u(1) 2 two[of c] by simp
      next
        case 3
        then obtain c d where "u = [c, d]" using u(2) by (cases u; cases "tl u") auto
        then show ?thesis using u(1) 3 three[of c d] by simp
      qed
    qed
    then have "\<forall>k \<in> set [1, 2, 3]. \<not> (k \<le> length ?s \<and> ws_len (drop (length ?s - k) ?s) = k)" by (metis list.set(1,2))
    then have "filter (\<lambda>k. k \<le> length ?s \<and> ws_len (drop (length ?s - k) ?s) = k) [1, 2, 3] = []" by (rule filter_False)
    then show ?thesis by (simp only: trailing_ws_def list.case)
  qed
  then have "trim_end ?s = ?s" by (subst trim_end.simps) simp
  then show ?thesis by (simp add: trim_def ts)
qed

lemma in_map_filter: "f x = Some y \<Longrightarrow> x \<in> set xs \<Longrightarrow> y \<in> set (List.map_filter f xs)"
  by (induction xs) (auto split: option.split)

lemma line_names_file:
  assumes "key \<in> {''linux '', ''initrd '', ''devicetree ''}" and "f \<noteq> []" and "\<forall>c \<in> set f. visible c \<and> c \<noteq> CHR ''/''"
    and "key @ ''/EFI/nixos/'' @ f \<in> set (lines c)"
  shows "f \<in> set (collect_efi_refs c)"
proof -
  obtain b f' where b: "f = f' @ [b]" "visible b" using assms(2,3) by (cases f rule: rev_cases) auto
  have t: "trim (key @ ''/EFI/nixos/'' @ f) = key @ ''/EFI/nixos/'' @ f"
  proof -
    have "key \<noteq> [] \<and> visible (hd key)" using assms(1) by (auto simp: visible_def)
    then obtain a k where a: "key = a # k" "visible a" by (cases key) simp_all
    then show ?thesis using trim_ends[OF a(2) b(2), of "k @ ''/EFI/nixos/'' @ f'"] b(1) by simp
  qed
  have t2: "trim (''/EFI/nixos/'' @ f) = ''/EFI/nixos/'' @ f"
    using trim_ends[OF _ b(2), of "CHR ''/''" "''EFI/nixos/'' @ f'"] b(1) by (simp add: visible_def)
  have l: "last_segment (CHR ''/'') (''/EFI/nixos/'' @ f) = f"
    using last_segment_append[of "CHR ''/''" f "''/EFI/nixos''"] assms(3) by auto
  have "strip_prefix key (trim (key @ ''/EFI/nixos/'' @ f)) = Some (''/EFI/nixos/'' @ f)" unfolding t by (simp add: strip_prefix_Some)
  then have "map_option (\<lambda>path. last_segment (CHR ''/'') (trim path)) (strip_prefix key (trim (key @ ''/EFI/nixos/'' @ f))) = Some f"
    by (simp only: option.map t2 l)
  note found = this
  have "key \<in> set [''linux '', ''initrd '', ''devicetree '']" using assms(1) by (simp only: list.set)
  from in_map_filter[where f = "\<lambda>p. map_option (\<lambda>path. last_segment (CHR ''/'') (trim path)) (strip_prefix p (trim (key @ ''/EFI/nixos/'' @ f)))",
      OF found this]
  have "f \<in> set (List.map_filter (\<lambda>p. map_option (\<lambda>path. last_segment (CHR ''/'') (trim path)) (strip_prefix p (trim (key @ ''/EFI/nixos/'' @ f))))
       [''linux '', ''initrd '', ''devicetree ''])" .
  then show ?thesis using assms(4) unfolding collect_efi_refs_def set_concat set_map by blast
qed

subsection \<open>Pruning as a whole\<close>

definition live_files :: "nat list \<Rightarrow> (string, bytes) table \<Rightarrow> string set" where
  "live_files active_gens entries = {f. \<exists>r \<in> set entries. f \<in> set (live_refs active_gens r)}"

lemma set_concat_refs: "set (concat (map (live_refs gens) entries)) = live_files gens entries"
  by (auto simp: live_files_def)

lemma cmd_prune_run:
  assumes "(if gc then sx_collect env dry_run fs else (Exited 0, fs)) = (Exited 0, fs1)"
    and "discover_generations fs1 SYSTEM_PROFILE = Some gens" and "gens \<noteq> []"
  shows "cmd_prune_boot_entries env can_remove gc dry_run fs boot =
    (case prune_entries_stage can_remove (remdups (map gn_number gens)) dry_run boot of
       (Inl e, boot) \<Rightarrow> (Err e, fs1, boot)
     | (Inr removed, boot) \<Rightarrow>
        (case prune_uki_stage can_remove (remdups (map gn_number gens)) dry_run removed boot of
           (r, boot) \<Rightarrow> (bindR r (\<lambda>n. Ok (Pruned n)), fs1, boot)))"
  using assms unfolding cmd_prune_boot_entries_def Let_def by (simp add: collect_active_generations_def success_def)

lemma active_set: "set (remdups (map gn_number gens)) = gn_number ` set gens"
  by simp

lemma prune_boot_run:
  assumes "boot = \<lparr>bp_entries = Some entries, bp_nixos = Some files, bp_linux = Some images\<rparr>"
    and "wf_table entries" and "wf_table files" and "wf_table images"
    and "discover_generations fs SYSTEM_PROFILE = Some gens" and "gens \<noteq> []" and "gs = remdups (map gn_number gens)"
    and "refs = concat (map (live_refs gs) entries)"
  shows "cmd_prune_boot_entries env (\<lambda>_. True) False False fs boot =
    (Ok (Pruned (length (filter (orphan_entry gs) entries) + length (filter (orphan_efi refs) files) + length (filter (orphan_uki gs) images))), fs,
      \<lparr>bp_entries = Some (filter (\<lambda>r. \<not> orphan_entry gs r) entries), bp_nixos = Some (filter (\<lambda>r. \<not> orphan_efi refs r) files),
        bp_linux = Some (filter (\<lambda>r. \<not> orphan_uki gs r) images)\<rparr>)"
  by (subst cmd_prune_run[of False env False fs fs gens, OF _ assms(5,6)], simp)
    (simp add: assms(1-4,7,8) prune_entries_stage_def prune_uki_stage_def prune_entry_files_def prune_efi_files_def prune_uki_files_def
      prune_dir_all Let_def)

text \<open>What pruning removes.  With files that can be removed, pruning removes exactly the entries of generations that are gone, the
  plain files under \<open>EFI/nixos\<close> no readable entry of a generation names, and the unified images of generations that
  are gone, and answers how many; a dry run answers the same number and changes nothing.\<close>

theorem prune_boot_exact:
  assumes "boot = \<lparr>bp_entries = Some entries, bp_nixos = Some files, bp_linux = Some images\<rparr>"
    and "wf_table entries" and "wf_table files" and "wf_table images"
    and "discover_generations fs SYSTEM_PROFILE = Some gens" and "gens \<noteq> []" and "live = gn_number ` set gens"
  shows "\<exists>entries' files' images' n.
    cmd_prune_boot_entries env (\<lambda>_. True) False False fs boot =
      (Ok (Pruned n), fs, \<lparr>bp_entries = Some entries', bp_nixos = Some files', bp_linux = Some images'\<rparr>) \<and>
    cmd_prune_boot_entries env can_remove False True fs boot = (Ok (Pruned n), fs, boot) \<and>
    (\<forall>r. r \<in> set entries' \<longleftrightarrow> r \<in> set entries \<and> (\<forall>g. entry_generation (fst r) = Some g \<longrightarrow> g \<in> live)) \<and>
    (\<forall>r. r \<in> set files' \<longleftrightarrow> r \<in> set files \<and> (snd r \<or> (\<exists>e \<in> set entries. \<exists>g \<in> live.
       entry_generation (fst e) = Some g \<and> utf8_valid (snd e) \<and> fst r \<in> set (collect_efi_refs (snd e))))) \<and>
    (\<forall>r. r \<in> set images' \<longleftrightarrow> r \<in> set images \<and> (strip_prefix ''ekaos-'' (fst r) \<noteq> None \<longrightarrow> strip_suffix ''.efi'' (fst r) \<noteq> None \<longrightarrow>
       (\<forall>g. parse_entry_generation (fst r) = Some g \<longrightarrow> g \<in> live))) \<and>
    n + length entries' + length files' + length images' = length entries + length files + length images"
proof -
  let ?gens = "remdups (map gn_number gens)"
  let ?refs = "concat (map (live_refs ?gens) entries)"
  let ?e = "orphan_entry ?gens" and ?f = "orphan_efi ?refs" and ?i = "orphan_uki ?gens"
  let ?n = "length (filter ?e entries) + length (filter ?f files) + length (filter ?i images)"
  have run: "cmd_prune_boot_entries env (\<lambda>_. True) False False fs boot = (Ok (Pruned ?n), fs,
      \<lparr>bp_entries = Some (filter (\<lambda>r. \<not> ?e r) entries), bp_nixos = Some (filter (\<lambda>r. \<not> ?f r) files),
        bp_linux = Some (filter (\<lambda>r. \<not> ?i r) images)\<rparr>)"
    by (rule prune_boot_run[OF assms(1-6) refl refl])
  have dry: "cmd_prune_boot_entries env can_remove False True fs boot = (Ok (Pruned ?n), fs, boot)"
    by (subst cmd_prune_run[of False env True fs fs gens, OF _ assms(5,6)], simp)
      (simp add: assms(1-4) prune_entries_stage_def prune_uki_stage_def prune_entry_files_def prune_efi_files_def prune_uki_files_def
        prune_loop_dry Let_def)
  have refs: "f \<in> set ?refs \<longleftrightarrow> (\<exists>e \<in> set entries. \<exists>g \<in> live. entry_generation (fst e) = Some g \<and> utf8_valid (snd e) \<and> f \<in> set (collect_efi_refs (snd e)))" for f
  proof -
    have "f \<in> set (live_refs ?gens e) \<longleftrightarrow> (\<exists>g \<in> live. entry_generation (fst e) = Some g \<and> utf8_valid (snd e) \<and> f \<in> set (collect_efi_refs (snd e)))" for e
      by (cases "entry_generation (fst e)") (auto simp: live_refs_def assms(7))
    then show ?thesis unfolding set_concat_refs live_files_def by blast
  qed
  have n: "?n + length (filter (\<lambda>r. \<not> ?e r) entries) + length (filter (\<lambda>r. \<not> ?f r) files) + length (filter (\<lambda>r. \<not> ?i r) images) =
      length entries + length files + length images"
    using sum_length_filter_compl[of ?e entries] sum_length_filter_compl[of ?f files] sum_length_filter_compl[of ?i images] by linarith
  have e: "r \<in> set (filter (\<lambda>r. \<not> ?e r) entries) \<longleftrightarrow> r \<in> set entries \<and> (\<forall>g. entry_generation (fst r) = Some g \<longrightarrow> g \<in> live)" for r
    by (auto simp: orphan_entry_def assms(7) split: option.splits)
  have f: "r \<in> set (filter (\<lambda>r. \<not> ?f r) files) \<longleftrightarrow> r \<in> set files \<and> (snd r \<or> fst r \<in> set ?refs)" for r
    by (auto simp: orphan_efi_def)
  have i: "r \<in> set (filter (\<lambda>r. \<not> ?i r) images) \<longleftrightarrow> r \<in> set images \<and> (strip_prefix ''ekaos-'' (fst r) \<noteq> None \<longrightarrow>
      strip_suffix ''.efi'' (fst r) \<noteq> None \<longrightarrow> (\<forall>g. parse_entry_generation (fst r) = Some g \<longrightarrow> g \<in> live))" for r
    by (auto simp: orphan_uki_def assms(7) split: option.splits)
  show ?thesis using run dry e f[unfolded refs] i n by blast
qed

lemma prune_entries_kept:
  assumes "prune_entries_stage can_remove gens dry_run boot = (res, boot')" and "bp_entries boot = Some entries" and "wf_table entries"
    and "r \<in> set entries" and "entry_generation (fst r) = Some g" and "g \<in> set gens"
  shows "(\<exists>entries'. bp_entries boot' = Some entries' \<and> r \<in> set entries') \<and> bp_linux boot' = bp_linux boot"
proof -
  obtain q entries' where q: "prune_entry_files can_remove gens dry_run entries = (q, entries')" by fastforce
  then obtain p where p: "prune_loop (orphan_entry gens) can_remove dry_run entries 0 entries = (p, entries')"
    unfolding prune_entry_files_def by (auto split: prod.splits)
  have "r \<in> set entries'" by (rule prune_loop_keep[OF p assms(3,4)]) (simp add: orphan_entry_def assms(5,6))
  then show ?thesis using assms(1) by (auto simp: prune_entries_stage_def assms(2) q Let_def split: sum.splits option.splits prod.splits)
qed

lemma prune_entries_files_kept:
  assumes "prune_entries_stage can_remove gens dry_run boot = (res, boot')" and "bp_entries boot = Some entries" and "wf_table entries"
    and "e \<in> set entries" and "entry_generation (fst e) = Some g" and "g \<in> set gens" and "utf8_valid (snd e)" and "f \<in> set (collect_efi_refs (snd e))"
    and "bp_nixos boot = Some files" and "wf_table files" and "(f, False) \<in> set files"
  shows "\<exists>files'. bp_nixos boot' = Some files' \<and> (f, False) \<in> set files'"
proof -
  obtain q entries' where q: "prune_entry_files can_remove gens dry_run entries = (q, entries')" by fastforce
  show ?thesis
  proof (cases q)
    case (Inl x)
    then show ?thesis using assms(1,9,11) by (auto simp: prune_entries_stage_def assms(2) q)
  next
    case (Inr x)
    then obtain removed where x: "x = (removed, concat (map (live_refs gens) entries))"
      using q by (auto simp: prune_entry_files_def bindR_eq_Ok split: prod.splits)
    obtain k files' where k: "prune_efi_files can_remove (snd x) dry_run files = (k, files')" by fastforce
    have "f \<in> set (live_refs gens e)" using assms(5-8) by (simp add: live_refs_def)
    then have "f \<in> set (snd x)" using assms(4) x by auto
    then have "(f, False) \<in> set files'" using prune_loop_keep[OF k[unfolded prune_efi_files_def] assms(10,11)] by (simp add: orphan_efi_def)
    moreover have "bp_nixos boot' = Some files'" using assms(1) Inr k by (auto simp: prune_entries_stage_def assms(2,9) q x Let_def)
    ultimately show ?thesis by blast
  qed
qed

lemma prune_uki_kept:
  assumes "prune_uki_stage can_remove gens dry_run removed boot = (res, boot')"
  shows "bp_entries boot' = bp_entries boot \<and> bp_nixos boot' = bp_nixos boot \<and>
    (\<forall>images r. bp_linux boot = Some images \<longrightarrow> wf_table images \<longrightarrow> r \<in> set images \<longrightarrow> \<not> orphan_uki gens r \<longrightarrow>
       (\<exists>images'. bp_linux boot' = Some images' \<and> r \<in> set images'))"
proof (cases "bp_linux boot")
  case (Some images)
  obtain q images' where q: "prune_loop (orphan_uki gens) can_remove dry_run images 0 images = (q, images')" by fastforce
  then have b: "boot' = boot\<lparr>bp_linux := Some images'\<rparr>" using assms Some by (simp add: prune_uki_stage_def prune_uki_files_def)
  then show ?thesis using prune_loop_keep[OF q] Some by auto
qed (use assms in \<open>simp add: prune_uki_stage_def\<close>)

lemma prune_stages:
  assumes "cmd_prune_boot_entries env can_remove gc dry_run fs boot = (res, fs', boot')"
    and "(if gc then sx_collect env dry_run fs else (Exited 0, fs)) = (Exited 0, fs1)"
    and "discover_generations fs1 SYSTEM_PROFILE = Some gens" and "gens \<noteq> []"
  shows "\<exists>q boot1. prune_entries_stage can_remove (remdups (map gn_number gens)) dry_run boot = (q, boot1) \<and>
    (boot' = boot1 \<or> (\<exists>removed r. prune_uki_stage can_remove (remdups (map gn_number gens)) dry_run removed boot1 = (r, boot')))"
  using assms(1) unfolding cmd_prune_run[of gc env dry_run, OF assms(2-4)] by (auto split: prod.splits sum.splits)


text \<open>Pruning deletes kernels that boot entries name.  An entry of an existing generation whose name carries boot counters is kept,
  but its number is not understood, so what it names is not counted: its kernel is deleted unless another entry
  of a generation names it too, and the entry can no longer be started.\<close>

theorem pruning_breaks_counted_entry:
  assumes "boot = \<lparr>bp_entries = Some entries, bp_nixos = Some files, bp_linux = Some images\<rparr>"
    and "wf_table entries" and "wf_table files" and "wf_table images"
    and "discover_generations fs SYSTEM_PROFILE = Some gens" and "x \<in> set gens"
    and "entry = ''nixos-generation-'' @ show_nat (gn_number x) @ ''+'' @ tries @ ''.conf''" and "list_all is_ascii_digit tries"
    and "(entry, txt) \<in> set entries" and "kern \<in> set (collect_efi_refs txt)" and "(kern, False) \<in> set files"
    and "\<forall>e \<in> set entries. entry_generation (fst e) \<noteq> None \<longrightarrow> kern \<notin> set (collect_efi_refs (snd e))"
  shows "\<exists>n entries' files' images'. cmd_prune_boot_entries env (\<lambda>_. True) False False fs boot =
      (Ok (Pruned n), fs, \<lparr>bp_entries = Some entries', bp_nixos = Some files', bp_linux = Some images'\<rparr>) \<and>
    (entry, txt) \<in> set entries' \<and> (kern, False) \<notin> set files'"
proof -
  let ?gs = "remdups (map gn_number gens)"
  let ?refs = "concat (map (live_refs ?gs) entries)"
  have "entry_generation entry = None" unfolding assms(7) by (rule entry_generation_counted[OF assms(8)])
  then have "(entry, txt) \<in> set (filter (\<lambda>r. \<not> orphan_entry ?gs r) entries)" using assms(9) by (simp add: orphan_entry_def)
  moreover have "kern \<notin> set (live_refs ?gs e)" if "e \<in> set entries" for e
    using assms(12) that by (cases "entry_generation (fst e)") (auto simp: live_refs_def)
  then have "kern \<notin> set ?refs" by auto
  then have "(kern, False) \<notin> set (filter (\<lambda>r. \<not> orphan_efi ?refs r) files)" by (simp add: orphan_efi_def)
  moreover have "gens \<noteq> []" using assms(6) by auto
  ultimately show ?thesis using prune_boot_run[OF assms(1-5) _ refl refl, of env] by blast
qed

subsection \<open>Rolling back and activating\<close>

text \<open>What the profile stands for: the target of the link the profile's own link names.  Links of generations are
  relative, as \<open>nix-env\<close> makes them.\<close>

definition profile_generation :: "file_system \<Rightarrow> string \<Rightarrow> string option" where
  "profile_generation fs profile =
     Option.bind (read_link fs profile) (\<lambda>t. read_link fs (parent_dir profile @ ''/'' @ t))"

text \<open>Documented behaviour of \<open>nix-env --profile P --set X\<close>: for the absolute path of a store object it makes \<open>P\<close> a link to
  a link of a generation to that object, or fails and changes nothing; other generations keep their targets; a name
  that is not a path selects a package, of which there is none.\<close>

definition nix_env_ok :: "system_env \<Rightarrow> bool" where
  "nix_env_ok env \<longleftrightarrow> (\<forall>profile path fs st fs'. sx_set env profile path fs = (st, fs') \<longrightarrow>
     (if success st
      then hd path = CHR ''/'' \<and> profile_generation fs' profile = Some path \<and>
        (\<exists>n. read_link fs' profile = Some (file_name profile @ ''-'' @ show_nat n @ ''-link'')) \<and>
        (\<forall>gens. discover_generations fs profile = Some gens \<longrightarrow> (\<exists>gens'. discover_generations fs' profile = Some gens' \<and>
           (\<lambda>g. (gn_number g, gn_path g)) ` set gens \<subseteq> (\<lambda>g. (gn_number g, gn_path g)) ` set gens'))
      else fs' = fs))"

lemma nix_env_set:
  assumes "nix_env_ok env" and "sx_set env profile path fs = (st, fs')"
  shows "success st \<Longrightarrow> profile_generation fs' profile = Some path" and "hd path \<noteq> CHR ''/'' \<Longrightarrow> \<not> success st" and "\<not> success st \<Longrightarrow> fs' = fs"
  using assms unfolding nix_env_ok_def by meson+

lemma success_simps [simp]: "success (Exited 0)" "\<not> success NotStarted" "\<not> success Killed" "success (Exited n) \<longleftrightarrow> n = 0"
  by (simp_all add: success_def)

text \<open>Activation reports what happened.  When it succeeds the profile stands for the built system and its script was the last to run, with
  success; when the profile could not be set nothing was run and the links are as they were.\<close>

theorem activation_outcome:
  assumes "nix_env_ok env" and "cmd_activate env installable mode_arg False opts fs = (res, fs', log)"
    and "ao_profile_name opts = None" and "sx_build env installable = Some path"
  shows "(res = Ok () \<longrightarrow> profile_generation fs' SYSTEM_PROFILE = Some path \<and>
      log = [SetProfile SYSTEM_PROFILE path (Exited 0), Activate (switch_script path) (activation_variables opts) mode_arg (Exited 0)]) \<and>
    (\<forall>c. res = Err (SetProfileFailed c) \<or> res = Err SetNotStarted \<or> (\<exists>s. res = Err (NoSpecialisation s)) \<longrightarrow>
      fs' = fs \<and> (\<forall>a \<in> set log. \<exists>st. a = SetProfile SYSTEM_PROFILE path st \<and> \<not> success st))"
proof -
  obtain st fs1 where st: "sx_set env SYSTEM_PROFILE path fs = (st, fs1)" by fastforce
  note law = nix_env_set[OF assms(1) st]
  have p: "resolve_profile_path (ao_profile_name opts) = SYSTEM_PROFILE" by (simp add: assms(3) resolve_profile_path_def)
  note run = assms(2)[unfolded cmd_activate_def Let_def assms(4) option.case if_False p st prod.case]
  show ?thesis
    using run law(1,3) assms(3) st
    by (auto simp: success_def split: if_splits prod.splits option.splits)
qed
lemma discover_sorted: "discover_generations fs profile = Some gens \<Longrightarrow> sorted (map gn_number gens)"
  by (auto simp: discover_generations_def)

lemma last_greatest:
  assumes "sorted (map (f :: 'a \<Rightarrow> nat) xs)" and "x \<in> set xs"
  shows "f x \<le> f (last xs)"
  using assms by (induction xs) auto

text \<open>A failed activation is not undone.  When the script fails, the profile is to go back to its previous target; as that is the
  relative name of a link, the command to set it fails: the profile goes on standing for the system that could
  not be activated, and the previous one is not activated again.\<close>

theorem failed_activation_is_not_undone:
  assumes "nix_env_ok env" and "ao_profile_name opts = None" and "ao_specialisation opts = None" and "sx_build env installable = Some path"
    and "read_link fs SYSTEM_PROFILE = Some prev" and "hd prev \<noteq> CHR ''/''"
    and "sx_set env SYSTEM_PROFILE path fs = (Exited 0, fs1)"
    and "sx_run env (switch_script path) (activation_variables opts) mode_arg = Exited (Suc c)"
  shows "\<exists>st. cmd_activate env installable mode_arg False opts fs =
      (Err (ActivationFailed (Suc c)), fs1,
       [SetProfile SYSTEM_PROFILE path (Exited 0), Activate (switch_script path) (activation_variables opts) mode_arg (Exited (Suc c)),
        SetProfile SYSTEM_PROFILE prev st]) \<and> \<not> success st \<and> profile_generation fs1 SYSTEM_PROFILE = Some path"
proof -
  obtain st fs2 where st: "sx_set env SYSTEM_PROFILE prev fs1 = (st, fs2)" by fastforce
  have f: "\<not> success st" "fs2 = fs1" using nix_env_set(2,3)[OF assms(1) st] assms(6) by auto
  have p: "resolve_profile_path (ao_profile_name opts) = SYSTEM_PROFILE" by (simp add: assms(2) resolve_profile_path_def)
  have "profile_generation fs1 SYSTEM_PROFILE = Some path" using nix_env_set(1)[OF assms(1,7)] by simp
  then show ?thesis
    unfolding cmd_activate_def Let_def assms(4) option.case p
    by (simp add: assms(2,3,5,7,8) restore_previous_def st f exit_code_def)
qed

lemma index_where_None: "index_where P xs = None \<longleftrightarrow> (\<forall>x \<in> set xs. \<not> P x)"
  by (induction xs) auto

text \<open>A rollback without a number never goes back.  The current generation is looked for by the target of the profile's link,
  which is the relative name of a generation's link and never a generation's path; so the newest generation is
  taken, whichever is the current one, and set and activated once more.\<close>

theorem rollback_never_goes_back:
  assumes "nix_env_ok env" and "read_link fs profile = Some t" and "hd t \<noteq> CHR ''/''"
    and "discover_generations fs profile = Some gens" and "gens \<noteq> []" and "\<forall>g \<in> set gens. hd (gn_path g) = CHR ''/'' \<and> utf8_valid (gn_path g)"
    and "sx_set env profile (gn_path (last gens)) fs = (Exited 0, fs')" and "sx_run env (switch_script (gn_path (last gens))) [] ''switch'' = Exited 0"
  shows "cmd_rollback env None False profile fs = (Ok (RolledBack (gn_number (last gens))), fs',
      [SetProfile profile (gn_path (last gens)) (Exited 0), Activate (switch_script (gn_path (last gens))) [] ''switch'' (Exited 0)]) \<and>
    profile_generation fs' profile = Some (gn_path (last gens)) \<and> (\<forall>g \<in> set gens. gn_number g \<le> gn_number (last gens)) \<and>
    cmd_list_generations profile fs = Ok (map (\<lambda>g. (g, False)) gens)"
proof -
  have n: "gn_path g \<noteq> t" if "g \<in> set gens" for g using assms(3,6) that by auto
  then have "index_where (\<lambda>g. gn_path g = t) gens = None" by (simp add: index_where_None)
  then have r: "rollback_target None t gens = Ok (last gens)" using assms(5) by (simp add: rollback_target_def)
  have l: "gn_path (last gens) \<noteq> t" "utf8_valid (gn_path (last gens))" using n assms(5,6) by simp_all
  have "cmd_rollback env None False profile fs = (Ok (RolledBack (gn_number (last gens))), fs',
      [SetProfile profile (gn_path (last gens)) (Exited 0), Activate (switch_script (gn_path (last gens))) [] ''switch'' (Exited 0)])"
    by (simp add: cmd_rollback_def assms(2,4,7,8) r l)
  moreover have "profile_generation fs' profile = Some (gn_path (last gens))" using nix_env_set(1)[OF assms(1,7)] by simp
  moreover have "\<forall>g \<in> set gens. gn_number g \<le> gn_number (last gens)" using last_greatest[OF discover_sorted[OF assms(4)]] by blast
  moreover have "cmd_list_generations profile fs = Ok (map (\<lambda>g. (g, False)) gens)" using n by (auto simp: cmd_list_generations_def assms(2,4))
  ultimately show ?thesis by blast
qed

text \<open>A rollback to a number goes there.  An unknown number is refused and changes nothing; when the command succeeds the profile
  stands for that generation's system, whose script was the last to run, and no generation is lost.\<close>

theorem rollback_to_number:
  assumes "nix_env_ok env" and "read_link fs profile = Some t" and "discover_generations fs profile = Some gens"
    and "cmd_rollback env (Some n) False profile fs = (res, fs', log)"
  shows "(n \<notin> gn_number ` set gens \<longrightarrow> res = Err (NoGeneration n) \<and> fs' = fs \<and> log = []) \<and>
    (\<forall>k. res = Ok (RolledBack k) \<longrightarrow> k = n \<and> (\<exists>g \<in> set gens. gn_number g = n \<and> profile_generation fs' profile = Some (gn_path g) \<and>
       last log = Activate (switch_script (gn_path g)) [] ''switch'' (Exited 0))) \<and>
    (\<exists>gens'. discover_generations fs' profile = Some gens' \<and>
       (\<lambda>g. (gn_number g, gn_path g)) ` set gens \<subseteq> (\<lambda>g. (gn_number g, gn_path g)) ` set gens')"
proof (cases "List.find (\<lambda>g. gn_number g = n) gens")
  case None
  then have "\<forall>g \<in> set gens. gn_number g \<noteq> n" by (simp add: find_None_iff)
  moreover have "res = Err (NoGeneration n)" "fs' = fs" "log = []"
    using assms(4) None by (auto simp: cmd_rollback_def assms(2,3) rollback_target_def)
  ultimately show ?thesis using assms(3) by auto
next
  case (Some g)
  then have g: "g \<in> set gens" "gn_number g = n" by (auto simp: find_Some_iff)
  obtain st fs1 where st: "sx_set env profile (gn_path g) fs = (st, fs1)" by fastforce
  have keep: "\<exists>gens'. discover_generations fs1 profile = Some gens' \<and>
       (\<lambda>g. (gn_number g, gn_path g)) ` set gens \<subseteq> (\<lambda>g. (gn_number g, gn_path g)) ` set gens'"
    using assms(1)[unfolded nix_env_ok_def, rule_format, OF st] assms(3) by (cases "success st") auto
  note run = assms(4)[unfolded cmd_rollback_def assms(2,3) option.case rollback_target_def Some sum.case Let_def st prod.case]
  have fs': "fs' = fs \<or> fs' = fs1" using run by (auto split: if_splits)
  have "\<exists>gens'. discover_generations fs' profile = Some gens' \<and>
       (\<lambda>g. (gn_number g, gn_path g)) ` set gens \<subseteq> (\<lambda>g. (gn_number g, gn_path g)) ` set gens'"
    using fs' keep assms(3) by auto
  moreover have "\<forall>k. res = Ok (RolledBack k) \<longrightarrow> k = n \<and> profile_generation fs' profile = Some (gn_path g) \<and>
       last log = Activate (switch_script (gn_path g)) [] ''switch'' (Exited 0)"
    using run nix_env_set(1)[OF assms(1) st] g(2) by (auto simp: success_def split: if_splits)
  ultimately show ?thesis using g by blast
qed

subsection \<open>Concrete inputs\<close>

definition plain_link :: "string \<Rightarrow> dir_link" where
  "plain_link t = \<lparr>dl_target = Some t, dl_modified = Some 0\<rparr>"

text \<open>A \<open>nix-env --set\<close> that numbers generations upwards.\<close>

definition sample_set :: "string \<Rightarrow> string \<Rightarrow> file_system \<Rightarrow> exit_status \<times> file_system" where
  "sample_set profile path fs =
     (let gens = (case discover_generations fs profile of None \<Rightarrow> [] | Some gens \<Rightarrow> gens);
          n = Suc (fold max (map gn_number gens) 0);
          link = file_name profile @ ''-'' @ show_nat n @ ''-link'';
          d = (case map_of fs (parent_dir profile) of None \<Rightarrow> [] | Some d \<Rightarrow> d);
          fs' = insert_or_replace (parent_dir profile)
                  (insert_or_replace (file_name profile) (plain_link link) (insert_or_replace link (plain_link path) d)) fs
      in if hd path = CHR ''/'' \<and> profile_generation fs' profile = Some path \<and> read_link fs' profile = Some link \<and>
            (case discover_generations fs' profile of
               None \<Rightarrow> False
             | Some gens' \<Rightarrow> set (map (\<lambda>g. (gn_number g, gn_path g)) gens) \<subseteq> set (map (\<lambda>g. (gn_number g, gn_path g)) gens'))
         then (Exited 0, fs') else (Exited 1, fs))"

definition system_sample :: "exit_status \<Rightarrow> system_env" where
  "system_sample st = \<lparr>sx_build = (\<lambda>_. Some ''/nix/store/new-system''), sx_exists = (\<lambda>_. True), sx_mkdir = (\<lambda>_ fs. fs), sx_set = sample_set,
     sx_run = (\<lambda>_ _ _. st), sx_collect = (\<lambda>_ fs. (Exited 0, fs))\<rparr>"

definition sample_fs :: file_system where
  "sample_fs = [(''/nix/var/nix/profiles'',
     [(''system'', plain_link ''system-2-link''), (''system-1-link'', plain_link ''/nix/store/old-system''),
      (''system-2-link'', plain_link ''/nix/store/now-system'')])]"

definition sample_opts :: activate_opts where
  "sample_opts = \<lparr>ao_profile_name = None, ao_install_bootloader = False, ao_specialisation = None\<rparr>"

definition sample_gens :: "generation list" where
  "sample_gens = [\<lparr>gn_number = 1, gn_path = ''/nix/store/old-system'', gn_created = 0\<rparr>, \<lparr>gn_number = 2, gn_path = ''/nix/store/now-system'', gn_created = 0\<rparr>]"

lemma system_sample_ok: "nix_env_ok (system_sample st)"
  unfolding nix_env_ok_def
proof (intro allI impI)
  fix profile path fs s fs'
  assume "sx_set (system_sample st) profile path fs = (s, fs')"
  then have "sample_set profile path fs = (s, fs')" by (simp add: system_sample_def)
  then show "if success s
      then hd path = CHR ''/'' \<and> profile_generation fs' profile = Some path \<and>
        (\<exists>n. read_link fs' profile = Some (file_name profile @ ''-'' @ show_nat n @ ''-link'')) \<and>
        (\<forall>gens. discover_generations fs profile = Some gens \<longrightarrow> (\<exists>gens'. discover_generations fs' profile = Some gens' \<and>
           (\<lambda>g. (gn_number g, gn_path g)) ` set gens \<subseteq> (\<lambda>g. (gn_number g, gn_path g)) ` set gens'))
      else fs' = fs"
    unfolding sample_set_def Let_def by (auto split: if_splits option.splits)
qed

lemma parse_small: "parse_u64 ''1'' = Some 1" "parse_u64 ''2'' = Some 2" "parse_u64 ''3'' = Some 3"
  by (simp_all add: parse_u64_def is_ascii_digit_def digits_value_def)

lemma show_three: "show_nat 3 = ''3''"
  by code_simp

lemma system_profile_parts: "parent_dir SYSTEM_PROFILE = ''/nix/var/nix/profiles''" "file_name SYSTEM_PROFILE = ''system''"
  by (simp_all add: SYSTEM_PROFILE_def parent_dir_def file_name_def path_trim_def last_segment_def)

lemmas sample_eval = read_link_def discover_generations_def generation_of_def strip_prefix_def strip_suffix_def parse_small
  system_profile_parts plain_link_def sample_fs_def sample_gens_def

lemma sample_run:
  "read_link sample_fs SYSTEM_PROFILE = Some ''system-2-link''"
  "discover_generations sample_fs SYSTEM_PROFILE = Some sample_gens"
  by (simp_all add: sample_eval)

lemma sample_set_run:
  assumes "path \<in> {''/nix/store/new-system'', ''/nix/store/now-system'', ''/nix/store/old-system''}"
  shows "fst (sample_set SYSTEM_PROFILE path sample_fs) = Exited 0"
proof -
  let ?dir = "[(''system'', plain_link ''system-2-link''), (''system-1-link'', plain_link ''/nix/store/old-system''),
      (''system-2-link'', plain_link ''/nix/store/now-system'')]"
  let ?fs = "[(''/nix/var/nix/profiles'', [(''system-1-link'', plain_link ''/nix/store/old-system''), (''system-2-link'', plain_link ''/nix/store/now-system''),
      (''system-3-link'', plain_link path), (''system'', plain_link ''system-3-link'')])]"
  let ?gens = "sample_gens @ [\<lparr>gn_number = 3, gn_path = path, gn_created = 0\<rparr>]"
  have p: "parent_dir ''/nix/var/nix/profiles/system-3-link'' = ''/nix/var/nix/profiles''" "file_name ''/nix/var/nix/profiles/system-3-link'' = ''system-3-link''"
    by (simp_all add: parent_dir_def file_name_def path_trim_def last_segment_def)
  have n: "Suc (fold max (map gn_number sample_gens) 0) = 3" by (simp add: sample_gens_def)
  have fs: "insert_or_replace ''/nix/var/nix/profiles''
      (insert_or_replace ''system'' (plain_link ''system-3-link'') (insert_or_replace ''system-3-link'' (plain_link path) ?dir)) sample_fs = ?fs"
    by (simp add: insert_or_replace_def delete_key_def sample_fs_def)
  have g: "discover_generations ?fs SYSTEM_PROFILE = Some ?gens" by (simp add: sample_eval)
  have r: "read_link ?fs SYSTEM_PROFILE = Some ''system-3-link''" "read_link ?fs ''/nix/var/nix/profiles/system-3-link'' = Some path"
    by (simp_all add: sample_eval p)
  have d: "map_of sample_fs ''/nix/var/nix/profiles'' = Some ?dir" by (simp add: sample_fs_def)
  have h: "hd path = CHR ''/''" using assms by auto
  have "profile_generation ?fs SYSTEM_PROFILE = Some path" by (simp add: profile_generation_def r system_profile_parts)
  then show ?thesis
    unfolding sample_set_def sample_run(2) Let_def option.case n show_three system_profile_parts d
    by (simp add: fs g r h subset_insertI)
qed

lemma sample_set_ok: "path \<in> {''/nix/store/new-system'', ''/nix/store/now-system'', ''/nix/store/old-system''} \<Longrightarrow>
    \<exists>fs'. sx_set (system_sample st) SYSTEM_PROFILE path sample_fs = (Exited 0, fs')"
  using sample_set_run[of path] by (cases "sample_set SYSTEM_PROFILE path sample_fs") (simp add: system_sample_def)

theorem activation_outcome_witness:
  "\<exists>fs' log. nix_env_ok (system_sample (Exited 0)) \<and> cmd_activate (system_sample (Exited 0)) ''x'' ''switch'' False sample_opts sample_fs = (Ok (), fs', log) \<and>
     profile_generation fs' SYSTEM_PROFILE = Some ''/nix/store/new-system''"
proof -
  obtain fs' where fs': "sx_set (system_sample (Exited 0)) SYSTEM_PROFILE ''/nix/store/new-system'' sample_fs = (Exited 0, fs')"
    using sample_set_ok by blast
  have b: "sx_build (system_sample (Exited 0)) ''x'' = Some ''/nix/store/new-system''" by (simp add: system_sample_def)
  obtain log where log: "cmd_activate (system_sample (Exited 0)) ''x'' ''switch'' False sample_opts sample_fs = (Ok (), fs', log)"
    using fs' by (simp add: cmd_activate_def b sample_opts_def resolve_profile_path_def) (simp add: system_sample_def Let_def)
  from activation_outcome[OF system_sample_ok log _ b] log system_sample_ok show ?thesis by (auto simp: sample_opts_def)
qed

theorem failed_activation_is_not_undone_witness:
  "\<exists>fs' log. cmd_activate (system_sample (Exited 4)) ''x'' ''switch'' False sample_opts sample_fs = (Err (ActivationFailed 4), fs', log) \<and>
     profile_generation fs' SYSTEM_PROFILE = Some ''/nix/store/new-system''"
proof -
  obtain fs' where fs': "sx_set (system_sample (Exited 4)) SYSTEM_PROFILE ''/nix/store/new-system'' sample_fs = (Exited 0, fs')"
    using sample_set_ok by blast
  have "sx_build (system_sample (Exited 4)) ''x'' = Some ''/nix/store/new-system''"
    "sx_run (system_sample (Exited 4)) (switch_script ''/nix/store/new-system'') (activation_variables sample_opts) ''switch'' = Exited (Suc 3)"
    by (simp_all add: system_sample_def)
  from failed_activation_is_not_undone[OF system_sample_ok _ _ this(1) sample_run(1) _ fs' this(2)] show ?thesis
    by (auto simp: sample_opts_def)
qed

theorem rollback_never_goes_back_witness:
  "\<exists>fs' log. cmd_rollback (system_sample (Exited 0)) None False SYSTEM_PROFILE sample_fs = (Ok (RolledBack 2), fs', log) \<and>
     profile_generation sample_fs SYSTEM_PROFILE = Some ''/nix/store/now-system'' \<and>
     profile_generation fs' SYSTEM_PROFILE = Some ''/nix/store/now-system''"
proof -
  have l: "last sample_gens = \<lparr>gn_number = 2, gn_path = ''/nix/store/now-system'', gn_created = 0\<rparr>" "sample_gens \<noteq> []" by (simp_all add: sample_gens_def)
  obtain fs' where fs': "sx_set (system_sample (Exited 0)) SYSTEM_PROFILE (gn_path (last sample_gens)) sample_fs = (Exited 0, fs')"
    unfolding l using sample_set_ok by force
  have 1: "\<forall>g \<in> set sample_gens. hd (gn_path g) = CHR ''/'' \<and> utf8_valid (gn_path g)"
    by (simp add: sample_gens_def utf8_valid_def)
  have 2: "sx_run (system_sample (Exited 0)) (switch_script (gn_path (last sample_gens))) [] ''switch'' = Exited 0" by (simp add: system_sample_def)
  have p: "parent_dir ''/nix/var/nix/profiles/system-2-link'' = ''/nix/var/nix/profiles''" "file_name ''/nix/var/nix/profiles/system-2-link'' = ''system-2-link''"
    by (simp_all add: parent_dir_def file_name_def path_trim_def last_segment_def)
  have "profile_generation sample_fs SYSTEM_PROFILE = Some ''/nix/store/now-system''"
    by (simp add: profile_generation_def sample_run(1)) (simp add: read_link_def system_profile_parts p sample_fs_def plain_link_def)
  with rollback_never_goes_back[OF system_sample_ok sample_run(1) _ sample_run(2) l(2) 1 fs' 2] show ?thesis by (auto simp: l)
qed

theorem rollback_to_number_witness:
  "\<exists>fs' log. cmd_rollback (system_sample (Exited 0)) (Some 1) False SYSTEM_PROFILE sample_fs = (Ok (RolledBack 1), fs', log) \<and>
     profile_generation fs' SYSTEM_PROFILE = Some ''/nix/store/old-system''"
proof -
  obtain fs' where fs': "sx_set (system_sample (Exited 0)) SYSTEM_PROFILE ''/nix/store/old-system'' sample_fs = (Exited 0, fs')"
    using sample_set_ok by force
  have f: "List.find (\<lambda>g. gn_number g = 1) sample_gens = Some \<lparr>gn_number = 1, gn_path = ''/nix/store/old-system'', gn_created = 0\<rparr>"
    by (simp add: sample_gens_def)
  have u: "utf8_valid ''/nix/store/old-system''" by (simp add: utf8_valid_def)
  obtain log where log: "cmd_rollback (system_sample (Exited 0)) (Some 1) False SYSTEM_PROFILE sample_fs = (Ok (RolledBack 1), fs', log)"
    using fs' u by (simp add: cmd_rollback_def sample_run rollback_target_def f[unfolded One_nat_def]) (simp add: system_sample_def Let_def)
  from rollback_to_number[OF system_sample_ok sample_run(1,2) log] log show ?thesis by (auto simp: sample_gens_def)
qed

text \<open>A boot partition with an entry of the second generation, one that was booted with counters, and what they name.\<close>

definition boot_sample_entry :: "string \<Rightarrow> string \<Rightarrow> bytes" where
  "boot_sample_entry kern ramdisk = ''linux /EFI/nixos/'' @ kern @ [NL] @ ''initrd /EFI/nixos/'' @ ramdisk @ [NL]"

definition sample_boot :: boot_partition where
  "sample_boot = \<lparr>bp_entries = Some [(''nixos-generation-2.conf'', boot_sample_entry ''k2'' ''i2''), (''nixos-generation-1+3.conf'', boot_sample_entry ''k1'' ''i1''),
       (''nixos-generation-9.conf'', boot_sample_entry ''k9'' ''i2'')],
     bp_nixos = Some [(''k1'', False), (''k2'', False), (''i2'', False), (''k9'', False)],
     bp_linux = Some [(''ekaos-x-generation-2.efi'', ())]\<rparr>"
lemma show_one_two: "show_nat (Suc 0) = ''1''" "show_nat 2 = ''2''" "show_nat 9 = ''9''"
  by code_simp+

lemma system_sample_names:
  "entry_generation ''nixos-generation-2.conf'' = Some 2" "entry_generation ''nixos-generation-9.conf'' = Some 9"
  "entry_generation ''nixos-generation-1+3.conf'' = None"
  using entry_generation_plain[of 2] entry_generation_plain[of 9] entry_generation_counted[of "''3''" 1]
  by (simp_all add: show_one_two is_ascii_digit_def)

lemma sample_entry_lines:
  assumes "kern \<in> {''k1'', ''k2'', ''k9''}" and "ramdisk \<in> {''i1'', ''i2''}"
  shows "lines (boot_sample_entry kern ramdisk) = [''linux /EFI/nixos/'' @ kern, ''initrd /EFI/nixos/'' @ ramdisk]" and "utf8_valid (boot_sample_entry kern ramdisk)"
  using assms by (auto simp: boot_sample_entry_def lines_def strip_cr_def utf8_valid_def)

lemma sample_boot_wf: "wf_table (the (bp_entries sample_boot))" "wf_table (the (bp_nixos sample_boot))" "wf_table (the (bp_linux sample_boot))"
  by (simp_all add: sample_boot_def wf_table_def)

lemma sample_line: "key @ path \<noteq> [] \<Longrightarrow> trim (''initrd /EFI/nixos/'' @ [a, b]) = ''initrd /EFI/nixos/'' @ [a, b]" if "visible b"
  using trim_ends[of "CHR ''i''" b "''nitrd /EFI/nixos/'' @ [a]"] that by (simp add: visible_def)

lemma sample_refs:
  assumes "kern \<in> {''k1'', ''k2'', ''k9''}" and "ramdisk \<in> {''i1'', ''i2''}"
  shows "collect_efi_refs (boot_sample_entry kern ramdisk) = [kern, ramdisk]"
proof -
  have t: "trim (''linux /EFI/nixos/'' @ kern) = ''linux /EFI/nixos/'' @ kern" "trim (''initrd /EFI/nixos/'' @ ramdisk) = ''initrd /EFI/nixos/'' @ ramdisk"
      "trim (''/EFI/nixos/'' @ kern) = ''/EFI/nixos/'' @ kern" "trim (''/EFI/nixos/'' @ ramdisk) = ''/EFI/nixos/'' @ ramdisk"
    using assms trim_ends[of "CHR ''l''" "last kern" "''inux /EFI/nixos/'' @ butlast kern"] trim_ends[of "CHR ''i''" "last ramdisk" "''nitrd /EFI/nixos/'' @ butlast ramdisk"]
      trim_ends[of "CHR ''/''" "last kern" "''EFI/nixos/'' @ butlast kern"] trim_ends[of "CHR ''/''" "last ramdisk" "''EFI/nixos/'' @ butlast ramdisk"]
    by (auto simp: visible_def)
  show ?thesis unfolding collect_efi_refs_def sample_entry_lines(1)[OF assms]
    using t assms by (auto simp: strip_prefix_def last_segment_def)
qed

theorem prune_boot_exact_witness:
  "\<exists>n entries' files' images'. cmd_prune_boot_entries (system_sample (Exited 0)) (\<lambda>_. True) False False sample_fs sample_boot =
      (Ok (Pruned n), sample_fs, \<lparr>bp_entries = Some entries', bp_nixos = Some files', bp_linux = Some images'\<rparr>) \<and>
     ''nixos-generation-9.conf'' \<notin> fst ` set entries' \<and> (''k9'', False) \<notin> set files' \<and> (''k2'', False) \<in> set files'"
proof -
  have wf: "wf_table [(''nixos-generation-2.conf'', boot_sample_entry ''k2'' ''i2''), (''nixos-generation-1+3.conf'', boot_sample_entry ''k1'' ''i1''),
       (''nixos-generation-9.conf'', boot_sample_entry ''k9'' ''i2'')]" "wf_table [(''k1'', False), (''k2'', False), (''i2'', False), (''k9'', False)]"
     "wf_table [(''ekaos-x-generation-2.efi'', ())]"
    by (simp_all add: wf_table_def)
  have g: "sample_gens \<noteq> []" "gn_number ` set sample_gens = {1, 2}" by (simp_all add: sample_gens_def)
  have k9: "\<not> (\<exists>e \<in> set [(''nixos-generation-2.conf'', boot_sample_entry ''k2'' ''i2''), (''nixos-generation-1+3.conf'', boot_sample_entry ''k1'' ''i1''),
       (''nixos-generation-9.conf'', boot_sample_entry ''k9'' ''i2'')]. \<exists>g \<in> gn_number ` set sample_gens.
       entry_generation (fst e) = Some g \<and> utf8_valid (snd e) \<and> ''k9'' \<in> set (collect_efi_refs (snd e)))"
    unfolding g(2) by (simp add: system_sample_names sample_refs)
  have k2: "\<exists>e \<in> set [(''nixos-generation-2.conf'', boot_sample_entry ''k2'' ''i2''), (''nixos-generation-1+3.conf'', boot_sample_entry ''k1'' ''i1''),
       (''nixos-generation-9.conf'', boot_sample_entry ''k9'' ''i2'')]. \<exists>g \<in> gn_number ` set sample_gens.
       entry_generation (fst e) = Some g \<and> utf8_valid (snd e) \<and> ''k2'' \<in> set (collect_efi_refs (snd e))"
    unfolding g(2) by (simp add: system_sample_names sample_refs sample_entry_lines)
  from prune_boot_exact[OF sample_boot_def wf sample_run(2) g(1) refl, of "system_sample (Exited 0)" "\<lambda>_. True"]
  show ?thesis
  proof (elim exE conjE, goal_cases)
    case (1 entries' files' images' n)
    have "''nixos-generation-9.conf'' \<notin> fst ` set entries'"
    proof
      assume "''nixos-generation-9.conf'' \<in> fst ` set entries'"
      then obtain r where r: "r \<in> set entries'" "fst r = ''nixos-generation-9.conf''" by (elim imageE) (erule that, erule sym)
      have "entry_generation (fst r) = Some 9" unfolding r(2) by (rule system_sample_names(2))
      then have "9 \<in> gn_number ` set sample_gens" using 1(3)[THEN spec, of r] r(1) by blast
      then show False unfolding g(2) by simp
    qed
    moreover have "(''k9'', False) \<notin> set files'" using 1(4)[rule_format, of "(''k9'', False)"] k9 by (simp only: fst_conv snd_conv simp_thms)
    moreover have "(''k2'', False) \<in> set files'" using 1(4)[rule_format, of "(''k2'', False)"] k2 by (simp only: fst_conv snd_conv simp_thms) simp
    ultimately show ?case using 1(1) by blast
  qed
qed


theorem pruning_breaks_counted_entry_witness:
  "\<exists>n entries' files' images'. cmd_prune_boot_entries (system_sample (Exited 0)) (\<lambda>_. True) False False sample_fs sample_boot =
      (Ok (Pruned n), sample_fs, \<lparr>bp_entries = Some entries', bp_nixos = Some files', bp_linux = Some images'\<rparr>) \<and>
     (''nixos-generation-1+3.conf'', boot_sample_entry ''k1'' ''i1'') \<in> set entries' \<and> (''k1'', False) \<notin> set files'"
proof -
  let ?entries = "[(''nixos-generation-2.conf'', boot_sample_entry ''k2'' ''i2''), (''nixos-generation-1+3.conf'', boot_sample_entry ''k1'' ''i1''),
       (''nixos-generation-9.conf'', boot_sample_entry ''k9'' ''i2'')]"
  have wf: "wf_table ?entries" "wf_table [(''k1'', False), (''k2'', False), (''i2'', False), (''k9'', False)]" "wf_table [(''ekaos-x-generation-2.efi'', ())]"
    by (simp_all add: wf_table_def)
  let ?x = "\<lparr>gn_number = 1, gn_path = ''/nix/store/old-system'', gn_created = 0\<rparr>"
  have x: "?x \<in> set sample_gens" by (simp add: sample_gens_def)
  have name: "''nixos-generation-1+3.conf'' = ''nixos-generation-'' @ show_nat (gn_number ?x) @ ''+'' @ ''3'' @ ''.conf''" by (simp add: show_one_two)
  have "list_all is_ascii_digit ''3''" "(''nixos-generation-1+3.conf'', boot_sample_entry ''k1'' ''i1'') \<in> set ?entries"
    "''k1'' \<in> set (collect_efi_refs (boot_sample_entry ''k1'' ''i1''))" "(''k1'', False) \<in> set [(''k1'', False), (''k2'', False), (''i2'', False), (''k9'', False)]"
    "\<forall>e \<in> set ?entries. entry_generation (fst e) \<noteq> None \<longrightarrow> ''k1'' \<notin> set (collect_efi_refs (snd e))"
    by (simp_all add: is_ascii_digit_def sample_refs system_sample_names)
  from pruning_breaks_counted_entry[OF sample_boot_def wf sample_run(2) x name this, of "system_sample (Exited 0)"] show ?thesis .
qed

end
