(* ===== verification/HomePackages.thy ===== *)
theory HomePackages
  imports NarInfo SystemGen
begin

text \<open>
  Packages of the home directory: \<open>HomePackages\<close> of \<open>crates/ekapkgs/src/config.rs\<close>, the store path index (\<open>store_path_index.rs\<close>), the
  directory of links on the search path (\<open>symlink_dir.rs\<close>) and the commands of \<open>commands/home.rs\<close> that change them,
  with activation and rollback of home generations.  The Nix store, Nix, the search index and the activation scripts
  are functions of an environment.  Files are saved without failing; background runs and messages are left out.
\<close>

subsection \<open>The manifest and the store path index\<close>

record home_package =
  hpk_name :: string
  hpk_flake :: "string option"
  hpk_added_at :: "string option"
  hpk_added_by :: "string option"

record home_packages =
  hp_version :: nat
  hp_flake :: string
  hp_packages :: "home_package list"

definition hp_has :: "string \<Rightarrow> home_packages \<Rightarrow> bool" where
  "hp_has name m \<longleftrightarrow> list_ex (\<lambda>p. hpk_name p = name) (hp_packages m)"

definition hp_add :: "home_package \<Rightarrow> home_packages \<Rightarrow> bool \<times> home_packages" where
  "hp_add e m = (if hp_has (hpk_name e) m then (False, m) else (True, m\<lparr>hp_packages := hp_packages m @ [e]\<rparr>))"

definition hp_remove :: "string \<Rightarrow> home_packages \<Rightarrow> bool \<times> home_packages" where
  "hp_remove name m =
     (let kept = filter (\<lambda>p. hpk_name p \<noteq> name) (hp_packages m)
      in (length kept < length (hp_packages m), m\<lparr>hp_packages := kept\<rparr>))"

definition hp_installable :: "home_package \<Rightarrow> home_packages \<Rightarrow> string" where
  "hp_installable e m = (case hpk_flake e of None \<Rightarrow> hp_flake m | Some f \<Rightarrow> f) @ ''#'' @ hpk_name e"

type_synonym store_index = "(string, string) table"

definition populate_from_closure :: "string list \<Rightarrow> store_index \<Rightarrow> store_index" where
  "populate_from_closure paths idx =
     fold (\<lambda>p idx. let name = fst (parse_store_path_name p) in if name = [] then idx else insert_or_replace name p idx) paths idx"

definition add_from_build_output :: "string \<Rightarrow> string \<Rightarrow> store_index \<Rightarrow> store_index" where
  "add_from_build_output name path idx = insert_or_replace name path idx"

subsection \<open>The directory of links\<close>

text \<open>What a name of \<open>bin\<close> is; only links and plain files can be removed as files.\<close>

datatype bin_entry = Link string | Plain | Directory

type_synonym bin_dir = "(string, bin_entry) table"

record home_env =
  hv_bin :: "string \<Rightarrow> string list option"
  hv_exists :: "string \<Rightarrow> bool"
  hv_build :: "string \<Rightarrow> string option"
  hv_valid :: "string \<Rightarrow> bool"
  hv_on_path :: "string \<Rightarrow> bool"
  hv_closure :: "string \<Rightarrow> string list option"
  hv_flake_update :: bool
  hv_run :: "string \<Rightarrow> exit_status"
  hv_now :: string
  hv_caller :: string

datatype home_error =
    CannotLink string
  | UnknownPackage string
  | NoOutput string
  | HomeBuildFailed
  | HomeNotStarted
  | HomeFailed nat
  | NoPreviousGeneration
  | FlakeUpdateFailed

fun link_all :: "string \<Rightarrow> string list \<Rightarrow> bin_dir \<Rightarrow> (home_error + unit) \<times> bin_dir" where
  "link_all path [] t = (Ok (), t)"
| "link_all path (n # ns) t =
     (if map_of t n = Some Directory then (Err (CannotLink n), t)
      else link_all path ns (insert_or_replace n (Link (path @ ''/bin/'' @ n)) t))"

definition create_package_symlinks :: "home_env \<Rightarrow> string \<Rightarrow> bin_dir option \<Rightarrow> (home_error + unit) \<times> bin_dir option" where
  "create_package_symlinks env path links =
     (let t = (case links of None \<Rightarrow> [] | Some t \<Rightarrow> t)
      in case hv_bin env path of
           None \<Rightarrow> (Ok (), Some t)
         | Some names \<Rightarrow> (case link_all path names t of (r, t) \<Rightarrow> (r, Some t)))"

text \<open>\<open>Path::starts_with\<close>, by components.\<close>

definition path_starts_with :: "string \<Rightarrow> string \<Rightarrow> bool" where
  "path_starts_with target p \<longleftrightarrow> target = p \<or> strip_prefix (p @ ''/'') target \<noteq> None"

definition remove_package_symlinks :: "home_env \<Rightarrow> string \<Rightarrow> bin_dir option \<Rightarrow> bin_dir option" where
  "remove_package_symlinks env path links =
     (case (hv_bin env path, links) of
        (Some names, Some t) \<Rightarrow>
          Some (fold (\<lambda>n t. case map_of t n of Some (Link target) \<Rightarrow> if path_starts_with target path then delete_key n t else t | _ \<Rightarrow> t) names t)
      | _ \<Rightarrow> links)"

fun relink :: "home_env \<Rightarrow> store_index \<Rightarrow> string list \<Rightarrow> bin_dir option \<Rightarrow> (home_error + unit) \<times> bin_dir option" where
  "relink env idx [] links = (Ok (), links)"
| "relink env idx (name # names) links =
     (case map_of idx name of
        Some path \<Rightarrow>
          if hv_exists env path
          then (case create_package_symlinks env path links of
                  (Inl e, links) \<Rightarrow> (Err e, links)
                | (Inr _, links) \<Rightarrow> relink env idx names links)
          else relink env idx names links
      | None \<Rightarrow> relink env idx names links)"

definition rebuild_symlink_dir :: "home_env \<Rightarrow> store_index \<Rightarrow> string list \<Rightarrow> bin_dir option \<Rightarrow> (home_error + unit) \<times> bin_dir option" where
  "rebuild_symlink_dir env idx names links =
     relink env idx names
       (case links of Some t \<Rightarrow> Some (filter (\<lambda>r. \<not> (\<exists>target. snd r = Link target)) t) | None \<Rightarrow> Some [])"

subsection \<open>Package commands\<close>

record home_world =
  hw_manifest :: home_packages
  hw_index :: store_index
  hw_links :: "bin_dir option"

definition package_names :: "home_packages \<Rightarrow> string list" where
  "package_names m = map hpk_name (hp_packages m)"

text \<open>One package: the store path of the index when it is there, else a build; \<open>None\<close> when nothing was built.\<close>

definition install_package :: "home_env \<Rightarrow> home_package \<Rightarrow> home_world \<Rightarrow> (home_error + unit) \<times> home_world" where
  "install_package env e w =
     (case (case map_of (hw_index w) (hpk_name e) of Some p \<Rightarrow> if hv_exists env p then Some p else None | None \<Rightarrow> None) of
        Some p \<Rightarrow> (case create_package_symlinks env p (hw_links w) of (r, links) \<Rightarrow> (r, w\<lparr>hw_links := links\<rparr>))
      | None \<Rightarrow>
         (case hv_build env (hp_installable e (hw_manifest w)) of
            None \<Rightarrow> (Err (NoOutput (hpk_name e)), w)
          | Some p \<Rightarrow>
             (case create_package_symlinks env p (hw_links w) of
                (Inl x, links) \<Rightarrow> (Err x, w\<lparr>hw_links := links\<rparr>)
              | (Inr _, links) \<Rightarrow> (Ok (), w\<lparr>hw_links := links, hw_index := add_from_build_output (hpk_name e) p (hw_index w)\<rparr>))))"

fun home_add :: "home_env \<Rightarrow> string option \<Rightarrow> string list \<Rightarrow> nat \<Rightarrow> home_world \<Rightarrow> (home_error + nat) \<times> home_world" where
  "home_add env flake [] added w = (Ok added, w)"
| "home_add env flake (name # names) added w =
     (if hp_has name (hw_manifest w) then home_add env flake names added w
      else if \<not> hv_valid env name then (Err (UnknownPackage name), w)
      else let e = \<lparr>hpk_name = name, hpk_flake = flake, hpk_added_at = Some (hv_now env), hpk_added_by = Some (hv_caller env)\<rparr>
           in case install_package env e w of
                (Inl x, w) \<Rightarrow> (Err x, w)
              | (Inr _, w) \<Rightarrow> home_add env flake names (added + 1) (w\<lparr>hw_manifest := snd (hp_add e (hw_manifest w))\<rparr>))"

definition cmd_packages_add :: "home_env \<Rightarrow> string list \<Rightarrow> string option \<Rightarrow> home_world \<Rightarrow> (home_error + nat) \<times> home_world" where
  "cmd_packages_add env names flake w = home_add env flake names 0 w"

text \<open>Errors of the link directory are ignored here.\<close>

definition cmd_packages_remove :: "home_env \<Rightarrow> string list \<Rightarrow> home_world \<Rightarrow> nat \<times> home_world" where
  "cmd_packages_remove env names w =
     (let (removed, w) = fold (\<lambda>name (removed, w).
            case hp_remove name (hw_manifest w) of
              (False, _) \<Rightarrow> (removed, w)
            | (True, m) \<Rightarrow> (removed + 1, w\<lparr>hw_manifest := m, hw_links :=
                (case map_of (hw_index w) name of Some p \<Rightarrow> remove_package_symlinks env p (hw_links w) | None \<Rightarrow> hw_links w)\<rparr>)) names (0, w)
      in if removed > 0 then (removed, w\<lparr>hw_links := snd (rebuild_symlink_dir env (hw_index w) (package_names (hw_manifest w)) (hw_links w))\<rparr>)
         else (removed, w))"

definition cmd_packages_import :: "home_env \<Rightarrow> home_packages \<Rightarrow> bool \<Rightarrow> home_world \<Rightarrow> nat \<times> home_world" where
  "cmd_packages_import env imported merge w =
     (let m = (if merge then fold (\<lambda>e m. let m = snd (hp_remove (hpk_name e) m) in m\<lparr>hp_packages := hp_packages m @ [e]\<rparr>)
                 (hp_packages imported) (hw_manifest w) else imported)\<lparr>hp_version := 1\<rparr>;
          w = w\<lparr>hw_manifest := m\<rparr>;
          (installed, w) = fold (\<lambda>e (installed, w).
             case map_of (hw_index w) (hpk_name e) of
               Some p \<Rightarrow>
                 if hv_exists env p then (installed + 1, w\<lparr>hw_links := snd (create_package_symlinks env p (hw_links w))\<rparr>)
                 else (case hv_build env (hp_installable e m) of
                         None \<Rightarrow> (installed, w)
                       | Some p \<Rightarrow> (installed + 1, w\<lparr>hw_links := snd (create_package_symlinks env p (hw_links w)),
                           hw_index := add_from_build_output (hpk_name e) p (hw_index w)\<rparr>))
             | None \<Rightarrow>
                 (case hv_build env (hp_installable e m) of
                    None \<Rightarrow> (installed, w)
                  | Some p \<Rightarrow> (installed + 1, w\<lparr>hw_links := snd (create_package_symlinks env p (hw_links w)),
                      hw_index := add_from_build_output (hpk_name e) p (hw_index w)\<rparr>))) (hp_packages m) (0, w)
      in (installed, w\<lparr>hw_links := snd (rebuild_symlink_dir env (hw_index w) (package_names m) (hw_links w))\<rparr>))"

definition cmd_packages_present :: "home_env \<Rightarrow> string list \<Rightarrow> home_packages \<Rightarrow> bool" where
  "cmd_packages_present env names m = list_all (\<lambda>n. hp_has n m \<or> hv_on_path env n) names"

definition cmd_packages_missing :: "home_env \<Rightarrow> string list \<Rightarrow> home_packages \<Rightarrow> bool" where
  "cmd_packages_missing env names m = list_all (\<lambda>n. \<not> hp_has n m \<and> \<not> hv_on_path env n) names"

subsection \<open>Activating the home configuration\<close>

text \<open>The generations directory: names with their link targets, \<open>None\<close> for what is no link.\<close>

definition find_previous_generation :: "(string, string option) table option \<Rightarrow> (nat \<times> string) option" where
  "find_previous_generation dir =
     (case dir of
        None \<Rightarrow> None
      | Some d \<Rightarrow>
         let entries = sort_key fst (List.map_filter (\<lambda>r. Option.bind (parse_u64 (fst r)) (\<lambda>n. map_option (Pair n) (snd r))) d)
         in if length entries \<ge> 2 then Some (entries ! (length entries - 2)) else None)"

definition reconcile_symlink_dir :: "home_env \<Rightarrow> home_world \<Rightarrow> home_world" where
  "reconcile_symlink_dir env w =
     w\<lparr>hw_links := snd (rebuild_symlink_dir env (hw_index w) (package_names (hw_manifest w)) (hw_links w))\<rparr>"

definition home_populate_index :: "home_env \<Rightarrow> string \<Rightarrow> home_world \<Rightarrow> home_world" where
  "home_populate_index env path w =
     (case hv_closure env path of None \<Rightarrow> w | Some paths \<Rightarrow> w\<lparr>hw_index := populate_from_closure paths (hw_index w)\<rparr>)"

text \<open>The scripts that were run, with their outcome, are the log.\<close>

definition cmd_switch ::
  "home_env \<Rightarrow> string \<Rightarrow> (string, string option) table option \<Rightarrow> home_world \<Rightarrow> (home_error + unit) \<times> home_world \<times> (string \<times> exit_status) list" where
  "cmd_switch env installable gens w =
     (case hv_build env installable of
        None \<Rightarrow> (Err HomeBuildFailed, w, [])
      | Some path \<Rightarrow>
         let script = path @ ''/activate''; st = hv_run env script
         in if st = NotStarted then (Err HomeNotStarted, w, [(script, st)])
            else if \<not> success st
            then (Err (HomeFailed (exit_code st)), w,
                  (script, st) # (case find_previous_generation gens of
                                    Some (_, prev) \<Rightarrow> [(prev @ ''/activate'', hv_run env (prev @ ''/activate''))] | None \<Rightarrow> []))
            else (Ok (), reconcile_symlink_dir env (home_populate_index env path w), [(script, st)]))"

definition cmd_update ::
  "home_env \<Rightarrow> string \<Rightarrow> (string, string option) table option \<Rightarrow> home_world \<Rightarrow> (home_error + unit) \<times> home_world \<times> (string \<times> exit_status) list" where
  "cmd_update env installable gens w =
     (if \<not> hv_flake_update env then (Err FlakeUpdateFailed, w, [])
      else cmd_switch env installable gens (w\<lparr>hw_index := []\<rparr>))"

definition cmd_home_rollback ::
  "home_env \<Rightarrow> (string, string option) table option \<Rightarrow> (home_error + nat) \<times> (string \<times> exit_status) list" where
  "cmd_home_rollback env gens =
     (case find_previous_generation gens of
        None \<Rightarrow> (Err NoPreviousGeneration, [])
      | Some (n, prev) \<Rightarrow>
         let script = prev @ ''/activate''; st = hv_run env script
         in (if st = NotStarted then Err HomeNotStarted else if \<not> success st then Err (HomeFailed (exit_code st)) else Ok n, [(script, st)]))"

subsection \<open>The directory mirrors the manifest\<close>

definition provides :: "home_env \<Rightarrow> string \<Rightarrow> string \<Rightarrow> bool" where
  "provides env b p \<longleftrightarrow> hv_exists env p \<and> (case hv_bin env p of Some ns \<Rightarrow> b \<in> set ns | None \<Rightarrow> False)"

text \<open>The store path a binary comes from: that of the last package of the manifest that is indexed, there and has it.\<close>

definition provider :: "home_env \<Rightarrow> store_index \<Rightarrow> string list \<Rightarrow> string \<Rightarrow> string option" where
  "provider env idx names b = List.find (provides env b) (rev (List.map_filter (map_of idx) names))"

definition no_directories :: "bin_dir option \<Rightarrow> bool" where
  "no_directories links \<longleftrightarrow> (case links of Some t \<Rightarrow> \<forall>n. map_of t n \<noteq> Some Directory | None \<Rightarrow> True)"

definition link_of :: "bin_dir option \<Rightarrow> string \<Rightarrow> bin_entry option" where
  "link_of links b = (case links of Some t \<Rightarrow> map_of t b | None \<Rightarrow> None)"

lemma link_all_ok:
  assumes "\<forall>n. map_of t n \<noteq> Some Directory"
  shows "\<exists>t'. link_all path ns t = (Ok (), t') \<and> (\<forall>n. map_of t' n \<noteq> Some Directory) \<and>
    (\<forall>b. map_of t' b = (if b \<in> set ns then Some (Link (path @ ''/bin/'' @ b)) else map_of t b))"
  using assms
proof (induction ns arbitrary: t)
  case (Cons n ns)
  let ?t = "insert_or_replace n (Link (path @ ''/bin/'' @ n)) t"
  have "\<forall>k. map_of ?t k \<noteq> Some Directory" using Cons.prems by (simp add: table_simps)
  from Cons.IH[OF this] show ?case using Cons.prems by (auto simp: table_simps)
qed simp

lemma create_ok:
  assumes "no_directories links"
  shows "\<exists>links'. create_package_symlinks env path links = (Ok (), links') \<and> no_directories links' \<and>
    (\<forall>b. link_of links' b = (if (case hv_bin env path of Some ns \<Rightarrow> b \<in> set ns | None \<Rightarrow> False) then Some (Link (path @ ''/bin/'' @ b)) else link_of links b))"
proof -
  let ?t = "case links of None \<Rightarrow> [] | Some t \<Rightarrow> t"
  have t: "\<forall>n. map_of ?t n \<noteq> Some Directory" using assms by (cases links) (simp_all add: no_directories_def)
  have l: "map_of ?t b = link_of links b" for b by (cases links) (simp_all add: link_of_def)
  show ?thesis
  proof (cases "hv_bin env path")
    case None
    then show ?thesis using t l by (auto simp: create_package_symlinks_def no_directories_def link_of_def)
  next
    case (Some ns)
    obtain t' where "link_all path ns ?t = (Ok (), t')" "\<forall>n. map_of t' n \<noteq> Some Directory"
        "\<forall>b. map_of t' b = (if b \<in> set ns then Some (Link (path @ ''/bin/'' @ b)) else map_of ?t b)" using link_all_ok[OF t] by blast
    then show ?thesis using l by (simp add: create_package_symlinks_def Some no_directories_def Let_def) (simp add: link_of_def)
  qed
qed

lemma find_append_last: "List.find P (xs @ [x]) = (case List.find P xs of Some y \<Rightarrow> Some y | None \<Rightarrow> if P x then Some x else None)"
  by (induction xs) auto

lemma relink_ok:
  assumes "no_directories links"
  shows "\<exists>links'. relink env idx names links = (Ok (), links') \<and> no_directories links' \<and>
    (\<forall>b. link_of links' b = (case provider env idx names b of Some p \<Rightarrow> Some (Link (p @ ''/bin/'' @ b)) | None \<Rightarrow> link_of links b))"
  using assms
proof (induction names arbitrary: links)
  case Nil
  then show ?case by (simp add: provider_def)
next
  case (Cons name names)
  show ?case
  proof (cases "map_of idx name")
    case None
    then show ?thesis using Cons by (simp add: provider_def)
  next
    case (Some p)
    have pr: "provider env idx (name # names) b = (case provider env idx names b of Some q \<Rightarrow> Some q | None \<Rightarrow> if provides env b p then Some p else None)" for b
      using Some by (simp add: provider_def find_append_last)
    show ?thesis
    proof (cases "hv_exists env p")
      case False
      then have "provider env idx (name # names) b = provider env idx names b" for b
        by (simp add: pr provides_def split: option.split)
      then show ?thesis using Cons Some False by simp
    next
      case True
      obtain l1 where l1: "create_package_symlinks env p links = (Ok (), l1)" "no_directories l1"
          "\<forall>b. link_of l1 b = (if provides env b p then Some (Link (p @ ''/bin/'' @ b)) else link_of links b)"
        using create_ok[OF Cons.prems, of env p] True by (auto simp: provides_def)
      from Cons.IH[OF l1(2)] obtain l2 where l2: "relink env idx names l1 = (Ok (), l2)" "no_directories l2"
          "\<And>b. link_of l2 b = (case provider env idx names b of Some p \<Rightarrow> Some (Link (p @ ''/bin/'' @ b)) | None \<Rightarrow> link_of l1 b)" by blast
      have "link_of l2 b = (case provider env idx (name # names) b of Some p \<Rightarrow> Some (Link (p @ ''/bin/'' @ b)) | None \<Rightarrow> link_of links b)" for b
        using l2(3)[of b] l1(3)[rule_format, of b] by (cases "provider env idx names b") (simp_all add: pr)
      then show ?thesis using l1(1) l2(1,2) Some True by simp
    qed
  qed
qed

lemma rebuild_ok:
  assumes "no_directories links" and "wf_table (case links of Some t \<Rightarrow> t | None \<Rightarrow> [])"
  shows "\<exists>links'. rebuild_symlink_dir env idx names links = (Ok (), links') \<and> no_directories links' \<and>
    (\<forall>b. link_of links' b = (case provider env idx names b of
       Some p \<Rightarrow> Some (Link (p @ ''/bin/'' @ b)) | None \<Rightarrow> if link_of links b = Some Plain then Some Plain else None))"
proof -
  let ?l = "case links of Some t \<Rightarrow> Some (filter (\<lambda>r. \<not> (\<exists>target. snd r = Link target)) t) | None \<Rightarrow> Some []"
  have l: "link_of ?l b = (if link_of links b = Some Plain then Some Plain else None)" for b
  proof (cases links)
    case (Some t)
    then have t: "wf_table t" using assms(2) by simp
    have d: "map_of t b \<noteq> Some Directory" using assms(1) Some by (simp add: no_directories_def)
    show ?thesis using Some t d map_of_filter[OF t, of "\<lambda>r. \<not> (\<exists>target. snd r = Link target)" b]
      by (cases "map_of t b") (auto simp: link_of_def intro: bin_entry.exhaust)
  qed (simp add: link_of_def)
  have "no_directories ?l"
  proof (cases links)
    case (Some t)
    have "map_of (filter (\<lambda>r. \<not> (\<exists>target. snd r = Link target)) t) n \<noteq> Some Directory" for n
      using l[of n] Some by (simp add: link_of_def split: if_splits)
    then show ?thesis using Some by (simp add: no_directories_def)
  qed (simp add: no_directories_def)
  from relink_ok[OF this, of env idx names] show ?thesis unfolding rebuild_symlink_dir_def l by blast
qed

definition dir_ok :: "bin_dir option \<Rightarrow> bool" where
  "dir_ok links \<longleftrightarrow> no_directories links \<and> wf_table (case links of Some t \<Rightarrow> t | None \<Rightarrow> [])"

definition links_ok :: "home_world \<Rightarrow> bool" where
  "links_ok w \<longleftrightarrow> dir_ok (hw_links w)"

definition mirrors_manifest :: "home_env \<Rightarrow> home_world \<Rightarrow> bool" where
  "mirrors_manifest env w \<longleftrightarrow> (\<forall>b target. link_of (hw_links w) b = Some (Link target) \<longleftrightarrow>
     (\<exists>p. provider env (hw_index w) (package_names (hw_manifest w)) b = Some p \<and> target = p @ ''/bin/'' @ b))"

lemma reconcile_mirrors: "links_ok w \<Longrightarrow> mirrors_manifest env (reconcile_symlink_dir env w)"
proof -
  assume "links_ok w"
  then obtain links' where l: "rebuild_symlink_dir env (hw_index w) (package_names (hw_manifest w)) (hw_links w) = (Ok (), links')"
      "\<forall>b. link_of links' b = (case provider env (hw_index w) (package_names (hw_manifest w)) b of
       Some p \<Rightarrow> Some (Link (p @ ''/bin/'' @ b)) | None \<Rightarrow> if link_of (hw_links w) b = Some Plain then Some Plain else None)"
    using rebuild_ok[of "hw_links w" env "hw_index w" "package_names (hw_manifest w)"] by (auto simp: links_ok_def dir_ok_def)
  show ?thesis using l by (auto simp: mirrors_manifest_def reconcile_symlink_dir_def split: option.splits)
qed

lemma remove_symlinks_ok:
  assumes "dir_ok links"
  shows "dir_ok (remove_package_symlinks env path links)"
proof (cases "hv_bin env path = None \<or> links = None")
  case False
  then obtain ns t where n: "hv_bin env path = Some ns" "links = Some t" by auto
  let ?step = "\<lambda>n t. case map_of t n of Some (Link target) \<Rightarrow> if path_starts_with target path then delete_key n t else t | _ \<Rightarrow> t"
  have "(\<forall>n. map_of t n \<noteq> Some Directory) \<and> wf_table t \<Longrightarrow> (\<forall>n. map_of (fold ?step ns t) n \<noteq> Some Directory) \<and> wf_table (fold ?step ns t)" for t
  proof (induction ns arbitrary: t)
    case (Cons n ns)
    have "(\<forall>k. map_of (?step n t) k \<noteq> Some Directory) \<and> wf_table (?step n t)"
      using Cons.prems by (auto simp: table_simps split: option.split bin_entry.split)
    from Cons.IH[OF this] show ?case by simp
  qed simp
  then show ?thesis using assms n by (simp add: remove_package_symlinks_def no_directories_def dir_ok_def)
qed (use assms in \<open>auto simp: remove_package_symlinks_def split: option.split\<close>)

definition remove_one :: "home_env \<Rightarrow> string \<Rightarrow> nat \<times> home_world \<Rightarrow> nat \<times> home_world" where
  "remove_one env name s =
     (case s of (removed, w) \<Rightarrow>
        case hp_remove name (hw_manifest w) of
          (False, _) \<Rightarrow> (removed, w)
        | (True, m) \<Rightarrow> (removed + 1, w\<lparr>hw_manifest := m, hw_links :=
            (case map_of (hw_index w) name of Some p \<Rightarrow> remove_package_symlinks env p (hw_links w) | None \<Rightarrow> hw_links w)\<rparr>))"

lemma remove_all_ok': "links_ok w \<Longrightarrow> links_ok (snd (fold (remove_one env) names (k, w)))"
proof (induction names arbitrary: k w)
  case (Cons name names)
  obtain k' w' where s: "remove_one env name (k, w) = (k', w')" by fastforce
  have "links_ok w'" using s Cons.prems remove_symlinks_ok[of "hw_links w" env]
    by (auto simp: remove_one_def links_ok_def split: prod.splits bool.splits option.splits)
  then show ?case using Cons.IH s by simp
qed simp

lemma cmd_packages_remove_eq:
  "cmd_packages_remove env names w =
     (let (removed, w) = fold (remove_one env) names (0, w)
      in if removed > 0 then (removed, reconcile_symlink_dir env w) else (removed, w))"
  unfolding cmd_packages_remove_def remove_one_def[abs_def] reconcile_symlink_dir_def Let_def by (simp add: case_prod_unfold)

text \<open>C33. The link directory mirrors the manifest.  After a successful activation and after a removal of packages, the links are exactly
  those of the binaries the manifest's packages have in the store, each to the last package that has it.\<close>

theorem links_mirror_manifest:
  assumes "links_ok w"
  shows "(\<forall>w' log. cmd_switch env installable gens w = (Ok (), w', log) \<longrightarrow> mirrors_manifest env w' \<and> hw_manifest w' = hw_manifest w) \<and>
    (\<forall>k w'. cmd_packages_remove env names w = (k, w') \<longrightarrow> 0 < k \<longrightarrow> mirrors_manifest env w')"
proof (intro conjI allI impI)
  fix w' log assume run: "cmd_switch env installable gens w = (Ok (), w', log)"
  then obtain path where "w' = reconcile_symlink_dir env (home_populate_index env path w)"
    by (auto simp: cmd_switch_def Let_def split: option.splits if_splits)
  moreover have "links_ok (home_populate_index env path w)" using assms by (simp add: links_ok_def home_populate_index_def split: option.split)
  ultimately show "mirrors_manifest env w'" "hw_manifest w' = hw_manifest w"
    using reconcile_mirrors by (auto simp: reconcile_symlink_dir_def home_populate_index_def split: option.split)
next
  fix k w' assume "cmd_packages_remove env names w = (k, w')" "0 < k"
  then show "mirrors_manifest env w'"
    using reconcile_mirrors[OF remove_all_ok'[OF assms, of env names 0]] by (auto simp: cmd_packages_remove_eq Let_def split: prod.splits if_splits)
qed

lemma populate_values:
  "map_of (populate_from_closure paths idx) n = Some p \<Longrightarrow> p \<in> set paths \<and> fst (parse_store_path_name p) = n \<or> map_of idx n = Some p"
  unfolding populate_from_closure_def
proof (induction paths arbitrary: idx)
  case (Cons q paths)
  then show ?case by (fastforce simp: Let_def table_simps split: if_splits)
qed simp

lemma map_filter_memD: "y \<in> set (List.map_filter f xs) \<Longrightarrow> \<exists>x \<in> set xs. f x = Some y"
  by (induction xs) (auto split: option.splits)

text \<open>An update uninstalls packages.  It clears the index, which then knows the closure of the new home configuration only; the
  links are rebuilt from it.  A package of the manifest that is in no such closure loses its binaries, although the
  manifest still lists it and its store path is still there.\<close>

theorem update_uninstalls_packages:
  assumes "links_ok w" and "cmd_update env installable gens w = (Ok (), w', log)"
    and "hv_build env installable = Some path" and "hv_closure env path = Some paths"
    and "hp_has name (hw_manifest w)" and "map_of (hw_index w) name = Some p" and "hv_exists env p"
    and "link_of (hw_links w) b = Some (Link (p @ ''/bin/'' @ b))" and "\<forall>q \<in> set paths. \<not> provides env b q"
  shows "hp_has name (hw_manifest w') \<and> (\<forall>target. link_of (hw_links w') b \<noteq> Some (Link target))"
proof -
  have w': "w' = reconcile_symlink_dir env (home_populate_index env path (w\<lparr>hw_index := []\<rparr>))"
    using assms(2,3) by (auto simp: cmd_update_def cmd_switch_def Let_def split: if_splits)
  have "links_ok (home_populate_index env path (w\<lparr>hw_index := []\<rparr>))" using assms(1) by (simp add: links_ok_def home_populate_index_def assms(4))
  then have m: "mirrors_manifest env w'" unfolding w' by (rule reconcile_mirrors)
  have "provider env (hw_index w') ns b = None" for ns
  proof -
    have "hw_index w' = populate_from_closure paths []" by (simp add: w' reconcile_symlink_dir_def home_populate_index_def assms(4))
    then have "\<forall>q \<in> set (List.map_filter (map_of (hw_index w')) ns). q \<in> set paths"
      using populate_values[of paths "[]"] by (auto dest!: map_filter_memD)
    then show ?thesis using assms(9) by (auto simp: provider_def find_None_iff)
  qed
  then have "\<forall>target. link_of (hw_links w') b \<noteq> Some (Link target)" using m by (simp add: mirrors_manifest_def)
  moreover have "hw_manifest w' = hw_manifest w" by (simp add: w' reconcile_symlink_dir_def home_populate_index_def assms(4))
  ultimately show ?thesis using assms(5) by simp
qed

text \<open>The flake of an added package is ignored.  When the index has a store path under the package's name, that path is linked
  whatever flake the command names, and the manifest records the flake; Nix is never asked for the flake's package.\<close>

theorem flake_override_is_ignored:
  assumes "links_ok w" and "\<not> hp_has name (hw_manifest w)" and "hv_valid env name"
    and "map_of (hw_index w) name = Some p" and "hv_exists env p" and "hv_bin env p = Some ns" and "b \<in> set ns"
  shows "\<exists>w'. (\<forall>build. cmd_packages_add (env\<lparr>hv_build := build\<rparr>) [name] (Some flake) w = (Ok 1, w')) \<and>
    link_of (hw_links w') b = Some (Link (p @ ''/bin/'' @ b)) \<and> hpk_flake (last (hp_packages (hw_manifest w'))) = Some flake"
proof -
  have nd: "no_directories (hw_links w)" using assms(1) by (simp add: links_ok_def dir_ok_def)
  have c: "create_package_symlinks (env\<lparr>hv_build := build\<rparr>) p (hw_links w) = create_package_symlinks env p (hw_links w)" for build
    by (simp add: create_package_symlinks_def)
  obtain l where l: "create_package_symlinks env p (hw_links w) = (Ok (), l)" "link_of l b = Some (Link (p @ ''/bin/'' @ b))"
    using create_ok[OF nd, of env p] assms(6,7) by auto
  let ?e = "\<lparr>hpk_name = name, hpk_flake = Some flake, hpk_added_at = Some (hv_now env), hpk_added_by = Some (hv_caller env)\<rparr>"
  let ?w = "w\<lparr>hw_links := l, hw_manifest := snd (hp_add ?e (hw_manifest w))\<rparr>"
  have "cmd_packages_add (env\<lparr>hv_build := build\<rparr>) [name] (Some flake) w = (Ok 1, ?w)" for build
    by (simp add: cmd_packages_add_def assms(2-5) install_package_def c l)
  moreover have "hpk_flake (last (hp_packages (hw_manifest ?w))) = Some flake" by (simp add: hp_add_def assms(2))
  moreover have "link_of (hw_links ?w) b = Some (Link (p @ ''/bin/'' @ b))" using l(2) by simp
  ultimately show ?thesis by blast
qed

subsection \<open>Instances\<close>

definition sample_home :: home_env where
  "sample_home = \<lparr>hv_bin = (\<lambda>p. if p = ''/s/jq'' then Some [''jq''] else Some []), hv_exists = (\<lambda>_. True),
     hv_build = (\<lambda>_. Some ''/s/home''), hv_valid = (\<lambda>_. True), hv_on_path = (\<lambda>_. False), hv_closure = (\<lambda>_. Some [''/s/home'']),
     hv_flake_update = True, hv_run = (\<lambda>_. Exited 0), hv_now = ''now'', hv_caller = ''user''\<rparr>"

definition sample_home_world :: home_world where
  "sample_home_world = \<lparr>hw_manifest = \<lparr>hp_version = 1, hp_flake = ''nixpkgs'',
       hp_packages = [\<lparr>hpk_name = ''jq'', hpk_flake = None, hpk_added_at = None, hpk_added_by = None\<rparr>]\<rparr>,
     hw_index = [(''jq'', ''/s/jq'')], hw_links = Some [(''jq'', Link ''/s/jq/bin/jq'')]\<rparr>"

lemma sample_links_ok: "links_ok sample_home_world"
  by (simp add: links_ok_def dir_ok_def no_directories_def sample_home_world_def wf_table_def)

lemma sample_switch:
  "\<exists>w' log. cmd_switch sample_home ''home'' None sample_home_world = (Ok (), w', log)"
  "\<exists>w' log. cmd_update sample_home ''home'' None sample_home_world = (Ok (), w', log)"
  by (simp_all add: cmd_update_def cmd_switch_def sample_home_def success_def Let_def)

theorem links_mirror_manifest_witness:
  "\<exists>w' log. cmd_switch sample_home ''home'' None sample_home_world = (Ok (), w', log) \<and> mirrors_manifest sample_home w'"
  using links_mirror_manifest[OF sample_links_ok, of sample_home "''home''" None] sample_switch(1) by blast

theorem update_uninstalls_packages_witness:
  "\<exists>w' log. cmd_update sample_home ''home'' None sample_home_world = (Ok (), w', log) \<and> hp_has ''jq'' (hw_manifest w') \<and>
     (\<forall>target. link_of (hw_links w') ''jq'' \<noteq> Some (Link target))"
proof -
  obtain w' log where run: "cmd_update sample_home ''home'' None sample_home_world = (Ok (), w', log)" using sample_switch(2) by blast
  have h: "hv_build sample_home ''home'' = Some ''/s/home''" "hv_closure sample_home ''/s/home'' = Some [''/s/home'']"
      "hv_exists sample_home ''/s/jq''" "\<forall>q \<in> set [''/s/home'']. \<not> provides sample_home ''jq'' q"
    by (simp_all add: sample_home_def provides_def)
  have w: "hp_has ''jq'' (hw_manifest sample_home_world)" "map_of (hw_index sample_home_world) ''jq'' = Some ''/s/jq''"
      "link_of (hw_links sample_home_world) ''jq'' = Some (Link (''/s/jq'' @ ''/bin/'' @ ''jq''))"
    by (simp_all add: sample_home_world_def hp_has_def link_of_def)
  from update_uninstalls_packages[OF sample_links_ok run h(1,2) w(1,2) h(3) w(3) h(4)] run show ?thesis by blast
qed

end
