(* ===== verification/ServerCaches.thy ===== *)
theory ServerCaches
  imports Table
begin

text \<open>
  The two caches of the server's state (\<open>crates/ekapkgs-serve/src/main.rs\<close>): \<open>DeltaCache\<close>, computed
  deltas by base and target hash with a second index by target, capped in bytes and evicted oldest
  first; and \<open>NarInfoCache\<close>, signed narinfo texts by hash, capped in entries.  A \<open>HashMap\<close> is a table,
  a \<open>VecDeque\<close> a list with its front first.
\<close>

subsection \<open>Deltas\<close>

record delta_cache =
  dl_map :: "(string \<times> string, string) table"
  dl_by_target :: "(string, string \<times> string) table"
  dl_order :: "(string \<times> string) list"
  dl_total_bytes :: nat

definition DELTA_CACHE_MAX_BYTES :: nat where
  "DELTA_CACHE_MAX_BYTES = 64 * 1024 * 1024"

definition DELTA_ENTRY_MAX_BYTES :: nat where
  "DELTA_ENTRY_MAX_BYTES = 16 * 1024 * 1024"

definition delta_cache_new :: delta_cache where
  "delta_cache_new = \<lparr>dl_map = [], dl_by_target = [], dl_order = [], dl_total_bytes = 0\<rparr>"

definition delta_remove_existing :: "string \<times> string \<Rightarrow> delta_cache \<Rightarrow> delta_cache" where
  "delta_remove_existing key c =
     (case map_of (dl_map c) key of
        None \<Rightarrow> c
      | Some old \<Rightarrow> c\<lparr>dl_map := delete_key key (dl_map c), dl_total_bytes := dl_total_bytes c - length old,
                      dl_by_target := delete_key (snd key) (dl_by_target c),
                      dl_order := filter (\<lambda>k. k \<noteq> key) (dl_order c)\<rparr>)"

definition delta_evict :: "string \<times> string \<Rightarrow> delta_cache \<Rightarrow> delta_cache" where
  "delta_evict evict_key c =
     (case map_of (dl_map c) evict_key of
        None \<Rightarrow> c
      | Some evicted \<Rightarrow> c\<lparr>dl_map := delete_key evict_key (dl_map c),
                          dl_total_bytes := dl_total_bytes c - length evicted,
                          dl_by_target := delete_key (snd evict_key) (dl_by_target c)\<rparr>)"

lemma dl_order_evict [simp]: "dl_order (delta_evict k c) = dl_order c"
  by (simp add: delta_evict_def split: option.split)

function delta_make_room :: "nat \<Rightarrow> delta_cache \<Rightarrow> delta_cache" where
  "delta_make_room delta_len c =
     (if dl_total_bytes c + delta_len > DELTA_CACHE_MAX_BYTES
      then case dl_order c of
             [] \<Rightarrow> c
           | k # ks \<Rightarrow> delta_make_room delta_len (delta_evict k (c\<lparr>dl_order := ks\<rparr>))
      else c)"
  by auto
termination by (relation "measure (\<lambda>(n, c). length (dl_order c))") auto

declare delta_make_room.simps [simp del]

definition delta_insert :: "string \<Rightarrow> string \<Rightarrow> string \<Rightarrow> delta_cache \<Rightarrow> delta_cache" where
  "delta_insert base_hash target_hash delta c =
     (if length delta > DELTA_ENTRY_MAX_BYTES then c
      else let key = (base_hash, target_hash);
               c = delta_make_room (length delta) (delta_remove_existing key c)
           in c\<lparr>dl_total_bytes := dl_total_bytes c + length delta,
                dl_by_target := insert_or_replace target_hash key (dl_by_target c),
                dl_order := dl_order c @ [key],
                dl_map := insert_or_replace key delta (dl_map c)\<rparr>)"

definition delta_get :: "string \<Rightarrow> string \<Rightarrow> delta_cache \<Rightarrow> string option" where
  "delta_get base_hash target_hash c = map_of (dl_map c) (base_hash, target_hash)"

definition delta_get_for_target :: "string \<Rightarrow> delta_cache \<Rightarrow> string option" where
  "delta_get_for_target target_hash c = Option.bind (map_of (dl_by_target c) target_hash) (map_of (dl_map c))"

subsection \<open>Signed narinfo texts\<close>

record narinfo_cache =
  nc_map :: "(string, string) table"
  nc_order :: "string list"
  nc_capacity :: nat

definition NARINFO_CACHE_CAPACITY :: nat where
  "NARINFO_CACHE_CAPACITY = 8192"

definition narinfo_cache_new :: narinfo_cache where
  "narinfo_cache_new = \<lparr>nc_map = [], nc_order = [], nc_capacity = NARINFO_CACHE_CAPACITY\<rparr>"

definition narinfo_cache_get :: "string \<Rightarrow> narinfo_cache \<Rightarrow> string option" where
  "narinfo_cache_get h c = map_of (nc_map c) h"

definition narinfo_cache_insert :: "string \<Rightarrow> string \<Rightarrow> narinfo_cache \<Rightarrow> narinfo_cache" where
  "narinfo_cache_insert h t c =
     (if map_of (nc_map c) h \<noteq> None then c
      else let c = (if length (nc_map c) \<ge> nc_capacity c
                    then case nc_order c of
                           [] \<Rightarrow> c
                         | evicted # rest \<Rightarrow> c\<lparr>nc_order := rest, nc_map := delete_key evicted (nc_map c)\<rparr>
                    else c)
           in c\<lparr>nc_order := nc_order c @ [h], nc_map := insert_or_replace h t (nc_map c)\<rparr>)"

subsection \<open>The invariant of the delta cache\<close>

text \<open>Everything cached is in the queue once, the byte count is the sum of what is cached and within
  the cap, and the second index names cached entries of its target; it may miss some.\<close>

definition delta_ok :: "delta_cache \<Rightarrow> bool" where
  "delta_ok c \<longleftrightarrow> wf_table (dl_map c) \<and> distinct (dl_order c) \<and> set (dl_order c) = fst ` set (dl_map c) \<and>
     dl_total_bytes c = sum_list (map (length \<circ> snd) (dl_map c)) \<and> dl_total_bytes c \<le> DELTA_CACHE_MAX_BYTES \<and>
     (\<forall>t k. map_of (dl_by_target c) t = Some k \<longrightarrow> snd k = t \<and> map_of (dl_map c) k \<noteq> None)"

lemma delta_ok_new: "delta_ok delta_cache_new"
  by (simp add: delta_ok_def delta_cache_new_def)

lemma sum_delete_map:
  "wf_table t \<Longrightarrow> map_of t k = Some v \<Longrightarrow>
   sum_list (map (length \<circ> snd) (delete_key k t)) = sum_list (map (length \<circ> snd) t) - length v"
  using sum_delete_key[of t "length \<circ> snd" k] by simp

lemma delta_ok_drop:
  assumes ok: "delta_ok c" and v: "map_of (dl_map c) k = Some v" and "ks = filter (\<lambda>x. x \<noteq> k) (dl_order c)"
  shows "delta_ok (c\<lparr>dl_order := ks, dl_map := delete_key k (dl_map c), dl_total_bytes := dl_total_bytes c - length v,
    dl_by_target := delete_key (snd k) (dl_by_target c)\<rparr>)"
proof -
  have "\<forall>t. map_of (dl_by_target c) t = Some k \<longrightarrow> t = snd k" using ok unfolding delta_ok_def by metis
  then show ?thesis
    using assms wf_delete_key[of "dl_map c" k] sum_delete_map[of "dl_map c" k v]
    by (auto simp: delta_ok_def table_simps)
qed

lemma delta_ok_remove: "delta_ok c \<Longrightarrow> delta_ok (delta_remove_existing key c) \<and>
    map_of (dl_map (delta_remove_existing key c)) key = None"
  using delta_ok_drop[of c key _ "filter (\<lambda>x. x \<noteq> key) (dl_order c)"]
  by (cases "map_of (dl_map c) key") (simp_all add: delta_remove_existing_def table_simps delta_ok_def)

lemma delta_ok_evict:
  assumes ok: "delta_ok c" and order: "dl_order c = k # ks"
  shows "delta_ok (delta_evict k (c\<lparr>dl_order := ks\<rparr>))"
proof -
  have "k \<in> fst ` set (dl_map c)" using ok order by (auto simp: delta_ok_def)
  then obtain v where v: "map_of (dl_map c) k = Some v" by (metis map_of_eq_None_iff option.exhaust)
  have "ks = filter (\<lambda>x. x \<noteq> k) (dl_order c)"
    using ok order by (auto simp: delta_ok_def intro!: filter_True[symmetric])
  from delta_ok_drop[OF ok v this] show ?thesis by (simp add: delta_evict_def v)
qed

lemma delta_make_room_ok:
  assumes "delta_ok c" and "n \<le> DELTA_CACHE_MAX_BYTES"
  shows "delta_ok (delta_make_room n c) \<and> dl_total_bytes (delta_make_room n c) + n \<le> DELTA_CACHE_MAX_BYTES \<and>
    map_of (dl_map (delta_make_room n c)) \<subseteq>\<^sub>m map_of (dl_map c)"
  using assms
proof (induction n c rule: delta_make_room.induct)
  case (1 n c)
  show ?case
  proof (cases "dl_total_bytes c + n > DELTA_CACHE_MAX_BYTES")
    case False
    then show ?thesis using 1 by (subst (1 2 3) delta_make_room.simps) simp
  next
    case True
    show ?thesis
    proof (cases "dl_order c")
      case Nil
      then have "dl_map c = []" using 1 by (auto simp: delta_ok_def)
      then have "dl_total_bytes c = 0" using 1 by (auto simp: delta_ok_def)
      then show ?thesis using True 1 by simp
    next
      case (Cons k ks)
      let ?c = "delta_evict k (c\<lparr>dl_order := ks\<rparr>)"
      have eq: "delta_make_room n c = delta_make_room n ?c"
        using True Cons by (subst delta_make_room.simps) simp
      have "map_of (dl_map ?c) \<subseteq>\<^sub>m map_of (dl_map c)"
        by (auto simp: delta_evict_def map_le_def table_simps split: option.split)
      then show ?thesis
        using "1.IH"[OF True Cons delta_ok_evict[OF "1.prems"(1) Cons] "1.prems"(2)] eq map_le_trans by metis
    qed
  qed
qed

lemma delta_ok_insert:
  assumes "delta_ok c"
  shows "delta_ok (delta_insert b t d c)"
proof (cases "length d > DELTA_ENTRY_MAX_BYTES")
  case True
  then show ?thesis using assms by (simp add: delta_insert_def)
next
  case False
  let ?r = "delta_remove_existing (b, t) c" and ?m = "delta_make_room (length d) (delta_remove_existing (b, t) c)"
  have fits: "length d \<le> DELTA_CACHE_MAX_BYTES"
    using False by (simp add: DELTA_ENTRY_MAX_BYTES_def DELTA_CACHE_MAX_BYTES_def)
  have r: "delta_ok ?r" "map_of (dl_map ?r) (b, t) = None" using delta_ok_remove[OF assms] by auto
  have m: "delta_ok ?m" "dl_total_bytes ?m + length d \<le> DELTA_CACHE_MAX_BYTES"
      "map_of (dl_map ?m) \<subseteq>\<^sub>m map_of (dl_map ?r)"
    using delta_make_room_ok[OF r(1) fits] by auto
  have none: "map_of (dl_map ?m) (b, t) = None"
    using m(3) r(2) by (metis domIff map_le_def)
  have wf: "wf_table (insert_or_replace (b, t) d (dl_map ?m))"
    using m(1) by (auto simp: delta_ok_def)
  have "insert_or_replace (b, t) d (dl_map ?m) = dl_map ?m @ [((b, t), d)]"
    using none by (simp add: insert_or_replace_def delete_key_id)
  moreover have "(b, t) \<notin> set (dl_order ?m)"
    using m(1) none by (auto simp: delta_ok_def map_of_eq_None_iff)
  ultimately show ?thesis
    using False m(1,2) wf unfolding delta_insert_def Let_def
    by (auto simp: delta_ok_def table_simps)
qed

subsection \<open>What the cache answers\<close>

lemma delta_get_inserted:
  assumes "length d \<le> DELTA_ENTRY_MAX_BYTES"
  shows "delta_get b t (delta_insert b t d c) = Some d" and "delta_get_for_target t (delta_insert b t d c) = Some d"
  using assms by (simp_all add: delta_get_def delta_get_for_target_def delta_insert_def Let_def table_simps)

lemma delta_get_old:
  assumes "delta_ok c" and "(b', t') \<noteq> (b, t)" and "delta_get b' t' (delta_insert b t d c) = Some x"
  shows "delta_get b' t' c = Some x"
proof (cases "length d > DELTA_ENTRY_MAX_BYTES")
  case True
  then show ?thesis using assms(3) by (simp add: delta_insert_def)
next
  case False
  let ?r = "delta_remove_existing (b, t) c"
  have fits: "length d \<le> DELTA_CACHE_MAX_BYTES"
    using False by (simp add: DELTA_ENTRY_MAX_BYTES_def DELTA_CACHE_MAX_BYTES_def)
  have "map_of (dl_map (delta_make_room (length d) ?r)) (b', t') = Some x"
    using assms(2,3) False by (simp add: delta_get_def delta_insert_def Let_def table_simps split: if_splits)
  then have "map_of (dl_map ?r) (b', t') = Some x"
    using delta_make_room_ok[OF conjunct1[OF delta_ok_remove[OF assms(1)]] fits, of "(b, t)"]
    by (metis domI map_le_def)
  then show ?thesis using assms(2)
    by (auto simp: delta_get_def delta_remove_existing_def table_simps split: option.splits if_splits)
qed

definition run_deltas :: "(string \<times> string \<times> string) list \<Rightarrow> delta_cache" where
  "run_deltas ds = fold (\<lambda>(b, t, d). delta_insert b t d) ds delta_cache_new"

lemma run_deltas_snoc: "run_deltas (ds @ [(b, t, d)]) = delta_insert b t d (run_deltas ds)"
  by (simp add: run_deltas_def)

lemma delta_ok_run: "delta_ok (run_deltas ds)"
proof (induction ds rule: rev_induct)
  case Nil
  then show ?case by (simp add: run_deltas_def delta_ok_new)
next
  case (snoc x ds)
  then show ?case by (cases x) (simp add: run_deltas_snoc delta_ok_insert)
qed

text \<open>A cached delta is the last one inserted for its key.\<close>

lemma run_deltas_last:
  "delta_get b t (run_deltas ds) = Some x \<Longrightarrow>
   \<exists>as cs. ds = as @ (b, t, x) # cs \<and> (\<forall>y. (b, t, y) \<in> set cs \<longrightarrow> length y > DELTA_ENTRY_MAX_BYTES)"
proof (induction ds rule: rev_induct)
  case Nil
  then show ?case by (simp add: run_deltas_def delta_cache_new_def delta_get_def)
next
  case (snoc r ds)
  obtain b' t' d where r: "r = (b', t', d)" by (cases r) auto
  show ?case
  proof (cases "(b', t') = (b, t) \<and> length d \<le> DELTA_ENTRY_MAX_BYTES")
    case True
    then have "x = d" using snoc.prems r by (simp add: run_deltas_snoc delta_get_inserted)
    then show ?thesis using True r by (intro exI[of _ ds] exI[of _ "[]"]) simp
  next
    case False
    have "delta_get b t (run_deltas ds) = Some x"
    proof (cases "length d \<le> DELTA_ENTRY_MAX_BYTES")
      case True
      then show ?thesis using delta_get_old[OF delta_ok_run] snoc.prems r False by (metis run_deltas_snoc)
    next
      case False
      then show ?thesis using snoc.prems r by (simp add: run_deltas_snoc delta_insert_def)
    qed
    then obtain as cs where "ds = as @ (b, t, x) # cs" "\<forall>y. (b, t, y) \<in> set cs \<longrightarrow> length y > DELTA_ENTRY_MAX_BYTES"
      using snoc.IH by blast
    then show ?thesis using False r by (intro exI[of _ as] exI[of _ "cs @ [r]"]) auto
  qed
qed

text \<open>C19. The delta cache keeps its promises through any insertions: its byte count is exact and never
  above 64 MiB, the queue holds every cached key once, a cached delta is the last one of accepted size
  that was inserted for its base and target, and a lookup by target answers a delta to that target.\<close>

theorem delta_cache_bounded:
  "let c = run_deltas ds in
    dl_total_bytes c = sum_list (map (length \<circ> snd) (dl_map c)) \<and> dl_total_bytes c \<le> DELTA_CACHE_MAX_BYTES \<and>
    distinct (dl_order c) \<and> set (dl_order c) = fst ` set (dl_map c) \<and>
    (\<forall>b t x. delta_get b t c = Some x \<longrightarrow>
       (\<exists>as cs. ds = as @ (b, t, x) # cs \<and> (\<forall>y. (b, t, y) \<in> set cs \<longrightarrow> length y > DELTA_ENTRY_MAX_BYTES))) \<and>
    (\<forall>t x. delta_get_for_target t c = Some x \<longrightarrow> (\<exists>b. delta_get b t c = Some x))"
proof -
  let ?c = "run_deltas ds"
  have ok: "delta_ok ?c" by (rule delta_ok_run)
  have "\<exists>b. delta_get b t ?c = Some x" if "delta_get_for_target t ?c = Some x" for t x
  proof -
    have "delta_get_for_target t ?c \<noteq> None" using that by simp
    then obtain k where k: "map_of (dl_by_target ?c) t = Some k"
      unfolding delta_get_for_target_def by (cases "map_of (dl_by_target ?c) t") simp_all
    moreover have "map_of (dl_map ?c) k = Some x" using that k by (simp add: delta_get_for_target_def)
    moreover have "snd k = t" using ok k unfolding delta_ok_def by metis
    ultimately show ?thesis by (metis delta_get_def prod.collapse)
  qed
  moreover have "\<exists>as cs. ds = as @ (b, t, x) # cs \<and> (\<forall>y. (b, t, y) \<in> set cs \<longrightarrow> length y > DELTA_ENTRY_MAX_BYTES)"
    if "delta_get b t ?c = Some x" for b t x using run_deltas_last[OF that] .
  ultimately show ?thesis using ok unfolding delta_ok_def Let_def by blast
qed

theorem delta_cache_bounded_witness:
  "delta_get ''b'' ''t'' (run_deltas [(''b'', ''t'', ''old''), (''b'', ''t'', ''new'')]) = Some ''new'' \<and>
   dl_total_bytes (run_deltas [(''b'', ''t'', ''old''), (''b'', ''t'', ''new'')]) \<le> DELTA_CACHE_MAX_BYTES"
  using delta_cache_bounded[of "[(''b'', ''t'', ''old''), (''b'', ''t'', ''new'')]"]
  by (simp add: run_deltas_def delta_get_inserted DELTA_ENTRY_MAX_BYTES_def Let_def)

end
