(* ===== verification/Certs.thy ===== *)
theory Certs
  imports Prelude
begin

text \<open>
  Certificate-based signing: \<open>crates/ekapkgs-protocol/src/signing.rs\<close>.  The ed25519 library is
  a record of functions, an argument of every definition that calls it; what the code relies on
  of it is the named hypothesis \<open>ed25519_ok\<close>.  Signature bytes and fingerprints are byte
  strings, timestamps are \<open>u64\<close> values.
\<close>

subsection \<open>The ed25519 library, as far as it is called\<close>

record ('sk, 'vk) ed25519 =
  ed_verifying_key :: "'sk \<Rightarrow> 'vk"
  ed_sign :: "'sk \<Rightarrow> bytes \<Rightarrow> bytes"
  ed_verify :: "'vk \<Rightarrow> bytes \<Rightarrow> bytes \<Rightarrow> bool"
  ed_as_bytes :: "'vk \<Rightarrow> bytes"
  ed_from_bytes :: "bytes \<Rightarrow> 'vk option"

definition ed25519_ok :: "('sk, 'vk) ed25519 \<Rightarrow> bool" where
  "ed25519_ok ed \<longleftrightarrow>
     (\<forall>sk m. length (ed_sign ed sk m) = 64 \<and> ed_verify ed (ed_verifying_key ed sk) m (ed_sign ed sk m)) \<and>
     (\<forall>vk. length (ed_as_bytes ed vk) = 32 \<and> ed_from_bytes ed (ed_as_bytes ed vk) = Some vk)"

subsection \<open>Messages and errors\<close>

record signing_certificate =
  cert_name :: string
  cert_public_key :: bytes
  not_before :: nat
  not_after :: nat
  issuer :: string
  issuer_signature :: bytes

record certificate_chain =
  signing_cert :: "signing_certificate option"
  intermediates :: "signing_certificate list"

record cert_signature =
  sig_cert_name :: string
  sig_bytes :: bytes

record 'vk trusted_root =
  root_name :: string
  root_key :: 'vk

datatype cert_error =
    MissingCert
  | UntrustedIssuer string
  | Expired string nat nat
  | NotYetValid string nat nat
  | InvalidIssuerSignature string
  | InvalidPathSignature
  | InvalidKeyLength nat nat
  | InsufficientSignatures nat nat
  | Ed25519

subsection \<open>Operations\<close>

definition certificate_sign_payload :: "signing_certificate \<Rightarrow> bytes" where
  "certificate_sign_payload cert =
     cert_name cert @ cert_public_key cert @ u64_to_le_bytes (not_before cert) @
     u64_to_le_bytes (not_after cert) @ issuer cert"

definition verify_chain ::
  "('sk, 'vk) ed25519 \<Rightarrow> certificate_chain \<Rightarrow> 'vk trusted_root list \<Rightarrow> nat \<Rightarrow> cert_error + 'vk" where
  "verify_chain ed chain trusted_roots now_unix =
     (case signing_cert chain of
        None \<Rightarrow> Err MissingCert
      | Some cert \<Rightarrow>
          (case find (\<lambda>r. root_name r = issuer cert) trusted_roots of
             None \<Rightarrow> Err (UntrustedIssuer (issuer cert))
           | Some root \<Rightarrow>
               if now_unix < not_before cert
               then Err (NotYetValid (cert_name cert) (not_before cert) now_unix)
               else if now_unix > not_after cert
               then Err (Expired (cert_name cert) (not_after cert) now_unix)
               else if length (issuer_signature cert) \<noteq> 64
               then Err (InvalidKeyLength 64 (length (issuer_signature cert)))
               else if \<not> ed_verify ed (root_key root) (certificate_sign_payload cert) (issuer_signature cert)
               then Err (InvalidIssuerSignature (cert_name cert))
               else if length (cert_public_key cert) \<noteq> 32
               then Err (InvalidKeyLength 32 (length (cert_public_key cert)))
               else (case ed_from_bytes ed (cert_public_key cert) of
                       None \<Rightarrow> Err Ed25519
                     | Some vk \<Rightarrow> Ok vk)))"

definition verify_path_signature ::
  "('sk, 'vk) ed25519 \<Rightarrow> 'vk \<Rightarrow> string \<Rightarrow> cert_signature \<Rightarrow> cert_error + unit" where
  "verify_path_signature ed vk fingerprint cert_sig =
     (if length (sig_bytes cert_sig) \<noteq> 64
      then Err (InvalidKeyLength 64 (length (sig_bytes cert_sig)))
      else if ed_verify ed vk fingerprint (sig_bytes cert_sig) then Ok ()
      else Err InvalidPathSignature)"

definition chain_of :: "signing_certificate \<Rightarrow> certificate_chain" where
  "chain_of cert = \<lparr>signing_cert = Some cert, intermediates = []\<rparr>"

text \<open>The loop of \<open>verify_threshold\<close>, with its count of valid signatures and its set of
  certificate names already seen.\<close>

fun threshold_loop ::
  "('sk, 'vk) ed25519 \<Rightarrow> nat \<Rightarrow> signing_certificate list \<Rightarrow> 'vk trusted_root list \<Rightarrow> string \<Rightarrow> nat
   \<Rightarrow> cert_signature list \<Rightarrow> nat \<Rightarrow> string set \<Rightarrow> cert_error + unit" where
  "threshold_loop ed threshold certs roots fp now [] valid_count seen =
     Err (InsufficientSignatures threshold valid_count)"
| "threshold_loop ed threshold certs roots fp now (cs # css) valid_count seen =
     (case find (\<lambda>c. cert_name c = sig_cert_name cs) certs of
        None \<Rightarrow> threshold_loop ed threshold certs roots fp now css valid_count seen
      | Some cert \<Rightarrow>
          if sig_cert_name cs \<in> seen
          then threshold_loop ed threshold certs roots fp now css valid_count seen
          else (let seen = insert (sig_cert_name cs) seen in
            case verify_chain ed (chain_of cert) roots now of
              Inl _ \<Rightarrow> threshold_loop ed threshold certs roots fp now css valid_count seen
            | Inr vk \<Rightarrow>
                if verify_path_signature ed vk fp cs = Ok ()
                then (if valid_count + 1 \<ge> threshold then Ok ()
                      else threshold_loop ed threshold certs roots fp now css (valid_count + 1) seen)
                else threshold_loop ed threshold certs roots fp now css valid_count seen))"

definition verify_threshold ::
  "('sk, 'vk) ed25519 \<Rightarrow> nat \<Rightarrow> signing_certificate list \<Rightarrow> cert_signature list \<Rightarrow> 'vk trusted_root list
   \<Rightarrow> string \<Rightarrow> nat \<Rightarrow> cert_error + unit" where
  "verify_threshold ed threshold authorized_certs cert_signatures trusted_roots fingerprint now_unix =
     (if threshold = 0 then Ok ()
      else threshold_loop ed threshold authorized_certs trusted_roots fingerprint now_unix
             cert_signatures 0 {})"

definition issue_certificate ::
  "('sk, 'vk) ed25519 \<Rightarrow> 'sk \<Rightarrow> string \<Rightarrow> string \<Rightarrow> 'vk \<Rightarrow> nat \<Rightarrow> nat \<Rightarrow> signing_certificate" where
  "issue_certificate ed ca_key ca_name name vk nb na =
     (let cert = \<lparr>cert_name = name, cert_public_key = ed_as_bytes ed vk, not_before = nb,
                  not_after = na, issuer = ca_name, issuer_signature = []\<rparr>
      in cert\<lparr>issuer_signature := ed_sign ed ca_key (certificate_sign_payload cert)\<rparr>)"

subsection \<open>The certificate signature a single signer accepts\<close>

definition sig_valid ::
  "('sk, 'vk) ed25519 \<Rightarrow> signing_certificate list \<Rightarrow> 'vk trusted_root list \<Rightarrow> string \<Rightarrow> nat
   \<Rightarrow> cert_signature \<Rightarrow> bool" where
  "sig_valid ed certs roots fp now cs \<longleftrightarrow>
     (\<exists>cert vk. find (\<lambda>c. cert_name c = sig_cert_name cs) certs = Some cert \<and>
        verify_chain ed (chain_of cert) roots now = Ok vk \<and> verify_path_signature ed vk fp cs = Ok ())"

text \<open>The signatures that can count: the first one of each authorized name.\<close>

fun first_sigs :: "signing_certificate list \<Rightarrow> string set \<Rightarrow> cert_signature list \<Rightarrow> cert_signature list" where
  "first_sigs certs seen [] = []"
| "first_sigs certs seen (cs # css) =
     (if find (\<lambda>c. cert_name c = sig_cert_name cs) certs = None \<or> sig_cert_name cs \<in> seen
      then first_sigs certs seen css
      else cs # first_sigs certs (insert (sig_cert_name cs) seen) css)"

lemma verify_path_signature_cases:
  "verify_path_signature ed vk fp cs = Ok () \<longleftrightarrow>
     length (sig_bytes cs) = 64 \<and> ed_verify ed vk fp (sig_bytes cs)"
  by (simp add: verify_path_signature_def)

lemma threshold_loop_count:
  assumes "n < k"
  shows "threshold_loop ed k certs roots fp now css n seen =
    (let v = length (filter (sig_valid ed certs roots fp now) (first_sigs certs seen css))
     in if k \<le> n + v then Ok () else Err (InsufficientSignatures k (n + v)))"
  using assms
proof (induction css arbitrary: n seen)
  case Nil
  then show ?case by simp
next
  case (Cons cs css)
  show ?case
  proof (cases "find (\<lambda>c. cert_name c = sig_cert_name cs) certs = None \<or> sig_cert_name cs \<in> seen")
    case True
    then show ?thesis using Cons by (auto split: option.splits)
  next
    case False
    then obtain cert where c: "find (\<lambda>c. cert_name c = sig_cert_name cs) certs = Some cert" by auto
    show ?thesis
    proof (cases "sig_valid ed certs roots fp now cs")
      case True
      then obtain vk where v: "verify_chain ed (chain_of cert) roots now = Ok vk"
          "verify_path_signature ed vk fp cs = Ok ()"
        using c by (auto simp: sig_valid_def)
      show ?thesis
        using Cons.prems Cons.IH[of "n + 1" "insert (sig_cert_name cs) seen"] False c v True
        by (auto simp: Let_def)
    next
      case no: False
      then have v: "verify_path_signature ed vk fp cs \<noteq> Ok ()"
        if "verify_chain ed (chain_of cert) roots now = Ok vk" for vk
        using c that by (auto simp: sig_valid_def)
      show ?thesis
        using Cons.prems Cons.IH[of n "insert (sig_cert_name cs) seen"] False c v no
        by (auto simp: Let_def split: sum.splits)
    qed
  qed
qed

lemma first_sigs_distinct:
  "distinct (map sig_cert_name (first_sigs certs seen css)) \<and>
   set (first_sigs certs seen css) \<subseteq> set css \<and>
   sig_cert_name ` set (first_sigs certs seen css) \<inter> seen = {}"
  by (induction css arbitrary: seen) auto

lemma verify_threshold_iff:
  "verify_threshold ed k certs css roots fp now = Ok () \<longleftrightarrow>
     k \<le> length (filter (sig_valid ed certs roots fp now) (first_sigs certs {} css))"
  by (cases "k = 0") (auto simp: verify_threshold_def threshold_loop_count Let_def)

subsection \<open>Properties\<close>

lemma verify_chain_Ok_iff:
  "verify_chain ed ch roots now = Ok vk \<longleftrightarrow>
     (\<exists>cert root. signing_cert ch = Some cert
        \<and> find (\<lambda>r. root_name r = issuer cert) roots = Some root
        \<and> not_before cert \<le> now \<and> now \<le> not_after cert
        \<and> length (issuer_signature cert) = 64
        \<and> ed_verify ed (root_key root) (certificate_sign_payload cert) (issuer_signature cert)
        \<and> length (cert_public_key cert) = 32 \<and> ed_from_bytes ed (cert_public_key cert) = Some vk)"
  by (auto simp: verify_chain_def not_less split: option.splits if_splits)

lemma find_name_Some: "find (\<lambda>r. f r = x) xs = Some y \<Longrightarrow> y \<in> set xs \<and> f y = x"
  by (induction xs) (auto split: if_splits)

text \<open>The toy signature scheme of the witnesses: one-byte keys, a signature is the key 64 times.\<close>

definition toy_ed :: "(char, char) ed25519" where
  "toy_ed = \<lparr>ed_verifying_key = (\<lambda>k. k), ed_sign = (\<lambda>k m. replicate 64 k),
     ed_verify = (\<lambda>k m s. s = replicate 64 k), ed_as_bytes = replicate 32,
     ed_from_bytes = (\<lambda>b. case b of [] \<Rightarrow> None | c # _ \<Rightarrow> Some c)\<rparr>"

lemma toy_ed_ok: "ed25519_ok toy_ed"
  by (auto simp: ed25519_ok_def toy_ed_def numeral_eq_Suc)

lemmas toy_simps = toy_ed_def issue_certificate_def Let_def verify_chain_def chain_of_def
  verify_path_signature_def

text \<open>C35. A threshold check that passes has at least that many valid signatures from distinct
  certificate names: each belongs to an authorized certificate whose issuer is the trusted root
  of its name, whose issuer signature verifies, whose validity period contains the current time,
  and whose key verifies the fingerprint.\<close>

theorem verify_threshold_sound:
  assumes "verify_threshold ed k certs css roots fp now = Ok ()"
  shows "\<exists>good. k \<le> length good \<and> distinct (map sig_cert_name good) \<and> set good \<subseteq> set css \<and>
    (\<forall>cs \<in> set good. \<exists>cert \<in> set certs. \<exists>root \<in> set roots. \<exists>vk.
       cert_name cert = sig_cert_name cs \<and> root_name root = issuer cert
       \<and> not_before cert \<le> now \<and> now \<le> not_after cert
       \<and> ed_verify ed (root_key root) (certificate_sign_payload cert) (issuer_signature cert)
       \<and> ed_from_bytes ed (cert_public_key cert) = Some vk \<and> ed_verify ed vk fp (sig_bytes cs))"
proof -
  let ?good = "filter (sig_valid ed certs roots fp now) (first_sigs certs {} css)"
  have "k \<le> length ?good" using assms by (simp add: verify_threshold_iff)
  moreover have "distinct (map sig_cert_name ?good)" "set ?good \<subseteq> set css"
    using first_sigs_distinct[of certs "{}" css] by (auto simp: distinct_map_filter)
  moreover have "\<exists>cert \<in> set certs. \<exists>root \<in> set roots. \<exists>vk.
       cert_name cert = sig_cert_name cs \<and> root_name root = issuer cert
       \<and> not_before cert \<le> now \<and> now \<le> not_after cert
       \<and> ed_verify ed (root_key root) (certificate_sign_payload cert) (issuer_signature cert)
       \<and> ed_from_bytes ed (cert_public_key cert) = Some vk \<and> ed_verify ed vk fp (sig_bytes cs)"
    if "cs \<in> set ?good" for cs
  proof -
    from that obtain cert vk where c: "find (\<lambda>c. cert_name c = sig_cert_name cs) certs = Some cert"
      "verify_chain ed (chain_of cert) roots now = Ok vk" "verify_path_signature ed vk fp cs = Ok ()"
      by (auto simp: sig_valid_def)
    from c(2) obtain root where "find (\<lambda>r. root_name r = issuer cert) roots = Some root"
      "not_before cert \<le> now" "now \<le> not_after cert"
      "ed_verify ed (root_key root) (certificate_sign_payload cert) (issuer_signature cert)"
      "ed_from_bytes ed (cert_public_key cert) = Some vk"
      by (auto simp: verify_chain_Ok_iff chain_of_def)
    with c show ?thesis
      by (intro bexI[of _ cert] bexI[of _ root] exI[of _ vk])
        (auto simp: verify_path_signature_cases dest: find_name_Some)
  qed
  ultimately show ?thesis by blast
qed

definition toy_root :: "char trusted_root" where
  "toy_root = \<lparr>root_name = ''ca'', root_key = CHR ''R''\<rparr>"

definition toy_cert :: signing_certificate where
  "toy_cert = issue_certificate toy_ed (CHR ''R'') ''ca'' ''s'' (CHR ''K'') 10 20"

definition toy_sig :: "char \<Rightarrow> cert_signature" where
  "toy_sig k = \<lparr>sig_cert_name = ''s'', sig_bytes = replicate 64 k\<rparr>"

lemma toy_cert_fields:
  "cert_name toy_cert = ''s''" "issuer toy_cert = ''ca''" "not_before toy_cert = 10"
  "not_after toy_cert = 20" "issuer_signature toy_cert = replicate 64 (CHR ''R'')"
  "cert_public_key toy_cert = replicate 32 (CHR ''K'')"
  by (simp_all add: toy_cert_def issue_certificate_def toy_ed_def Let_def)

lemma toy_chain: "verify_chain toy_ed (chain_of toy_cert) [toy_root] 15 = Ok (CHR ''K'')"
  by (simp add: verify_chain_def chain_of_def toy_cert_fields toy_root_def toy_ed_def numeral_eq_Suc)

lemma toy_sig_valid: "sig_valid toy_ed [toy_cert] [toy_root] fp 15 (toy_sig k) \<longleftrightarrow> k = CHR ''K''"
  by (simp add: sig_valid_def toy_chain toy_cert_fields verify_path_signature_cases toy_sig_def)
    (simp add: toy_ed_def numeral_eq_Suc)

theorem verify_threshold_sound_witness:
  "\<exists>good. (1::nat) \<le> length good \<and> distinct (map sig_cert_name good) \<and> set good \<subseteq> set [toy_sig (CHR ''K'')] \<and>
    (\<forall>cs \<in> set good. \<exists>cert \<in> set [toy_cert]. \<exists>root \<in> set [toy_root]. \<exists>vk.
       cert_name cert = sig_cert_name cs \<and> root_name root = issuer cert
       \<and> not_before cert \<le> 15 \<and> 15 \<le> not_after cert
       \<and> ed_verify toy_ed (root_key root) (certificate_sign_payload cert) (issuer_signature cert)
       \<and> ed_from_bytes toy_ed (cert_public_key cert) = Some vk \<and> ed_verify toy_ed vk ''fp'' (sig_bytes cs))"
  by (rule verify_threshold_sound)
    (simp add: verify_threshold_iff toy_sig_valid, simp add: toy_sig_def toy_cert_fields)

text \<open>Only the first signature of a certificate name is ever examined: if it is invalid, a
  later valid signature of the same certificate is ignored and the check fails, although a
  valid signature of an authorized certificate is present.\<close>

theorem verify_threshold_shadowed:
  assumes "sig_cert_name bad = sig_cert_name good"
    and "sig_valid ed certs roots fp now good" and "\<not> sig_valid ed certs roots fp now bad"
  shows "verify_threshold ed 1 certs [bad, good] roots fp now = Err (InsufficientSignatures 1 0) \<and>
    verify_threshold ed 1 certs [good, bad] roots fp now = Ok ()"
proof -
  obtain cert where "find (\<lambda>c. cert_name c = sig_cert_name good) certs = Some cert"
    using assms(2) by (auto simp: sig_valid_def)
  with assms show ?thesis
    by (simp add: verify_threshold_def threshold_loop_count Let_def del: threshold_loop.simps)
qed

theorem verify_threshold_shadowed_witness:
  "verify_threshold toy_ed 1 [toy_cert] [toy_sig (CHR ''X''), toy_sig (CHR ''K'')] [toy_root] ''fp'' 15
     = Err (InsufficientSignatures 1 0) \<and>
   verify_threshold toy_ed 1 [toy_cert] [toy_sig (CHR ''K''), toy_sig (CHR ''X'')] [toy_root] ''fp'' 15 = Ok ()"
  by (rule verify_threshold_shadowed) (simp_all add: toy_sig_valid, simp add: toy_sig_def)

text \<open>A certificate issued by a trusted CA verifies, and yields the certified key, exactly
  within its validity period.\<close>

theorem issued_certificate_verifies:
  assumes "ed25519_ok ed"
    and "find (\<lambda>r. root_name r = ca) roots = Some \<lparr>root_name = ca, root_key = ed_verifying_key ed sk\<rparr>"
  shows "verify_chain ed (chain_of (issue_certificate ed sk ca name vk nb na)) roots now =
    (if now < nb then Err (NotYetValid name nb now)
     else if now > na then Err (Expired name na now) else Ok vk)"
  using assms
  by (simp add: verify_chain_def chain_of_def issue_certificate_def Let_def ed25519_ok_def
      certificate_sign_payload_def)

theorem issued_certificate_verifies_witness:
  "verify_chain toy_ed (chain_of (issue_certificate toy_ed (CHR ''R'') ''ca'' ''s'' (CHR ''K'') 10 20))
     [toy_root] 15 = (if (15::nat) < 10 then Err (NotYetValid ''s'' 10 15)
     else if 15 > (20::nat) then Err (Expired ''s'' 20 15) else Ok (CHR ''K''))"
  by (rule issued_certificate_verifies[OF toy_ed_ok]) (simp add: toy_root_def toy_ed_def)

text \<open>The bytes a CA signs have no length prefixes, but for one issuer and 32-byte keys they
  determine the certificate: a CA signature cannot be moved to another name, key or period.\<close>

theorem certificate_sign_payload_inj:
  assumes "certificate_sign_payload c = certificate_sign_payload d"
    and "issuer c = issuer d" and "length (cert_public_key c) = 32" and "length (cert_public_key d) = 32"
    and "not_before c < 2 ^ 64" "not_after c < 2 ^ 64" "not_before d < 2 ^ 64" "not_after d < 2 ^ 64"
  shows "cert_name c = cert_name d \<and> cert_public_key c = cert_public_key d
    \<and> not_before c = not_before d \<and> not_after c = not_after d"
proof -
  have e: "cert_name c @ cert_public_key c @ u64_to_le_bytes (not_before c) @ u64_to_le_bytes (not_after c)
      = cert_name d @ cert_public_key d @ u64_to_le_bytes (not_before d) @ u64_to_le_bytes (not_after d)"
    using assms(1,2) by (simp add: certificate_sign_payload_def)
  from arg_cong[OF e, of length] assms(3,4) have "length (cert_name c) = length (cert_name d)" by simp
  with e assms(3,4) have "cert_name c = cert_name d" "cert_public_key c = cert_public_key d"
     "u64_to_le_bytes (not_before c) = u64_to_le_bytes (not_before d)"
     "u64_to_le_bytes (not_after c) = u64_to_le_bytes (not_after d)"
    by simp_all
  with assms(5-8) show ?thesis by (metis from_le_u64)
qed

theorem certificate_sign_payload_inj_witness:
  "cert_name toy_cert = cert_name toy_cert \<and> cert_public_key toy_cert = cert_public_key toy_cert
    \<and> not_before toy_cert = not_before toy_cert \<and> not_after toy_cert = not_after toy_cert"
  by (rule certificate_sign_payload_inj) (simp_all add: toy_cert_fields)

end
