(* ===== verification/Manifest.thy ===== *)
theory Manifest
  imports NarInfo Certs
begin

text \<open>
  The manifest of paths the server offers (\<open>proto/ekapkgs/v1/manifest.proto\<close>): how \<open>negotiate\<close> makes an
  entry from a narinfo (\<open>crates/ekapkgs-serve/src/api/negotiate.rs\<close>) and how the client turns the entry
  back into a narinfo (\<open>build_narinfo_text\<close> of \<open>crates/ekapkgs/src/download.rs\<close>).
\<close>

subsection \<open>Entries\<close>

datatype compression = Unspecified | Zstd | Xz | NoCompression

record manifest_entry =
  me_store_path :: string
  me_nar_hash :: string
  me_nar_size :: nat
  me_references :: "string list"
  me_signatures :: "string list"
  me_cert_signatures :: "cert_signature list"
  me_cert_signature :: "cert_signature option"
  me_ca :: string
  me_url :: string
  me_compression :: compression
  me_file_hash :: string
  me_file_size :: nat
  me_delta_base_hash :: string
  me_delta_url :: string
  me_delta_size :: nat

text \<open>\<open>path.rsplit('/').next().and_then(|b| b.split('-').next())\<close> always has a value.\<close>

definition path_hash :: "string \<Rightarrow> string" where
  "path_hash p = first_segment (CHR ''-'') (last_segment (CHR ''/'') p)"

definition compression_of :: "string \<Rightarrow> compression" where
  "compression_of c =
     (if c = ''zstd'' then Zstd else if c = ''xz'' then Xz
      else if c = ''none'' \<or> c = [] then NoCompression else Unspecified)"

text \<open>The server's own signature is added unless it is there; the primary certificate signer comes first.\<close>

definition add_signature :: "(string \<Rightarrow> string) \<Rightarrow> narinfo \<Rightarrow> narinfo" where
  "add_signature sign ni =
     (let sig = sign (fingerprint (ni_store_path ni) (ni_nar_hash ni) (ni_nar_size ni) (ni_references ni))
      in if sig \<in> set (ni_signatures ni) then ni else ni\<lparr>ni_signatures := ni_signatures ni @ [sig]\<rparr>)"

definition manifest_entry_of :: "(string \<Rightarrow> string) \<Rightarrow> narinfo \<Rightarrow> manifest_entry" where
  "manifest_entry_of sign ni =
     (let ni = add_signature sign ni
      in \<lparr>me_store_path = ni_store_path ni, me_nar_hash = ni_nar_hash ni, me_nar_size = ni_nar_size ni,
          me_references = ni_references ni, me_signatures = ni_signatures ni, me_cert_signatures = [],
          me_cert_signature = None, me_ca = (case ni_ca ni of None \<Rightarrow> [] | Some c \<Rightarrow> c), me_url = ni_url ni,
          me_compression = compression_of (ni_compression ni), me_file_hash = ni_file_hash ni,
          me_file_size = ni_file_size ni, me_delta_base_hash = [], me_delta_url = [], me_delta_size = 0\<rparr>)"

definition certify_entry :: "(string \<Rightarrow> cert_signature) list \<Rightarrow> manifest_entry \<Rightarrow> manifest_entry" where
  "certify_entry signers e =
     (let fp = fingerprint (me_store_path e) (me_nar_hash e) (me_nar_size e) (me_references e);
          cert_sigs = map (\<lambda>s. s fp) signers
      in e\<lparr>me_cert_signature := (case cert_sigs of [] \<Rightarrow> None | s # _ \<Rightarrow> Some s), me_cert_signatures := cert_sigs\<rparr>)"

definition compression_name :: "compression \<Rightarrow> string" where
  "compression_name c = (case c of Zstd \<Rightarrow> ''zstd'' | Xz \<Rightarrow> ''xz'' | _ \<Rightarrow> ''none'')"

definition build_narinfo_text :: "manifest_entry \<Rightarrow> string" where
  "build_narinfo_text e =
     line ''StorePath'' (me_store_path e) @
     line ''URL'' (me_url e) @
     line ''Compression'' (compression_name (me_compression e)) @
     (if me_file_hash e \<noteq> [] then line ''FileHash'' (me_file_hash e) else []) @
     (if me_file_size e > 0 then line ''FileSize'' (show_nat (me_file_size e)) else []) @
     line ''NarHash'' (me_nar_hash e) @
     line ''NarSize'' (show_nat (me_nar_size e)) @
     (if me_references e \<noteq> [] then line ''References'' (join '' '' (map basename (me_references e))) else []) @
     concat (map (line ''Sig'') (me_signatures e)) @
     (if me_ca e \<noteq> [] then line ''CA'' (me_ca e) else [])"

text \<open>Collecting into a \<open>HashMap\<close> keeps the last entry of a hash.\<close>

definition entry_by_hash :: "manifest_entry list \<Rightarrow> string \<Rightarrow> manifest_entry option" where
  "entry_by_hash available h = map_of (rev (map (\<lambda>e. (path_hash (me_store_path e), e)) available)) h"

subsection \<open>From the server's narinfo to the client's\<close>

text \<open>What the client's narinfo says, as a record of the narinfo format.\<close>

definition narinfo_of_entry :: "manifest_entry \<Rightarrow> narinfo" where
  "narinfo_of_entry e =
     \<lparr>ni_store_path = me_store_path e, ni_url = me_url e, ni_compression = compression_name (me_compression e),
      ni_file_hash = me_file_hash e, ni_file_size = me_file_size e, ni_nar_hash = me_nar_hash e,
      ni_nar_size = me_nar_size e, ni_references = me_references e, ni_deriver = None,
      ni_signatures = me_signatures e, ni_ca = (if me_ca e = [] then None else Some (me_ca e))\<rparr>"

lemma build_narinfo_text_eq: "build_narinfo_text e = to_narinfo_string (narinfo_of_entry e)"
  by (simp add: build_narinfo_text_def to_narinfo_string_def narinfo_of_entry_def)

lemma clean_compression_name: "clean (compression_name c)"
  by (cases c) (simp_all add: compression_name_def clean_def)

text \<open>What the server publishes reaches the client unchanged: a narinfo whose compression is one the
  protocol can name is turned into a manifest entry, from there into the client's narinfo, and parsed
  from it as the same record, with the server's signature added, references reduced to base names
  and the deriver dropped.\<close>

theorem manifest_roundtrip:
  assumes "narinfo_clean ni" and "clean (sign (fingerprint (ni_store_path ni) (ni_nar_hash ni) (ni_nar_size ni) (ni_references ni)))"
    and "ni_compression ni \<in> {''zstd'', ''xz'', ''none''}" and "ni_ca ni \<noteq> Some []"
  shows "parse_narinfo (build_narinfo_text (certify_entry signers (manifest_entry_of sign ni))) =
    Some ((add_signature sign ni)\<lparr>ni_references := map basename (ni_references ni), ni_deriver := None\<rparr>)"
proof -
  let ?ni = "narinfo_of_entry (certify_entry signers (manifest_entry_of sign ni))"
  have comp: "compression_name (compression_of (ni_compression ni)) = ni_compression ni"
    using assms(3) by (auto simp: compression_of_def compression_name_def)
  have eq: "?ni = (add_signature sign ni)\<lparr>ni_deriver := None\<rparr>"
    using comp assms(4) by (cases "ni_ca ni")
      (auto simp: narinfo_of_entry_def certify_entry_def manifest_entry_of_def add_signature_def Let_def)
  have "narinfo_clean ?ni"
    using assms(1,2) unfolding eq by (auto simp: narinfo_clean_def add_signature_def Let_def)
  from narinfo_roundtrip_lemma[OF this] show ?thesis
    unfolding build_narinfo_text_eq eq by (simp add: add_signature_def Let_def)
qed

theorem manifest_roundtrip_witness:
  "parse_narinfo (build_narinfo_text (certify_entry [] (manifest_entry_of (\<lambda>_. ''k:s'') sample_narinfo))) =
     Some (sample_narinfo\<lparr>ni_references := [''xyz-glibc'', ''abc-hello'']\<rparr>)"
  using manifest_roundtrip[OF sample_narinfo_clean, of "\<lambda>_. ''k:s''" "[]"]
  by (simp add: sample_narinfo_def add_signature_def basename_def last_segment_def clean_def)

text \<open>A compression the protocol has no name for is lost: the entry carries \<open>Unspecified\<close>, and the
  narinfo the client stages declares the compressed archive uncompressed.\<close>

theorem unknown_compression_becomes_none:
  assumes "narinfo_clean ni" and "clean (sign (fingerprint (ni_store_path ni) (ni_nar_hash ni) (ni_nar_size ni) (ni_references ni)))"
    and "ni_compression ni \<notin> {''zstd'', ''xz'', ''none'', []}"
  shows "map_option ni_compression (parse_narinfo (build_narinfo_text (manifest_entry_of sign ni))) = Some ''none''"
proof -
  let ?ni = "narinfo_of_entry (manifest_entry_of sign ni)"
  have "compression_name (compression_of (ni_compression ni)) = ''none''"
    using assms(3) by (simp add: compression_of_def compression_name_def)
  then have none: "ni_compression ?ni = ''none''" by (simp add: narinfo_of_entry_def manifest_entry_of_def Let_def add_signature_def)
  have "narinfo_clean ?ni"
    using assms(1,2) clean_compression_name
    by (auto simp: narinfo_clean_def narinfo_of_entry_def manifest_entry_of_def Let_def add_signature_def split: option.splits)
  from narinfo_roundtrip_lemma[OF this] show ?thesis unfolding build_narinfo_text_eq by (simp add: none)
qed

theorem unknown_compression_becomes_none_witness:
  "map_option ni_compression (parse_narinfo (build_narinfo_text (manifest_entry_of (\<lambda>_. ''k:s'')
     (sample_narinfo\<lparr>ni_compression := ''bzip2''\<rparr>)))) = Some ''none''"
  by (rule unknown_compression_becomes_none)
    (use sample_narinfo_clean in \<open>simp_all add: narinfo_clean_def clean_def sample_narinfo_def\<close>)

end
