(* ===== verification/Nar.thy ===== *)
theory Nar
  imports Prelude
begin

text \<open>
  The NAR archive format: \<open>crates/ekapkgs-nix/src/nar.rs\<close>.  The reader is a cursor over a
  byte slice; every read may fail, and slicing or 64-bit arithmetic that the release build
  would panic on is the error value \<open>Panic\<close>.  The parser's two mutually recursive functions
  take fuel; \<open>parse_nar\<close> supplies one unit per input byte plus one, and
  \<open>parse_nar_fuel_enough\<close> shows that this never runs out.
\<close>

subsection \<open>The archive tree\<close>

datatype nar_node =
    Regular (executable: bool) (data: bytes)
  | Directory (entries: "(string \<times> nar_node) list")
  | Symlink (target: string)

text \<open>Names and targets are Rust \<open>String\<close>s, so they are valid UTF-8 in every value the program
  can hold; the model's strings are raw bytes, so the type invariant is stated.\<close>

fun nar_wf :: "nar_node \<Rightarrow> bool" where
  "nar_wf (Regular x d) = True"
| "nar_wf (Directory es) = (\<forall>e \<in> set es. utf8_valid (fst e) \<and> nar_wf (snd e))"
| "nar_wf (Symlink t) = utf8_valid t"

subsection \<open>The reader\<close>

datatype nar_error =
    UnexpectedEof nat
  | Expected string bytes
  | InvalidUtf8
  | UnknownType string
  | UnexpectedField string
  | UnexpectedToken string
  | Panic
  | OutOfFuel

record nar_reader =
  rd_data :: bytes
  rd_pos :: nat

definition new_reader :: "bytes \<Rightarrow> nar_reader" where
  "new_reader d = \<lparr>rd_data = d, rd_pos = 0\<rparr>"

definition read_u64 :: "nar_reader \<Rightarrow> nar_error + nat \<times> nar_reader" where
  "read_u64 r =
     (if rd_pos r + 8 \<le> length (rd_data r)
      then Ok (from_le (take 8 (drop (rd_pos r) (rd_data r))), r\<lparr>rd_pos := rd_pos r + 8\<rparr>)
      else Err (UnexpectedEof (rd_pos r)))"

definition pad_len :: "nat \<Rightarrow> nat" where
  "pad_len n = (8 - n mod 8) mod 8"

text \<open>\<open>self.pos + len\<close> is computed on 64-bit \<open>usize\<close>: when it wraps, the bounds check passes
  and the slice \<open>[pos..pos + len]\<close> has its end before its start, which panics.\<close>

definition read_str :: "nar_reader \<Rightarrow> nar_error + bytes \<times> nar_reader" where
  "read_str r = bindR (read_u64 r) (\<lambda>(len, r).
     let stop = (rd_pos r + len) mod 2 ^ 64 in
     if stop \<le> length (rd_data r)
     then (if rd_pos r \<le> stop
           then Ok (take len (drop (rd_pos r) (rd_data r)), r\<lparr>rd_pos := stop + pad_len len\<rparr>)
           else Err Panic)
     else Err (UnexpectedEof (rd_pos r)))"

definition expect_str :: "string \<Rightarrow> nar_reader \<Rightarrow> nar_error + nar_reader" where
  "expect_str w r = bindR (read_str r) (\<lambda>(s, r). if s = w then Ok r else Err (Expected w s))"

definition read_string :: "nar_reader \<Rightarrow> nar_error + string \<times> nar_reader" where
  "read_string r = bindR (read_str r) (\<lambda>(s, r). if utf8_valid s then Ok (s, r) else Err InvalidUtf8)"

definition remaining :: "nar_reader \<Rightarrow> nat" where
  "remaining r = length (rd_data r) - rd_pos r"

subsection \<open>Progress of the reader\<close>

definition advances :: "nar_reader \<Rightarrow> nar_reader \<Rightarrow> bool" where
  "advances r r' \<longleftrightarrow> rd_data r' = rd_data r \<and> rd_pos r + 8 \<le> rd_pos r'
     \<and> rd_pos r + 8 \<le> length (rd_data r)"

definition stays :: "nar_reader \<Rightarrow> nar_reader \<Rightarrow> bool" where
  "stays r r' \<longleftrightarrow> rd_data r' = rd_data r \<and> rd_pos r \<le> rd_pos r'"

lemma stays_refl [simp, intro]: "stays r r"
  by (simp add: stays_def)

lemma stays_trans [trans]: "stays r s \<Longrightarrow> stays s t \<Longrightarrow> stays r t"
  by (auto simp: stays_def)

lemma advances_stays: "advances r r' \<Longrightarrow> stays r r'"
  by (auto simp: advances_def stays_def)

lemma advances_stays_trans [trans]: "advances r s \<Longrightarrow> stays s t \<Longrightarrow> advances r t"
  by (auto simp: advances_def stays_def)

lemma stays_advances_trans [trans]: "stays r s \<Longrightarrow> advances s t \<Longrightarrow> advances r t"
  by (auto simp: advances_def stays_def)

lemma advances_remaining: "advances r r' \<Longrightarrow> remaining r' < remaining r"
  by (auto simp: advances_def remaining_def)

lemma stays_remaining: "stays r r' \<Longrightarrow> remaining r' \<le> remaining r"
  by (auto simp: stays_def remaining_def)

lemma read_str_advances: "read_str r = Ok (s, r') \<Longrightarrow> advances r r'"
  by (auto simp: read_str_def read_u64_def advances_def bindR_eq_Ok Let_def split: if_splits)

lemma read_string_advances: "read_string r = Ok (s, r') \<Longrightarrow> advances r r'"
  by (auto simp: read_string_def bindR_eq_Ok split: if_splits dest: read_str_advances)

lemma expect_str_advances: "expect_str w r = Ok r' \<Longrightarrow> advances r r'"
  by (auto simp: expect_str_def bindR_eq_Ok split: if_splits dest: read_str_advances)

lemma read_str_no_fuel_error [simp]: "read_str r \<noteq> Err OutOfFuel"
  by (auto simp: read_str_def read_u64_def bindR_eq_Err Let_def split: if_splits)

lemma read_string_no_fuel_error [simp]: "read_string r \<noteq> Err OutOfFuel"
  by (auto simp: read_string_def bindR_eq_Err split: if_splits)

lemma expect_str_no_fuel_error [simp]: "expect_str w r \<noteq> Err OutOfFuel"
  by (auto simp: expect_str_def bindR_eq_Err split: if_splits)

subsection \<open>The parser\<close>

function parse_regular :: "nar_reader \<Rightarrow> bool \<Rightarrow> nar_error + nar_node \<times> nar_reader" where
  "parse_regular r x =
     (case read_string r of
        Inl e \<Rightarrow> Err e
      | Inr (field, r') \<Rightarrow>
          if field = ''executable'' then
            (case read_str r' of
               Inl e \<Rightarrow> Err e
             | Inr (s, r'') \<Rightarrow> parse_regular r'' True)
          else if field = ''contents'' then
            bindR (read_str r') (\<lambda>(d, r''). Ok (Regular x d, r''))
          else if field = '')'' then
            Ok (Regular x [], r'\<lparr>rd_pos := rd_pos r' - 16\<rparr>)
          else Err (UnexpectedField field))"
  by pat_completeness auto
termination
proof (relation "measure (\<lambda>(r, x). remaining r)", goal_cases)
  case 1
  then show ?case by simp
next
  case (2 r x fr field r' fr' s r'')
  then have "advances r r'" and "advances r' r''"
    by (auto dest: read_str_advances read_string_advances)
  then have "advances r r''" by (blast intro: advances_stays_trans advances_stays)
  then show ?case by (simp add: advances_remaining)
qed

declare parse_regular.simps [simp del]

definition parse_symlink :: "nar_reader \<Rightarrow> nar_error + nar_node \<times> nar_reader" where
  "parse_symlink r = bindR (expect_str ''target'' r) (\<lambda>r.
     bindR (read_string r) (\<lambda>(t, r). Ok (Symlink t, r)))"

fun parse_nar_obj :: "nat \<Rightarrow> nar_reader \<Rightarrow> nar_error + nar_node \<times> nar_reader"
  and parse_directory ::
    "nat \<Rightarrow> nar_reader \<Rightarrow> (string \<times> nar_node) list \<Rightarrow> nar_error + nar_node \<times> nar_reader"
where
  "parse_nar_obj 0 r = Err OutOfFuel"
| "parse_nar_obj (Suc fuel) r =
     bindR (expect_str ''('' r) (\<lambda>r.
     bindR (expect_str ''type'' r) (\<lambda>r.
     bindR (read_string r) (\<lambda>(type_str, r).
     bindR (if type_str = ''regular'' then parse_regular r False
            else if type_str = ''directory'' then parse_directory fuel r []
            else if type_str = ''symlink'' then parse_symlink r
            else Err (UnknownType type_str)) (\<lambda>(node, r).
     bindR (expect_str '')'' r) (\<lambda>r. Ok (node, r))))))"
| "parse_directory 0 r es = Err OutOfFuel"
| "parse_directory (Suc fuel) r es =
     (if remaining r < 8 then Ok (Directory es, r)
      else bindR (read_string r) (\<lambda>(token, r).
        if token = ''entry'' then
          bindR (expect_str ''('' r) (\<lambda>r.
          bindR (expect_str ''name'' r) (\<lambda>r.
          bindR (read_string r) (\<lambda>(name, r).
          bindR (expect_str ''node'' r) (\<lambda>r.
          bindR (parse_nar_obj fuel r) (\<lambda>(node, r).
          bindR (expect_str '')'' r) (\<lambda>r.
            parse_directory fuel r (es @ [(name, node)])))))))
        else if token = '')'' then
          Ok (Directory es, r\<lparr>rd_pos := rd_pos r - 16\<rparr>)
        else Err (UnexpectedToken token)))"

definition parse_nar :: "bytes \<Rightarrow> nar_error + nar_node" where
  "parse_nar d = bindR (expect_str ''nix-archive-1'' (new_reader d)) (\<lambda>r.
     bindR (parse_nar_obj (Suc (length d)) r) (\<lambda>(node, r). Ok node))"

subsection \<open>The writer\<close>

definition write_bytes :: "bytes \<Rightarrow> bytes" where
  "write_bytes d = u64_to_le_bytes (length d) @ d @ replicate (pad_len (length d)) (char_of (0::nat))"

definition write_str :: "string \<Rightarrow> bytes" where
  "write_str s = write_bytes s"

fun write_nar_obj :: "nar_node \<Rightarrow> bytes" where
  "write_nar_obj (Regular x d) =
     write_str ''('' @ write_str ''type'' @ write_str ''regular'' @
     (if x then write_str ''executable'' @ write_str '''' else []) @
     write_str ''contents'' @ write_bytes d @ write_str '')''"
| "write_nar_obj (Directory es) =
     write_str ''('' @ write_str ''type'' @ write_str ''directory'' @
     concat (map (\<lambda>e. write_str ''entry'' @ write_str ''('' @ write_str ''name'' @
       write_str (fst e) @ write_str ''node'' @ write_nar_obj (snd e) @ write_str '')'') es) @
     write_str '')''"
| "write_nar_obj (Symlink t) =
     write_str ''('' @ write_str ''type'' @ write_str ''symlink'' @
     write_str ''target'' @ write_str t @ write_str '')''"

definition write_nar :: "nar_node \<Rightarrow> bytes" where
  "write_nar n = write_str ''nix-archive-1'' @ write_nar_obj n"


subsection \<open>What a successful read returns\<close>

lemma add_mod_no_wrap:
  fixes p len m :: nat
  assumes "len < m" and "p \<le> (p + len) mod m"
  shows "(p + len) mod m = p + len"
proof (cases "p + len < m")
  case False
  have "(p + len) mod m < m" using assms(1) by (intro mod_less_divisor) simp
  then have "p < m" using assms(2) by simp
  then have "(p + len) mod m = p + len - m"
    using False assms(1) by (simp add: le_mod_geq)
  with assms False show ?thesis by simp
qed simp

lemma read_u64_less: "read_u64 r = Ok (n, r') \<Longrightarrow> n < 2 ^ 64"
  using from_le_less[of "take 8 (drop (rd_pos r) (rd_data r))"]
  by (auto simp: read_u64_def split: if_splits)

lemma read_str_OkD:
  assumes "read_str r = Ok (s, r')"
  shows "rd_pos r + 8 + length s \<le> length (rd_data r)"
    and "s = take (length s) (drop (rd_pos r + 8) (rd_data r))"
    and "r' = r\<lparr>rd_pos := rd_pos r + 8 + length s + pad_len (length s)\<rparr>"
proof -
  obtain len r1 where u: "read_u64 r = Ok (len, r1)"
    using assms by (auto simp: read_str_def bindR_eq_Ok)
  then have r1: "r1 = r\<lparr>rd_pos := rd_pos r + 8\<rparr>" by (auto simp: read_u64_def split: if_splits)
  let ?stop = "(rd_pos r + 8 + len) mod 2 ^ 64"
  have g: "?stop \<le> length (rd_data r)" "rd_pos r + 8 \<le> ?stop"
    "s = take len (drop (rd_pos r + 8) (rd_data r))" "r' = r\<lparr>rd_pos := ?stop + pad_len len\<rparr>"
    using assms u by (auto simp: read_str_def r1 Let_def split: if_splits)
  have stop: "?stop = rd_pos r + 8 + len"
    using add_mod_no_wrap[OF read_u64_less[OF u] g(2)] by simp
  with g have len: "length s = len" by simp
  show "rd_pos r + 8 + length s \<le> length (rd_data r)" using g(1) stop len by simp
  show "s = take (length s) (drop (rd_pos r + 8) (rd_data r))" using g(3) len by simp
  show "r' = r\<lparr>rd_pos := rd_pos r + 8 + length s + pad_len (length s)\<rparr>" using g(4) stop len by simp
qed

lemma read_string_read_str: "read_string r = Ok (s, r') \<Longrightarrow> read_str r = Ok (s, r')"
  by (auto simp: read_string_def bindR_eq_Ok split: if_splits)

text \<open>The rewind by 16 after a closing parenthesis returns exactly to where it was read.\<close>

lemma rewind_paren:
  assumes "read_string r = Ok ('')'', r')"
  shows "r'\<lparr>rd_pos := rd_pos r' - 16\<rparr> = r"
  using read_str_OkD(3)[OF read_string_read_str[OF assms]] by (simp add: pad_len_def)

subsection \<open>Every parser only moves forward\<close>

lemma parse_regular_stays: "parse_regular r x = Ok (n, r') \<Longrightarrow> stays r r'"
proof (induction r x rule: parse_regular.induct)
  case (1 r x)
  obtain field r1 where f: "read_string r = Ok (field, r1)"
    using "1.prems" by (auto simp: parse_regular.simps[of r x] split: sum.splits)
  then have a: "advances r r1" by (rule read_string_advances)
  consider "field = ''executable''" | "field = ''contents''" | "field = '')''"
    using "1.prems" f by (auto simp: parse_regular.simps[of r x] split: if_splits)
  then show ?case
  proof cases
    case 1
    then obtain s r2 where s: "read_str r1 = Ok (s, r2)" and p: "parse_regular r2 True = Ok (n, r')"
      using "1.prems" f by (auto simp: parse_regular.simps[of r x] split: sum.splits)
    have "stays r2 r'" using "1.IH" f 1 s p by auto
    moreover have "advances r1 r2" using s by (rule read_str_advances)
    ultimately show ?thesis using a by (blast intro: stays_trans advances_stays)
  next
    case 2
    then show ?thesis
      using "1.prems" f a by (auto simp: parse_regular.simps[of r x] bindR_eq_Ok
          intro: stays_trans advances_stays dest: read_str_advances)
  next
    case 3
    with f have "r1\<lparr>rd_pos := rd_pos r1 - 16\<rparr> = r" by (intro rewind_paren) simp
    then show ?thesis
      using "1.prems" f 3 by (auto simp: parse_regular.simps[of r x])
  qed
qed


lemma parse_symlink_stays: "parse_symlink r = Ok (n, r') \<Longrightarrow> stays r r'"
  by (auto simp: parse_symlink_def bindR_eq_Ok
      dest!: expect_str_advances read_string_advances advances_stays intro: stays_trans)

lemma parse_stays:
  "parse_nar_obj fuel r = Ok (n, r') \<Longrightarrow> advances r r'"
  "parse_directory fuel r es = Ok (n, r') \<Longrightarrow> stays r r'"
proof (induction fuel r and fuel r es arbitrary: n r' and n r'
    rule: parse_nar_obj_parse_directory.induct)
  case (2 fuel r)
  then obtain r1 r2 t r3 r4 where e: "expect_str ''('' r = Ok r1" "expect_str ''type'' r1 = Ok r2"
     "read_string r2 = Ok (t, r3)" "expect_str '')'' r4 = Ok r'"
    and b: "(if t = ''regular'' then parse_regular r3 False
            else if t = ''directory'' then parse_directory fuel r3 []
            else if t = ''symlink'' then parse_symlink r3
            else Err (UnknownType t)) = Ok (n, r4)"
    by (auto simp: bindR_eq_Ok)
  have "stays r3 r4"
    using b "2.IH"
    by (auto split: if_splits dest: parse_regular_stays parse_symlink_stays)
  with e show ?case
    by (meson expect_str_advances read_string_advances advances_stays advances_stays_trans)
next
  case (4 fuel r es)
  show ?case
  proof (cases "remaining r < 8")
    case True
    with 4 show ?thesis by auto
  next
    case False
    then obtain token r1 where t: "read_string r = Ok (token, r1)"
      using 4 by (auto simp: bindR_eq_Ok)
    consider "token = ''entry''" | "token = '')''"
      using 4 t False by (auto split: if_splits)
    then show ?thesis
    proof cases
      case 1
      then obtain r2 r3 name r4 r5 node r6 r7 where e: "expect_str ''('' r1 = Ok r2"
        "expect_str ''name'' r2 = Ok r3" "read_string r3 = Ok (name, r4)"
        "expect_str ''node'' r4 = Ok r5" "parse_nar_obj fuel r5 = Ok (node, r6)"
        "expect_str '')'' r6 = Ok r7" "parse_directory fuel r7 (es @ [(name, node)]) = Ok (n, r')"
        using 4 t False by (auto simp: bindR_eq_Ok)
      have "advances r5 r6" using 4(1) False t 1 e by auto
      moreover have "stays r7 r'" using 4(2) False t 1 e by auto
      ultimately show ?thesis
        using t e by (meson expect_str_advances read_string_advances advances_stays stays_trans)
    next
      case 2
      then show ?thesis using 4 t False rewind_paren[of r r1] by auto
    qed
  qed
qed auto


subsection \<open>The fuel is enough and never changes a result\<close>

lemma parse_regular_no_fuel_error: "parse_regular r x \<noteq> Err OutOfFuel"
proof (induction r x rule: parse_regular.induct)
  case (1 r x)
  show ?case
  proof
    assume a: "parse_regular r x = Err OutOfFuel"
    then obtain field r1 where f: "read_string r = Ok (field, r1)"
      by (auto simp: parse_regular.simps[of r x] split: sum.splits)
    with a obtain s r2 where s: "field = ''executable''" "read_str r1 = Ok (s, r2)"
      by (auto simp: parse_regular.simps[of r x] bindR_eq_Err split: sum.splits if_splits)
    with f a have "parse_regular r2 True = Err OutOfFuel"
      by (simp add: parse_regular.simps[of r x])
    with "1" f s show False by blast
  qed
qed

lemma parse_symlink_no_fuel_error: "parse_symlink r \<noteq> Err OutOfFuel"
  by (auto simp: parse_symlink_def bindR_eq_Err)

lemma parse_fuel_enough:
  "remaining r < fuel \<Longrightarrow> parse_nar_obj fuel r \<noteq> Err OutOfFuel"
  "remaining r < fuel \<Longrightarrow> parse_directory fuel r es \<noteq> Err OutOfFuel"
proof (induction fuel r and fuel r es rule: parse_nar_obj_parse_directory.induct)
  case (2 fuel r)
  have dir: "parse_directory fuel r3 [] \<noteq> Err OutOfFuel"
    if e: "expect_str ''('' r = Ok r1" "expect_str ''type'' r1 = Ok r2"
      "read_string r2 = Ok (''directory'', r3)" for r1 r2 r3
  proof -
    have "remaining r3 < remaining r"
      using e by (meson expect_str_advances read_string_advances advances_remaining order.strict_trans)
    with 2 show ?thesis by auto
  qed
  show ?case
    using dir parse_regular_no_fuel_error parse_symlink_no_fuel_error
    by (auto simp: bindR_eq_Err split: if_splits)
next
  case (4 fuel r es)
  show ?case
  proof
    assume a: "parse_directory (Suc fuel) r es = Err OutOfFuel"
    then have nr: "\<not> remaining r < 8" by auto
    with a obtain r1 where t: "read_string r = Ok (''entry'', r1)"
      by (auto simp: bindR_eq_Err split: if_splits)
    with a nr obtain r2 r3 name r4 r5 where e: "expect_str ''('' r1 = Ok r2"
        "expect_str ''name'' r2 = Ok r3" "read_string r3 = Ok (name, r4)"
        "expect_str ''node'' r4 = Ok r5"
      and cases: "parse_nar_obj fuel r5 = Err OutOfFuel \<or>
        (\<exists>node r6 r7. parse_nar_obj fuel r5 = Ok (node, r6) \<and> expect_str '')'' r6 = Ok r7
          \<and> parse_directory fuel r7 (es @ [(name, node)]) = Err OutOfFuel)"
      by (auto simp: bindR_eq_Err)
    have "advances r r5"
      using t e by (meson expect_str_advances read_string_advances advances_stays advances_stays_trans)
    then have r5: "remaining r5 < fuel" using 4(3) by (auto dest: advances_remaining)
    from cases show False
    proof (elim disjE exE conjE)
      assume "parse_nar_obj fuel r5 = Err OutOfFuel"
      with 4(1) nr t e r5 show False by auto
    next
      fix node r6 r7
      assume c: "parse_nar_obj fuel r5 = Ok (node, r6)" "expect_str '')'' r6 = Ok r7"
        "parse_directory fuel r7 (es @ [(name, node)]) = Err OutOfFuel"
      then have "advances r5 r7"
        by (meson parse_stays(1) expect_str_advances advances_stays advances_stays_trans)
      then have "remaining r7 < fuel" using r5 by (auto dest: advances_remaining)
      with 4(2) nr t e c show False by auto
    qed
  qed
qed auto

declare parse_nar_obj.simps [simp del] parse_directory.simps [simp del]

lemma bindR_cong: "(\<And>a. m = Ok a \<Longrightarrow> f a = g a) \<Longrightarrow> bindR m f = bindR m g"
  by (cases m) auto

lemma parse_fuel_Suc:
  "parse_nar_obj fuel r \<noteq> Err OutOfFuel \<Longrightarrow> parse_nar_obj (Suc fuel) r = parse_nar_obj fuel r"
  "parse_directory fuel r es \<noteq> Err OutOfFuel \<Longrightarrow>
   parse_directory (Suc fuel) r es = parse_directory fuel r es"
proof (induction fuel r and fuel r es rule: parse_nar_obj_parse_directory.induct)
  case (2 fuel r)
  have "parse_directory (Suc fuel) r3 [] = parse_directory fuel r3 []"
    if "expect_str ''('' r = Ok r1" "expect_str ''type'' r1 = Ok r2"
      "read_string r2 = Ok (''directory'', r3)" for r1 r2 r3
    using "2.prems" that by (intro "2.IH"[of "''directory''"]) (auto simp: parse_nar_obj.simps(2))
  then show ?case
    unfolding parse_nar_obj.simps(2)[of fuel r] parse_nar_obj.simps(2)[of "Suc fuel" r]
    by (auto intro!: bindR_cong arg_cong2[where f = bindR])
next
  case (4 fuel r es)
  have obj: "parse_nar_obj (Suc fuel) r5 = parse_nar_obj fuel r5"
    if "\<not> remaining r < 8" "read_string r = Ok (''entry'', r1)" "expect_str ''('' r1 = Ok r2"
       "expect_str ''name'' r2 = Ok r3" "read_string r3 = Ok (name, r4)" "expect_str ''node'' r4 = Ok r5"
    for r1 r2 r3 name r4 r5
    using "4.prems" that
    by (intro "4.IH"(1)[of "''entry''"]) (auto simp: parse_directory.simps(2))
  have dir: "parse_directory (Suc fuel) r7 (es @ [(name, node)]) = parse_directory fuel r7 (es @ [(name, node)])"
    if "\<not> remaining r < 8" "read_string r = Ok (''entry'', r1)" "expect_str ''('' r1 = Ok r2"
       "expect_str ''name'' r2 = Ok r3" "read_string r3 = Ok (name, r4)" "expect_str ''node'' r4 = Ok r5"
       "parse_nar_obj fuel r5 = Ok (node, r6)" "expect_str '')'' r6 = Ok r7"
    for r1 r2 r3 name r4 r5 node r6 r7
    using "4.prems" that
    by (intro "4.IH"(2)[of "''entry''"]) (auto simp: parse_directory.simps(2))
  show ?case
    unfolding parse_directory.simps(2)[of fuel r es] parse_directory.simps(2)[of "Suc fuel" r es]
    by (auto simp: obj dir intro!: bindR_cong)
qed (auto simp: parse_nar_obj.simps(1) parse_directory.simps(1))

lemma parse_fuel_le:
  assumes "f \<le> g"
  shows "parse_nar_obj f r \<noteq> Err OutOfFuel \<Longrightarrow> parse_nar_obj g r = parse_nar_obj f r"
    and "parse_directory f r es \<noteq> Err OutOfFuel \<Longrightarrow> parse_directory g r es = parse_directory f r es"
  using assms by (induction rule: dec_induct) (auto simp: parse_fuel_Suc)

lemma parse_fuel_mono:
  assumes "f \<le> g"
  shows "parse_nar_obj f r = Ok v \<Longrightarrow> parse_nar_obj g r = Ok v"
    and "parse_directory f r es = Ok w \<Longrightarrow> parse_directory g r es = Ok w"
  using parse_fuel_le[OF assms] by auto

lemma parse_fuel_determined:
  assumes "parse_nar_obj f r = Ok v" and "parse_nar_obj g r \<noteq> Err OutOfFuel"
  shows "parse_nar_obj g r = Ok v"
  using parse_fuel_le(1)[of f g r] parse_fuel_le(1)[of g f r] assms by (cases "f \<le> g") auto


subsection \<open>Reading back what was written\<close>

definition view :: "nar_reader \<Rightarrow> bytes" where
  "view r = drop (rd_pos r) (rd_data r)"

definition skip :: "nat \<Rightarrow> nar_reader \<Rightarrow> nar_reader" where
  "skip k r = r\<lparr>rd_pos := rd_pos r + k\<rparr>"

definition sized :: "nar_reader \<Rightarrow> bool" where
  "sized r \<longleftrightarrow> length (rd_data r) < 2 ^ 64"

lemma sized_skip [simp]: "sized (skip k r) = sized r"
  by (simp add: sized_def skip_def)

lemma view_skip: "view r = xs @ ys \<Longrightarrow> view (skip (length xs) r) = ys"
  by (simp add: view_def skip_def drop_add_view)

lemma skip_skip [simp]: "skip k (skip l r) = skip (l + k) r"
  by (simp add: skip_def add.assoc)

lemma length_write_bytes: "length (write_bytes d) = 8 + length d + pad_len (length d)"
  by (simp add: write_bytes_def)

lemma remaining_view: "remaining r = length (view r)"
  by (simp add: remaining_def view_def)

lemma read_str_view:
  assumes v: "view r = write_bytes s @ rest" and z: "sized r"
  shows "read_str r = Ok (s, skip (length (write_bytes s)) r)"
proof -
  let ?tail = "s @ replicate (pad_len (length s)) (char_of (0::nat)) @ rest"
  have d: "drop (rd_pos r) (rd_data r) = u64_to_le_bytes (length s) @ ?tail"
    using v by (simp add: view_def write_bytes_def)
  have d8: "drop (rd_pos r + 8) (rd_data r) = ?tail"
    using drop_add_view[OF d] by simp
  have ne: "u64_to_le_bytes (length s) \<noteq> []"
    by (metis length_u64_to_le_bytes list.size(3) zero_neq_numeral)
  have e: "rd_pos r + 8 \<le> length (rd_data r)"
    using drop_view_length[OF d ne] by simp
  then have b: "rd_pos r + 8 + length s \<le> length (rd_data r)"
    using arg_cong[OF d8, of length] by simp
  then have "length s < 2 ^ 64" "rd_pos r + 8 + length s < 2 ^ 64" using z by (auto simp: sized_def)
  then show ?thesis
    using e b d8 by (simp add: read_str_def read_u64_def d from_le_u64 length_write_bytes
        skip_def Let_def)
qed

lemma expect_str_view:
  "view r = write_str s @ rest \<Longrightarrow> sized r \<Longrightarrow> expect_str s r = Ok (skip (length (write_str s)) r)"
  by (simp add: expect_str_def write_str_def read_str_view)

lemma read_string_view:
  "view r = write_str s @ rest \<Longrightarrow> sized r \<Longrightarrow> utf8_valid s
   \<Longrightarrow> read_string r = Ok (s, skip (length (write_str s)) r)"
  by (simp add: read_string_def write_str_def read_str_view)

lemma utf8_keywords [simp]:
  "utf8_valid ''regular''" "utf8_valid ''directory''" "utf8_valid ''symlink''"
  "utf8_valid ''executable''" "utf8_valid ''contents''" "utf8_valid '')''" "utf8_valid ''entry''"
  by (simp_all add: utf8_valid_def)

lemma view_write_str: "view r = write_str s @ rest \<Longrightarrow> view (skip (length (write_str s)) r) = rest"
  by (rule view_skip)

lemma parse_contents_view:
  assumes v: "view r = write_str ''contents'' @ write_bytes d @ rest" and z: "sized r"
  shows "parse_regular r x =
    Ok (Regular x d, skip (length (write_str ''contents'' @ write_bytes d)) r)"
  using read_string_view[OF v z] read_str_view[of "skip (length (write_str ''contents'')) r" d rest]
    view_write_str[OF v] z
  by (simp add: parse_regular.simps[of r])

lemma parse_regular_view:
  assumes v: "view r = (if x then write_str ''executable'' @ write_str '''' else []) @
      write_str ''contents'' @ write_bytes d @ rest"
    and z: "sized r"
  shows "parse_regular r False = Ok (Regular x d, skip (length ((if x then write_str ''executable''
      @ write_str '''' else []) @ write_str ''contents'' @ write_bytes d)) r)"
proof (cases x)
  case False
  then show ?thesis using parse_contents_view[of r d rest False] v z by simp
next
  case True
  let ?r1 = "skip (length (write_str ''executable'')) r"
  have v0: "view r = write_str ''executable'' @ write_str '''' @ write_str ''contents'' @ write_bytes d @ rest"
    using v True by simp
  note v1 = view_write_str[OF v0]
  have s1: "read_string r = Ok (''executable'', ?r1)" using read_string_view[OF v0 z] by simp
  have s2: "read_str ?r1 = Ok ('''', skip (length (write_str '''')) ?r1)"
    using v1 z unfolding write_str_def by (intro read_str_view) simp_all
  have "parse_regular r False = parse_regular (skip (length (write_str '''')) ?r1) True"
    using s1 s2 by (subst parse_regular.simps) simp
  also have "\<dots> = Ok (Regular True d, skip (length (write_str ''contents'' @ write_bytes d))
      (skip (length (write_str '''')) ?r1))"
    using parse_contents_view[OF view_write_str[OF v1]] z by simp
  finally show ?thesis using True by (simp add: add.assoc)
qed

lemma parse_symlink_view:
  assumes "view r = write_str ''target'' @ write_str t @ rest" "sized r" "utf8_valid t"
  shows "parse_symlink r = Ok (Symlink t, skip (length (write_str ''target'' @ write_str t)) r)"
  using expect_str_view[OF assms(1,2)] view_write_str[OF assms(1)] assms(2,3)
    read_string_view[of "skip (length (write_str ''target'')) r" t rest]
  by (simp add: parse_symlink_def)

definition write_entry :: "string \<times> nar_node \<Rightarrow> bytes" where
  "write_entry e = write_str ''entry'' @ write_str ''('' @ write_str ''name'' @
       write_str (fst e) @ write_str ''node'' @ write_nar_obj (snd e) @ write_str '')''"

lemma write_nar_obj_Directory:
  "write_nar_obj (Directory es) = write_str ''('' @ write_str ''type'' @ write_str ''directory'' @
     concat (map write_entry es) @ write_str '')''"
  by (simp add: write_entry_def[abs_def])

definition parses_to :: "nar_reader \<Rightarrow> nar_node \<Rightarrow> bytes \<Rightarrow> bool" where
  "parses_to r n w \<longleftrightarrow> (\<exists>f. parse_nar_obj f r = Ok (n, skip (length w) r))"

lemma parse_entry_step:
  assumes v: "view r = write_entry (name, n) @ rest" and z: "sized r" and u: "utf8_valid name"
    and n: "\<And>r rest. view r = write_nar_obj n @ rest \<Longrightarrow> sized r \<Longrightarrow> parses_to r n (write_nar_obj n)"
    and d: "parse_directory g (skip (length (write_entry (name, n))) r) (es @ [(name, n)]) = Ok v'"
  shows "\<exists>f. parse_directory f r es = Ok v'"
proof -
  have v0: "view r = write_str ''entry'' @ write_str ''('' @ write_str ''name'' @ write_str name @
      write_str ''node'' @ write_nar_obj n @ write_str '')'' @ rest"
    using v by (simp add: write_entry_def)
  let ?r1 = "skip (length (write_str ''entry'')) r" let ?r2 = "skip (length (write_str ''('')) ?r1"
  let ?r3 = "skip (length (write_str ''name'')) ?r2" let ?r4 = "skip (length (write_str name)) ?r3"
  let ?r5 = "skip (length (write_str ''node'')) ?r4" let ?r6 = "skip (length (write_nar_obj n)) ?r5"
  let ?r7 = "skip (length (write_str '')'')) ?r6"
  note v1 = view_write_str[OF v0] note v2 = view_write_str[OF v1] note v3 = view_write_str[OF v2]
  note v4 = view_write_str[OF v3] note v5 = view_write_str[OF v4] note v6 = view_skip[OF v5]
  have z1: "sized ?r1" "sized ?r2" "sized ?r3" "sized ?r4" "sized ?r5" "sized ?r6" using z by simp_all
  obtain f where f: "parse_nar_obj f ?r5 = Ok (n, ?r6)"
    using n[OF v5 z1(5)] by (auto simp: parses_to_def)
  have r7: "?r7 = skip (length (write_entry (name, n))) r" by (simp add: write_entry_def add.assoc)
  let ?g = "max f g"
  have "parse_nar_obj ?g ?r5 = Ok (n, ?r6)" using f by (rule parse_fuel_mono(1)[rotated]) simp
  moreover have "parse_directory ?g ?r7 (es @ [(name, n)]) = Ok v'"
    using d unfolding r7 by (rule parse_fuel_mono(2)[rotated]) simp
  moreover have "\<not> remaining r < 8" by (simp add: remaining_view v0 write_str_def length_write_bytes)
  moreover have "read_string r = Ok (''entry'', ?r1)" using read_string_view[OF v0 z] by simp
  ultimately have "parse_directory (Suc ?g) r es = Ok v'"
    using expect_str_view[OF v1 z1(1)] expect_str_view[OF v2 z1(2)] read_string_view[OF v3 z1(3) u]
      expect_str_view[OF v4 z1(4)] expect_str_view[OF v6 z1(6)]
    by (simp add: parse_directory.simps(2) del: skip_skip)
  then show ?thesis by blast
qed

lemma parse_entries_view:
  assumes n: "\<And>e r rest. e \<in> set es \<Longrightarrow> view r = write_nar_obj (snd e) @ rest \<Longrightarrow> sized r
      \<Longrightarrow> parses_to r (snd e) (write_nar_obj (snd e))"
    and u: "\<forall>e \<in> set es. utf8_valid (fst e)"
    and v: "view r = concat (map write_entry es) @ write_str '')'' @ rest" and z: "sized r"
  shows "\<exists>f. parse_directory f r acc =
    Ok (Directory (acc @ es), skip (length (concat (map write_entry es))) r)"
  using assms
proof (induction es arbitrary: r acc)
  case Nil
  then have v: "view r = write_str '')'' @ rest" by simp
  then have "read_string r = Ok ('')'', skip (length (write_str '')'')) r)"
    using read_string_view[OF v] Nil by simp
  moreover have "\<not> remaining r < 8" by (simp add: remaining_view v write_str_def length_write_bytes)
  ultimately have "parse_directory (Suc 0) r acc = Ok (Directory acc, r)"
    using rewind_paren[of r] by (simp add: parse_directory.simps(2))
  then show ?case by (auto simp: skip_def intro!: exI[of _ "Suc 0"])
next
  case (Cons e es)
  obtain name n where e: "e = (name, n)" by (cases e)
  have v: "view r = write_entry (name, n) @ concat (map write_entry es) @ write_str '')'' @ rest"
    using Cons.prems(3) e by simp
  have "\<exists>g. parse_directory g (skip (length (write_entry (name, n))) r) (acc @ [(name, n)]) =
     Ok (Directory ((acc @ [(name, n)]) @ es), skip (length (concat (map write_entry es)))
       (skip (length (write_entry (name, n))) r))"
    using Cons.prems(1,2,4) view_skip[OF v] by (intro Cons.IH) auto
  then have "\<exists>f. parse_directory f r acc = Ok (Directory ((acc @ [(name, n)]) @ es),
      skip (length (concat (map write_entry es))) (skip (length (write_entry (name, n))) r))"
    using Cons.prems(1)[of e] Cons.prems(2,4) e by (auto intro: parse_entry_step[OF v])
  then show ?case by (simp add: e)
qed

lemma parse_wrap_view:
  assumes v: "view r = write_str ''('' @ write_str ''type'' @ write_str t @ w @ write_str '')'' @ rest"
    and z: "sized r" and u: "utf8_valid t"
    and b: "\<And>r. view r = w @ write_str '')'' @ rest \<Longrightarrow> sized r \<Longrightarrow>
      \<exists>f. (if t = ''regular'' then parse_regular r False
            else if t = ''directory'' then parse_directory f r []
            else if t = ''symlink'' then parse_symlink r
            else Err (UnknownType t)) = Ok (n, skip (length w) r)"
  shows "parses_to r n (write_str ''('' @ write_str ''type'' @ write_str t @ w @ write_str '')'')"
proof -
  let ?r1 = "skip (length (write_str ''('')) r" let ?r2 = "skip (length (write_str ''type'')) ?r1"
  let ?r3 = "skip (length (write_str t)) ?r2" let ?r4 = "skip (length w) ?r3"
  note v1 = view_write_str[OF v] note v2 = view_write_str[OF v1] note v3 = view_write_str[OF v2]
  note v4 = view_skip[OF v3]
  have z1: "sized ?r1" "sized ?r2" "sized ?r3" "sized ?r4" using z by simp_all
  obtain f where f: "(if t = ''regular'' then parse_regular ?r3 False
            else if t = ''directory'' then parse_directory f ?r3 []
            else if t = ''symlink'' then parse_symlink ?r3
            else Err (UnknownType t)) = Ok (n, ?r4)"
    using b[OF v3 z1(3)] by blast
  have "parse_nar_obj (Suc f) r = Ok (n, skip (length (write_str '')'')) ?r4)"
    using expect_str_view[OF v z] expect_str_view[OF v1 z1(1)] read_string_view[OF v2 z1(2) u] f
      expect_str_view[OF v4 z1(4)]
    by (simp add: parse_nar_obj.simps(2) del: skip_skip)
  then show ?thesis by (auto simp: parses_to_def add.assoc)
qed

lemma parse_obj_view:
  "nar_wf n \<Longrightarrow> view r = write_nar_obj n @ rest \<Longrightarrow> sized r \<Longrightarrow> parses_to r n (write_nar_obj n)"
proof (induction n arbitrary: r rest)
  case (Regular x d)
  let ?w = "(if x then write_str ''executable'' @ write_str '''' else []) @
      write_str ''contents'' @ write_bytes d"
  have e: "write_nar_obj (Regular x d) =
      write_str ''('' @ write_str ''type'' @ write_str ''regular'' @ ?w @ write_str '')''"
    by simp
  show ?case unfolding e
    by (rule parse_wrap_view[where rest = rest])
      (use Regular parse_regular_view[of _ x d "write_str '')'' @ rest"] in \<open>simp_all\<close>)
next
  case (Directory es)
  have IH: "parses_to r (snd e) (write_nar_obj (snd e))"
    if "e \<in> set es" "view r = write_nar_obj (snd e) @ rest" "sized r" for e r rest
    using Directory.IH[of e "snd e"] Directory.prems(1) that by (cases e) auto
  show ?case unfolding write_nar_obj_Directory
  proof (rule parse_wrap_view[where rest = rest])
    show "view r = write_str ''('' @ write_str ''type'' @ write_str ''directory'' @
        concat (map write_entry es) @ write_str '')'' @ rest"
      using Directory.prems(2) unfolding write_nar_obj_Directory by simp
    fix r' assume "view r' = concat (map write_entry es) @ write_str '')'' @ rest" "sized r'"
    with parse_entries_view[OF IH _ this, where acc = "[]"] Directory.prems(1)
    show "\<exists>f. (if ''directory'' = ''regular'' then parse_regular r' False
            else if ''directory'' = ''directory'' then parse_directory f r' []
            else if ''directory'' = ''symlink'' then parse_symlink r'
            else Err (UnknownType ''directory'')) =
        Ok (nar_node.Directory es, skip (length (concat (map write_entry es))) r')"
      by auto
  qed (use Directory.prems in simp_all)
next
  case (Symlink t)
  let ?w = "write_str ''target'' @ write_str t"
  have e: "write_nar_obj (Symlink t) =
      write_str ''('' @ write_str ''type'' @ write_str ''symlink'' @ ?w @ write_str '')''"
    by simp
  show ?case unfolding e
    by (rule parse_wrap_view[where rest = rest])
      (use Symlink parse_symlink_view[of _ t "write_str '')'' @ rest"] in \<open>simp_all\<close>)
qed

subsection \<open>Where the parser panics\<close>

definition overflow_at :: "bytes \<Rightarrow> nat \<Rightarrow> bool" where
  "overflow_at d p \<longleftrightarrow> p + 8 \<le> length d \<and> 2 ^ 64 \<le> p + 8 + from_le (take 8 (drop p d))"

text \<open>A reader is safe when no position of its data holds a length that overflows.\<close>

definition safe :: "nar_reader \<Rightarrow> bool" where
  "safe r \<longleftrightarrow> (\<forall>p. \<not> overflow_at (rd_data r) p)"

lemma stays_safe: "stays r r' \<Longrightarrow> safe r' = safe r"
  by (simp add: stays_def safe_def)

lemmas reads_safe [THEN stays_safe] =
  read_str_advances[THEN advances_stays] read_string_advances[THEN advances_stays]
  expect_str_advances[THEN advances_stays] parse_stays(1)[THEN advances_stays] parse_stays(2)
  parse_regular_stays parse_symlink_stays

lemma read_str_safe: "safe r \<Longrightarrow> read_str r \<noteq> Err Panic"
  by (auto simp: read_str_def read_u64_def overflow_at_def safe_def bindR_eq_Err Let_def
      not_le add.commute split: if_splits)

lemma expect_str_safe: "safe r \<Longrightarrow> expect_str w r \<noteq> Err Panic"
  by (auto simp: expect_str_def bindR_eq_Err read_str_safe split: if_splits)

lemma read_string_safe: "safe r \<Longrightarrow> read_string r \<noteq> Err Panic"
  by (auto simp: read_string_def bindR_eq_Err read_str_safe split: if_splits)

lemma parse_regular_safe: "safe r \<Longrightarrow> parse_regular r x \<noteq> Err Panic"
proof (induction r x rule: parse_regular.induct)
  case (1 r x)
  show ?case
  proof
    assume a: "parse_regular r x = Err Panic"
    then obtain field r1 where f: "read_string r = Ok (field, r1)"
      using read_string_safe[OF "1.prems"] by (auto simp: parse_regular.simps[of r] split: sum.splits)
    have r1: "safe r1" using f "1.prems" by (simp add: reads_safe)
    from a f obtain s r2 where "field = ''executable''" "read_str r1 = Ok (s, r2)"
        "parse_regular r2 True = Err Panic"
      using read_str_safe[OF r1]
      by (auto simp: parse_regular.simps[of r] bindR_eq_Err split: if_splits sum.splits)
    moreover from this have "safe r2" using r1 by (simp add: reads_safe)
    ultimately show False using "1.IH" f by auto
  qed
qed

lemma parse_symlink_safe: "safe r \<Longrightarrow> parse_symlink r \<noteq> Err Panic"
  by (auto simp: parse_symlink_def bindR_eq_Err expect_str_safe read_string_safe reads_safe)

lemma parse_safe:
  "safe r \<Longrightarrow> parse_nar_obj fuel r \<noteq> Err Panic"
  "safe r \<Longrightarrow> parse_directory fuel r es \<noteq> Err Panic"
proof (induction fuel r and fuel r es rule: parse_nar_obj_parse_directory.induct)
  case (2 fuel r)
  then show ?case
    by (auto simp: parse_nar_obj.simps(2) bindR_eq_Err expect_str_safe read_string_safe reads_safe
        parse_regular_safe parse_symlink_safe split: if_splits)
next
  case (4 fuel r es)
  then show ?case
    by (auto simp: parse_directory.simps(2) bindR_eq_Err expect_str_safe read_string_safe reads_safe
        split: if_splits)
qed (auto simp: parse_nar_obj.simps(1) parse_directory.simps(1))

subsection \<open>Properties\<close>

lemma parse_write_nar:
  assumes "nar_wf n" and "length (write_nar n @ trailing) < 2 ^ 64"
  shows "parse_nar (write_nar n @ trailing) = Ok n"
proof -
  let ?d = "write_nar n @ trailing" let ?r = "new_reader ?d"
  let ?r1 = "skip (length (write_str ''nix-archive-1'')) ?r"
  have z: "sized ?r" "sized ?r1" using assms(2) by (simp_all add: sized_def new_reader_def skip_def)
  have v: "view ?r = write_str ''nix-archive-1'' @ write_nar_obj n @ trailing"
    by (simp add: view_def new_reader_def write_nar_def)
  have v1: "view ?r1 = write_nar_obj n @ trailing" by (rule view_write_str[OF v])
  obtain f where f: "parse_nar_obj f ?r1 = Ok (n, skip (length (write_nar_obj n)) ?r1)"
    using parse_obj_view[OF assms(1) v1 z(2)] by (auto simp: parses_to_def)
  have "remaining ?r1 < Suc (length ?d)" by (simp add: remaining_def skip_def new_reader_def)
  then have enough: "parse_nar_obj (Suc (length ?d)) ?r1 \<noteq> Err OutOfFuel" by (rule parse_fuel_enough(1))
  have "parse_nar_obj (Suc (length ?d)) ?r1 = Ok (n, skip (length (write_nar_obj n)) ?r1)"
    using f enough parse_fuel_determined[OF f enough] by simp
  with expect_str_view[OF v z(1)] show ?thesis by (simp add: parse_nar_def)
qed

text \<open>C34. Round trip: parsing what the writer produced gives the node back, whatever trailing
  bytes follow it, for every node whose strings are UTF-8 and whose encoding fits the address
  space.\<close>

theorem nar_roundtrip:
  assumes "nar_wf n" and "length (write_nar n @ trailing) < 2 ^ 64"
  shows "parse_nar (write_nar n @ trailing) = Ok n"
  using assms by (rule parse_write_nar)

theorem nar_roundtrip_witness:
  "parse_nar (write_nar (Directory [(''b'', Regular True ''x''), (''a'', Symlink ''b'')]) @ ''pad'')
   = Ok (Directory [(''b'', Regular True ''x''), (''a'', Symlink ''b'')])"
  by (rule nar_roundtrip)
    (simp_all add: utf8_valid_def write_nar_def write_str_def length_write_bytes pad_len_def)

text \<open>C40. The parser always returns: on every input the fuel it is given suffices, so the
  outcome is a node or one of the source's own errors.\<close>

theorem parse_nar_terminates: "parse_nar d \<noteq> Err OutOfFuel"
proof -
  have "parse_nar_obj (Suc (length d)) r \<noteq> Err OutOfFuel"
    if "expect_str ''nix-archive-1'' (new_reader d) = Ok r" for r
    using advances_remaining[OF expect_str_advances[OF that]]
    by (intro parse_fuel_enough) (simp add: remaining_def new_reader_def)
  then show ?thesis by (auto simp: parse_nar_def bindR_eq_Err)
qed

text \<open>A length field close to the top of the 64-bit range makes the parser panic instead of
  reporting an error: the bounds check is done on the wrapped sum.  Any such field right after
  the magic string does it.\<close>

theorem parse_nar_panics_on_huge_length:
  assumes "2 ^ 64 - 32 \<le> len" and "len < 2 ^ 64"
  shows "parse_nar (write_str ''nix-archive-1'' @ u64_to_le_bytes len @ rest) = Err Panic"
proof -
  let ?d = "write_str ''nix-archive-1'' @ u64_to_le_bytes len @ rest" let ?r = "new_reader ?d"
  have w: "length (write_str ''nix-archive-1'') = 24"
    by (simp add: write_str_def length_write_bytes pad_len_def)
  let ?h = "''nix-archive-1'' @ replicate 3 (char_of (0::nat)) @ u64_to_le_bytes len @ rest"
  have "write_str ''nix-archive-1'' = u64_to_le_bytes 13 @ ''nix-archive-1'' @ replicate 3 (char_of (0::nat))"
    by code_simp
  then have d: "?d = u64_to_le_bytes 13 @ ?h" by simp
  have "read_str ?r = Ok (''nix-archive-1'', ?r\<lparr>rd_pos := 24\<rparr>)"
    unfolding d by (simp add: read_str_def read_u64_def new_reader_def from_le_u64 pad_len_def)
  then have m: "expect_str ''nix-archive-1'' ?r = Ok (?r\<lparr>rd_pos := 24\<rparr>)"
    by (simp add: expect_str_def)
  have "(32 + len) mod 2 ^ 64 = len + 32 - 2 ^ 64" using assms by (simp add: le_mod_geq)
  then have "read_str (?r\<lparr>rd_pos := 24\<rparr>) = Err Panic"
    using assms w by (simp add: read_str_def read_u64_def new_reader_def from_le_u64 Let_def)
  then have "expect_str ''('' (?r\<lparr>rd_pos := 24\<rparr>) = Err Panic" by (simp add: expect_str_def)
  then have "parse_nar_obj (Suc k) (?r\<lparr>rd_pos := 24\<rparr>) = Err Panic" for k
    by (simp add: parse_nar_obj.simps(2))
  then show ?thesis using m by (simp add: parse_nar_def del: length_append)
qed

theorem parse_nar_panics_on_huge_length_witness:
  "parse_nar (write_str ''nix-archive-1'' @ u64_to_le_bytes (2 ^ 64 - 1) @ []) = Err Panic"
  by (rule parse_nar_panics_on_huge_length) simp_all

text \<open>That is the only way the parser panics: if it does, some length field of the input
  overflows the 64-bit position it is added to.  Inputs without such a field are parsed or
  rejected with an error.\<close>

theorem parse_nar_panic_only_on_overflow:
  assumes "parse_nar d = Err Panic"
  shows "\<exists>p. overflow_at d p"
proof (rule ccontr)
  assume "\<nexists>p. overflow_at d p"
  then have s: "safe (new_reader d)" by (simp add: safe_def new_reader_def)
  then show False
    using assms parse_safe(1) reads_safe(3)[of "''nix-archive-1''" "new_reader d"]
    by (auto simp: parse_nar_def bindR_eq_Err expect_str_safe)
qed

theorem parse_nar_panic_only_on_overflow_witness: "\<exists>p. overflow_at (u64_to_le_bytes (2 ^ 64 - 1)) p"
proof -
  have "read_str (new_reader (u64_to_le_bytes (2 ^ 64 - 1))) = Err Panic"
    by (simp add: read_str_def read_u64_def new_reader_def from_le_u64 Let_def)
  then have "parse_nar (u64_to_le_bytes (2 ^ 64 - 1)) = Err Panic"
    by (simp add: parse_nar_def expect_str_def)
  then show ?thesis by (rule parse_nar_panic_only_on_overflow)
qed

end
