(* ===== verification/CaTree.thy ===== *)
theory CaTree
  imports Nar "HOL-Library.Countable"
begin

text \<open>
  The content-addressed tree: the protobuf messages of \<open>proto/ekapkgs/v1/castore.proto\<close>, the
  \<open>ChunkReader\<close> trait and the streaming NAR writer of \<open>crates/ekapkgs-nix/src/nar.rs\<close>, and the
  contract \<open>represents\<close> between a chunk store and that writer.  blake3, FastCDC, zstd, sha256 and
  the protobuf codec are third-party crates: a record of functions, with the named hypothesis
  \<open>cas_env_ok\<close>; \<open>zstd_compress\<close> takes the level, \<open>zstd_decompress\<close> the output capacity.
\<close>

subsection \<open>Messages\<close>

text \<open>A missing sub-message is \<open>None\<close>; a \<open>B3Digest\<close> may hold any number of bytes.\<close>

datatype ca_variant =
    CaDirectoryNode "digest option" nat
  | CaFileNode "digest option" nat bool
  | CaSymlinkNode string

datatype ca_node = CaNode (node: "ca_variant option")

datatype ca_directory = CaDirectory (dir_entries: "(string \<times> ca_node option) list")

instance ca_variant :: countable by countable_datatype
instance ca_node :: countable by countable_datatype
instance ca_directory :: countable by countable_datatype

record chunk_meta =
  cm_digest :: "digest option"
  cm_size :: nat

record file_chunk_mapping =
  fm_file_digest :: "digest option"
  fm_chunks :: "chunk_meta list"

text \<open>\<open><[u8; 32]>::try_from(bytes)\<close>.\<close>

definition try_digest :: "bytes \<Rightarrow> digest option" where
  "try_digest b = (if length b = 32 then Some b else None)"

subsection \<open>The third-party functions\<close>

record cas_env =
  blake3 :: "bytes \<Rightarrow> digest"
  cdc :: "bytes \<Rightarrow> bytes list"
  encode_dir :: "ca_directory \<Rightarrow> bytes"
  decode_dir :: "bytes \<Rightarrow> ca_directory option"
  encode_node :: "ca_node \<Rightarrow> bytes"
  decode_node :: "bytes \<Rightarrow> ca_node option"
  zstd_compress :: "int \<Rightarrow> bytes \<Rightarrow> bytes"
  zstd_decompress :: "nat \<Rightarrow> bytes \<Rightarrow> bytes option"
  sha256_hex :: "bytes \<Rightarrow> string"

definition CHUNK_MAX :: nat where
  "CHUNK_MAX = 256 * 1024"

text \<open>Documented behaviour: digests have 32 bytes; the chunker cuts its input into non-empty
  consecutive pieces of at most \<open>CHUNK_MAX\<close> bytes; the codecs decode what they encoded; zstd
  restores a chunk that fits the output bound it is given.\<close>

definition cas_env_ok :: "cas_env \<Rightarrow> bool" where
  "cas_env_ok env \<longleftrightarrow>
     (\<forall>b. length (blake3 env b) = 32) \<and>
     (\<forall>d. concat (cdc env d) = d \<and> (\<forall>c \<in> set (cdc env d). c \<noteq> [] \<and> length c \<le> CHUNK_MAX)) \<and>
     (\<forall>x. decode_dir env (encode_dir env x) = Some x) \<and>
     (\<forall>x. decode_node env (encode_node env x) = Some x) \<and>
     (\<forall>l k d. length d \<le> k \<longrightarrow> zstd_decompress env k (zstd_compress env l d) = Some d)"

lemma cas_env_okD:
  assumes "cas_env_ok env"
  shows "length (blake3 env b) = 32" "concat (cdc env d) = d"
    "c \<in> set (cdc env d) \<Longrightarrow> c \<noteq> []" "c \<in> set (cdc env d) \<Longrightarrow> length c \<le> CHUNK_MAX"
    "decode_dir env (encode_dir env x) = Some x" "decode_node env (encode_node env y) = Some y"
    "length e \<le> k \<Longrightarrow> zstd_decompress env k (zstd_compress env l e) = Some e"
  using assms by (auto simp: cas_env_ok_def)

subsection \<open>The chunk reader and the streaming writer\<close>

datatype cas_error =
    NoVariant
  | MissingDigest
  | InvalidDigestLength
  | MissingEntryNode
  | MissingChunk digest
  | MissingRow digest
  | DigestMismatch digest
  | CorruptChunk digest
  | DecodeError
  | NarError nar_error
  | InvalidNarinfo
  | IoError
  | StreamOutOfFuel

text \<open>\<open>write_file_data_to\<close> returns the bytes it wrote.\<close>

record chunk_reader =
  cr_read_file :: "digest \<Rightarrow> cas_error + bytes"
  cr_write_file :: "digest \<Rightarrow> cas_error + bytes"
  cr_load_dir :: "digest \<Rightarrow> cas_error + ca_directory"

definition digest_field :: "digest option \<Rightarrow> cas_error + digest" where
  "digest_field d =
     (case d of None \<Rightarrow> Err MissingDigest
      | Some b \<Rightarrow> (case try_digest b of None \<Rightarrow> Err InvalidDigestLength | Some g \<Rightarrow> Ok g))"

lemma digest_field_Ok [simp]: "length b = 32 \<Longrightarrow> digest_field (Some b) = Ok b"
  by (simp add: digest_field_def try_digest_def)

definition sort_entries :: "(string \<times> 'a) list \<Rightarrow> (string \<times> 'a) list" where
  "sort_entries es = sort_key fst es"

text \<open>The recursion follows digests into the store, so it takes fuel; the entries of one
  directory are written in order, an absent child node contributing nothing.\<close>

fun write_cas_node_streaming :: "nat \<Rightarrow> chunk_reader \<Rightarrow> ca_node \<Rightarrow> cas_error + bytes"
  and write_cas_entries :: "nat \<Rightarrow> chunk_reader \<Rightarrow> (string \<times> ca_node option) list \<Rightarrow> cas_error + bytes"
where
  "write_cas_node_streaming 0 r c = Err StreamOutOfFuel"
| "write_cas_node_streaming (Suc fuel) r c =
     (case node c of
        None \<Rightarrow> Err NoVariant
      | Some (CaFileNode dg sz x) \<Rightarrow>
          bindR (digest_field dg) (\<lambda>d.
          bindR (cr_write_file r d) (\<lambda>content.
            Ok (write_str ''('' @ write_str ''type'' @ write_str ''regular'' @
                (if x then write_str ''executable'' @ write_str '''' else []) @
                write_str ''contents'' @ u64_to_le_bytes sz @ content @
                replicate (pad_len sz) (char_of (0::nat)) @ write_str '')'')))
      | Some (CaDirectoryNode dg sz) \<Rightarrow>
          bindR (digest_field dg) (\<lambda>d.
          bindR (cr_load_dir r d) (\<lambda>dir.
          bindR (write_cas_entries fuel r (sort_entries (dir_entries dir))) (\<lambda>body.
            Ok (write_str ''('' @ write_str ''type'' @ write_str ''directory'' @ body @ write_str '')''))))
      | Some (CaSymlinkNode t) \<Rightarrow>
          Ok (write_str ''('' @ write_str ''type'' @ write_str ''symlink'' @
              write_str ''target'' @ write_str t @ write_str '')''))"
| "write_cas_entries fuel r [] = Ok []"
| "write_cas_entries 0 r (e # es) = Err StreamOutOfFuel"
| "write_cas_entries (Suc fuel) r ((name, child) # es) =
     bindR (case child of None \<Rightarrow> Ok [] | Some c \<Rightarrow> write_cas_node_streaming fuel r c) (\<lambda>w.
     bindR (write_cas_entries fuel r es) (\<lambda>ws.
       Ok (write_str ''entry'' @ write_str ''('' @ write_str ''name'' @ write_str name @
           write_str ''node'' @ w @ write_str '')'' @ ws)))"

definition write_nar_streaming :: "nat \<Rightarrow> chunk_reader \<Rightarrow> ca_node \<Rightarrow> cas_error + bytes" where
  "write_nar_streaming fuel r root =
     bindR (write_cas_node_streaming fuel r root) (\<lambda>w. Ok (write_str ''nix-archive-1'' @ w))"

subsection \<open>Which NAR a root node stands for\<close>

text \<open>\<open>represents r c n\<close>: everything reachable from \<open>c\<close> is present in the reader and spells out
  the tree \<open>n\<close>.  This is the contract between the stores and the writer.\<close>

inductive represents :: "chunk_reader \<Rightarrow> ca_node \<Rightarrow> nar_node \<Rightarrow> bool" for r where
  rep_file: "length d = 32 \<Longrightarrow> cr_write_file r d = Ok content \<Longrightarrow>
     represents r (CaNode (Some (CaFileNode (Some d) (length content) x))) (Regular x content)"
| rep_dir: "length d = 32 \<Longrightarrow> cr_load_dir r d = Ok (CaDirectory ces) \<Longrightarrow>
     list_all2 (\<lambda>ce e. fst ce = fst e \<and> (\<exists>c. snd ce = Some c \<and> represents r c (snd e))) ces es \<Longrightarrow>
     represents r (CaNode (Some (CaDirectoryNode (Some d) k))) (Directory es)"
| rep_symlink: "represents r (CaNode (Some (CaSymlinkNode t))) (Symlink t)"

inductive_cases represents_RegularE: "represents r c (Regular x d)"
inductive_cases represents_DirectoryE: "represents r c (Directory es)"
inductive_cases represents_SymlinkE: "represents r c (Symlink t)"

text \<open>The writer sorts the entries of every directory by name.\<close>

fun sort_nar :: "nar_node \<Rightarrow> nar_node" where
  "sort_nar (Regular x d) = Regular x d"
| "sort_nar (Directory es) = Directory (sort_entries (map (\<lambda>e. (fst e, sort_nar (snd e))) es))"
| "sort_nar (Symlink t) = Symlink t"

fun nar_sorted :: "nar_node \<Rightarrow> bool" where
  "nar_sorted (Regular x d) = True"
| "nar_sorted (Directory es) = (sorted (map fst es) \<and> (\<forall>e \<in> set es. nar_sorted (snd e)))"
| "nar_sorted (Symlink t) = True"

lemma sort_nar_id: "nar_sorted n \<Longrightarrow> sort_nar n = n"
proof (induction n)
  case (Directory es)
  have "map (\<lambda>e. (fst e, sort_nar (snd e))) es = map (\<lambda>e. e) es"
    using Directory by (intro map_cong) (auto simp: snds.simps)
  then show ?case using Directory.prems by (simp add: sort_entries_def sort_key_id_if_sorted)
qed auto

text \<open>Sorting commutes with a relation that respects the names.\<close>

lemma list_all2_insort_fst:
  assumes "list_all2 (\<lambda>a b. fst a = fst b \<and> P (snd a) (snd b)) xs ys" and "fst x = fst y" and "P (snd x) (snd y)"
  shows "list_all2 (\<lambda>a b. fst a = fst b \<and> P (snd a) (snd b))
    (insort_key fst x xs) (insort_key fst y (ys :: ('a::linorder \<times> 'c) list))"
  using assms by (induction xs ys rule: list_all2_induct) auto

lemma list_all2_sort_fst:
  assumes "list_all2 (\<lambda>a b. fst a = fst b \<and> P (snd a) (snd b)) xs (ys :: ('a::linorder \<times> 'c) list)"
  shows "list_all2 (\<lambda>a b. fst a = fst b \<and> P (snd a) (snd b)) (sort_key fst xs) (sort_key fst ys)"
  using assms by (induction xs ys rule: list_all2_induct) (auto intro: list_all2_insort_fst)

lemma insort_key_map_snd:
  "insort_key fst (fst x, g (snd x)) (map (\<lambda>e. (fst e, g (snd e))) xs) =
   map (\<lambda>e. (fst e, g (snd e))) (insort_key fst (x :: ('a::linorder \<times> 'b)) xs)"
  by (induction xs) auto

lemma sum_list_sort_key: "sum_list (map f (sort_key k xs)) = (sum_list (map f xs) :: nat)"
proof -
  have "sum_list (map f (insort_key k x ys)) = f x + sum_list (map f ys)" for x ys
    by (induction ys) auto
  then show ?thesis by (induction xs) auto
qed

lemma sort_key_map_snd:
  "sort_key fst (map (\<lambda>e. (fst e, g (snd e))) xs) =
   map (\<lambda>e. (fst e, g (snd e))) (sort_key fst (xs :: ('a::linorder \<times> 'b) list))"
  by (induction xs) (simp_all add: insort_key_map_snd)

subsection \<open>The writer spells out the represented tree\<close>

fun nar_fuel :: "nar_node \<Rightarrow> nat" where
  "nar_fuel (Regular x d) = 1"
| "nar_fuel (Directory es) = Suc (sum_list (map (\<lambda>e. Suc (nar_fuel (snd e))) es))"
| "nar_fuel (Symlink t) = 1"

definition spells :: "chunk_reader \<Rightarrow> ca_node \<Rightarrow> nar_node \<Rightarrow> bool" where
  "spells r c n \<longleftrightarrow>
     (\<forall>fuel \<ge> nar_fuel n. write_cas_node_streaming fuel r c = Ok (write_nar_obj (sort_nar n)))"

lemma write_cas_entries_spells:
  assumes "list_all2 (\<lambda>ce e. fst ce = fst e \<and> (\<exists>c. snd ce = Some c \<and> spells r c (snd e))) ces es"
    and "sum_list (map (\<lambda>e. Suc (nar_fuel (snd e))) es) \<le> fuel"
  shows "write_cas_entries fuel r ces =
    Ok (concat (map write_entry (map (\<lambda>e. (fst e, sort_nar (snd e))) es)))"
  using assms
proof (induction ces es arbitrary: fuel rule: list_all2_induct)
  case Nil
  then show ?case by simp
next
  case (Cons ce ces e es)
  then obtain f c where f: "fuel = Suc f" and c: "ce = (fst e, Some c)" "spells r c (snd e)"
    by (cases fuel) (auto simp: prod_eq_iff)
  have "write_cas_node_streaming f r c = Ok (write_nar_obj (sort_nar (snd e)))"
    using c(2) Cons.prems f by (auto simp: spells_def)
  moreover have "write_cas_entries f r ces =
      Ok (concat (map write_entry (map (\<lambda>e. (fst e, sort_nar (snd e))) es)))"
    using Cons.prems f by (intro Cons.IH) auto
  ultimately show ?case by (simp add: f c(1) write_entry_def[of "(fst e, sort_nar (snd e))"])
qed

lemma represents_spells: "represents r c n \<Longrightarrow> spells r c n"
proof (induction rule: represents.induct)
  case (rep_file d content x)
  show ?case unfolding spells_def
  proof (intro allI impI)
    fix fuel assume "nar_fuel (Regular x content) \<le> fuel"
    then obtain f where "fuel = Suc f" by (cases fuel) auto
    then show "write_cas_node_streaming fuel r (CaNode (Some (CaFileNode (Some d) (length content) x))) =
        Ok (write_nar_obj (sort_nar (Regular x content)))"
      using rep_file by (simp add: write_bytes_def)
  qed
next
  case (rep_dir d ces es k)
  show ?case unfolding spells_def
  proof (intro allI impI)
    fix fuel assume "nar_fuel (Directory es) \<le> fuel"
    then obtain f where f: "fuel = Suc f" "sum_list (map (\<lambda>e. Suc (nar_fuel (snd e))) es) \<le> f"
      by (cases fuel) auto
    have "list_all2 (\<lambda>ce e. fst ce = fst e \<and> (\<exists>c. snd ce = Some c \<and> spells r c (snd e))) ces es"
      using rep_dir(3) by (rule list_all2_mono) auto
    then have "list_all2 (\<lambda>ce e. fst ce = fst e \<and> (\<exists>c. snd ce = Some c \<and> spells r c (snd e)))
        (sort_entries ces) (sort_entries es)"
      unfolding sort_entries_def by (rule list_all2_sort_fst[where P = "\<lambda>x y. \<exists>c. x = Some c \<and> spells r c y"])
    moreover have "sum_list (map (\<lambda>e. Suc (nar_fuel (snd e))) (sort_entries es)) \<le> f"
      using f(2) by (simp add: sort_entries_def sum_list_sort_key)
    ultimately have "write_cas_entries f r (sort_entries ces) =
        Ok (concat (map write_entry (map (\<lambda>e. (fst e, sort_nar (snd e))) (sort_entries es))))"
      by (rule write_cas_entries_spells)
    then show "write_cas_node_streaming fuel r (CaNode (Some (CaDirectoryNode (Some d) k))) =
        Ok (write_nar_obj (sort_nar (Directory es)))"
      using rep_dir(1,2) unfolding sort_nar.simps write_nar_obj_Directory
      by (simp add: f(1) sort_entries_def sort_key_map_snd)
  qed
next
  case (rep_symlink t)
  show ?case unfolding spells_def
  proof (intro allI impI)
    fix fuel assume "nar_fuel (Symlink t) \<le> fuel"
    then obtain f where "fuel = Suc f" by (cases fuel) auto
    then show "write_cas_node_streaming fuel r (CaNode (Some (CaSymlinkNode t))) =
        Ok (write_nar_obj (sort_nar (Symlink t)))" by simp
  qed
qed

lemma represents_streaming:
  assumes "represents r c n" and "nar_fuel n \<le> fuel"
  shows "write_nar_streaming fuel r c = Ok (write_nar (sort_nar n))"
  using represents_spells[OF assms(1)] assms(2)
  by (auto simp: spells_def write_nar_streaming_def write_nar_def)

subsection \<open>The files a node refers to\<close>

text \<open>\<open>represents\<close> depends on the reader only through the files and directories reached.\<close>

inductive reaches_file :: "chunk_reader \<Rightarrow> ca_node \<Rightarrow> digest \<Rightarrow> bool" for r where
  rf_file: "reaches_file r (CaNode (Some (CaFileNode (Some d) k x))) d"
| rf_dir: "length d = 32 \<Longrightarrow> cr_load_dir r d = Ok (CaDirectory ces) \<Longrightarrow> (name, Some c) \<in> set ces \<Longrightarrow>
     reaches_file r c f \<Longrightarrow> reaches_file r (CaNode (Some (CaDirectoryNode (Some d) k))) f"

lemma represents_transfer:
  assumes "represents r c n"
    and dirs: "\<And>d x. cr_load_dir r d = Ok x \<Longrightarrow> cr_load_dir r' d = Ok x"
    and files: "\<forall>f x. reaches_file r c f \<longrightarrow> cr_write_file r f = Ok x \<longrightarrow> cr_write_file r' f = Ok x"
  shows "represents r' c n"
  using assms(1,3)
proof (induction rule: represents.induct)
  case (rep_file d content x)
  then show ?case by (auto intro!: represents.rep_file rf_file)
next
  case (rep_dir d ces es k)
  have "list_all2 (\<lambda>ce e. fst ce = fst e \<and> (\<exists>c. snd ce = Some c \<and> represents r' c (snd e))) ces es"
  proof (rule list.rel_mono_strong[OF rep_dir(3)], elim conjE exE)
    fix ce e c assume "ce \<in> set ces" "fst ce = fst e" "snd ce = Some c"
      and IH: "(\<forall>f x. reaches_file r c f \<longrightarrow> cr_write_file r f = Ok x \<longrightarrow> cr_write_file r' f = Ok x)
         \<longrightarrow> represents r' c (snd e)"
    then have "(fst ce, Some c) \<in> set ces" by (metis prod.collapse)
    then have "reaches_file r (CaNode (Some (CaDirectoryNode (Some d) k))) f"
      if "reaches_file r c f" for f
      using rep_dir(1,2) that by (blast intro: rf_dir)
    with IH rep_dir.prems \<open>fst ce = fst e\<close> \<open>snd ce = Some c\<close>
    show "fst ce = fst e \<and> (\<exists>c. snd ce = Some c \<and> represents r' c (snd e))" by auto
  qed
  then show ?case using rep_dir(1,2) dirs by (auto intro!: represents.rep_dir)
next
  case (rep_symlink t)
  show ?case by (rule represents.rep_symlink)
qed

end
