(* ===== verification/Samples.thy ===== *)
theory Samples
  imports CaTree
begin

text \<open>
  A concrete instance of the third-party functions, small enough to compute with: the witnesses of
  the properties about the stores run on it.  It meets \<open>cas_env_ok\<close>, so the hypotheses on the
  parameters can hold together.
\<close>

text \<open>The digest of the sample keeps 31 bytes and the length: no collision among short blobs.\<close>

definition sample_blake3 :: "bytes \<Rightarrow> digest" where
  "sample_blake3 b = take 31 (b @ replicate 31 (char_of (0::nat))) @ [char_of (length b)]"

function slices :: "nat \<Rightarrow> bytes \<Rightarrow> bytes list" where
  "slices k xs = (if xs = [] \<or> k = 0 then [] else take k xs # slices k (drop k xs))"
  by auto
termination by (relation "measure (\<lambda>(k, xs). length xs)") auto

declare slices.simps [simp del]

lemma slices_pieces: "0 < k \<Longrightarrow> concat (slices k xs) = xs \<and> (\<forall>c \<in> set (slices k xs). c \<noteq> [] \<and> length c \<le> k)"
proof (induction k xs rule: slices.induct)
  case (1 k xs)
  then show ?case by (cases "xs = []") (simp_all add: slices.simps[of k xs] slices.simps[of k "[]"])
qed

definition sample_cdc :: "bytes \<Rightarrow> bytes list" where
  "sample_cdc d = slices (if length d < 1024 then 4 else 2048) d"

definition sample_dir :: ca_directory where
  "sample_dir =
     CaDirectory [(''bin'', Some (CaNode (Some (CaFileNode (Some (sample_blake3 ''hello'')) 5 True))))]"

definition sample_nar :: nar_node where
  "sample_nar = Directory [(''bin'', Regular True ''hello'')]"

definition sample_encode_dir :: "ca_directory \<Rightarrow> bytes" where
  "sample_encode_dir x =
     (if x = sample_dir then ''D'' else CHR ''E'' # replicate (to_nat x) (CHR ''x''))"

definition sample_decode_dir :: "bytes \<Rightarrow> ca_directory option" where
  "sample_decode_dir b = (if b = ''D'' then Some sample_dir else Some (from_nat (length b - 1)))"

text \<open>The sample codec shortens runs of one letter.\<close>

definition sample_compress :: "int \<Rightarrow> bytes \<Rightarrow> bytes" where
  "sample_compress l d =
     (if d = replicate (length d) (CHR ''a'') \<and> length d < 2 ^ 64
      then CHR ''R'' # u64_to_le_bytes (length d) else CHR ''L'' # d)"

definition sample_decompress :: "nat \<Rightarrow> bytes \<Rightarrow> bytes option" where
  "sample_decompress k b =
     (case b of [] \<Rightarrow> None
      | x # bs \<Rightarrow>
          let d = (if x = CHR ''R'' then replicate (from_le bs) (CHR ''a'') else bs)
          in if length d \<le> k then Some d else None)"

definition sample_env :: cas_env where
  "sample_env = \<lparr>blake3 = sample_blake3, cdc = sample_cdc,
     encode_dir = sample_encode_dir, decode_dir = sample_decode_dir,
     encode_node = (\<lambda>x. replicate (to_nat x) (CHR ''n'')), decode_node = (\<lambda>b. Some (from_nat (length b))),
     zstd_compress = sample_compress, zstd_decompress = sample_decompress,
     sha256_hex = (\<lambda>d. show_nat (length d))\<rparr>"

lemma sample_codec: "length d \<le> k \<Longrightarrow> sample_decompress k (sample_compress l d) = Some d"
  using from_le_u64[of "length d"] by (auto simp: sample_decompress_def sample_compress_def Let_def)

lemma sample_env_ok: "cas_env_ok sample_env"
proof -
  have "concat (sample_cdc d) = d \<and> (\<forall>c \<in> set (sample_cdc d). c \<noteq> [] \<and> length c \<le> CHUNK_MAX)" for d
    using slices_pieces[of 4 d] slices_pieces[of 2048 d] by (force simp: sample_cdc_def CHUNK_MAX_def)
  then show ?thesis
    by (auto simp: cas_env_ok_def sample_env_def sample_blake3_def sample_codec
        sample_encode_dir_def sample_decode_dir_def)
qed

lemma sample_env_simps [simp]:
  "blake3 sample_env = sample_blake3" "cdc sample_env = sample_cdc"
  "encode_dir sample_env = sample_encode_dir" "decode_dir sample_env = sample_decode_dir"
  "zstd_compress sample_env = sample_compress" "zstd_decompress sample_env = sample_decompress"
  by (simp_all add: sample_env_def)

end
