(* ===== verification/Decompose.thy ===== *)
theory Decompose
  imports Samples
begin

text \<open>
  Decomposition of a NAR tree into chunks, directories and file mappings, as the client does it
  before a push: \<open>crates/ekapkgs-nix/src/decompose.rs\<close>.  \<open>root_of\<close> is the specification of the
  root node; the server's ingest computes the same one (theory \<open>Castore\<close>).
\<close>

subsection \<open>The root node a tree must get\<close>

fun root_of :: "cas_env \<Rightarrow> nar_node \<Rightarrow> ca_node"
  and entries_of :: "cas_env \<Rightarrow> (string \<times> nar_node) list \<Rightarrow> (string \<times> ca_node option) list" where
  "root_of env (Regular x d) = CaNode (Some (CaFileNode (Some (blake3 env d)) (length d) x))"
| "root_of env (Directory es) =
     CaNode (Some (CaDirectoryNode
       (Some (blake3 env (encode_dir env (CaDirectory (entries_of env es))))) (length es)))"
| "root_of env (Symlink t) = CaNode (Some (CaSymlinkNode t))"
| "entries_of env [] = []"
| "entries_of env ((name, n) # es) = (name, Some (root_of env n)) # entries_of env es"

fun files_of :: "nar_node \<Rightarrow> bytes list" and files_of_entries :: "(string \<times> nar_node) list \<Rightarrow> bytes list" where
  "files_of (Regular x d) = [d]"
| "files_of (Directory es) = files_of_entries es"
| "files_of (Symlink t) = []"
| "files_of_entries [] = []"
| "files_of_entries ((name, n) # es) = files_of n @ files_of_entries es"

fun dirs_of :: "cas_env \<Rightarrow> nar_node \<Rightarrow> ca_directory list"
  and dirs_of_entries :: "cas_env \<Rightarrow> (string \<times> nar_node) list \<Rightarrow> ca_directory list" where
  "dirs_of env (Regular x d) = []"
| "dirs_of env (Directory es) = dirs_of_entries env es @ [CaDirectory (entries_of env es)]"
| "dirs_of env (Symlink t) = []"
| "dirs_of_entries env [] = []"
| "dirs_of_entries env ((name, n) # es) = dirs_of env n @ dirs_of_entries env es"

lemma represents_root_of:
  assumes "cas_env_ok env"
  shows "\<forall>d \<in> set (files_of n). cr_write_file r (blake3 env d) = Ok d \<Longrightarrow>
     \<forall>x \<in> set (dirs_of env n). cr_load_dir r (blake3 env (encode_dir env x)) = Ok x \<Longrightarrow>
     represents r (root_of env n) n"
   "\<forall>d \<in> set (files_of_entries es). cr_write_file r (blake3 env d) = Ok d \<Longrightarrow>
     \<forall>x \<in> set (dirs_of_entries env es). cr_load_dir r (blake3 env (encode_dir env x)) = Ok x \<Longrightarrow>
     list_all2 (\<lambda>ce e. fst ce = fst e \<and> (\<exists>c. snd ce = Some c \<and> represents r c (snd e)))
       (entries_of env es) es"
  using assms
proof (induction env n and env es rule: root_of_entries_of.induct)
  case (1 env x d)
  then show ?case using represents.rep_file[of "blake3 env d" r d x] by (simp add: cas_env_okD(1))
next
  case (2 env es)
  then show ?case using represents.rep_dir[of "blake3 env (encode_dir env (CaDirectory (entries_of env es)))"]
    by (simp add: cas_env_okD(1))
qed (auto intro: represents.rep_symlink)

text \<open>The blobs whose digests an ingest takes: files, chunks, encoded directories.\<close>

definition blobs_of :: "cas_env \<Rightarrow> nar_node \<Rightarrow> bytes set" where
  "blobs_of env n = set (files_of n) \<union> (\<Union>d \<in> set (files_of n). set (cdc env d))
     \<union> encode_dir env ` set (dirs_of env n)"

subsection \<open>The client's decomposition\<close>

record decompose_state =
  ds_chunks :: "(digest \<times> bytes) list"
  ds_chunk_seen :: "digest set"
  ds_directories :: "(digest \<times> ca_directory) list"
  ds_file_chunk_mappings :: "file_chunk_mapping list"

definition decompose_init :: decompose_state where
  "decompose_init = \<lparr>ds_chunks = [], ds_chunk_seen = {}, ds_directories = [], ds_file_chunk_mappings = []\<rparr>"

text \<open>One turn of the loop over the chunks of a file: a chunk not seen before is pushed.\<close>

definition push_chunk :: "cas_env \<Rightarrow> bytes \<Rightarrow> decompose_state \<Rightarrow> decompose_state" where
  "push_chunk env c st =
     (let dg = blake3 env c in
      if dg \<in> ds_chunk_seen st then st
      else st\<lparr>ds_chunk_seen := insert dg (ds_chunk_seen st), ds_chunks := ds_chunks st @ [(dg, c)]\<rparr>)"

fun decompose_node :: "cas_env \<Rightarrow> nar_node \<Rightarrow> decompose_state \<Rightarrow> ca_node \<times> decompose_state"
  and decompose_entries ::
    "cas_env \<Rightarrow> (string \<times> nar_node) list \<Rightarrow> decompose_state
     \<Rightarrow> (string \<times> ca_node option) list \<times> decompose_state" where
  "decompose_node env (Regular x d) st =
     (let pieces = cdc env d;
          st = fold (push_chunk env) pieces st;
          chunk_metas = map (\<lambda>c. \<lparr>cm_digest = Some (blake3 env c), cm_size = length c\<rparr>) pieces;
          total_size = sum_list (map length pieces);
          file_digest = blake3 env (concat pieces);
          st = (if chunk_metas \<noteq> []
                then st\<lparr>ds_file_chunk_mappings := ds_file_chunk_mappings st @
                       [\<lparr>fm_file_digest = Some file_digest, fm_chunks = chunk_metas\<rparr>]\<rparr>
                else st)
      in (CaNode (Some (CaFileNode (Some file_digest) total_size x)), st))"
| "decompose_node env (Directory es) st =
     (let (ca_entries, st) = decompose_entries env es st;
          ca_dir = CaDirectory ca_entries;
          dir_digest = blake3 env (encode_dir env ca_dir)
      in (CaNode (Some (CaDirectoryNode (Some dir_digest) (length ca_entries))),
          st\<lparr>ds_directories := ds_directories st @ [(dir_digest, ca_dir)]\<rparr>))"
| "decompose_node env (Symlink t) st = (CaNode (Some (CaSymlinkNode t)), st)"
| "decompose_entries env [] st = ([], st)"
| "decompose_entries env ((name, n) # es) st =
     (let (child, st) = decompose_node env n st;
          (rest, st) = decompose_entries env es st
      in ((name, Some child) # rest, st))"

record decompose_result =
  dr_root_node :: ca_node
  dr_chunks :: "(digest \<times> bytes) list"
  dr_directories :: "(digest \<times> ca_directory) list"
  dr_file_chunk_mappings :: "file_chunk_mapping list"

definition decompose_nar :: "cas_env \<Rightarrow> nar_node \<Rightarrow> decompose_result" where
  "decompose_nar env n =
     (let (root, st) = decompose_node env n decompose_init
      in \<lparr>dr_root_node = root, dr_chunks = ds_chunks st, dr_directories = ds_directories st,
          dr_file_chunk_mappings = ds_file_chunk_mappings st\<rparr>)"

subsection \<open>What the decomposition leaves behind\<close>

definition metas_of :: "cas_env \<Rightarrow> bytes \<Rightarrow> chunk_meta list" where
  "metas_of env d = map (\<lambda>c. \<lparr>cm_digest = Some (blake3 env c), cm_size = length c\<rparr>) (cdc env d)"

definition mapping_of :: "cas_env \<Rightarrow> bytes \<Rightarrow> file_chunk_mapping" where
  "mapping_of env d = \<lparr>fm_file_digest = Some (blake3 env d), fm_chunks = metas_of env d\<rparr>"

lemma length_concat_cdc: "cas_env_ok env \<Longrightarrow> sum_list (map length (cdc env d)) = length d"
  by (metis length_concat cas_env_okD(2))

lemma length_entries_of [simp]: "length (entries_of env es) = length es"
  by (induction es) auto

lemma fst_decompose:
  assumes "cas_env_ok env"
  shows "fst (decompose_node env n st) = root_of env n"
    and "fst (decompose_entries env es st) = entries_of env es"
  using assms
  by (induction env n st and env es st rule: decompose_node_decompose_entries.induct)
    (auto simp: Let_def cas_env_okD(2) length_concat_cdc split: prod.splits)

definition push_file :: "cas_env \<Rightarrow> bytes \<Rightarrow> decompose_state \<Rightarrow> decompose_state" where
  "push_file env d st =
     (let st = fold (push_chunk env) (cdc env d) st
      in if cdc env d = [] then st
         else st\<lparr>ds_file_chunk_mappings := ds_file_chunk_mappings st @ [mapping_of env d]\<rparr>)"

definition push_dir :: "cas_env \<Rightarrow> ca_directory \<Rightarrow> decompose_state \<Rightarrow> decompose_state" where
  "push_dir env x st =
     st\<lparr>ds_directories := ds_directories st @ [(blake3 env (encode_dir env x), x)]\<rparr>"

lemma decompose_Regular_state:
  "cas_env_ok env \<Longrightarrow> snd (decompose_node env (Regular x d) st) = push_file env d st"
  by (simp add: push_file_def Let_def mapping_of_def metas_of_def cas_env_okD(2))

lemma decompose_Directory_state:
  "cas_env_ok env \<Longrightarrow> snd (decompose_node env (Directory es) st) =
     push_dir env (CaDirectory (entries_of env es)) (snd (decompose_entries env es st))"
  using fst_decompose(2)[of env es st]
  by (auto simp: push_dir_def Let_def split: prod.splits)

lemma snd_decompose_Cons:
  "snd (decompose_entries env ((name, n) # es) st) =
     snd (decompose_entries env es (snd (decompose_node env n st)))"
  by (simp split: prod.splits)

text \<open>Invariant of the state, relative to a set of blobs without digest collisions.\<close>

definition ds_inv :: "cas_env \<Rightarrow> decompose_state \<Rightarrow> bool" where
  "ds_inv env st \<longleftrightarrow>
     (\<forall>(g, c) \<in> set (ds_chunks st). g = blake3 env c) \<and>
     ds_chunk_seen st = fst ` set (ds_chunks st) \<and> distinct (map fst (ds_chunks st)) \<and>
     (\<forall>(g, x) \<in> set (ds_directories st). g = blake3 env (encode_dir env x)) \<and>
     (\<forall>m \<in> set (ds_file_chunk_mappings st). \<exists>d. m = mapping_of env d \<and> cdc env d \<noteq> [] \<and>
        blake3 env ` set (cdc env d) \<subseteq> ds_chunk_seen st)"

lemma push_chunk_inv:
  assumes "ds_inv env st"
  shows "ds_inv env (push_chunk env c st)"
proof (cases "blake3 env c \<in> ds_chunk_seen st")
  case True
  then show ?thesis using assms by (simp add: push_chunk_def)
next
  case False
  then have e: "push_chunk env c st = st\<lparr>ds_chunk_seen := insert (blake3 env c) (ds_chunk_seen st),
      ds_chunks := ds_chunks st @ [(blake3 env c, c)]\<rparr>" by (simp add: push_chunk_def Let_def)
  have "\<exists>d. m = mapping_of env d \<and> cdc env d \<noteq> [] \<and>
      blake3 env ` set (cdc env d) \<subseteq> insert (blake3 env c) (ds_chunk_seen st)"
    if "m \<in> set (ds_file_chunk_mappings st)" for m
    using assms that unfolding ds_inv_def by (meson subset_insertI2)
  then show ?thesis using assms False unfolding e by (auto simp: ds_inv_def)
qed

lemma push_chunk_fields:
  "ds_chunk_seen (push_chunk env c st) = insert (blake3 env c) (ds_chunk_seen st)"
  "ds_file_chunk_mappings (push_chunk env c st) = ds_file_chunk_mappings st"
  "ds_directories (push_chunk env c st) = ds_directories st"
  "snd ` set (ds_chunks (push_chunk env c st)) \<subseteq> insert c (snd ` set (ds_chunks st))"
  by (auto simp: push_chunk_def Let_def)

lemma fold_push_chunk:
  "ds_inv env st \<Longrightarrow> ds_inv env (fold (push_chunk env) cs st)
     \<and> ds_chunk_seen (fold (push_chunk env) cs st) = ds_chunk_seen st \<union> blake3 env ` set cs
     \<and> ds_file_chunk_mappings (fold (push_chunk env) cs st) = ds_file_chunk_mappings st
     \<and> ds_directories (fold (push_chunk env) cs st) = ds_directories st
     \<and> snd ` set (ds_chunks (fold (push_chunk env) cs st)) \<subseteq> snd ` set (ds_chunks st) \<union> set cs"
proof (induction cs arbitrary: st)
  case (Cons c cs)
  note IH = Cons.IH[OF push_chunk_inv[OF Cons.prems, of c]]
  note f = push_chunk_fields[of env c st]
  have "snd ` set (ds_chunks (fold (push_chunk env) cs (push_chunk env c st)))
      \<subseteq> snd ` set (ds_chunks st) \<union> set (c # cs)"
    using IH[THEN conjunct2, THEN conjunct2, THEN conjunct2, THEN conjunct2] f(4)
    by (rule_tac subset_trans) (assumption, auto)
  then show ?case using IH f(1-3) by simp
qed simp

text \<open>How much a state holds; every step only adds.\<close>

definition has_file :: "cas_env \<Rightarrow> decompose_state \<Rightarrow> bytes \<Rightarrow> bool" where
  "has_file env st d \<longleftrightarrow> cdc env d = [] \<or> mapping_of env d \<in> set (ds_file_chunk_mappings st)"

definition has_dir :: "cas_env \<Rightarrow> decompose_state \<Rightarrow> ca_directory \<Rightarrow> bool" where
  "has_dir env st x \<longleftrightarrow> (blake3 env (encode_dir env x), x) \<in> set (ds_directories st)"

definition grows :: "cas_env \<Rightarrow> decompose_state \<Rightarrow> decompose_state \<Rightarrow> bytes set \<Rightarrow> ca_directory set \<Rightarrow> bool" where
  "grows env st st' D X \<longleftrightarrow> ds_inv env st' \<and>
     (\<forall>d. has_file env st d \<or> d \<in> D \<longrightarrow> has_file env st' d) \<and>
     (\<forall>x. has_dir env st x \<or> x \<in> X \<longrightarrow> has_dir env st' x) \<and>
     snd ` set (ds_directories st') = snd ` set (ds_directories st) \<union> X \<and>
     snd ` set (ds_chunks st') \<subseteq> snd ` set (ds_chunks st) \<union> (\<Union>d \<in> D. set (cdc env d)) \<and>
     set (ds_file_chunk_mappings st') \<subseteq> set (ds_file_chunk_mappings st) \<union> mapping_of env ` D"

lemma push_file_grows: "ds_inv env st \<Longrightarrow> grows env st (push_file env d st) {d} {}"
proof -
  assume inv: "ds_inv env st"
  let ?st = "fold (push_chunk env) (cdc env d) st"
  note f = fold_push_chunk[OF inv, of "cdc env d"]
  show ?thesis
  proof (cases "cdc env d = []")
    case True
    then show ?thesis using inv by (auto simp: grows_def push_file_def has_file_def has_dir_def)
  next
    case False
    then have e: "push_file env d st =
        ?st\<lparr>ds_file_chunk_mappings := ds_file_chunk_mappings st @ [mapping_of env d]\<rparr>"
      using f by (simp add: push_file_def Let_def)
    have "ds_inv env (push_file env d st)"
      using f False unfolding e ds_inv_def by (auto 0 3)
    then show ?thesis using f by (simp add: grows_def e has_file_def has_dir_def)
  qed
qed

lemma push_dir_grows: "ds_inv env st \<Longrightarrow> grows env st (push_dir env x st) {} {x}"
  unfolding grows_def push_dir_def ds_inv_def has_file_def has_dir_def
  by (elim conjE, intro conjI) simp_all

lemma chain_subset: "a \<subseteq> b \<union> X \<Longrightarrow> c \<subseteq> a \<union> Y \<Longrightarrow> c \<subseteq> b \<union> (X \<union> Y)"
  by blast

lemma grows_trans:
  assumes "grows env s t D X" and "grows env t u E Y"
  shows "grows env s u (D \<union> E) (X \<union> Y)"
proof -
  note a = assms[unfolded grows_def]
  have "snd ` set (ds_chunks u) \<subseteq> snd ` set (ds_chunks s) \<union> (\<Union>d \<in> D \<union> E. set (cdc env d))"
    using a unfolding UN_Un by (elim conjE) (rule chain_subset[where a = "snd ` set (ds_chunks t)"])
  moreover have "set (ds_file_chunk_mappings u) \<subseteq> set (ds_file_chunk_mappings s) \<union> mapping_of env ` (D \<union> E)"
    using a unfolding image_Un by (elim conjE) (rule chain_subset[where a = "set (ds_file_chunk_mappings t)"])
  moreover have "ds_inv env u" using a by (elim conjE)
  moreover have "\<forall>d. has_file env s d \<or> d \<in> D \<union> E \<longrightarrow> has_file env u d" using a by simp
  moreover have "\<forall>x. has_dir env s x \<or> x \<in> X \<union> Y \<longrightarrow> has_dir env u x" using a by simp
  moreover have "snd ` set (ds_directories u) = snd ` set (ds_directories s) \<union> (X \<union> Y)"
    using a by (simp add: Un_assoc)
  ultimately show ?thesis unfolding grows_def by (intro conjI)
qed

lemma grows_refl: "ds_inv env st \<Longrightarrow> grows env st st {} {}"
  by (simp add: grows_def)

lemma grows_inv: "grows env st st' D X \<Longrightarrow> ds_inv env st'"
  by (simp add: grows_def)

lemma decompose_grows:
  assumes "cas_env_ok env"
  shows "ds_inv env st \<Longrightarrow> grows env st (snd (decompose_node env n st)) (set (files_of n)) (set (dirs_of env n))"
    and "ds_inv env st \<Longrightarrow>
      grows env st (snd (decompose_entries env es st)) (set (files_of_entries es)) (set (dirs_of_entries env es))"
  using assms
proof (induction env n and env es arbitrary: st and st rule: root_of_entries_of.induct)
  case (1 env x d)
  then show ?case using push_file_grows[of env st d] by (simp add: decompose_Regular_state del: decompose_node.simps)
next
  case (2 env es)
  from "2.IH"[OF "2.prems"] have g: "grows env st (snd (decompose_entries env es st))
      (set (files_of_entries es)) (set (dirs_of_entries env es))" .
  from grows_trans[OF g push_dir_grows[OF grows_inv[OF g], of "CaDirectory (entries_of env es)"]]
  show ?case using "2.prems"(2) by (simp add: decompose_Directory_state Un_commute del: decompose_node.simps)
next
  case (5 env name n es)
  from "5.IH"(1)[OF "5.prems"] have g: "grows env st (snd (decompose_node env n st))
      (set (files_of n)) (set (dirs_of env n))" .
  from grows_trans[OF g "5.IH"(2)[OF grows_inv[OF g] "5.prems"(2)]]
  show ?case by (simp add: snd_decompose_Cons del: decompose_entries.simps)
qed (auto intro: grows_refl)

subsection \<open>What a receiver of the decomposition can rebuild\<close>

text \<open>A receiver looks a file up among the mappings and concatenates its chunks; a file with no
  mapping has no chunk rows and reads as empty, as in \<open>read_file_data\<close> of both stores.\<close>

fun chunks_data :: "(digest \<times> bytes) list \<Rightarrow> chunk_meta list \<Rightarrow> cas_error + bytes" where
  "chunks_data cs [] = Ok []"
| "chunks_data cs (m # ms) =
     bindR (digest_field (cm_digest m)) (\<lambda>g.
     bindR (case map_of cs g of None \<Rightarrow> Err (MissingChunk g) | Some d \<Rightarrow> Ok d) (\<lambda>d.
     bindR (chunks_data cs ms) (\<lambda>ds. Ok (d @ ds))))"

definition result_reader :: "decompose_result \<Rightarrow> chunk_reader" where
  "result_reader res =
     (let rd = (\<lambda>f. case find (\<lambda>m. fm_file_digest m = Some f) (dr_file_chunk_mappings res) of
                    None \<Rightarrow> Ok [] | Some m \<Rightarrow> chunks_data (dr_chunks res) (fm_chunks m))
      in \<lparr>cr_read_file = rd, cr_write_file = rd,
          cr_load_dir = (\<lambda>g. case map_of (dr_directories res) g of
             None \<Rightarrow> Err (MissingRow g) | Some x \<Rightarrow> Ok x)\<rparr>)"

lemma digests_metas: "(\<lambda>m. the (cm_digest m)) ` set (metas_of env d) = blake3 env ` set (cdc env d)"
  by (force simp: metas_of_def)

lemma chunks_data_metas:
  assumes "\<forall>c \<in> set cs. map_of t (blake3 env c) = Some c" and "cas_env_ok env"
  shows "chunks_data t (map (\<lambda>c. \<lparr>cm_digest = Some (blake3 env c), cm_size = length c\<rparr>) cs) =
    Ok (concat cs)"
  using assms by (induction cs) (auto simp: cas_env_okD(1))

lemma inj_on_map_of:
  assumes "\<forall>(g, c) \<in> set t. g = f c" and "inj_on f (snd ` set t)" and "c \<in> snd ` set t"
  shows "map_of t (f c) = Some c"
proof -
  obtain g where "(g, c) \<in> set t" using assms(3) by auto
  then have m: "(f c, c) \<in> set t" using assms(1) by auto
  have "map_of t (f c) \<noteq> None" using m by (auto simp: map_of_eq_None_iff rev_image_eqI)
  then obtain c' where c': "map_of t (f c) = Some c'" by auto
  then have in': "(f c, c') \<in> set t" by (rule map_of_SomeD)
  have "f c = f c'" using assms(1) in' by blast
  moreover have "c' \<in> snd ` set t" using in' by force
  ultimately have "c = c'" using assms(2,3) by (blast dest: inj_onD)
  then show ?thesis using c' by simp
qed

lemma find_unique:
  assumes "x \<in> set xs" and "P x" and "\<And>y. y \<in> set xs \<Longrightarrow> P y \<Longrightarrow> y = x"
  shows "find P xs = Some x"
proof (cases "find P xs")
  case None
  then show ?thesis using assms(1,2) by (auto simp: find_None_iff)
next
  case (Some y)
  then have "y \<in> set xs" "P y" by (auto simp: find_Some_iff)
  then show ?thesis using Some assms(3) by simp
qed

lemma decompose_nar_fields:
  assumes "cas_env_ok env"
  shows "dr_root_node (decompose_nar env n) = root_of env n"
    and "grows env decompose_init (snd (decompose_node env n decompose_init)) (set (files_of n)) (set (dirs_of env n))"
    and "dr_chunks (decompose_nar env n) = ds_chunks (snd (decompose_node env n decompose_init))"
    and "dr_directories (decompose_nar env n) = ds_directories (snd (decompose_node env n decompose_init))"
    and "dr_file_chunk_mappings (decompose_nar env n) =
      ds_file_chunk_mappings (snd (decompose_node env n decompose_init))"
  using fst_decompose(1)[OF assms, of n decompose_init] decompose_grows(1)[OF assms, of decompose_init n]
  by (auto simp: decompose_nar_def decompose_init_def ds_inv_def split: prod.splits)

lemma decompose_facts:
  fixes env n defines "st \<equiv> snd (decompose_node env n decompose_init)"
  assumes "cas_env_ok env"
  shows "\<forall>(g, c) \<in> set (ds_chunks st). g = blake3 env c"
    and "snd ` set (ds_chunks st) \<subseteq> (\<Union>d \<in> set (files_of n). set (cdc env d))"
    and "set (ds_file_chunk_mappings st) \<subseteq> mapping_of env ` set (files_of n)"
    and "d \<in> set (files_of n) \<Longrightarrow> cdc env d \<noteq> [] \<Longrightarrow> mapping_of env d \<in> set (ds_file_chunk_mappings st)"
    and "m \<in> set (ds_file_chunk_mappings st) \<Longrightarrow> \<exists>d. m = mapping_of env d \<and> cdc env d \<noteq> [] \<and>
        blake3 env ` set (cdc env d) \<subseteq> fst ` set (ds_chunks st)"
    and "\<forall>(g, x) \<in> set (ds_directories st). g = blake3 env (encode_dir env x)"
    and "snd ` set (ds_directories st) = set (dirs_of env n)"
    and "distinct (map fst (ds_chunks st))"
proof -
  note g = decompose_nar_fields(2)[OF assms(2), of n, folded st_def, unfolded grows_def]
  note dirs = g[THEN conjunct2, THEN conjunct2, THEN conjunct2, THEN conjunct1]
    and chunks = g[THEN conjunct2, THEN conjunct2, THEN conjunct2, THEN conjunct2, THEN conjunct1]
    and maps = g[THEN conjunct2, THEN conjunct2, THEN conjunct2, THEN conjunct2, THEN conjunct2]
    and has = g[THEN conjunct2, THEN conjunct1]
    and inv = g[THEN conjunct1, unfolded ds_inv_def]
  show "\<forall>(g, c) \<in> set (ds_chunks st). g = blake3 env c" using inv by (elim conjE)
  show "snd ` set (ds_chunks st) \<subseteq> (\<Union>d \<in> set (files_of n). set (cdc env d))"
    using chunks by (simp add: decompose_init_def)
  show "set (ds_file_chunk_mappings st) \<subseteq> mapping_of env ` set (files_of n)"
    using maps by (simp add: decompose_init_def)
  show "d \<in> set (files_of n) \<Longrightarrow> cdc env d \<noteq> [] \<Longrightarrow> mapping_of env d \<in> set (ds_file_chunk_mappings st)"
    using has unfolding has_file_def by blast
  show "m \<in> set (ds_file_chunk_mappings st) \<Longrightarrow> \<exists>d. m = mapping_of env d \<and> cdc env d \<noteq> [] \<and>
      blake3 env ` set (cdc env d) \<subseteq> fst ` set (ds_chunks st)" using inv by metis
  show "\<forall>(g, x) \<in> set (ds_directories st). g = blake3 env (encode_dir env x)" using inv by (elim conjE)
  show "snd ` set (ds_directories st) = set (dirs_of env n)" using dirs by (simp add: decompose_init_def)
  show "distinct (map fst (ds_chunks st))" using inv by (elim conjE)
qed

lemma result_reader_file:
  assumes "cas_env_ok env" and inj: "inj_on (blake3 env) (blobs_of env n)" and d: "d \<in> set (files_of n)"
  shows "cr_write_file (result_reader (decompose_nar env n)) (blake3 env d) = Ok d"
proof -
  let ?st = "snd (decompose_node env n decompose_init)"
  let ?found = "find (\<lambda>m. fm_file_digest m = Some (blake3 env d)) (ds_file_chunk_mappings ?st)"
  note fs = decompose_nar_fields[OF assms(1), of n]
  note g = decompose_facts[OF assms(1), where n = n]
  have uniq: "m = mapping_of env d" if m: "m \<in> set (ds_file_chunk_mappings ?st)"
    and f: "fm_file_digest m = Some (blake3 env d)" for m
  proof -
    obtain e where e: "e \<in> set (files_of n)" "m = mapping_of env e" using g(3) m by blast
    then have "e \<in> blobs_of env n" "d \<in> blobs_of env n" "blake3 env e = blake3 env d"
      using f d by (simp_all add: mapping_of_def blobs_of_def)
    then have "e = d" using inj by (blast dest: inj_onD)
    then show ?thesis using e(2) by simp
  qed
  show ?thesis
  proof (cases "cdc env d = []")
    case True
    have "mapping_of env d \<notin> set (ds_file_chunk_mappings ?st)"
    proof
      assume "mapping_of env d \<in> set (ds_file_chunk_mappings ?st)"
      from g(5)[OF this] obtain e where "metas_of env d = metas_of env e" "cdc env e \<noteq> []"
        by (auto simp: mapping_of_def)
      then show False using True by (simp add: metas_of_def)
    qed
    then have "\<not> (\<exists>m. m \<in> set (ds_file_chunk_mappings ?st) \<and> fm_file_digest m = Some (blake3 env d))"
      using uniq by blast
    then have "?found = None" unfolding find_None_iff .
    moreover have "d = []" using True cas_env_okD(2)[OF assms(1), of d] by simp
    ultimately show ?thesis by (simp add: result_reader_def fs(5) Let_def)
  next
    case False
    note m = g(4)[OF d False]
    then have f: "?found = Some (mapping_of env d)"
      by (rule find_unique) (use uniq in \<open>simp_all add: mapping_of_def\<close>)
    obtain d' where d': "metas_of env d = metas_of env d'"
        "blake3 env ` set (cdc env d') \<subseteq> fst ` set (ds_chunks ?st)"
      using g(5)[OF m] by (auto simp: mapping_of_def)
    have seen: "blake3 env ` set (cdc env d) \<subseteq> fst ` set (ds_chunks ?st)"
      using d'(2) unfolding digests_metas[symmetric] d'(1) .
    have sub: "snd ` set (ds_chunks ?st) \<subseteq> blobs_of env n" using g(2) unfolding blobs_of_def by blast
    have "map_of (ds_chunks ?st) (blake3 env c) = Some c" if c: "c \<in> set (cdc env d)" for c
    proof -
      have "blake3 env c \<in> fst ` set (ds_chunks ?st)" using seen c by blast
      then obtain c' where c': "(blake3 env c, c') \<in> set (ds_chunks ?st)" by (auto simp: image_iff)
      then have "blake3 env c = blake3 env c'" using g(1) by blast
      moreover have m': "c' \<in> snd ` set (ds_chunks ?st)" using c' by (rule image_eqI[rotated]) simp
      moreover have "c \<in> blobs_of env n" using c d unfolding blobs_of_def by blast
      ultimately have "c = c'" using inj sub by (blast dest: inj_onD)
      with m' show ?thesis
        using inj_on_map_of[OF g(1) inj_on_subset[OF inj sub]] by simp
    qed
    then have "chunks_data (ds_chunks ?st) (metas_of env d) = Ok (concat (cdc env d))"
      unfolding metas_of_def using assms(1) by (intro chunks_data_metas) simp_all
    then show ?thesis
      using f cas_env_okD(2)[OF assms(1), of d] by (simp add: result_reader_def fs(3,5) mapping_of_def Let_def)
  qed
qed

lemma result_reader_dir:
  assumes "cas_env_ok env" and inj: "inj_on (blake3 env) (blobs_of env n)" and x: "x \<in> set (dirs_of env n)"
  shows "cr_load_dir (result_reader (decompose_nar env n)) (blake3 env (encode_dir env x)) = Ok x"
proof -
  let ?ds = "ds_directories (snd (decompose_node env n decompose_init))"
  note g = decompose_facts[OF assms(1), where n = n]
  have enc: "inj_on (encode_dir env) (set (dirs_of env n))"
    by (rule inj_on_inverseI[where g = "\<lambda>b. the (decode_dir env b)"]) (simp add: cas_env_okD(5)[OF assms(1)])
  have "inj_on (blake3 env) (encode_dir env ` set (dirs_of env n))"
    using inj by (rule inj_on_subset) (simp add: blobs_of_def)
  with enc have "inj_on (blake3 env \<circ> encode_dir env) (snd ` set ?ds)" unfolding g(7) by (rule comp_inj_on)
  moreover have "\<forall>(g, c) \<in> set ?ds. g = (blake3 env \<circ> encode_dir env) c" using g(6) by simp
  ultimately have "map_of ?ds ((blake3 env \<circ> encode_dir env) x) = Some x"
    using x g(7) inj_on_map_of[of ?ds "blake3 env \<circ> encode_dir env" x] by simp
  then show ?thesis by (simp add: result_reader_def decompose_nar_fields(4)[OF assms(1)] Let_def)
qed

text \<open>C6. What \<open>decompose_nar\<close> ships is enough, and no chunk is shipped twice: the chunks have pairwise
  different digests, each is the digest of its data, every piece is a piece of a file of the
  archive, and writing the root node out of the shipped chunks, mappings and directories gives the
  archive back byte for byte (its entries sorted), provided \<open>blake3\<close> has no collision among the
  blobs of this archive.
\<close>

theorem decompose_nar_sound:
  assumes "cas_env_ok env" and "inj_on (blake3 env) (blobs_of env n)" and "nar_fuel n \<le> fuel"
  shows "distinct (map fst (dr_chunks (decompose_nar env n))) \<and>
    (\<forall>(g, c) \<in> set (dr_chunks (decompose_nar env n)).
      g = blake3 env c \<and> (\<exists>d \<in> set (files_of n). c \<in> set (cdc env d))) \<and>
    write_nar_streaming fuel (result_reader (decompose_nar env n)) (dr_root_node (decompose_nar env n)) =
      Ok (write_nar (sort_nar n))"
proof (intro conjI)
  note fs = decompose_nar_fields[OF assms(1), of n]
  note g = decompose_facts[OF assms(1), where n = n]
  show "distinct (map fst (dr_chunks (decompose_nar env n)))" unfolding fs(3) by (rule g(8))
  show "\<forall>(g, c) \<in> set (dr_chunks (decompose_nar env n)).
      g = blake3 env c \<and> (\<exists>d \<in> set (files_of n). c \<in> set (cdc env d))"
    unfolding fs(3)
  proof (intro ballI, clarify)
    fix h c assume hc: "(h, c) \<in> set (ds_chunks (snd (decompose_node env n decompose_init)))"
    then have "h = blake3 env c" using g(1) by blast
    moreover have "c \<in> snd ` set (ds_chunks (snd (decompose_node env n decompose_init)))"
      using hc by (rule image_eqI[rotated]) simp
    then have "c \<in> (\<Union>d \<in> set (files_of n). set (cdc env d))" using g(2) by blast
    ultimately show "h = blake3 env c \<and> (\<exists>d \<in> set (files_of n). c \<in> set (cdc env d))" by blast
  qed
  have "represents (result_reader (decompose_nar env n)) (root_of env n) n"
    using assms(1,2) by (intro represents_root_of) (auto simp: result_reader_file result_reader_dir)
  then show "write_nar_streaming fuel (result_reader (decompose_nar env n))
      (dr_root_node (decompose_nar env n)) = Ok (write_nar (sort_nar n))"
    unfolding fs(1) using assms(3) by (rule represents_streaming)
qed

lemma sample_nar_blobs:
  "blobs_of sample_env sample_nar = {''hello'', ''hell'', ''o'', ''D''}"
  by (auto simp: blobs_of_def sample_nar_def sample_cdc_def slices.simps sample_encode_dir_def sample_dir_def)

lemma sample_nar_inj: "inj_on (blake3 sample_env) (blobs_of sample_env sample_nar)"
  by (simp add: sample_nar_blobs sample_blake3_def)

theorem decompose_nar_sound_witness:
  "write_nar_streaming 5 (result_reader (decompose_nar sample_env sample_nar))
     (dr_root_node (decompose_nar sample_env sample_nar)) = Ok (write_nar (sort_nar sample_nar))
   \<and> length (dr_chunks (decompose_nar sample_env sample_nar)) = 2"
  using decompose_nar_sound[OF sample_env_ok sample_nar_inj, of 5]
  by (simp add: sample_nar_def decompose_nar_def decompose_init_def push_chunk_def sample_cdc_def
      slices.simps sample_blake3_def Let_def)

end
