(* ===== verification/DirCache.thy ===== *)
theory DirCache
  imports CaTree Table
begin

text \<open>
  The bounded LRU cache of directory blobs, \<open>struct DirCache\<close> of
  \<open>crates/ekapkgs-serve/src/storage/castore.rs\<close>: a hash map for the lookup and a queue for the
  eviction order.  The specification is one list of pairs in order of recency; the cache refines
  it, is bounded by its capacity, and keeps an entry until as many other digests were used as it
  has room for.
\<close>

record dir_cache =
  dc_map :: "(digest, ca_directory) table"
  dc_order :: "digest list"
  dc_capacity :: nat

definition DIR_CACHE_CAPACITY :: nat where
  "DIR_CACHE_CAPACITY = 4096"

definition dir_cache_new :: "nat \<Rightarrow> dir_cache" where
  "dir_cache_new capacity = \<lparr>dc_map = [], dc_order = [], dc_capacity = capacity\<rparr>"

definition dir_cache_get :: "digest \<Rightarrow> dir_cache \<Rightarrow> ca_directory option \<times> dir_cache" where
  "dir_cache_get d c =
     (case map_of (dc_map c) d of
        Some x \<Rightarrow> (Some x, c\<lparr>dc_order := filter (\<lambda>e. e \<noteq> d) (dc_order c) @ [d]\<rparr>)
      | None \<Rightarrow> (None, c))"

definition dir_cache_insert :: "digest \<Rightarrow> ca_directory \<Rightarrow> dir_cache \<Rightarrow> dir_cache" where
  "dir_cache_insert d x c =
     (let c = (if map_of (dc_map c) d \<noteq> None
               then c\<lparr>dc_order := filter (\<lambda>e. e \<noteq> d) (dc_order c)\<rparr>
               else if length (dc_map c) \<ge> dc_capacity c
               then (case dc_order c of
                       [] \<Rightarrow> c
                     | evicted # rest \<Rightarrow> c\<lparr>dc_order := rest, dc_map := delete_key evicted (dc_map c)\<rparr>)
               else c)
      in c\<lparr>dc_order := dc_order c @ [d], dc_map := insert_or_replace d x (dc_map c)\<rparr>)"

subsection \<open>Specification: a list in order of recency\<close>

definition lru_get :: "digest \<Rightarrow> (digest, ca_directory) table \<Rightarrow> ca_directory option \<times> (digest, ca_directory) table" where
  "lru_get d xs =
     (case map_of xs d of None \<Rightarrow> (None, xs) | Some x \<Rightarrow> (Some x, delete_key d xs @ [(d, x)]))"

definition lru_insert :: "nat \<Rightarrow> digest \<Rightarrow> ca_directory \<Rightarrow> (digest, ca_directory) table \<Rightarrow> (digest, ca_directory) table" where
  "lru_insert cap d x xs =
     (if map_of xs d \<noteq> None then delete_key d xs
      else if length xs \<ge> cap then tl xs else xs) @ [(d, x)]"

definition dc_wf :: "dir_cache \<Rightarrow> bool" where
  "dc_wf c \<longleftrightarrow> wf_table (dc_map c) \<and> distinct (dc_order c) \<and> set (dc_order c) = fst ` set (dc_map c) \<and>
     0 < dc_capacity c \<and> length (dc_map c) \<le> dc_capacity c"

definition dc_abs :: "dir_cache \<Rightarrow> (digest, ca_directory) table" where
  "dc_abs c = map (\<lambda>d. (d, the (map_of (dc_map c) d))) (dc_order c)"

lemma dc_wf_new: "0 < cap \<Longrightarrow> dc_wf (dir_cache_new cap)"
  by (simp add: dc_wf_def dir_cache_new_def)

lemma dc_wf_length: "dc_wf c \<Longrightarrow> length (dc_order c) = length (dc_map c)"
  unfolding dc_wf_def wf_table_def
  by (metis distinct_card length_map list.set_map)

lemma map_of_map_pair: "map_of (map (\<lambda>d. (d, f d)) ds) d = (if d \<in> set ds then Some (f d) else None)"
  by (induction ds) auto

lemma map_of_dc_abs:
  assumes "dc_wf c"
  shows "map_of (dc_abs c) d = map_of (dc_map c) d"
proof (cases "map_of (dc_map c) d")
  case None
  then have "d \<notin> set (dc_order c)" using assms by (simp add: dc_wf_def map_of_eq_None_iff)
  then show ?thesis using None by (simp add: dc_abs_def map_of_map_pair)
next
  case (Some x)
  then have "d \<in> set (dc_order c)" using assms by (force simp: dc_wf_def dest: map_of_SomeD)
  then show ?thesis using Some by (simp add: dc_abs_def map_of_map_pair)
qed

lemma delete_key_dc_abs:
  "delete_key d (map (\<lambda>d. (d, f d)) ds) = map (\<lambda>d. (d, f d)) (filter (\<lambda>e. e \<noteq> d) ds)"
  by (simp add: delete_key_def filter_map o_def)

lemma dc_order_mem: "dc_wf c \<Longrightarrow> d \<in> set (dc_order c) \<longleftrightarrow> map_of (dc_map c) d \<noteq> None"
  by (simp add: dc_wf_def map_of_eq_None_iff)

lemma dir_cache_get_wf: "dc_wf c \<Longrightarrow> dc_wf (snd (dir_cache_get d c))"
  by (auto simp: dir_cache_get_def dc_wf_def map_of_Some_key split: option.split)

lemma dir_cache_get_abs:
  assumes "dc_wf c"
  shows "fst (dir_cache_get d c) = fst (lru_get d (dc_abs c))"
    and "dc_abs (snd (dir_cache_get d c)) = snd (lru_get d (dc_abs c))"
  unfolding dir_cache_get_def lru_get_def map_of_dc_abs[OF assms]
  by (auto simp: dc_abs_def delete_key_dc_abs split: option.split)

lemma dir_cache_insert_wf_abs:
  assumes "dc_wf c"
  shows "dc_wf (dir_cache_insert d x c) \<and>
    dc_abs (dir_cache_insert d x c) = lru_insert (dc_capacity c) d x (dc_abs c) \<and>
    dc_capacity (dir_cache_insert d x c) = dc_capacity c"
proof -
  note wf = assms[unfolded dc_wf_def]
  note len = dc_wf_length[OF assms]
  consider (old) y where "map_of (dc_map c) d = Some y"
    | (full) "map_of (dc_map c) d = None" "length (dc_map c) \<ge> dc_capacity c"
    | (room) "map_of (dc_map c) d = None" "length (dc_map c) < dc_capacity c"
    by fastforce
  then show ?thesis
  proof cases
    case old
    have "dc_abs (dir_cache_insert d x c) = delete_key d (dc_abs c) @ [(d, x)]"
      using old by (auto simp: dc_abs_def dir_cache_insert_def delete_key_dc_abs table_simps)
    moreover have "map_of (dc_abs c) d \<noteq> None" using old map_of_dc_abs[OF assms] by simp
    moreover have "d \<in> fst ` set (dc_map c)" using old by (force dest: map_of_SomeD)
    ultimately show ?thesis using wf old length_insert_or_replace[of "dc_map c" d x]
      by (auto simp: dc_wf_def lru_insert_def dir_cache_insert_def table_simps)
  next
    case full
    then obtain e rest where o: "dc_order c = e # rest" using wf len by (cases "dc_order c") auto
    have e: "d \<noteq> e" "d \<notin> set rest" "e \<notin> set rest"
      using dc_order_mem[OF assms, of d] full wf o by auto
    have e': "map_of (dc_map c) e \<noteq> None" using dc_order_mem[OF assms, of e] o by simp
    have ins: "dir_cache_insert d x c = c\<lparr>dc_order := rest @ [d],
        dc_map := insert_or_replace d x (delete_key e (dc_map c))\<rparr>"
      using full by (simp add: dir_cache_insert_def o)
    have "dc_abs (dir_cache_insert d x c) = tl (dc_abs c) @ [(d, x)]"
      using e by (auto simp: dc_abs_def ins o table_simps)
    moreover have "length (dc_abs c) \<ge> dc_capacity c" using full len by (simp add: dc_abs_def)
    moreover have "map_of (dc_abs c) d = None" using full map_of_dc_abs[OF assms] by simp
    moreover have "length (insert_or_replace d x (delete_key e (dc_map c))) \<le> dc_capacity c"
      using wf full e' length_delete_key[of "dc_map c" e]
        length_insert_or_replace[OF wf_delete_key, of "dc_map c" d x e]
      by (auto simp: table_simps)
    moreover have "set (rest @ [d]) = fst ` set (insert_or_replace d x (delete_key e (dc_map c)))"
      using wf e full o by (auto simp: table_simps image_iff)
    ultimately show ?thesis using wf e o by (auto simp: dc_wf_def lru_insert_def ins)
  next
    case room
    have ins: "dir_cache_insert d x c = c\<lparr>dc_order := dc_order c @ [d],
        dc_map := insert_or_replace d x (dc_map c)\<rparr>"
      using room by (simp add: dir_cache_insert_def)
    have d: "d \<notin> set (dc_order c)" using dc_order_mem[OF assms] room by simp
    have "dc_abs (dir_cache_insert d x c) = dc_abs c @ [(d, x)]"
      using d by (auto simp: dc_abs_def ins table_simps)
    moreover have "\<not> length (dc_abs c) \<ge> dc_capacity c" using room len by (simp add: dc_abs_def)
    moreover have "map_of (dc_abs c) d = None" using room map_of_dc_abs[OF assms] by simp
    moreover have "set (dc_order c @ [d]) = fst ` set (insert_or_replace d x (dc_map c))"
      using wf d by (auto simp: table_simps)
    ultimately show ?thesis
      using wf d room length_insert_or_replace[of "dc_map c" d x] by (auto simp: dc_wf_def lru_insert_def ins)
  qed
qed

subsection \<open>Runs of the cache\<close>

datatype dc_op = Lookup digest | Store digest ca_directory

fun dc_step :: "dc_op \<Rightarrow> dir_cache \<Rightarrow> dir_cache" where
  "dc_step (Lookup d) c = snd (dir_cache_get d c)"
| "dc_step (Store d x) c = dir_cache_insert d x c"

fun lru_step :: "nat \<Rightarrow> dc_op \<Rightarrow> (digest, ca_directory) table \<Rightarrow> (digest, ca_directory) table" where
  "lru_step cap (Lookup d) xs = snd (lru_get d xs)"
| "lru_step cap (Store d x) xs = lru_insert cap d x xs"

fun op_digest :: "dc_op \<Rightarrow> digest" where
  "op_digest (Lookup d) = d"
| "op_digest (Store d x) = d"

lemma dc_step_refines:
  assumes "dc_wf c"
  shows "dc_wf (dc_step a c) \<and> dc_abs (dc_step a c) = lru_step (dc_capacity c) a (dc_abs c) \<and>
    dc_capacity (dc_step a c) = dc_capacity c"
proof (cases a)
  case (Lookup d)
  then show ?thesis using dir_cache_get_wf[OF assms] dir_cache_get_abs(2)[OF assms]
    by (auto simp: dir_cache_get_def split: option.split)
next
  case (Store d x)
  then show ?thesis using dir_cache_insert_wf_abs[OF assms] by simp
qed

lemma dc_run_refines:
  "dc_wf c \<Longrightarrow> dc_wf (fold dc_step as c) \<and>
     dc_abs (fold dc_step as c) = fold (lru_step (dc_capacity c)) as (dc_abs c) \<and>
     dc_capacity (fold dc_step as c) = dc_capacity c"
proof (induction as arbitrary: c)
  case (Cons a as)
  then show ?case using dc_step_refines[OF Cons.prems, of a] by simp
qed simp

text \<open>C38. The cache refines its specification: after any sequence of lookups and insertions the hash
  map and the queue agree with the list in order of recency, a lookup answers what that list says,
  and the cache never holds more entries than its capacity.
\<close>

theorem dir_cache_refines_lru:
  assumes "0 < cap"
  shows "dc_abs (fold dc_step as (dir_cache_new cap)) = fold (lru_step cap) as [] \<and>
    fst (dir_cache_get d (fold dc_step as (dir_cache_new cap))) = map_of (fold (lru_step cap) as []) d \<and>
    length (dc_map (fold dc_step as (dir_cache_new cap))) \<le> cap"
proof -
  let ?c = "fold dc_step as (dir_cache_new cap)"
  have new: "dc_capacity (dir_cache_new cap) = cap" "dc_abs (dir_cache_new cap) = []"
    by (simp_all add: dir_cache_new_def dc_abs_def)
  note r = dc_run_refines[OF dc_wf_new[OF assms], of as, unfolded new]
  have "fst (dir_cache_get d ?c) = map_of (dc_abs ?c) d"
    using map_of_dc_abs[of ?c d] r by (simp add: dir_cache_get_def split: option.split)
  then show ?thesis using r by (auto simp: dc_wf_def)
qed

theorem dir_cache_refines_lru_witness:
  "dc_order (fold dc_step [Store ''a'' (CaDirectory []), Store ''b'' (CaDirectory []), Lookup ''a'', Store ''c'' (CaDirectory [])] (dir_cache_new 2)) =
     [''a'', ''c''] \<and>
   length (dc_map (fold dc_step [Store ''a'' (CaDirectory []), Store ''b'' (CaDirectory [])] (dir_cache_new 2))) \<le> 2"
  using dir_cache_refines_lru[of 2 "[Store ''a'' (CaDirectory []), Store ''b'' (CaDirectory [])]"]
  by (simp add: dir_cache_new_def dir_cache_get_def dir_cache_insert_def insert_or_replace_def delete_key_def)

text \<open>An entry with fewer than the capacity of other digests behind it is not the one evicted.\<close>

definition kept :: "nat \<Rightarrow> digest \<Rightarrow> ca_directory \<Rightarrow> digest set \<Rightarrow> (digest, ca_directory) table \<Rightarrow> bool" where
  "kept cap d x T xs \<longleftrightarrow> wf_table xs \<and> length xs \<le> cap \<and>
     (\<exists>ys zs. xs = ys @ (d, x) # zs \<and> fst ` set zs \<subseteq> T)"

lemma kept_lookup: "kept cap d x T xs \<Longrightarrow> map_of xs d = Some x"
  unfolding kept_def by (auto simp: wf_map_of)

lemma kept_lru_step:
  assumes k: "kept cap d x T xs" and T: "op_digest a \<noteq> d \<longrightarrow> op_digest a \<in> T" "d \<notin> T"
    and card: "finite T" "card T < cap" and nostore: "\<And>y. a = Store d y \<Longrightarrow> y = x"
  shows "kept cap d x T (lru_step cap a xs)"
proof -
  obtain ys zs where xs: "xs = ys @ (d, x) # zs" and zs: "fst ` set zs \<subseteq> T"
    and wf: "wf_table xs" "length xs \<le> cap" using k by (auto simp: kept_def)
  have dx: "map_of xs d = Some x" using kept_lookup[OF k] .
  have moved: "kept cap d x T (delete_key e xs @ [(e, v)])"
    if e: "e = d \<longrightarrow> v = x" "e \<noteq> d \<longrightarrow> e \<in> T"
      and m: "map_of xs e \<noteq> None" for e v
  proof -
    have wf': "wf_table (delete_key e xs @ [(e, v)])"
      using wf_insert_or_replace[OF wf(1), of e v] by (simp add: insert_or_replace_def)
    have len: "length (delete_key e xs @ [(e, v)]) \<le> cap"
      using m length_delete_key[OF wf(1), of e] wf(2) by auto
    show ?thesis
    proof (cases "e = d")
      case True
      then have "delete_key e xs @ [(e, v)] = delete_key e xs @ (d, x) # []" using e(1) by simp
      then show ?thesis using wf' len unfolding kept_def
        by (intro conjI exI[of _ "delete_key e xs"] exI[of _ "[]"]) simp_all
    next
      case False
      then have "delete_key e xs @ [(e, v)] = delete_key e ys @ (d, x) # (delete_key e zs @ [(e, v)])"
        by (simp add: delete_key_def xs)
      moreover have "fst ` set (delete_key e zs @ [(e, v)]) \<subseteq> T"
        using False e(2) zs by (auto simp: table_simps)
      ultimately show ?thesis using wf' len unfolding kept_def by blast
    qed
  qed
  show ?thesis
  proof (cases a)
    case (Lookup e)
    then show ?thesis using k moved[of e] T(1) dx
      by (cases "map_of xs e"; cases "e = d") (auto simp: lru_get_def)
  next
    case (Store e v)
    show ?thesis
    proof (cases "map_of xs e")
      case (Some w)
      then show ?thesis using moved[of e v] T(1) nostore[of v] Store by (auto simp: lru_insert_def)
    next
      case None
      then have e: "e \<noteq> d" "e \<in> T" "e \<notin> fst ` set xs"
        using dx[THEN map_of_Some_key] T(1) Store by (auto simp: map_of_eq_None_iff)
      have wfe: "wf_table (us @ [(e, v)])" if "wf_table us" "set us \<subseteq> set xs" for us
        using that e(3) by (auto simp: wf_table_def)
      have zs': "fst ` set (zs @ [(e, v)]) \<subseteq> T" using zs e(2) by auto
      show ?thesis
      proof (cases "length xs \<ge> cap")
        case True
        have "card (fst ` set (zs @ [(e, v)])) \<le> card T" using zs' card(1) by (rule card_mono[rotated])
        moreover have "wf_table (zs @ [(e, v)])" using wf(1) by (intro wfe) (auto simp: wf_table_def xs)
        then have "card (fst ` set (zs @ [(e, v)])) = length zs + 1"
          unfolding wf_table_def by (metis distinct_card length_append_singleton length_map list.set_map Suc_eq_plus1)
        ultimately have "length zs + 1 < cap" using card(2) by simp
        then obtain y ys' where ys: "ys = y # ys'" using True xs by (cases ys) auto
        have "lru_step cap a xs = (ys' @ (d, x) # zs) @ [(e, v)]"
          using None True Store by (simp add: lru_insert_def xs ys)
        moreover have "wf_table ((ys' @ (d, x) # zs) @ [(e, v)])"
          using wf(1) by (intro wfe) (auto simp: wf_table_def xs ys)
        ultimately show ?thesis using zs' wf(2) xs ys unfolding kept_def by fastforce
      next
        case False
        have "lru_step cap a xs = xs @ [(e, v)]" using None False Store by (simp add: lru_insert_def)
        moreover have "wf_table (xs @ [(e, v)])" using wf(1) by (intro wfe) auto
        ultimately show ?thesis using zs' False xs unfolding kept_def by fastforce
      qed
    qed
  qed
qed

lemma kept_lru_run:
  "kept cap d x T xs \<Longrightarrow> \<forall>a \<in> set as. op_digest a \<noteq> d \<longrightarrow> op_digest a \<in> T \<Longrightarrow> d \<notin> T \<Longrightarrow>
     finite T \<Longrightarrow> card T < cap \<Longrightarrow> \<forall>y. Store d y \<in> set as \<longrightarrow> y = x \<Longrightarrow>
     kept cap d x T (fold (lru_step cap) as xs)"
proof (induction as arbitrary: xs)
  case (Cons a as)
  then show ?case using kept_lru_step[OF Cons.prems(1), of a] by auto
qed simp

lemma kept_insert: "wf_table xs \<Longrightarrow> length xs \<le> cap \<Longrightarrow> 0 < cap \<Longrightarrow> kept cap d x T (lru_insert cap d x xs)"
proof -
  assume a: "wf_table xs" "length xs \<le> cap" "0 < cap"
  define us where "us = (if map_of xs d \<noteq> None then delete_key d xs
    else if length xs \<ge> cap then tl xs else xs)"
  have "wf_table us" unfolding us_def using a(1) by (cases xs) (auto simp: wf_table_def wf_delete_key[unfolded wf_table_def])
  moreover have "d \<notin> fst ` set us" unfolding us_def
    by (cases xs) (auto simp: table_simps map_of_eq_None_iff)
  moreover have "length us < cap" unfolding us_def using a length_delete_key[OF a(1), of d] by (cases xs) auto
  moreover have "lru_insert cap d x xs = us @ (d, x) # []" by (simp add: lru_insert_def us_def)
  ultimately show ?thesis unfolding kept_def by (fastforce simp: wf_table_def)
qed

text \<open>Least recently used: in any history, a directory that was inserted is still served as long
  as fewer than \<open>capacity\<close> other digests were looked up or inserted since (and no other content was
  stored for its digest).
\<close>

theorem dir_cache_retains:
  assumes "0 < cap" and "card (op_digest ` set as - {d}) < cap" and "\<forall>y. Store d y \<in> set as \<longrightarrow> y = x"
  shows "fst (dir_cache_get d (fold dc_step as
    (dir_cache_insert d x (fold dc_step before (dir_cache_new cap))))) = Some x"
proof -
  let ?c = "dir_cache_insert d x (fold dc_step before (dir_cache_new cap))"
  let ?T = "op_digest ` set as - {d}"
  have cap: "dc_capacity (dir_cache_new cap) = cap" by (simp add: dir_cache_new_def)
  note b = dc_run_refines[OF dc_wf_new[OF assms(1)], of before, unfolded cap]
  then have wf: "dc_wf (fold dc_step before (dir_cache_new cap))" by simp
  note i = dir_cache_insert_wf_abs[OF wf, of d x]
  have "wf_table (dc_abs (fold dc_step before (dir_cache_new cap)))"
    using wf by (simp add: dc_wf_def wf_table_def dc_abs_def o_def)
  moreover have "length (dc_abs (fold dc_step before (dir_cache_new cap))) \<le> cap"
    using wf dc_wf_length[OF wf] b[THEN conjunct2, THEN conjunct2] unfolding dc_abs_def dc_wf_def by simp
  ultimately have "kept cap d x ?T (dc_abs ?c)" using i b assms(1) kept_insert by simp
  then have "kept cap d x ?T (fold (lru_step cap) as (dc_abs ?c))"
    using assms by (intro kept_lru_run) auto
  moreover have "dc_wf (fold dc_step as ?c)"
      "dc_abs (fold dc_step as ?c) = fold (lru_step cap) as (dc_abs ?c)"
    using dc_run_refines[of ?c as] i b by auto
  ultimately have "map_of (dc_map (fold dc_step as ?c)) d = Some x"
    using kept_lookup[of cap d x ?T] map_of_dc_abs[of "fold dc_step as ?c" d] by simp
  then show ?thesis by (simp add: dir_cache_get_def)
qed

theorem dir_cache_retains_witness:
  "fst (dir_cache_get ''a'' (fold dc_step [Store ''b'' (CaDirectory [(''n'', None)]), Lookup ''b'', Lookup ''a'', Store ''b'' (CaDirectory [(''n'', None)])]
     (dir_cache_insert ''a'' (CaDirectory []) (fold dc_step [] (dir_cache_new 2))))) = Some (CaDirectory [])"
  by (rule dir_cache_retains) (auto simp: card_insert_if)

end
