(* ===== verification/Bloom.thy ===== *)
theory Bloom
  imports Prelude
begin

unbundle bit_operations_syntax

text \<open>
  The bloom filter of chunk digests: \<open>crates/ekapkgs-nix/src/bloom.rs\<close>.  Bit positions are
  computed with wrapping 64-bit words as in the source; indexing past the bit vector and the
  remainder by zero are the error values the release build would panic with.  The results of
  the \<open>f64\<close> sizing formulas are arguments (\<open>float_sizes\<close>), the integer part of the sizing is
  modelled.
\<close>

type_synonym u8 = "8 word"
type_synonym u64 = "64 word"

datatype bloom_panic = RemainderByZero | IndexOutOfBounds nat

record bloom =
  bl_bits :: "u8 list"
  bl_num_bits :: u64
  bl_num_hashes :: nat

subsection \<open>Sizing\<close>

text \<open>The floating-point expressions of \<open>new\<close>, \<open>with_fpr\<close> and \<open>optimal_k\<close>, after their
  conversion to an integer and before the clamping that follows.\<close>

record float_sizes =
  fl_bits_1pct :: "nat \<Rightarrow> nat"
  fl_bits_fpr :: "nat \<Rightarrow> nat"
  fl_k :: "nat \<Rightarrow> nat \<Rightarrow> nat"

definition optimal_k :: "float_sizes \<Rightarrow> nat \<Rightarrow> nat \<Rightarrow> nat" where
  "optimal_k fl num_bits num_items =
     (if num_items = 0 then 1 else max 1 (min 30 (fl_k fl num_bits num_items)))"

definition bloom_sized :: "float_sizes \<Rightarrow> nat \<Rightarrow> nat \<Rightarrow> bloom" where
  "bloom_sized fl raw num_items =
     (let raw_bits = max raw 64; num_bytes = (raw_bits + 7) div 8; num_bits = num_bytes * 8
      in \<lparr>bl_bits = replicate num_bytes 0, bl_num_bits = of_nat num_bits,
          bl_num_hashes = optimal_k fl num_bits num_items\<rparr>)"

definition bloom_new :: "float_sizes \<Rightarrow> nat \<Rightarrow> bloom" where
  "bloom_new fl num_items = bloom_sized fl (fl_bits_1pct fl num_items) num_items"

definition bloom_with_fpr :: "float_sizes \<Rightarrow> nat \<Rightarrow> bloom" where
  "bloom_with_fpr fl num_items = bloom_sized fl (fl_bits_fpr fl num_items) num_items"

definition bloom_from_bytes :: "u8 list \<Rightarrow> nat \<Rightarrow> bloom" where
  "bloom_from_bytes d num_hashes =
     \<lparr>bl_bits = d, bl_num_bits = of_nat (length d) * 8, bl_num_hashes = max num_hashes 1\<rparr>"

definition bloom_into_bytes :: "bloom \<Rightarrow> u8 list" where
  "bloom_into_bytes bf = bl_bits bf"

subsection \<open>Insertion and query\<close>

definition double_hash :: "digest \<Rightarrow> u64 \<times> u64" where
  "double_hash d = (of_nat (from_le (take 8 d)), of_nat (from_le (take 8 (drop 8 d))) OR 1)"

definition bit_position :: "bloom \<Rightarrow> digest \<Rightarrow> nat \<Rightarrow> bloom_panic + nat" where
  "bit_position bf d i =
     (if bl_num_bits bf = 0 then Err RemainderByZero
      else (let (h1, h2) = double_hash d in Ok (unat ((h1 + of_nat i * h2) mod bl_num_bits bf))))"

definition set_bit_at :: "nat \<Rightarrow> bloom \<Rightarrow> bloom_panic + bloom" where
  "set_bit_at b bf =
     (if b div 8 < length (bl_bits bf)
      then Ok (bf\<lparr>bl_bits := (bl_bits bf)[b div 8 := bl_bits bf ! (b div 8) OR push_bit (b mod 8) 1]\<rparr>)
      else Err (IndexOutOfBounds (b div 8)))"

definition test_bit_at :: "nat \<Rightarrow> bloom \<Rightarrow> bloom_panic + bool" where
  "test_bit_at b bf =
     (if b div 8 < length (bl_bits bf)
      then Ok (bl_bits bf ! (b div 8) AND push_bit (b mod 8) 1 \<noteq> 0)
      else Err (IndexOutOfBounds (b div 8)))"

definition bloom_insert :: "digest \<Rightarrow> bloom \<Rightarrow> bloom_panic + bloom" where
  "bloom_insert d bf =
     foldR (\<lambda>i bf. bindR (bit_position bf d i) (\<lambda>b. set_bit_at b bf)) [0..<bl_num_hashes bf] bf"

fun contains_loop :: "bloom \<Rightarrow> digest \<Rightarrow> nat list \<Rightarrow> bloom_panic + bool" where
  "contains_loop bf d [] = Ok True"
| "contains_loop bf d (i # is) =
     bindR (bit_position bf d i) (\<lambda>b. bindR (test_bit_at b bf) (\<lambda>present.
       if present then contains_loop bf d is else Ok False))"

definition maybe_contains :: "bloom \<Rightarrow> digest \<Rightarrow> bloom_panic + bool" where
  "maybe_contains bf d = contains_loop bf d [0..<bl_num_hashes bf]"

subsection \<open>The filter as an approximate set\<close>

text \<open>What the negotiation relies on: an inserted digest is reported present, and stays so.\<close>

locale approx_set =
  fixes ins :: "'a \<Rightarrow> 'f \<Rightarrow> 'e + 'f"
    and mem :: "'f \<Rightarrow> 'a \<Rightarrow> 'e + bool"
    and inv :: "'f \<Rightarrow> bool"
  assumes ins_total: "inv f \<Longrightarrow> \<exists>f'. ins x f = Ok f'"
    and ins_inv: "inv f \<Longrightarrow> ins x f = Ok f' \<Longrightarrow> inv f'"
    and mem_ins: "inv f \<Longrightarrow> ins x f = Ok f' \<Longrightarrow> mem f' x = Ok True"
    and mem_keeps: "inv f \<Longrightarrow> ins x f = Ok f' \<Longrightarrow> mem f y = Ok True \<Longrightarrow> mem f' y = Ok True"
begin

lemma ins_all_total: "inv f \<Longrightarrow> \<exists>f'. foldR ins xs f = Ok f' \<and> inv f'"
proof (induction xs arbitrary: f)
  case Nil
  then show ?case by simp
next
  case (Cons x xs)
  obtain f1 where "ins x f = Ok f1" using ins_total Cons.prems by blast
  with Cons show ?case using ins_inv by fastforce
qed

lemma ins_all_keeps:
  "inv f \<Longrightarrow> foldR ins xs f = Ok f' \<Longrightarrow> mem f y = Ok True \<Longrightarrow> mem f' y = Ok True"
proof (induction xs arbitrary: f)
  case (Cons x xs)
  then obtain f1 where "ins x f = Ok f1" "foldR ins xs f1 = Ok f'" by (auto simp: bindR_eq_Ok)
  with Cons show ?case using ins_inv mem_keeps by blast
qed simp

lemma ins_all_mem: "inv f \<Longrightarrow> foldR ins xs f = Ok f' \<Longrightarrow> x \<in> set xs \<Longrightarrow> mem f' x = Ok True"
proof (induction xs arbitrary: f)
  case (Cons y xs)
  then obtain f1 where f1: "ins y f = Ok f1" "foldR ins xs f1 = Ok f'" by (auto simp: bindR_eq_Ok)
  show ?case
  proof (cases "x = y")
    case True
    then show ?thesis using Cons.prems f1 ins_inv mem_ins ins_all_keeps by blast
  next
    case False
    then show ?thesis using Cons f1 ins_inv by auto
  qed
qed simp

end

subsection \<open>The representation invariant\<close>

definition bloom_wf :: "bloom \<Rightarrow> bool" where
  "bloom_wf bf \<longleftrightarrow> bl_bits bf \<noteq> [] \<and> 8 * length (bl_bits bf) < 2 ^ 64
     \<and> bl_num_bits bf = of_nat (8 * length (bl_bits bf))"

lemma bloom_wf_num_bits: "bloom_wf bf \<Longrightarrow> unat (bl_num_bits bf) = 8 * length (bl_bits bf)"
proof -
  assume "bloom_wf bf"
  then have l: "8 * length (bl_bits bf) < 2 ^ LENGTH(64)"
    and e: "bl_num_bits bf = of_nat (8 * length (bl_bits bf))"
    by (simp_all add: bloom_wf_def)
  show ?thesis unfolding e unat_of_nat using l by (rule mod_less)
qed

lemma bit_position_wf:
  assumes "bloom_wf bf"
  shows "\<exists>b. bit_position bf d i = Ok b \<and> b div 8 < length (bl_bits bf)"
proof -
  have n: "unat (bl_num_bits bf) = 8 * length (bl_bits bf)" "length (bl_bits bf) > 0"
    using assms bloom_wf_num_bits by (auto simp: bloom_wf_def)
  then have nz: "bl_num_bits bf \<noteq> 0" by (metis mult_eq_0_iff neq0_conv unat_0 zero_neq_numeral)
  obtain h1 h2 where h: "double_hash d = (h1, h2)" by (cases "double_hash d")
  have "unat ((h1 + of_nat i * h2) mod bl_num_bits bf) < 8 * length (bl_bits bf)"
    using n by (simp add: unat_mod)
  then show ?thesis using nz h by (auto simp: bit_position_def)
qed

definition bit_on :: "bloom \<Rightarrow> nat \<Rightarrow> bool" where
  "bit_on bf b \<longleftrightarrow> bit (bl_bits bf ! (b div 8)) (b mod 8)"

lemma test_bit_at_iff:
  assumes "b div 8 < length (bl_bits bf)"
  shows "test_bit_at b bf = Ok (bit_on bf b)"
proof -
  have "(bl_bits bf ! (b div 8) AND push_bit (b mod 8) 1 \<noteq> 0) = bit (bl_bits bf ! (b div 8)) (b mod 8)"
    by (simp add: bit_iff_and_push_bit_not_eq_0)
  then show ?thesis using assms by (simp add: test_bit_at_def bit_on_def)
qed

lemma set_bit_at_on:
  assumes "b div 8 < length (bl_bits bf)"
  shows "\<exists>bf'. set_bit_at b bf = Ok bf' \<and> (\<forall>c. bit_on bf' c \<longleftrightarrow> bit_on bf c \<or> c = b)
    \<and> length (bl_bits bf') = length (bl_bits bf) \<and> bl_num_bits bf' = bl_num_bits bf
    \<and> bl_num_hashes bf' = bl_num_hashes bf"
proof -
  have eq: "c = b \<longleftrightarrow> c div 8 = b div 8 \<and> c mod 8 = b mod 8" for c
    by (metis div_mult_mod_eq)
  have "bit (bl_bits bf ! (b div 8) OR push_bit (b mod 8) 1) n \<longleftrightarrow>
      bit (bl_bits bf ! (b div 8)) n \<or> n = b mod 8" if "n < 8" for n
    using that by (auto simp: bit_or_iff push_bit_eq_mult bit_exp_iff)
  then show ?thesis
    using assms eq by (auto simp: set_bit_at_def bit_on_def nth_list_update)
qed

lemma bit_position_cong:
  "bl_num_bits bf' = bl_num_bits bf \<Longrightarrow> bit_position bf' d i = bit_position bf d i"
  by (simp add: bit_position_def)

text \<open>What a loop over some hash indices sets.\<close>

definition positions :: "bloom \<Rightarrow> digest \<Rightarrow> nat list \<Rightarrow> nat set" where
  "positions bf d is = {b. \<exists>i \<in> set is. bit_position bf d i = Ok b}"

lemma insert_loop_on:
  assumes "bloom_wf bf"
  shows "\<exists>bf'. foldR (\<lambda>i bf. bindR (bit_position bf d i) (\<lambda>b. set_bit_at b bf)) is bf = Ok bf'
    \<and> (\<forall>c. bit_on bf' c \<longleftrightarrow> bit_on bf c \<or> c \<in> positions bf d is)
    \<and> length (bl_bits bf') = length (bl_bits bf) \<and> bl_num_bits bf' = bl_num_bits bf
    \<and> bl_num_hashes bf' = bl_num_hashes bf"
  using assms
proof (induction "is" arbitrary: bf)
  case Nil
  then show ?case by (simp add: positions_def)
next
  case (Cons i "is")
  obtain b where b: "bit_position bf d i = Ok b" "b div 8 < length (bl_bits bf)"
    using bit_position_wf[OF Cons.prems] by blast
  obtain bf1 where b1: "set_bit_at b bf = Ok bf1" "\<forall>c. bit_on bf1 c \<longleftrightarrow> bit_on bf c \<or> c = b"
      "length (bl_bits bf1) = length (bl_bits bf)" "bl_num_bits bf1 = bl_num_bits bf"
      "bl_num_hashes bf1 = bl_num_hashes bf"
    using set_bit_at_on[OF b(2)] by blast
  have "bloom_wf bf1" using Cons.prems b1 by (auto simp: bloom_wf_def)
  from Cons.IH[OF this] obtain bf' where
    "foldR (\<lambda>i bf. bindR (bit_position bf d i) (\<lambda>b. set_bit_at b bf)) is bf1 = Ok bf'"
    "\<forall>c. bit_on bf' c \<longleftrightarrow> bit_on bf1 c \<or> c \<in> positions bf1 d is"
    "length (bl_bits bf') = length (bl_bits bf1)" "bl_num_bits bf' = bl_num_bits bf1"
    "bl_num_hashes bf' = bl_num_hashes bf1" by blast
  moreover have "positions bf d (i # is) = insert b (positions bf1 d is)"
    using b b1 by (auto simp: positions_def bit_position_cong[of bf1 bf])
  ultimately show ?case using b b1 by auto
qed

lemma contains_loop_iff:
  assumes "bloom_wf bf"
  shows "contains_loop bf d is = Ok (\<forall>b \<in> positions bf d is. bit_on bf b)"
proof (induction "is")
  case Nil
  then show ?case by (simp add: positions_def)
next
  case (Cons i "is")
  obtain b where b: "bit_position bf d i = Ok b" "b div 8 < length (bl_bits bf)"
    using bit_position_wf[OF assms] by blast
  moreover have "positions bf d (i # is) = insert b (positions bf d is)"
    using b by (auto simp: positions_def)
  ultimately show ?case using Cons by (simp add: test_bit_at_iff)
qed

lemma bloom_insert_on:
  assumes "bloom_wf bf"
  shows "\<exists>bf'. bloom_insert d bf = Ok bf' \<and> bloom_wf bf' \<and> bl_num_hashes bf' = bl_num_hashes bf
    \<and> bl_num_bits bf' = bl_num_bits bf
    \<and> (\<forall>c. bit_on bf' c \<longleftrightarrow> bit_on bf c \<or> c \<in> positions bf d [0..<bl_num_hashes bf])"
  using insert_loop_on[OF assms, of d "[0..<bl_num_hashes bf]"] assms
  by (auto simp: bloom_insert_def bloom_wf_def)

lemma maybe_contains_iff:
  "bloom_wf bf \<Longrightarrow> maybe_contains bf d = Ok (\<forall>b \<in> positions bf d [0..<bl_num_hashes bf]. bit_on bf b)"
  by (simp add: maybe_contains_def contains_loop_iff)

lemma positions_cong: "bl_num_bits bf' = bl_num_bits bf \<Longrightarrow> positions bf' d is = positions bf d is"
  by (simp add: positions_def bit_position_cong[of bf' bf])

interpretation bloom: approx_set bloom_insert maybe_contains bloom_wf
proof
  fix f x f' y
  assume wf: "bloom_wf f"
  show "\<exists>f'. bloom_insert x f = Ok f'" using bloom_insert_on[OF wf] by blast
  assume i: "bloom_insert x f = Ok f'"
  with bloom_insert_on[OF wf, of x] have f': "bloom_wf f'" "bl_num_hashes f' = bl_num_hashes f"
      "bl_num_bits f' = bl_num_bits f"
      "\<forall>c. bit_on f' c \<longleftrightarrow> bit_on f c \<or> c \<in> positions f x [0..<bl_num_hashes f]"
    by auto
  then show "bloom_wf f'" by simp
  show "maybe_contains f' x = Ok True"
    using f' by (simp add: maybe_contains_iff positions_cong[of f' f])
  assume "maybe_contains f y = Ok True"
  then show "maybe_contains f' y = Ok True"
    using f' wf by (simp add: maybe_contains_iff positions_cong[of f' f])
qed

subsection \<open>Properties\<close>

text \<open>C39. No false negatives, and no panic: inserting any digests into a well-formed filter
  succeeds, and afterwards every one of them is reported present.\<close>

theorem bloom_no_false_negatives:
  assumes "bloom_wf bf"
  shows "\<exists>bf'. foldR bloom_insert ds bf = Ok bf' \<and> bloom_wf bf'
    \<and> (\<forall>d \<in> set ds. maybe_contains bf' d = Ok True)"
  using bloom.ins_all_total[OF assms, of ds] bloom.ins_all_mem[OF assms] by blast

lemma bloom_sized_wf:
  assumes "raw < 2 ^ 60"
  shows "bloom_wf (bloom_sized fl raw n)"
proof -
  have "(max raw 64 + 7) div 8 > 0" "8 * ((max raw 64 + 7) div 8) \<le> max raw 64 + 7" by auto
  moreover have "max raw 64 + 7 < (2::nat) ^ 64" using assms by auto
  ultimately show ?thesis
    by (simp add: bloom_wf_def bloom_sized_def Let_def mult.commute)
qed

definition toy_sizes :: float_sizes where
  "toy_sizes = \<lparr>fl_bits_1pct = (\<lambda>n. 10 * n), fl_bits_fpr = (\<lambda>n. 15 * n), fl_k = (\<lambda>b n. 7)\<rparr>"

theorem bloom_no_false_negatives_witness:
  "\<exists>bf'. foldR bloom_insert [replicate 32 (CHR ''*''), replicate 32 (CHR ''+'')]
      (bloom_new toy_sizes 2) = Ok bf' \<and> bloom_wf bf'
    \<and> (\<forall>d \<in> set [replicate 32 (CHR ''*''), replicate 32 (CHR ''+'')]. maybe_contains bf' d = Ok True)"
  by (rule bloom_no_false_negatives) (simp add: bloom_new_def bloom_sized_wf toy_sizes_def)

text \<open>A filter sent over the wire answers as before: rebuilding it from its bytes and its
  number of hashes gives the same filter.\<close>

theorem bloom_wire_roundtrip:
  assumes "bloom_wf bf" and "1 \<le> bl_num_hashes bf"
  shows "bloom_from_bytes (bloom_into_bytes bf) (bl_num_hashes bf) = bf"
  using assms by (simp add: bloom_from_bytes_def bloom_into_bytes_def bloom_wf_def mult.commute)

theorem bloom_wire_roundtrip_witness:
  "bloom_from_bytes (bloom_into_bytes (bloom_new toy_sizes 2)) (bl_num_hashes (bloom_new toy_sizes 2))
   = bloom_new toy_sizes 2"
  by (rule bloom_wire_roundtrip)
    (simp_all add: bloom_new_def bloom_sized_wf toy_sizes_def, simp add: bloom_sized_def optimal_k_def Let_def)

text \<open>A new filter is well-formed, uses between 1 and 30 hashes and reports every digest
  absent, for any \<open>f64\<close> sizing result below \<open>2 ^ 60\<close> bits.\<close>

theorem bloom_fresh_empty:
  assumes "raw < 2 ^ 60"
  shows "bloom_wf (bloom_sized fl raw n) \<and> bl_num_hashes (bloom_sized fl raw n) \<in> {1..30}
    \<and> maybe_contains (bloom_sized fl raw n) d = Ok False"
proof -
  let ?bf = "bloom_sized fl raw n"
  have wf: "bloom_wf ?bf" using assms by (rule bloom_sized_wf)
  have k: "bl_num_hashes ?bf \<in> {1..30}"
    by (auto simp: bloom_sized_def optimal_k_def Let_def)
  obtain b where b: "bit_position ?bf d 0 = Ok b" "b div 8 < length (bl_bits ?bf)"
    using bit_position_wf[OF wf] by blast
  then have "b \<in> positions ?bf d [0..<bl_num_hashes ?bf]" using k by (auto simp: positions_def)
  moreover have "\<not> bit_on ?bf b" using b(2) by (simp add: bit_on_def bloom_sized_def Let_def)
  ultimately show ?thesis using wf k by (auto simp: maybe_contains_iff)
qed

theorem bloom_fresh_empty_witness:
  "bloom_wf (bloom_sized toy_sizes 100 10) \<and> bl_num_hashes (bloom_sized toy_sizes 100 10) \<in> {1..30}
    \<and> maybe_contains (bloom_sized toy_sizes 100 10) (replicate 32 (CHR ''*'')) = Ok False"
  by (rule bloom_fresh_empty) simp

end
