(* ===== verification/Castore.thy ===== *)
theory Castore
  imports Decompose DirCache NarInfo Bloom
begin

text \<open>
  The server's content-addressed store, \<open>CastoreBackend\<close> of
  \<open>crates/ekapkgs-serve/src/storage/castore.rs\<close>: its SQLite tables, the chunk files on disk, the
  in-memory caches and filters, and one definition per operation.  Each operation is one step of the
  state: operations run one after the other.  In the program \<open>put_nar\<close> and \<open>evict_path\<close> hold the
  connection for their whole body; \<open>store_chunk\<close> writes the chunk file before it locks the
  connection, \<open>put_narinfo\<close> releases it between looking for the row and storing it, and the filters
  have locks of their own, so two calls that overlap there can mix in ways the model leaves out.  The
  warm-up is a thread of its own and is modelled step by step, so other operations may run between
  its steps.  An operation that can fail half-way returns the state it leaves behind, because chunk
  files stay on disk when the transaction rolls back.

  Parameters: \<open>env\<close> (hash, chunker, codecs), \<open>fl\<close> (floating-point sizing of the filters), \<open>now\<close>
  (seconds since the epoch), \<open>io\<close> (does the file system carry out the write or removal of this
  path).  SQLite's own I/O failures are not modelled; \<open>SUM\<close> over an \<open>i64\<close> column is exact.
\<close>

subsection \<open>Constants, paths and rows\<close>

definition INLINE_THRESHOLD :: nat where
  "INLINE_THRESHOLD = 1024"

definition DEFAULT_CHUNK_LEVEL :: int where
  "DEFAULT_CHUNK_LEVEL = 3"

definition hex_digit :: "nat \<Rightarrow> char" where
  "hex_digit n = ''0123456789abcdef'' ! n"

definition hex_encode :: "digest \<Rightarrow> string" where
  "hex_encode d = concat (map (\<lambda>c. [hex_digit (of_char c div 16), hex_digit (of_char c mod 16)]) d)"

text \<open>Relative to the root of the store.\<close>

definition chunk_path :: "string \<Rightarrow> string" where
  "chunk_path hex = ''chunks/'' @ take (min 4 (length hex)) hex @ ''/'' @ hex @ ''.chunk''"

record chunk_row =
  ck_size :: nat
  ck_ref_count :: nat
  ck_zstd_level :: "int option"
  ck_disk_size :: nat
  ck_data :: "bytes option"

record path_row =
  pr_store_path :: string
  pr_nar_hash :: string
  pr_nar_size :: nat
  pr_root_node :: bytes
  pr_references :: string
  pr_signatures :: string
  pr_ca :: string
  pr_deriver :: string
  pr_added_at :: nat
  pr_last_access :: nat

record stats_row =
  cs_paths :: nat
  cs_nar_size :: nat
  cs_chunks :: nat
  cs_chunk_bytes :: nat
  cs_unique_files :: nat
  cs_file_chunk_refs :: nat
  cs_disk_bytes :: nat
  cs_inline_chunks :: nat
  cs_compressed_chunks :: nat

definition no_stats :: stats_row where
  "no_stats = \<lparr>cs_paths = 0, cs_nar_size = 0, cs_chunks = 0, cs_chunk_bytes = 0, cs_unique_files = 0,
     cs_file_chunk_refs = 0, cs_disk_bytes = 0, cs_inline_chunks = 0, cs_compressed_chunks = 0\<rparr>"

definition CACHE_STATS_TTL :: int where
  "CACHE_STATS_TTL = 5 * 60"

text \<open>The tables of \<open>castore.db\<close> (\<open>create_tables\<close>); \<open>_meta\<close> holds the clean-shutdown flag only.\<close>

record castore_db =
  db_meta :: "(string, nat) table"
  db_paths :: "(string, path_row) table"
  db_chunks :: "(digest, chunk_row) table"
  db_file_chunks :: "(digest \<times> nat, digest \<times> nat) table"
  db_directories :: "(digest, bytes) table"
  db_path_files :: "(string \<times> digest, unit) table"

definition empty_db :: castore_db where
  "empty_db = \<lparr>db_meta = [], db_paths = [], db_chunks = [], db_file_chunks = [], db_directories = [],
     db_path_files = []\<rparr>"

record castore =
  st_db :: castore_db
  st_files :: "(string, bytes) table"
  st_dir_cache :: dir_cache
  st_chunk_bloom :: bloom
  st_path_bloom :: bloom
  st_stats_cache :: "int \<times> stats_row"
  st_level :: int
  st_bloom_ready :: bool
  st_path_files_ready :: bool

subsection \<open>Filters and the statistics cache\<close>

text \<open>The filters the backend builds are never empty, so inserting does not panic; should it,
  the poisoned lock makes later inserts no-ops and later queries answer \<open>true\<close>.\<close>

definition add_to_bloom :: "digest \<Rightarrow> bloom \<Rightarrow> bloom" where
  "add_to_bloom d b = (case bloom_insert d b of Inl _ \<Rightarrow> b | Inr b' \<Rightarrow> b')"

definition in_bloom :: "bloom \<Rightarrow> digest \<Rightarrow> bool" where
  "in_bloom b d = (case maybe_contains b d of Inl _ \<Rightarrow> True | Inr r \<Rightarrow> r)"

definition chunk_bloom_insert :: "digest \<Rightarrow> castore \<Rightarrow> castore" where
  "chunk_bloom_insert d st = st\<lparr>st_chunk_bloom := add_to_bloom d (st_chunk_bloom st)\<rparr>"

definition bloom_maybe_contains :: "castore \<Rightarrow> digest \<Rightarrow> bool" where
  "bloom_maybe_contains st d = (if \<not> st_bloom_ready st then True else in_bloom (st_chunk_bloom st) d)"

definition path_bloom_insert :: "cas_env \<Rightarrow> string \<Rightarrow> castore \<Rightarrow> castore" where
  "path_bloom_insert env h st = st\<lparr>st_path_bloom := add_to_bloom (blake3 env h) (st_path_bloom st)\<rparr>"

definition path_bloom_maybe_contains :: "cas_env \<Rightarrow> castore \<Rightarrow> string \<Rightarrow> bool" where
  "path_bloom_maybe_contains env st h =
     (if \<not> st_bloom_ready st then True else in_bloom (st_path_bloom st) (blake3 env h))"

definition build_chunk_bloom :: "float_sizes \<Rightarrow> castore \<Rightarrow> bloom" where
  "build_chunk_bloom fl st =
     fold add_to_bloom (filter (\<lambda>d. try_digest d \<noteq> None) (map fst (db_chunks (st_db st))))
       (bloom_with_fpr fl (max (length (db_chunks (st_db st))) 1024))"

definition build_path_bloom :: "cas_env \<Rightarrow> float_sizes \<Rightarrow> castore \<Rightarrow> bloom" where
  "build_path_bloom env fl st =
     fold add_to_bloom (map (\<lambda>r. blake3 env (fst r)) (db_paths (st_db st)))
       (bloom_with_fpr fl (max (length (db_paths (st_db st))) 1024))"

definition compute_stats :: "castore \<Rightarrow> stats_row" where
  "compute_stats st =
     (let cs = map snd (db_chunks (st_db st)); ps = map snd (db_paths (st_db st))
      in \<lparr>cs_paths = length ps, cs_nar_size = sum_list (map pr_nar_size ps),
          cs_chunks = length cs, cs_chunk_bytes = sum_list (map ck_size cs),
          cs_unique_files = length (remdups (map (fst \<circ> fst) (db_file_chunks (st_db st)))),
          cs_file_chunk_refs = length (db_file_chunks (st_db st)),
          cs_disk_bytes = sum_list (map ck_disk_size cs),
          cs_inline_chunks = length (filter (\<lambda>c. ck_data c \<noteq> None) cs),
          cs_compressed_chunks = length (filter (\<lambda>c. ck_zstd_level c \<noteq> None) cs)\<rparr>)"

definition cache_stats :: "int \<Rightarrow> castore \<Rightarrow> stats_row \<times> castore" where
  "cache_stats clock st =
     (if clock - fst (st_stats_cache st) < CACHE_STATS_TTL then (snd (st_stats_cache st), st)
      else let s = compute_stats st in (s, st\<lparr>st_stats_cache := (clock, s)\<rparr>))"

definition invalidate_stats_cache :: "int \<Rightarrow> castore \<Rightarrow> castore" where
  "invalidate_stats_cache clock st =
     st\<lparr>st_stats_cache := (clock - CACHE_STATS_TTL, snd (st_stats_cache st))\<rparr>"

text \<open>The warm-up thread: where it is and what it carries, a filter it built from the tables and has
  not put in place yet, or the statistics it computed.\<close>

datatype warmup_thread =
    WarmupSpawned
  | ChunkBloomBuilt bloom
  | ChunkBloomSwapped
  | PathBloomBuilt bloom
  | PathBloomSwapped
  | BloomsReady
  | StatsComputed stats_row
  | WarmupDone

fun spawn_warmup ::
  "cas_env \<Rightarrow> float_sizes \<Rightarrow> int \<Rightarrow> warmup_thread \<Rightarrow> castore \<Rightarrow> warmup_thread \<times> castore" where
  "spawn_warmup env fl clock WarmupSpawned st = (ChunkBloomBuilt (build_chunk_bloom fl st), st)"
| "spawn_warmup env fl clock (ChunkBloomBuilt b) st = (ChunkBloomSwapped, st\<lparr>st_chunk_bloom := b\<rparr>)"
| "spawn_warmup env fl clock ChunkBloomSwapped st = (PathBloomBuilt (build_path_bloom env fl st), st)"
| "spawn_warmup env fl clock (PathBloomBuilt b) st = (PathBloomSwapped, st\<lparr>st_path_bloom := b\<rparr>)"
| "spawn_warmup env fl clock PathBloomSwapped st = (BloomsReady, st\<lparr>st_bloom_ready := True\<rparr>)"
| "spawn_warmup env fl clock BloomsReady st = (StatsComputed (compute_stats st), st)"
| "spawn_warmup env fl clock (StatsComputed s) st = (WarmupDone, st\<lparr>st_stats_cache := (clock, s)\<rparr>)"
| "spawn_warmup env fl clock WarmupDone st = (WarmupDone, st)"

lemma spawn_warmup_frame [simp]:
  "st_db (snd (spawn_warmup env fl clock t st)) = st_db st"
  "st_files (snd (spawn_warmup env fl clock t st)) = st_files st"
  "st_dir_cache (snd (spawn_warmup env fl clock t st)) = st_dir_cache st"
  "st_level (snd (spawn_warmup env fl clock t st)) = st_level st"
  "st_path_files_ready (snd (spawn_warmup env fl clock t st)) = st_path_files_ready st"
  by (cases t; simp)+

subsection \<open>Chunks\<close>

definition write_chunk_file ::
  "cas_env \<Rightarrow> (string \<Rightarrow> bool) \<Rightarrow> bytes \<Rightarrow> castore \<Rightarrow> (cas_error + digest \<times> int option \<times> nat) \<times> castore" where
  "write_chunk_file env io d st =
     (let dg = blake3 env d in
      if length d < INLINE_THRESHOLD then (Ok (dg, None, 0), st)
      else let path = chunk_path (hex_encode dg) in
        (case map_of (st_files st) path of
           None \<Rightarrow>
             (let compressed = zstd_compress env (st_level st) d;
                  (bytes_to_write, zstd_level) =
                    (if length compressed < length d then (compressed, Some (st_level st)) else (d, None))
              in if io path
                 then (Ok (dg, zstd_level, length bytes_to_write),
                       st\<lparr>st_files := insert_or_replace path bytes_to_write (st_files st)\<rparr>)
                 else (Err IoError, st))
         | Some f \<Rightarrow> (Ok (dg, None, length f), st)))"

definition insert_chunk_row ::
  "digest \<Rightarrow> nat \<Rightarrow> int option \<Rightarrow> nat \<Rightarrow> bytes option \<Rightarrow> castore_db \<Rightarrow> castore_db" where
  "insert_chunk_row dg sz zstd_level disk_size inline_data db =
     db\<lparr>db_chunks := insert_or_ignore dg
         \<lparr>ck_size = sz, ck_ref_count = 1, ck_zstd_level = zstd_level, ck_disk_size = disk_size,
          ck_data = inline_data\<rparr> (db_chunks db)\<rparr>"

text \<open>The body shared by \<open>store_chunk\<close> and the loop of \<open>ingest_node\<close>.\<close>

definition inline_of :: "bytes \<Rightarrow> bytes option" where
  "inline_of d = (if length d < INLINE_THRESHOLD then Some d else None)"

definition store_chunk ::
  "cas_env \<Rightarrow> (string \<Rightarrow> bool) \<Rightarrow> bytes \<Rightarrow> castore \<Rightarrow> (cas_error + digest) \<times> castore" where
  "store_chunk env io d =
     bindS (write_chunk_file env io d) (\<lambda>(dg, zstd_level, disk_size) st.
       let st = st\<lparr>st_db := insert_chunk_row dg (length d) zstd_level disk_size (inline_of d) (st_db st)\<rparr>
       in (Ok dg, chunk_bloom_insert dg st))"

definition get_chunk_by_digest :: "cas_env \<Rightarrow> castore \<Rightarrow> digest \<Rightarrow> cas_error + bytes option" where
  "get_chunk_by_digest env st dg =
     (case map_of (db_chunks (st_db st)) dg of
        None \<Rightarrow> Ok None
      | Some row \<Rightarrow>
         (case ck_data row of
            Some d \<Rightarrow> Ok (Some d)
          | None \<Rightarrow>
             (case map_of (st_files st) (chunk_path (hex_encode dg)) of
                None \<Rightarrow> Ok None
              | Some file_bytes \<Rightarrow>
                  if ck_zstd_level row \<noteq> None
                  then (case zstd_decompress env (CHUNK_MAX * 2) file_bytes of
                          None \<Rightarrow> Err (CorruptChunk dg)
                        | Some d \<Rightarrow> Ok (Some d))
                  else Ok (Some file_bytes))))"

definition has_chunk :: "castore \<Rightarrow> digest \<Rightarrow> bool" where
  "has_chunk st dg =
     (if \<not> bloom_maybe_contains st dg then False else map_of (db_chunks (st_db st)) dg \<noteq> None)"

text \<open>\<open>get_chunk\<close> and \<open>has_chunk\<close> of the trait take a byte slice.\<close>

definition trait_get_chunk :: "cas_env \<Rightarrow> castore \<Rightarrow> bytes \<Rightarrow> cas_error + bytes option" where
  "trait_get_chunk env st b =
     (case try_digest b of None \<Rightarrow> Err InvalidDigestLength | Some d \<Rightarrow> get_chunk_by_digest env st d)"

definition trait_has_chunk :: "castore \<Rightarrow> bytes \<Rightarrow> cas_error + bool" where
  "trait_has_chunk st b =
     (case try_digest b of None \<Rightarrow> Err InvalidDigestLength | Some d \<Rightarrow> Ok (has_chunk st d))"

subsection \<open>Ingesting a NAR\<close>

definition insert_file_chunk_row :: "digest \<Rightarrow> nat \<Rightarrow> digest \<Rightarrow> nat \<Rightarrow> castore_db \<Rightarrow> castore_db" where
  "insert_file_chunk_row fd i dg sz db =
     db\<lparr>db_file_chunks := insert_or_ignore (fd, i) (dg, sz) (db_file_chunks db)\<rparr>"

fun insert_file_chunk_rows :: "digest \<Rightarrow> nat \<Rightarrow> (digest \<times> nat) list \<Rightarrow> castore_db \<Rightarrow> castore_db" where
  "insert_file_chunk_rows fd i [] db = db"
| "insert_file_chunk_rows fd i ((dg, sz) # rows) db =
     insert_file_chunk_rows fd (Suc i) rows (insert_file_chunk_row fd i dg sz db)"

definition insert_directory :: "cas_env \<Rightarrow> ca_directory \<Rightarrow> castore_db \<Rightarrow> digest \<times> castore_db" where
  "insert_directory env x db =
     (let encoded = encode_dir env x; dg = blake3 env encoded
      in (dg, db\<lparr>db_directories := insert_or_ignore dg encoded (db_directories db)\<rparr>))"

fun ingest_chunks ::
  "cas_env \<Rightarrow> (string \<Rightarrow> bool) \<Rightarrow> bytes list \<Rightarrow> castore \<Rightarrow> (cas_error + (digest \<times> nat) list) \<times> castore" where
  "ingest_chunks env io [] st = returnS [] st"
| "ingest_chunks env io (c # cs) st =
     bindS (store_chunk env io c) (\<lambda>dg.
     bindS (ingest_chunks env io cs) (\<lambda>rest. returnS ((dg, length c) # rest))) st"

fun ingest_node ::
  "cas_env \<Rightarrow> (string \<Rightarrow> bool) \<Rightarrow> nar_node \<Rightarrow> castore \<Rightarrow> (cas_error + ca_node) \<times> castore"
  and ingest_entries ::
  "cas_env \<Rightarrow> (string \<Rightarrow> bool) \<Rightarrow> (string \<times> nar_node) list \<Rightarrow> castore
   \<Rightarrow> (cas_error + (string \<times> ca_node option) list) \<times> castore" where
  "ingest_node env io (Regular x d) st =
     bindS (ingest_chunks env io (cdc env d)) (\<lambda>chunk_digests st.
       let total_size = sum_list (map snd chunk_digests);
           file_digest = blake3 env d;
           st = st\<lparr>st_db := insert_file_chunk_rows file_digest 0 chunk_digests (st_db st)\<rparr>
       in (Ok (CaNode (Some (CaFileNode (Some file_digest) total_size x))), st)) st"
| "ingest_node env io (Directory es) st =
     bindS (ingest_entries env io es) (\<lambda>ca_entries st.
       let (dir_digest, db) = insert_directory env (CaDirectory ca_entries) (st_db st)
       in (Ok (CaNode (Some (CaDirectoryNode (Some dir_digest) (length ca_entries)))), st\<lparr>st_db := db\<rparr>)) st"
| "ingest_node env io (Symlink t) st = returnS (CaNode (Some (CaSymlinkNode t))) st"
| "ingest_entries env io [] st = returnS [] st"
| "ingest_entries env io ((name, n) # es) st =
     bindS (ingest_node env io n) (\<lambda>child_node.
     bindS (ingest_entries env io es) (\<lambda>rest. returnS ((name, Some child_node) # rest))) st"

subsection \<open>Directories, files, trees\<close>

definition load_directory :: "cas_env \<Rightarrow> digest \<Rightarrow> castore \<Rightarrow> (cas_error + ca_directory) \<times> castore" where
  "load_directory env dg st =
     (case dir_cache_get dg (st_dir_cache st) of
        (Some x, c) \<Rightarrow> (Ok x, st\<lparr>st_dir_cache := c\<rparr>)
      | (None, c) \<Rightarrow>
         (let st = st\<lparr>st_dir_cache := c\<rparr> in
          case map_of (db_directories (st_db st)) dg of
            None \<Rightarrow> (Err (MissingRow dg), st)
          | Some b \<Rightarrow>
             if blake3 env b \<noteq> dg then (Err (DigestMismatch dg), st)
             else (case decode_dir env b of
                     None \<Rightarrow> (Err DecodeError, st)
                   | Some x \<Rightarrow> (Ok x, st\<lparr>st_dir_cache := dir_cache_insert dg x (st_dir_cache st)\<rparr>))))"

text \<open>\<open>read_file_data\<close> refuses a chunk digest of the wrong length, \<open>write_file_data_to\<close> skips it.\<close>

fun read_chunks :: "cas_env \<Rightarrow> castore \<Rightarrow> digest list \<Rightarrow> cas_error + bytes" where
  "read_chunks env st [] = Ok []"
| "read_chunks env st (g # gs) =
     bindR (get_chunk_by_digest env st g) (\<lambda>r.
     bindR (case r of None \<Rightarrow> Err (MissingChunk g) | Some d \<Rightarrow> Ok d) (\<lambda>d.
     bindR (read_chunks env st gs) (\<lambda>ds. Ok (d @ ds))))"

fun read_rows :: "cas_env \<Rightarrow> castore \<Rightarrow> (digest \<times> nat) list \<Rightarrow> cas_error + bytes" where
  "read_rows env st [] = Ok []"
| "read_rows env st ((b, sz) # rows) =
     bindR (case try_digest b of None \<Rightarrow> Err InvalidDigestLength | Some g \<Rightarrow> Ok g) (\<lambda>g.
     bindR (get_chunk_by_digest env st g) (\<lambda>r.
     bindR (case r of None \<Rightarrow> Err (MissingChunk g) | Some d \<Rightarrow> Ok d) (\<lambda>d.
     bindR (read_rows env st rows) (\<lambda>ds. Ok (d @ ds)))))"

definition file_rows :: "castore \<Rightarrow> digest \<Rightarrow> (digest \<times> nat) list" where
  "file_rows st f = rows_of f (db_file_chunks (st_db st))"

definition read_file_data :: "cas_env \<Rightarrow> castore \<Rightarrow> digest \<Rightarrow> cas_error + bytes" where
  "read_file_data env st f = read_rows env st (file_rows st f)"

definition write_file_data_to :: "cas_env \<Rightarrow> castore \<Rightarrow> digest \<Rightarrow> cas_error + bytes" where
  "write_file_data_to env st f = read_chunks env st (List.map_filter (try_digest \<circ> fst) (file_rows st f))"

definition castore_reader :: "cas_env \<Rightarrow> castore \<Rightarrow> chunk_reader" where
  "castore_reader env st =
     \<lparr>cr_read_file = read_file_data env st, cr_write_file = write_file_data_to env st,
      cr_load_dir = (\<lambda>d. fst (load_directory env d st))\<rparr>"

text \<open>The walk follows digests, so it takes fuel; \<open>None\<close> when it runs out.\<close>

fun collect_file_digests_from_tree ::
  "nat \<Rightarrow> cas_env \<Rightarrow> castore_db \<Rightarrow> ca_node \<Rightarrow> digest list \<Rightarrow> digest list option"
  and collect_entries ::
  "nat \<Rightarrow> cas_env \<Rightarrow> castore_db \<Rightarrow> (string \<times> ca_node option) list \<Rightarrow> digest list \<Rightarrow> digest list option" where
  "collect_file_digests_from_tree 0 env db c acc = None"
| "collect_file_digests_from_tree (Suc fuel) env db c acc =
     (case node c of
        None \<Rightarrow> Some acc
      | Some (CaFileNode dg sz x) \<Rightarrow>
          (case Option.bind dg try_digest of None \<Rightarrow> Some acc | Some d \<Rightarrow> Some (List.insert d acc))
      | Some (CaDirectoryNode dg sz) \<Rightarrow>
          (case Option.bind dg try_digest of None \<Rightarrow> Some acc
           | Some d \<Rightarrow>
              (case Option.bind (map_of (db_directories db) d) (decode_dir env) of
                 None \<Rightarrow> Some acc
               | Some x \<Rightarrow> collect_entries fuel env db (dir_entries x) acc))
      | Some (CaSymlinkNode t) \<Rightarrow> Some acc)"
| "collect_entries fuel env db [] acc = Some acc"
| "collect_entries 0 env db (e # es) acc = None"
| "collect_entries (Suc fuel) env db ((name, child) # es) acc =
     Option.bind (case child of None \<Rightarrow> Some acc
                  | Some c \<Rightarrow> collect_file_digests_from_tree fuel env db c acc)
       (collect_entries fuel env db es)"

subsection \<open>Metadata\<close>

definition split_column :: "char \<Rightarrow> string \<Rightarrow> string list" where
  "split_column c s = (if s = [] then [] else split_on c s)"

definition opt_column :: "string \<Rightarrow> string option" where
  "opt_column s = (if s = [] then None else Some s)"

definition column_of :: "string option \<Rightarrow> string" where
  "column_of o' = (case o' of None \<Rightarrow> [] | Some s \<Rightarrow> s)"

definition store_metadata_with_conn ::
  "cas_env \<Rightarrow> nat \<Rightarrow> string \<Rightarrow> narinfo \<Rightarrow> ca_node \<Rightarrow> castore_db \<Rightarrow> castore_db" where
  "store_metadata_with_conn env now h ni root db =
     db\<lparr>db_paths := insert_or_replace h
       \<lparr>pr_store_path = ni_store_path ni, pr_nar_hash = ni_nar_hash ni, pr_nar_size = ni_nar_size ni,
        pr_root_node = encode_node env root,
        pr_references = join '' '' (map basename (ni_references ni)),
        pr_signatures = join [NL] (ni_signatures ni),
        pr_ca = column_of (ni_ca ni), pr_deriver = column_of (ni_deriver ni),
        pr_added_at = now, pr_last_access = now\<rparr> (db_paths db)\<rparr>"

definition row_to_narinfo :: "string \<Rightarrow> path_row \<Rightarrow> narinfo" where
  "row_to_narinfo h r =
     \<lparr>ni_store_path = pr_store_path r, ni_url = ''nar/'' @ h @ ''.nar'', ni_compression = ''none'',
      ni_file_hash = [], ni_file_size = 0, ni_nar_hash = pr_nar_hash r, ni_nar_size = pr_nar_size r,
      ni_references = split_column (CHR '' '') (pr_references r),
      ni_deriver = opt_column (pr_deriver r),
      ni_signatures = split_column NL (pr_signatures r),
      ni_ca = opt_column (pr_ca r)\<rparr>"

definition load_metadata_with_conn :: "string \<Rightarrow> castore_db \<Rightarrow> narinfo option" where
  "load_metadata_with_conn h db = map_option (row_to_narinfo h) (map_of (db_paths db) h)"

definition store_metadata :: "cas_env \<Rightarrow> nat \<Rightarrow> string \<Rightarrow> narinfo \<Rightarrow> ca_node \<Rightarrow> castore \<Rightarrow> castore" where
  "store_metadata env now h ni root st =
     path_bloom_insert env h (st\<lparr>st_db := store_metadata_with_conn env now h ni root (st_db st)\<rparr>)"

definition get_narinfo :: "string \<Rightarrow> castore \<Rightarrow> narinfo option" where
  "get_narinfo h st = load_metadata_with_conn h (st_db st)"

definition get_narinfo_text :: "string \<Rightarrow> castore \<Rightarrow> string option" where
  "get_narinfo_text h st = map_option to_narinfo_string (get_narinfo h st)"

definition has_narinfo :: "cas_env \<Rightarrow> string \<Rightarrow> castore \<Rightarrow> bool" where
  "has_narinfo env h st =
     (if \<not> path_bloom_maybe_contains env st h then False else map_of (db_paths (st_db st)) h \<noteq> None)"

text \<open>\<open>hashes.chunks(BATCH_SIZE)\<close> and one \<open>IN\<close> query per batch, rows in table order.\<close>

definition BATCH_SIZE :: nat where
  "BATCH_SIZE = 500"

function batches :: "nat \<Rightarrow> 'a list \<Rightarrow> 'a list list" where
  "batches k xs = (if xs = [] \<or> k = 0 then [] else take k xs # batches k (drop k xs))"
  by auto
termination by (relation "measure (\<lambda>(k, xs). length xs)") auto

declare batches.simps [simp del]

definition query_in :: "string list \<Rightarrow> castore_db \<Rightarrow> (string \<times> narinfo) list" where
  "query_in hs db =
     map (\<lambda>(h, r). (h, row_to_narinfo h r)) (filter (\<lambda>r. fst r \<in> set hs) (db_paths db))"

definition batch_load_metadata ::
  "string list \<Rightarrow> castore \<Rightarrow> (string \<times> narinfo) list \<times> string list" where
  "batch_load_metadata hashes st =
     (let available = concat (map (\<lambda>b. query_in b (st_db st)) (batches BATCH_SIZE hashes));
          found_set = set (map fst available)
      in (available, filter (\<lambda>h. h \<notin> found_set) hashes))"

definition get_root_node :: "cas_env \<Rightarrow> string \<Rightarrow> castore \<Rightarrow> cas_error + ca_node option" where
  "get_root_node env h st =
     (case map_of (db_paths (st_db st)) h of
        None \<Rightarrow> Ok None
      | Some row \<Rightarrow> (case decode_node env (pr_root_node row) of None \<Rightarrow> Err DecodeError | Some n \<Rightarrow> Ok (Some n)))"

definition get_cas_root :: "cas_env \<Rightarrow> string \<Rightarrow> castore \<Rightarrow> cas_error + bytes option" where
  "get_cas_root env h st = bindR (get_root_node env h st) (\<lambda>r. Ok (map_option (encode_node env) r))"

subsection \<open>Serving and storing paths\<close>

text \<open>\<open>nar/abc123.nar\<close> is served for the hash \<open>abc123\<close>.\<close>

definition hash_of_file_path :: "string \<Rightarrow> string" where
  "hash_of_file_path p = first_segment (CHR ''.'') (last_segment (CHR ''/'') p)"

definition get_nar :: "nat \<Rightarrow> cas_env \<Rightarrow> string \<Rightarrow> castore \<Rightarrow> cas_error + bytes option" where
  "get_nar fuel env file_path st =
     bindR (get_root_node env (hash_of_file_path file_path) st) (\<lambda>r.
       case r of None \<Rightarrow> Ok None
       | Some root \<Rightarrow>
           bindR (write_nar_streaming fuel (castore_reader env st) root) (\<lambda>w. Ok (Some w)))"

definition put_narinfo ::
  "cas_env \<Rightarrow> nat \<Rightarrow> string \<Rightarrow> string \<Rightarrow> castore \<Rightarrow> (cas_error + bool) \<times> castore" where
  "put_narinfo env now h content st =
     (case parse_narinfo content of
        None \<Rightarrow> (Err InvalidNarinfo, st)
      | Some ni \<Rightarrow>
         if map_of (db_paths (st_db st)) h \<noteq> None
         then (case get_root_node env h st of
                 Inl e \<Rightarrow> (Err e, st)
               | Inr None \<Rightarrow> (Ok True, st)
               | Inr (Some root) \<Rightarrow> (Ok True, store_metadata env now h ni root st))
         else (Ok True, store_metadata env now h ni (CaNode None) st))"

definition placeholder_info :: "cas_env \<Rightarrow> string \<Rightarrow> bytes \<Rightarrow> narinfo" where
  "placeholder_info env h d =
     \<lparr>ni_store_path = [], ni_url = ''nar/'' @ h @ ''.nar'', ni_compression = ''none'',
      ni_file_hash = ''sha256:'' @ sha256_hex env d, ni_file_size = length d,
      ni_nar_hash = ''sha256:'' @ sha256_hex env d, ni_nar_size = length d,
      ni_references = [], ni_deriver = None, ni_signatures = [], ni_ca = None\<rparr>"

definition insert_path_file :: "string \<Rightarrow> digest \<Rightarrow> castore_db \<Rightarrow> castore_db" where
  "insert_path_file h fd db = db\<lparr>db_path_files := insert_or_ignore (h, fd) () (db_path_files db)\<rparr>"

text \<open>A transaction dropped without commit: the tables go back, files and filters do not.\<close>

definition rollback :: "castore \<Rightarrow> castore \<Rightarrow> castore" where
  "rollback st0 st = st\<lparr>st_db := st_db st0\<rparr>"

definition put_nar ::
  "nat \<Rightarrow> cas_env \<Rightarrow> (string \<Rightarrow> bool) \<Rightarrow> nat \<Rightarrow> string \<Rightarrow> bytes \<Rightarrow> castore \<Rightarrow> (cas_error + bool) \<times> castore" where
  "put_nar fuel env io now file_path d st =
     (let h = hash_of_file_path file_path in
      case parse_nar d of
        Inl e \<Rightarrow> (Err (NarError e), st)
      | Inr n \<Rightarrow>
         (case ingest_node env io n st of
            (Inl e, st1) \<Rightarrow> (Err e, rollback st st1)
          | (Inr root, st1) \<Rightarrow>
             (case collect_file_digests_from_tree fuel env (st_db st1) root [] of
                None \<Rightarrow> (Err StreamOutOfFuel, rollback st st1)
              | Some fds \<Rightarrow>
                  let db = fold (insert_path_file h) fds (st_db st1);
                      info = (case load_metadata_with_conn h db of
                                Some existing \<Rightarrow> existing | None \<Rightarrow> placeholder_info env h d);
                      db = store_metadata_with_conn env now h info root db
                  in (Ok True, invalidate_stats_cache (int now)
                       (path_bloom_insert env h (st1\<lparr>st_db := db\<rparr>))))))"

subsection \<open>Eviction and access times\<close>

definition path_file_digests :: "string \<Rightarrow> castore_db \<Rightarrow> digest list" where
  "path_file_digests h db =
     List.map_filter (\<lambda>r. if fst (fst r) = h then try_digest (snd (fst r)) else None) (db_path_files db)"

definition delete_path_rows :: "string \<Rightarrow> castore_db \<Rightarrow> castore_db" where
  "delete_path_rows h db =
     db\<lparr>db_paths := delete_key h (db_paths db),
        db_path_files := filter (\<lambda>r. fst (fst r) \<noteq> h) (db_path_files db)\<rparr>"

text \<open>Step 3: a file no other path refers to loses its rows; its chunks are to be checked.\<close>

fun drop_files :: "digest list \<Rightarrow> castore_db \<Rightarrow> digest list \<Rightarrow> digest list \<times> castore_db" where
  "drop_files [] db check = (check, db)"
| "drop_files (f # fs) db check =
     (if list_ex (\<lambda>r. snd (fst r) = f) (db_path_files db) then drop_files fs db check
      else let chunks = map fst (rows_of f (db_file_chunks db));
               check = fold List.insert (List.map_filter try_digest chunks) check
           in drop_files fs (db\<lparr>db_file_chunks := filter (\<lambda>r. fst (fst r) \<noteq> f) (db_file_chunks db)\<rparr>) check)"

text \<open>Step 4: a chunk no remaining file row names is deleted, from the table and from disk.\<close>

fun drop_chunks :: "(string \<Rightarrow> bool) \<Rightarrow> digest list \<Rightarrow> castore \<Rightarrow> nat \<Rightarrow> nat \<times> castore" where
  "drop_chunks io [] st bytes_freed = (bytes_freed, st)"
| "drop_chunks io (g # gs) st bytes_freed =
     (if list_ex (\<lambda>r. fst (snd r) = g) (db_file_chunks (st_db st)) then drop_chunks io gs st bytes_freed
      else let path = chunk_path (hex_encode g);
               sz = (case map_of (db_chunks (st_db st)) g of None \<Rightarrow> 0 | Some row \<Rightarrow> ck_size row);
               db = (st_db st)\<lparr>db_chunks := delete_key g (db_chunks (st_db st))\<rparr>;
               files = (if io path then delete_key path (st_files st) else st_files st)
           in drop_chunks io gs (st\<lparr>st_db := db, st_files := files\<rparr>) (bytes_freed + sz))"

definition evict_path :: "(string \<Rightarrow> bool) \<Rightarrow> nat \<Rightarrow> string \<Rightarrow> castore \<Rightarrow> nat \<times> castore" where
  "evict_path io now h st =
     (let file_digests = path_file_digests h (st_db st); db = delete_path_rows h (st_db st) in
      if file_digests = [] then (0, st\<lparr>st_db := db\<rparr>)
      else let (check, db) = drop_files file_digests db [];
               (bytes_freed, st) = drop_chunks io check (st\<lparr>st_db := db\<rparr>) 0
           in (bytes_freed, invalidate_stats_cache (int now) st))"

definition update_access :: "nat \<Rightarrow> string list \<Rightarrow> castore \<Rightarrow> castore" where
  "update_access now hashes st =
     (let quantized = now - now mod 3600;
          touch = (\<lambda>h ps. update_key h (\<lambda>r. r\<lparr>pr_last_access := quantized\<rparr>) ps)
      in st\<lparr>st_db := (st_db st)\<lparr>db_paths := fold touch (remdups hashes) (db_paths (st_db st))\<rparr>\<rparr>)"

definition total_chunk_bytes :: "castore \<Rightarrow> nat" where
  "total_chunk_bytes st = sum_list (map (\<lambda>r. ck_size (snd r)) (db_chunks (st_db st)))"

definition total_paths :: "castore \<Rightarrow> nat" where
  "total_paths st = length (db_paths (st_db st))"

text \<open>Rows with the same access time come in row order (SQLite leaves their order open).\<close>

definition paths_by_access_asc :: "castore \<Rightarrow> (string \<times> nat) list" where
  "paths_by_access_asc st =
     map (\<lambda>r. (fst r, pr_nar_size (snd r)))
       (sort_key (\<lambda>r. pr_last_access (snd r)) (db_paths (st_db st)))"

end
