(* ===== verification/CastoreInv.thy ===== *)
theory CastoreInv
  imports Castore
begin

text \<open>
  The invariant of the server's store and the relation to its abstract content, a map from store
  hashes to archives.  Each operation is shown to preserve the invariant and to extend the tables
  or to remove exactly what nothing refers to; theory \<open>CastoreRefine\<close> composes them.
  \<open>U\<close> is a set of byte strings on which \<open>blake3\<close> has no collision.
\<close>

subsection \<open>Paths of chunk files do not clash\<close>

lemma hex_digit_inj: "a < 16 \<Longrightarrow> b < 16 \<Longrightarrow> hex_digit a = hex_digit b \<longleftrightarrow> a = b"
proof -
  have "distinct ''0123456789abcdef''" by simp
  then show "a < 16 \<Longrightarrow> b < 16 \<Longrightarrow> hex_digit a = hex_digit b \<longleftrightarrow> a = b"
    unfolding hex_digit_def by (subst nth_eq_iff_index_eq) auto
qed

lemma hex_encode_Cons:
  "hex_encode (c # d) = hex_digit (of_char c div 16) # hex_digit (of_char c mod 16) # hex_encode d"
  by (simp add: hex_encode_def)

lemma hex_encode_inj: "hex_encode d = hex_encode e \<Longrightarrow> d = e"
proof (induction d arbitrary: e)
  case Nil
  then show ?case by (cases e) (auto simp: hex_encode_def)
next
  case (Cons c d)
  then obtain b e' where e: "e = b # e'" by (cases e) (auto simp: hex_encode_def)
  have lt: "(of_char x :: nat) div 16 < 16" for x :: char
    using of_char_less_256[of x] by (simp add: less_mult_imp_div_less)
  have "(of_char c :: nat) div 16 = of_char b div 16" "(of_char c :: nat) mod 16 = of_char b mod 16"
    using Cons.prems hex_digit_inj lt by (auto simp: e hex_encode_Cons)
  then have "(of_char c :: nat) = of_char b" by (metis div_mult_mod_eq)
  then have "c = b" by simp
  then show ?case using Cons by (simp add: e hex_encode_Cons)
qed

lemma length_chunk_path: "length (chunk_path h) = 14 + min 4 (length h) + length h"
  by (simp add: chunk_path_def)

lemma chunk_path_inj: "chunk_path h = chunk_path h' \<Longrightarrow> h = h'"
proof -
  assume eq: "chunk_path h = chunk_path h'"
  then have "length (chunk_path h) = length (chunk_path h')" by simp
  then have "length h = length h'" unfolding length_chunk_path by linarith
  then show "h = h'" using eq by (simp add: chunk_path_def)
qed

definition cpath :: "digest \<Rightarrow> string" where
  "cpath g = chunk_path (hex_encode g)"

lemma cpath_inj [simp]: "cpath g = cpath g' \<longleftrightarrow> g = g'"
  unfolding cpath_def using chunk_path_inj hex_encode_inj by blast

subsection \<open>The invariant\<close>

text \<open>A row with a level has a file that decompresses to the chunk; the level need not be the one recorded.\<close>

definition chunk_file :: "cas_env \<Rightarrow> int option \<Rightarrow> bytes \<Rightarrow> bytes option \<Rightarrow> bool" where
  "chunk_file env level c f \<longleftrightarrow>
     (case level of None \<Rightarrow> f = Some c | Some _ \<Rightarrow> \<exists>l. f = Some (zstd_compress env l c))"

definition chunk_ok :: "cas_env \<Rightarrow> bytes set \<Rightarrow> (string, bytes) table \<Rightarrow> digest \<Rightarrow> chunk_row \<Rightarrow> bool" where
  "chunk_ok env U files g row \<longleftrightarrow> (\<exists>c \<in> U. g = blake3 env c \<and> ck_size row = length c \<and>
     length c \<le> CHUNK_MAX * 2 \<and>
     (if length c < INLINE_THRESHOLD then ck_data row = Some c
      else ck_data row = None \<and> chunk_file env (ck_zstd_level row) c (map_of files (cpath g))))"

definition file_stored :: "cas_env \<Rightarrow> castore_db \<Rightarrow> bytes \<Rightarrow> bool" where
  "file_stored env db d \<longleftrightarrow>
     (\<forall>i < length (cdc env d). map_of (db_file_chunks db) (blake3 env d, i) =
        Some (blake3 env (cdc env d ! i), length (cdc env d ! i))) \<and>
     (\<forall>c \<in> set (cdc env d). map_of (db_chunks db) (blake3 env c) \<noteq> None)"

definition dir_stored :: "cas_env \<Rightarrow> castore_db \<Rightarrow> ca_directory \<Rightarrow> bool" where
  "dir_stored env db x \<longleftrightarrow> map_of (db_directories db) (blake3 env (encode_dir env x)) = Some (encode_dir env x)"

definition db_inv :: "cas_env \<Rightarrow> bytes set \<Rightarrow> castore_db \<Rightarrow> bool" where
  "db_inv env U db \<longleftrightarrow>
     wf_table (db_paths db) \<and> wf_table (db_chunks db) \<and> wf_table (db_file_chunks db) \<and>
     wf_table (db_directories db) \<and> wf_table (db_path_files db) \<and>
     (\<forall>f i r. map_of (db_file_chunks db) (f, i) = Some r \<longrightarrow>
        (\<exists>d \<in> U. f = blake3 env d \<and> set (cdc env d) \<subseteq> U \<and> i < length (cdc env d) \<and> file_stored env db d)) \<and>
     (\<forall>g b. map_of (db_directories db) g = Some b \<longrightarrow> b \<in> U \<and> g = blake3 env b \<and> (\<exists>x. b = encode_dir env x)) \<and>
     (\<forall>h f. map_of (db_path_files db) (h, f) \<noteq> None \<longrightarrow> length f = 32)"

definition files_inv :: "cas_env \<Rightarrow> bytes set \<Rightarrow> castore \<Rightarrow> bool" where
  "files_inv env U st \<longleftrightarrow> wf_table (st_files st) \<and>
     (\<forall>g row. map_of (db_chunks (st_db st)) g = Some row \<longrightarrow> chunk_ok env U (st_files st) g row)"

text \<open>Every chunk file belongs to a row.\<close>

definition no_orphans :: "castore \<Rightarrow> bool" where
  "no_orphans st \<longleftrightarrow> (\<forall>g. map_of (st_files st) (cpath g) \<noteq> None \<longrightarrow> map_of (db_chunks (st_db st)) g \<noteq> None)"

definition cache_inv :: "cas_env \<Rightarrow> castore \<Rightarrow> bool" where
  "cache_inv env st \<longleftrightarrow> dc_wf (st_dir_cache st) \<and>
     (\<forall>g x. map_of (dc_map (st_dir_cache st)) g = Some x \<longrightarrow>
        map_of (db_directories (st_db st)) g = Some (encode_dir env x))"

definition castore_inv :: "cas_env \<Rightarrow> bytes set \<Rightarrow> castore \<Rightarrow> bool" where
  "castore_inv env U st \<longleftrightarrow> db_inv env U (st_db st) \<and> files_inv env U st \<and> cache_inv env st"

lemma castore_invD:
  assumes "castore_inv env U st"
  shows "db_inv env U (st_db st)" "files_inv env U st" "cache_inv env st"
  using assms by (auto simp: castore_inv_def)

text \<open>How operations extend a state: every row stays, with its columns.\<close>

definition extends :: "castore \<Rightarrow> castore \<Rightarrow> bool" where
  "extends st st' \<longleftrightarrow>
     map_of (db_chunks (st_db st)) \<subseteq>\<^sub>m map_of (db_chunks (st_db st')) \<and>
     map_of (db_file_chunks (st_db st)) \<subseteq>\<^sub>m map_of (db_file_chunks (st_db st')) \<and>
     map_of (db_directories (st_db st)) \<subseteq>\<^sub>m map_of (db_directories (st_db st')) \<and>
     map_of (st_files st) \<subseteq>\<^sub>m map_of (st_files st') \<and>
     db_paths (st_db st') = db_paths (st_db st) \<and> db_path_files (st_db st') = db_path_files (st_db st) \<and>
     db_meta (st_db st') = db_meta (st_db st) \<and>
     st_dir_cache st' = st_dir_cache st"

lemma extends_refl [simp]: "extends st st"
  by (simp add: extends_def)

lemma extends_trans: "extends st st1 \<Longrightarrow> extends st1 st2 \<Longrightarrow> extends st st2"
  unfolding extends_def by (metis map_le_trans)

lemma file_stored_mono:
  assumes "file_stored env db d" and "map_of (db_chunks db) \<subseteq>\<^sub>m map_of (db_chunks db')"
    and "map_of (db_file_chunks db) \<subseteq>\<^sub>m map_of (db_file_chunks db')"
  shows "file_stored env db' d"
  using assms unfolding file_stored_def map_le_def by (metis domIff option.distinct(1))

lemma dir_stored_mono:
  "dir_stored env db x \<Longrightarrow> map_of (db_directories db) \<subseteq>\<^sub>m map_of (db_directories db') \<Longrightarrow> dir_stored env db' x"
  unfolding dir_stored_def map_le_def by (metis domI)

lemma chunk_ok_mono:
  "chunk_ok env U files g row \<Longrightarrow> map_of files \<subseteq>\<^sub>m map_of files' \<Longrightarrow> chunk_ok env U files' g row"
proof -
  assume ok: "chunk_ok env U files g row" and le: "map_of files \<subseteq>\<^sub>m map_of files'"
  have "chunk_file env l c (map_of files' p)" if "chunk_file env l c (map_of files p)" for l c p
  proof -
    have "map_of files p \<noteq> None" using that by (auto simp: chunk_file_def split: option.splits)
    then have "map_of files' p = map_of files p" using le by (metis domIff map_le_def)
    then show ?thesis using that by simp
  qed
  then show ?thesis using ok unfolding chunk_ok_def by metis
qed

lemma extends_stored:
  assumes "extends st st'"
  shows "file_stored env (st_db st) d \<Longrightarrow> file_stored env (st_db st') d"
    and "dir_stored env (st_db st) x \<Longrightarrow> dir_stored env (st_db st') x"
  using assms file_stored_mono dir_stored_mono unfolding extends_def by blast+

subsection \<open>Reading back\<close>

lemma get_chunk_stored:
  assumes env: "cas_env_ok env" and inj: "inj_on (blake3 env) U" and inv: "files_inv env U st"
    and c: "c \<in> U" "map_of (db_chunks (st_db st)) (blake3 env c) \<noteq> None"
  shows "get_chunk_by_digest env st (blake3 env c) = Ok (Some c)"
proof -
  obtain row where row: "map_of (db_chunks (st_db st)) (blake3 env c) = Some row" using c(2) by auto
  then have "chunk_ok env U (st_files st) (blake3 env c) row" using inv by (simp add: files_inv_def)
  then obtain c' where c': "c' \<in> U" "blake3 env c = blake3 env c'" "length c' \<le> CHUNK_MAX * 2"
    "if length c' < INLINE_THRESHOLD then ck_data row = Some c'
      else ck_data row = None \<and> chunk_file env (ck_zstd_level row) c' (map_of (st_files st) (cpath (blake3 env c)))"
    by (auto simp: chunk_ok_def)
  then have "c' = c" using inj c(1) by (auto dest: inj_onD)
  with c' row env show ?thesis
    by (auto simp: get_chunk_by_digest_def cpath_def cas_env_okD(7) chunk_file_def split: if_splits option.split option.splits)
qed

lemma file_rows_stored:
  assumes inj: "inj_on (blake3 env) U" and inv: "db_inv env U (st_db st)"
    and d: "d \<in> U" "file_stored env (st_db st) d"
  shows "file_rows st (blake3 env d) = map (\<lambda>c. (blake3 env c, length c)) (cdc env d)"
  unfolding file_rows_def
proof (rule rows_of_eq)
  show "wf_table (db_file_chunks (st_db st))" using inv by (simp add: db_inv_def)
next
  fix i
  show "map_of (db_file_chunks (st_db st)) (blake3 env d, i) =
    (if i < length (map (\<lambda>c. (blake3 env c, length c)) (cdc env d))
     then Some (map (\<lambda>c. (blake3 env c, length c)) (cdc env d) ! i) else None)"
  proof (cases "i < length (cdc env d)")
    case True
    then show ?thesis using d(2) by (simp add: file_stored_def)
  next
    case False
    have "map_of (db_file_chunks (st_db st)) (blake3 env d, i) = None"
    proof (rule ccontr)
      assume "\<not> ?thesis"
      then obtain r where "map_of (db_file_chunks (st_db st)) (blake3 env d, i) = Some r" by blast
      then obtain d' where "d' \<in> U" "blake3 env d = blake3 env d'" "i < length (cdc env d')"
        using inv unfolding db_inv_def by blast
      moreover from this have "d = d'" using inj d(1) by (blast dest: inj_onD)
      ultimately show False using False by simp
    qed
    then show ?thesis using False by simp
  qed
qed

lemma map_filter_try_digest:
  "cas_env_ok env \<Longrightarrow> List.map_filter (try_digest \<circ> fst) (map (\<lambda>c. (blake3 env c, length c)) cs) = map (blake3 env) cs"
  by (induction cs) (simp_all add: List.map_filter_simps try_digest_def cas_env_okD(1))

lemma read_chunks_stored:
  "\<forall>c \<in> set cs. get_chunk_by_digest env st (blake3 env c) = Ok (Some c) \<Longrightarrow>
     read_chunks env st (map (blake3 env) cs) = Ok (concat cs)"
  by (induction cs) auto

lemma read_rows_stored:
  "cas_env_ok env \<Longrightarrow> \<forall>c \<in> set cs. get_chunk_by_digest env st (blake3 env c) = Ok (Some c) \<Longrightarrow>
     read_rows env st (map (\<lambda>c. (blake3 env c, length c)) cs) = Ok (concat cs)"
  by (induction cs) (auto simp: try_digest_def cas_env_okD(1))

lemma file_data_stored:
  assumes env: "cas_env_ok env" and inj: "inj_on (blake3 env) U" and inv: "castore_inv env U st"
    and d: "d \<in> U" "set (cdc env d) \<subseteq> U" "file_stored env (st_db st) d"
  shows "write_file_data_to env st (blake3 env d) = Ok d" "read_file_data env st (blake3 env d) = Ok d"
proof -
  have ch: "\<forall>c \<in> set (cdc env d). get_chunk_by_digest env st (blake3 env c) = Ok (Some c)"
    using get_chunk_stored[OF env inj castore_invD(2)[OF inv]] d(2,3) by (auto simp: file_stored_def)
  note rows = file_rows_stored[OF inj castore_invD(1)[OF inv] d(1,3)]
  show "write_file_data_to env st (blake3 env d) = Ok d"
    unfolding write_file_data_to_def rows map_filter_try_digest[OF env]
    using read_chunks_stored[OF ch] cas_env_okD(2)[OF env] by simp
  show "read_file_data env st (blake3 env d) = Ok d"
    unfolding read_file_data_def rows using read_rows_stored[OF env ch] cas_env_okD(2)[OF env] by simp
qed

lemma encode_dir_inj: "cas_env_ok env \<Longrightarrow> encode_dir env x = encode_dir env y \<longleftrightarrow> x = y"
  by (metis cas_env_okD(5) option.inject)

lemma load_directory_stored:
  assumes env: "cas_env_ok env" and inv: "castore_inv env U st" and x: "dir_stored env (st_db st) x"
  shows "fst (load_directory env (blake3 env (encode_dir env x)) st) = Ok x"
proof (cases "map_of (dc_map (st_dir_cache st)) (blake3 env (encode_dir env x))")
  case None
  then show ?thesis using x env
    by (simp add: load_directory_def dir_cache_get_def dir_stored_def cas_env_okD(5) Let_def)
next
  case (Some y)
  then have "encode_dir env y = encode_dir env x"
    using inv x by (auto simp: castore_inv_def cache_inv_def dir_stored_def)
  then have "y = x" using encode_dir_inj[OF env] by simp
  then show ?thesis using Some by (simp add: load_directory_def dir_cache_get_def)
qed

text \<open>What the tables must hold for the archive \<open>n\<close>.\<close>

definition tree_stored :: "cas_env \<Rightarrow> castore_db \<Rightarrow> nar_node \<Rightarrow> bool" where
  "tree_stored env db n \<longleftrightarrow>
     (\<forall>d \<in> set (files_of n). file_stored env db d) \<and> (\<forall>x \<in> set (dirs_of env n). dir_stored env db x)"

lemma tree_stored_represents:
  assumes "cas_env_ok env" "inj_on (blake3 env) U" "castore_inv env U st" "blobs_of env n \<subseteq> U"
    and "tree_stored env (st_db st) n"
  shows "represents (castore_reader env st) (root_of env n) n"
proof (rule represents_root_of(1)[OF assms(1)]; intro ballI)
  fix d assume d: "d \<in> set (files_of n)"
  then have "d \<in> U" "set (cdc env d) \<subseteq> U" using assms(4) by (auto simp: blobs_of_def)
  then show "cr_write_file (castore_reader env st) (blake3 env d) = Ok d"
    using d assms by (simp add: castore_reader_def file_data_stored tree_stored_def)
next
  fix x assume "x \<in> set (dirs_of env n)"
  then show "cr_load_dir (castore_reader env st) (blake3 env (encode_dir env x)) = Ok x"
    using assms load_directory_stored[OF assms(1,3)] by (simp add: castore_reader_def tree_stored_def)
qed

subsection \<open>Storing a chunk\<close>

lemma castore_inv_chunk_bloom [simp]:
  "castore_inv env U (chunk_bloom_insert g st) = castore_inv env U st"
  "no_orphans (chunk_bloom_insert g st) = no_orphans st"
  "extends st0 (chunk_bloom_insert g st) = extends st0 st"
  "st_db (chunk_bloom_insert g st) = st_db st"
  by (simp_all add: chunk_bloom_insert_def castore_inv_def files_inv_def cache_inv_def no_orphans_def extends_def)

text \<open>Adding a chunk row, and the chunk file it needs.\<close>

lemma db_inv_insert_chunk_row:
  assumes "db_inv env U db"
  shows "db_inv env U (insert_chunk_row g sz l dsk dat db)"
proof -
  let ?db = "insert_chunk_row g sz l dsk dat db"
  have le: "map_of (db_chunks db) \<subseteq>\<^sub>m map_of (db_chunks ?db)"
    by (auto simp: insert_chunk_row_def table_simps map_le_def)
  have "file_stored env ?db d" if "file_stored env db d" for d
    using file_stored_mono[OF that le] by (simp add: insert_chunk_row_def)
  then show ?thesis using assms unfolding db_inv_def
    by (auto simp: insert_chunk_row_def wf_insert_or_ignore) metis
qed

lemma store_chunk_steps:
  assumes env: "cas_env_ok env" and inj: "inj_on (blake3 env) U" and inv: "castore_inv env U st"
    and orph: "no_orphans st" and c: "c \<in> U" "length c \<le> CHUNK_MAX * 2" and io: "io (cpath (blake3 env c))"
  shows "\<exists>st'. store_chunk env io c st = (Ok (blake3 env c), st') \<and> castore_inv env U st' \<and>
    no_orphans st' \<and> extends st st' \<and> map_of (db_chunks (st_db st')) (blake3 env c) \<noteq> None"
proof -
  let ?g = "blake3 env c"
  let ?old = "map_of (db_chunks (st_db st)) ?g"
  have wf: "wf_table (st_files st)"
    and rows: "\<And>g row. map_of (db_chunks (st_db st)) g = Some row \<Longrightarrow> chunk_ok env U (st_files st) g row"
    using castore_invD(2)[OF inv] by (auto simp: files_inv_def)
  have ok_c: "if length c < INLINE_THRESHOLD then ck_data row = Some c
      else ck_data row = None \<and> chunk_file env (ck_zstd_level row) c (map_of (st_files st) (cpath ?g))"
    if old: "?old = Some row" for row
  proof -
    obtain c' where "c' \<in> U" "?g = blake3 env c'" and c': "if length c' < INLINE_THRESHOLD then ck_data row = Some c'
      else ck_data row = None \<and> chunk_file env (ck_zstd_level row) c' (map_of (st_files st) (cpath ?g))"
      using rows[OF old] by (auto simp: chunk_ok_def)
    then have "c' = c" using inj c(1) by (auto dest: inj_onD)
    show ?thesis using c' unfolding \<open>c' = c\<close> .
  qed
  define finish where "finish f l dsk = chunk_bloom_insert ?g
    (st\<lparr>st_files := f, st_db := insert_chunk_row ?g (length c) l dsk (inline_of c) (st_db st)\<rparr>)" for f l dsk
  have fin: "castore_inv env U (finish f l dsk) \<and> no_orphans (finish f l dsk) \<and> extends st (finish f l dsk) \<and>
      map_of (db_chunks (st_db (finish f l dsk))) ?g \<noteq> None"
    if f: "wf_table f" "map_of (st_files st) \<subseteq>\<^sub>m map_of f"
      "\<And>g. map_of f (cpath g) \<noteq> None \<Longrightarrow> map_of (st_files st) (cpath g) = None \<Longrightarrow> g = ?g"
      and new: "?old = None \<Longrightarrow> \<not> length c < INLINE_THRESHOLD \<Longrightarrow>
        map_of f (cpath ?g) = Some (case l of None \<Rightarrow> c | Some l \<Rightarrow> zstd_compress env l c)"
    for f l dsk
  proof -
    let ?st = "finish f l dsk"
    have db: "st_db ?st = insert_chunk_row ?g (length c) l dsk (inline_of c) (st_db st)"
      and files: "st_files ?st = f" and dc: "st_dir_cache ?st = st_dir_cache st"
      by (simp_all add: finish_def chunk_bloom_insert_def)
    have "chunk_ok env U f g row" if r: "map_of (db_chunks (st_db ?st)) g = Some row" for g row
    proof (cases "g = ?g \<and> ?old = None")
      case True
      then have "row = \<lparr>ck_size = length c, ck_ref_count = 1, ck_zstd_level = l, ck_disk_size = dsk,
          ck_data = inline_of c\<rparr>"
        using r by (simp add: db insert_chunk_row_def table_simps)
      moreover have "chunk_file env l c (map_of f (cpath ?g))" if "\<not> length c < INLINE_THRESHOLD"
        using new True that by (auto simp: chunk_file_def split: option.split)
      ultimately show ?thesis using True c unfolding chunk_ok_def by (auto simp: inline_of_def)
    next
      case False
      then have "map_of (db_chunks (st_db st)) g = Some row"
        using r by (auto simp: db insert_chunk_row_def table_simps split: if_splits)
      then show ?thesis using rows chunk_ok_mono[OF _ f(2)] by blast
    qed
    then have "files_inv env U ?st" using f(1) by (simp add: files_inv_def files)
    moreover have "db_inv env U (st_db ?st)"
      unfolding db using castore_invD(1)[OF inv] by (rule db_inv_insert_chunk_row)
    moreover have "cache_inv env ?st"
      using castore_invD(3)[OF inv] by (simp add: cache_inv_def db dc insert_chunk_row_def)
    moreover have "map_of (db_chunks (st_db ?st)) g \<noteq> None" if "map_of f (cpath g) \<noteq> None" for g
    proof (cases "map_of (st_files st) (cpath g)")
      case None
      then show ?thesis using f(3)[OF that] by (simp add: db insert_chunk_row_def table_simps)
    next
      case (Some b)
      then show ?thesis using orph by (auto simp: no_orphans_def db insert_chunk_row_def table_simps)
    qed
    then have "no_orphans ?st" by (simp add: no_orphans_def files)
    moreover have "extends st ?st"
      using f(2) by (auto simp: extends_def db files dc insert_chunk_row_def table_simps map_le_def)
    moreover have "map_of (db_chunks (st_db ?st)) ?g \<noteq> None"
      by (simp add: db insert_chunk_row_def table_simps)
    ultimately show ?thesis by (simp add: castore_inv_def)
  qed
  consider (inline) "length c < INLINE_THRESHOLD"
    | (present) b where "\<not> length c < INLINE_THRESHOLD" "map_of (st_files st) (cpath ?g) = Some b"
    | (fresh) "\<not> length c < INLINE_THRESHOLD" "map_of (st_files st) (cpath ?g) = None" by fastforce
  then show ?thesis
  proof cases
    case inline
    then have "store_chunk env io c st = (Ok ?g, finish (st_files st) None 0)"
      by (simp add: store_chunk_def bindS_def write_chunk_file_def finish_def)
    then show ?thesis using fin[of "st_files st" None 0] wf inline by auto
  next
    case present
    then have "store_chunk env io c st = (Ok ?g, finish (st_files st) None (length b))"
      by (simp add: store_chunk_def bindS_def write_chunk_file_def finish_def cpath_def)
    moreover have "?old \<noteq> None" using orph present(2) by (auto simp: no_orphans_def)
    ultimately show ?thesis using fin[of "st_files st" None "length b"] wf by auto
  next
    case fresh
    let ?z = "zstd_compress env (st_level st) c"
    let ?w = "if length ?z < length c then ?z else c"
    let ?l = "if length ?z < length c then Some (st_level st) else None"
    let ?f = "insert_or_replace (cpath ?g) ?w (st_files st)"
    have "store_chunk env io c st = (Ok ?g, finish ?f ?l (length ?w))"
      using fresh io by (simp add: store_chunk_def bindS_def write_chunk_file_def finish_def cpath_def Let_def)
    moreover have "map_of (st_files st) \<subseteq>\<^sub>m map_of ?f" using fresh by (auto simp: table_simps map_le_def)
    moreover have "g = ?g" if "map_of ?f (cpath g) \<noteq> None" "map_of (st_files st) (cpath g) = None" for g
      using that by (auto simp: table_simps split: if_splits)
    moreover have "map_of ?f (cpath ?g) = Some (case ?l of None \<Rightarrow> c | Some l \<Rightarrow> zstd_compress env l c)"
      by (simp add: table_simps)
    ultimately show ?thesis using fin[of ?f ?l "length ?w"] wf_insert_or_replace[OF wf, of "cpath ?g" ?w] by blast
  qed
qed

subsection \<open>Recording a file and a directory\<close>

lemma insert_file_chunk_rows_frame [simp]:
  "db_chunks (insert_file_chunk_rows fd i rows db) = db_chunks db"
  "db_directories (insert_file_chunk_rows fd i rows db) = db_directories db"
  "db_paths (insert_file_chunk_rows fd i rows db) = db_paths db"
  "db_path_files (insert_file_chunk_rows fd i rows db) = db_path_files db"
  "db_meta (insert_file_chunk_rows fd i rows db) = db_meta db"
  by (induction fd i rows db rule: insert_file_chunk_rows.induct) (simp_all add: insert_file_chunk_row_def)

lemma map_of_insert_file_chunk_rows:
  "map_of (db_file_chunks (insert_file_chunk_rows fd i rows db)) (f, j) =
     (if f = fd \<and> i \<le> j \<and> j < i + length rows \<and> map_of (db_file_chunks db) (f, j) = None
      then Some (rows ! (j - i)) else map_of (db_file_chunks db) (f, j))"
proof (induction fd i rows db rule: insert_file_chunk_rows.induct)
  case (2 fd i dg sz rows db)
  then show ?case
    by (cases "j = i") (auto simp: insert_file_chunk_row_def table_simps nth_Cons' Suc_diff_le)
qed auto

lemma wf_insert_file_chunk_rows:
  "wf_table (db_file_chunks db) \<Longrightarrow> wf_table (db_file_chunks (insert_file_chunk_rows fd i rows db))"
  by (induction fd i rows db rule: insert_file_chunk_rows.induct)
    (auto simp: insert_file_chunk_row_def)

lemma file_row_cases:
  assumes "db_inv env U db" and "inj_on (blake3 env) U" and "d \<in> U"
    and "map_of (db_file_chunks db) (blake3 env d, j) = Some r"
  shows "file_stored env db d \<and> j < length (cdc env d)"
proof -
  obtain d' where "d' \<in> U" "blake3 env d = blake3 env d'" "j < length (cdc env d')" "file_stored env db d'"
    using assms(1,4) unfolding db_inv_def by blast
  moreover from this have "d' = d" using assms(2,3) by (auto dest: inj_onD)
  ultimately show ?thesis by simp
qed

lemma insert_file_stored:
  assumes inv: "db_inv env U db" and inj: "inj_on (blake3 env) U" and d: "d \<in> U" "set (cdc env d) \<subseteq> U"
    and chunks: "\<forall>c \<in> set (cdc env d). map_of (db_chunks db) (blake3 env c) \<noteq> None"
  defines "db' \<equiv> insert_file_chunk_rows (blake3 env d) 0 (map (\<lambda>c. (blake3 env c, length c)) (cdc env d)) db"
  shows "db_inv env U db'" "file_stored env db' d" "map_of (db_file_chunks db) \<subseteq>\<^sub>m map_of (db_file_chunks db')"
    "\<And>f j. map_of (db_file_chunks db') (f, j) \<noteq> None \<Longrightarrow> map_of (db_file_chunks db) (f, j) = None \<Longrightarrow> f = blake3 env d"
proof -
  let ?rows = "map (\<lambda>c. (blake3 env c, length c)) (cdc env d)"
  have at: "map_of (db_file_chunks db') (f, j) =
      (if f = blake3 env d \<and> j < length (cdc env d) \<and> map_of (db_file_chunks db) (f, j) = None
       then Some (?rows ! j) else map_of (db_file_chunks db) (f, j))" for f j
    unfolding db'_def map_of_insert_file_chunk_rows by auto
  show le: "map_of (db_file_chunks db) \<subseteq>\<^sub>m map_of (db_file_chunks db')"
    unfolding map_le_def using at by (auto simp: split_paired_all)
  show new: "\<And>f j. map_of (db_file_chunks db') (f, j) \<noteq> None \<Longrightarrow> map_of (db_file_chunks db) (f, j) = None \<Longrightarrow> f = blake3 env d"
    using at by (auto split: if_splits)
  have frame: "db_chunks db' = db_chunks db" "db_directories db' = db_directories db"
    "db_paths db' = db_paths db" "db_path_files db' = db_path_files db" by (simp_all add: db'_def)
  show stored: "file_stored env db' d"
  proof -
    have "map_of (db_file_chunks db') (blake3 env d, j) = Some (?rows ! j)" if "j < length (cdc env d)" for j
      using at[of "blake3 env d" j] file_row_cases[OF inv inj d(1), of j] that
      by (cases "map_of (db_file_chunks db) (blake3 env d, j)") (auto simp: file_stored_def)
    then show ?thesis using chunks by (simp add: file_stored_def frame)
  qed
  have keep: "file_stored env db e \<Longrightarrow> file_stored env db' e" for e
    using le frame(1) by (auto intro: file_stored_mono)
  have "\<exists>e \<in> U. f = blake3 env e \<and> set (cdc env e) \<subseteq> U \<and> j < length (cdc env e) \<and> file_stored env db' e"
    if r: "map_of (db_file_chunks db') (f, j) = Some r" for f j r
  proof (cases "map_of (db_file_chunks db) (f, j)")
    case None
    then have "f = blake3 env d" "j < length (cdc env d)" using at[of f j] r by (auto split: if_splits)
    then show ?thesis using d stored by blast
  next
    case (Some q)
    then obtain e where "e \<in> U" "f = blake3 env e" "set (cdc env e) \<subseteq> U" "j < length (cdc env e)" "file_stored env db e"
      using inv unfolding db_inv_def by blast
    then show ?thesis using keep by blast
  qed
  moreover have "wf_table (db_file_chunks db')"
    unfolding db'_def using inv by (intro wf_insert_file_chunk_rows) (simp add: db_inv_def)
  ultimately show "db_inv env U db'" using inv by (simp add: db_inv_def frame)
qed

lemma insert_directory_stored:
  assumes inv: "db_inv env U db" and inj: "inj_on (blake3 env) U" and x: "encode_dir env x \<in> U"
  defines "r \<equiv> insert_directory env x db"
  shows "fst r = blake3 env (encode_dir env x)" "db_inv env U (snd r)" "dir_stored env (snd r) x"
    "map_of (db_directories db) \<subseteq>\<^sub>m map_of (db_directories (snd r))"
    "db_chunks (snd r) = db_chunks db" "db_file_chunks (snd r) = db_file_chunks db"
    "db_paths (snd r) = db_paths db" "db_path_files (snd r) = db_path_files db" "db_meta (snd r) = db_meta db"
proof -
  let ?b = "encode_dir env x"
  have at: "map_of (db_directories (snd r)) g =
      (if g = blake3 env ?b \<and> map_of (db_directories db) g = None then Some ?b else map_of (db_directories db) g)" for g
    by (auto simp: r_def insert_directory_def Let_def table_simps)
  show frame: "fst r = blake3 env (encode_dir env x)"
    "db_chunks (snd r) = db_chunks db" "db_file_chunks (snd r) = db_file_chunks db"
    "db_paths (snd r) = db_paths db" "db_path_files (snd r) = db_path_files db" "db_meta (snd r) = db_meta db"
    by (simp_all add: r_def insert_directory_def Let_def)
  show "map_of (db_directories db) \<subseteq>\<^sub>m map_of (db_directories (snd r))"
    unfolding map_le_def using at by auto
  have dirs: "b \<in> U \<and> g = blake3 env b \<and> (\<exists>x. b = encode_dir env x)"
    if "map_of (db_directories db) g = Some b" for g b using inv that unfolding db_inv_def by blast
  show "dir_stored env (snd r) x"
  proof (cases "map_of (db_directories db) (blake3 env ?b)")
    case None
    then show ?thesis using at by (simp add: dir_stored_def)
  next
    case (Some b)
    then have "b = ?b" using dirs inj x by (blast dest: inj_onD)
    then show ?thesis using at Some by (simp add: dir_stored_def)
  qed
  have "b \<in> U \<and> g = blake3 env b \<and> (\<exists>x. b = encode_dir env x)"
    if "map_of (db_directories (snd r)) g = Some b" for g b
    using that at[of g] dirs[of g b] x by (auto split: if_splits)
  moreover have "wf_table (db_directories (snd r))"
    using inv by (auto simp: r_def insert_directory_def Let_def db_inv_def)
  moreover have "file_stored env (snd r) e = file_stored env db e" for e by (simp add: file_stored_def frame)
  ultimately show "db_inv env U (snd r)" using inv unfolding db_inv_def by (simp add: frame)
qed

subsection \<open>Ingesting an archive\<close>

definition added_files :: "castore \<Rightarrow> castore \<Rightarrow> digest set \<Rightarrow> bool" where
  "added_files st st' F \<longleftrightarrow> (\<forall>f j. map_of (db_file_chunks (st_db st')) (f, j) \<noteq> None \<longrightarrow>
     map_of (db_file_chunks (st_db st)) (f, j) \<noteq> None \<or> f \<in> F)"

lemma added_files_trans: "added_files st st1 F \<Longrightarrow> added_files st1 st2 G \<Longrightarrow> added_files st st2 (F \<union> G)"
  unfolding added_files_def by blast

lemma store_chunk_file_chunks:
  "db_file_chunks (st_db (snd (store_chunk env io c st))) = db_file_chunks (st_db st)"
  by (auto simp: store_chunk_def bindS_def write_chunk_file_def chunk_bloom_insert_def insert_chunk_row_def
      Let_def split: prod.splits sum.splits option.splits if_splits)

lemma ingest_chunks_steps:
  assumes env: "cas_env_ok env" and inj: "inj_on (blake3 env) U" and io: "\<And>p. io p"
  shows "castore_inv env U st \<Longrightarrow> no_orphans st \<Longrightarrow> \<forall>c \<in> set cs. c \<in> U \<and> length c \<le> CHUNK_MAX * 2 \<Longrightarrow>
    \<exists>st'. ingest_chunks env io cs st = (Ok (map (\<lambda>c. (blake3 env c, length c)) cs), st') \<and>
      castore_inv env U st' \<and> no_orphans st' \<and> extends st st' \<and> added_files st st' {} \<and>
      (\<forall>c \<in> set cs. map_of (db_chunks (st_db st')) (blake3 env c) \<noteq> None)"
proof (induction cs arbitrary: st)
  case Nil
  then show ?case by (simp add: returnS_def added_files_def)
next
  case (Cons c cs)
  obtain st1 where 1: "store_chunk env io c st = (Ok (blake3 env c), st1)" "castore_inv env U st1"
      "no_orphans st1" "extends st st1" "map_of (db_chunks (st_db st1)) (blake3 env c) \<noteq> None"
    using store_chunk_steps[OF env inj Cons.prems(1,2), of c io] Cons.prems(3) io by auto
  obtain st2 where 2: "ingest_chunks env io cs st1 = (Ok (map (\<lambda>c. (blake3 env c, length c)) cs), st2)"
      "castore_inv env U st2" "no_orphans st2" "extends st1 st2" "added_files st1 st2 {}"
      "\<forall>c \<in> set cs. map_of (db_chunks (st_db st2)) (blake3 env c) \<noteq> None"
    using Cons.IH[OF 1(2,3)] Cons.prems(3) by auto
  have "map_of (db_chunks (st_db st2)) (blake3 env c) \<noteq> None"
    using 1(5) 2(4) by (auto simp: extends_def map_le_def dom_def)
  moreover have "added_files st st1 {}"
    using store_chunk_file_chunks[of env io c st] 1(1) by (simp add: added_files_def)
  ultimately show ?case
    using 1 2 extends_trans[of st st1 st2] added_files_trans[of st st1 "{}" st2 "{}"]
    by (auto simp: bindS_def returnS_def)
qed

lemma extends_db:
  "map_of (db_file_chunks (st_db st)) \<subseteq>\<^sub>m map_of (db_file_chunks db) \<Longrightarrow>
   map_of (db_chunks (st_db st)) \<subseteq>\<^sub>m map_of (db_chunks db) \<Longrightarrow>
   map_of (db_directories (st_db st)) \<subseteq>\<^sub>m map_of (db_directories db) \<Longrightarrow>
   db_paths db = db_paths (st_db st) \<Longrightarrow> db_path_files db = db_path_files (st_db st) \<Longrightarrow>
   db_meta db = db_meta (st_db st) \<Longrightarrow> extends st (st\<lparr>st_db := db\<rparr>)"
  by (simp add: extends_def)

lemma castore_inv_db:
  assumes "castore_inv env U st" and "db_inv env U db" and "db_chunks db = db_chunks (st_db st)"
    and "map_of (db_directories (st_db st)) \<subseteq>\<^sub>m map_of (db_directories db)"
  shows "castore_inv env U (st\<lparr>st_db := db\<rparr>)" "no_orphans (st\<lparr>st_db := db\<rparr>) = no_orphans st"
proof -
  have "map_of (db_directories db) g = Some b" if "map_of (db_directories (st_db st)) g = Some b" for g b
    using assms(4) that by (auto simp: map_le_def dom_def)
  then show "castore_inv env U (st\<lparr>st_db := db\<rparr>)"
    using assms(1-3) by (simp add: castore_inv_def files_inv_def cache_inv_def)
  show "no_orphans (st\<lparr>st_db := db\<rparr>) = no_orphans st" using assms(3) by (simp add: no_orphans_def)
qed

lemma ingest_steps:
  assumes env: "cas_env_ok env" and inj: "inj_on (blake3 env) U" and io: "\<And>p. io p"
  shows "castore_inv env U st \<Longrightarrow> no_orphans st \<Longrightarrow> blobs_of env n \<subseteq> U \<Longrightarrow>
      \<exists>st'. ingest_node env io n st = (Ok (root_of env n), st') \<and> castore_inv env U st' \<and> no_orphans st' \<and>
        extends st st' \<and> added_files st st' (blake3 env ` set (files_of n)) \<and> tree_stored env (st_db st') n"
    and "castore_inv env U st \<Longrightarrow> no_orphans st \<Longrightarrow> \<forall>d \<in> set (files_of_entries es). insert d (set (cdc env d)) \<subseteq> U \<Longrightarrow>
      encode_dir env ` set (dirs_of_entries env es) \<subseteq> U \<Longrightarrow>
      \<exists>st'. ingest_entries env io es st = (Ok (entries_of env es), st') \<and> castore_inv env U st' \<and> no_orphans st' \<and>
        extends st st' \<and> added_files st st' (blake3 env ` set (files_of_entries es)) \<and>
        (\<forall>d \<in> set (files_of_entries es). file_stored env (st_db st') d) \<and>
        (\<forall>x \<in> set (dirs_of_entries env es). dir_stored env (st_db st') x)"
  using env inj
proof (induction env n and env es arbitrary: st and st rule: root_of_entries_of.induct)
  case (1 env x d)
  have d: "d \<in> U" "set (cdc env d) \<subseteq> U" using 1(3) by (auto simp: blobs_of_def)
  have "\<forall>c \<in> set (cdc env d). c \<in> U \<and> length c \<le> CHUNK_MAX * 2"
    using d(2) cas_env_okD(4)[OF 1(4)] by (fastforce simp: CHUNK_MAX_def)
  from ingest_chunks_steps[where io = io, OF 1(4,5) io 1(1,2) this] obtain st1 where 2: "ingest_chunks env io (cdc env d) st =
        (Ok (map (\<lambda>c. (blake3 env c, length c)) (cdc env d)), st1)"
      "castore_inv env U st1" "no_orphans st1" "extends st st1" "added_files st st1 {}"
      "\<forall>c \<in> set (cdc env d). map_of (db_chunks (st_db st1)) (blake3 env c) \<noteq> None"
    by (elim exE conjE)
  let ?db = "insert_file_chunk_rows (blake3 env d) 0 (map (\<lambda>c. (blake3 env c, length c)) (cdc env d)) (st_db st1)"
  note ins = insert_file_stored[OF castore_invD(1)[OF 2(2)] 1(5) d 2(6)]
  have run: "ingest_node env io (Regular x d) st = (Ok (root_of env (Regular x d)), st1\<lparr>st_db := ?db\<rparr>)"
    using 2(1) length_concat_cdc[OF 1(4), of d] by (simp add: bindS_def Let_def o_def)
  have "castore_inv env U (st1\<lparr>st_db := ?db\<rparr>)"
    by (rule castore_inv_db(1)[OF 2(2) ins(1)]) simp_all
  moreover have "no_orphans (st1\<lparr>st_db := ?db\<rparr>)" using 2(3) by (simp add: no_orphans_def)
  moreover have "extends st1 (st1\<lparr>st_db := ?db\<rparr>)" by (rule extends_db) (simp_all add: ins(3))
  then have "extends st (st1\<lparr>st_db := ?db\<rparr>)" using 2(4) extends_trans by blast
  moreover have "added_files st (st1\<lparr>st_db := ?db\<rparr>) {blake3 env d}"
    unfolding added_files_def
  proof (intro allI impI)
    fix f j assume "map_of (db_file_chunks (st_db (st1\<lparr>st_db := ?db\<rparr>))) (f, j) \<noteq> None"
    then have "map_of (db_file_chunks (st_db st1)) (f, j) \<noteq> None \<or> f = blake3 env d"
      using ins(4)[of f j] by (cases "map_of (db_file_chunks (st_db st1)) (f, j) = None") simp_all
    then show "map_of (db_file_chunks (st_db st)) (f, j) \<noteq> None \<or> f \<in> {blake3 env d}"
      using 2(5) unfolding added_files_def by blast
  qed
  ultimately show ?case using run ins(2) by (auto simp: tree_stored_def)
next
  case (2 env es)
  have "\<forall>d \<in> set (files_of_entries es). insert d (set (cdc env d)) \<subseteq> U"
    "encode_dir env ` set (dirs_of_entries env es) \<subseteq> U" using 2(4) by (auto simp: blobs_of_def)
  then obtain st1 where 3: "ingest_entries env io es st = (Ok (entries_of env es), st1)"
      "castore_inv env U st1" "no_orphans st1" "extends st st1"
      "added_files st st1 (blake3 env ` set (files_of_entries es))"
      "\<forall>d \<in> set (files_of_entries es). file_stored env (st_db st1) d"
      "\<forall>x \<in> set (dirs_of_entries env es). dir_stored env (st_db st1) x"
    using "2.IH"[OF 2(2,3) _ _ 2(5,6)] by blast
  let ?x = "CaDirectory (entries_of env es)"
  let ?r = "insert_directory env ?x (st_db st1)"
  have x: "encode_dir env ?x \<in> U" using 2(4) by (auto simp: blobs_of_def)
  note ins = insert_directory_stored[OF castore_invD(1)[OF 3(2)] 2(6) x]
  have run: "ingest_node env io (Directory es) st = (Ok (root_of env (Directory es)), st1\<lparr>st_db := snd ?r\<rparr>)"
    using 3(1) ins(1) by (simp add: bindS_def split_def)
  have "castore_inv env U (st1\<lparr>st_db := snd ?r\<rparr>)" "no_orphans (st1\<lparr>st_db := snd ?r\<rparr>)"
    using castore_inv_db[OF 3(2) ins(2,5,4)] 3(3) by simp_all
  moreover have e: "extends st1 (st1\<lparr>st_db := snd ?r\<rparr>)" by (rule extends_db) (simp_all add: ins)
  then have "extends st (st1\<lparr>st_db := snd ?r\<rparr>)" using 3(4) extends_trans by blast
  moreover have "added_files st (st1\<lparr>st_db := snd ?r\<rparr>) (blake3 env ` set (files_of_entries es))"
    using 3(5) by (simp add: added_files_def ins(6))
  moreover have "tree_stored env (snd ?r) (Directory es)"
    using 3(6,7) extends_stored[OF e] ins(3) by (auto simp: tree_stored_def)
  ultimately show ?case using run by auto
next
  case (3 env t)
  then show ?case by (simp add: returnS_def tree_stored_def added_files_def)
next
  case (4 env)
  then show ?case by (simp add: returnS_def added_files_def)
next
  case (5 env name n es)
  have n: "blobs_of env n \<subseteq> U" and es: "\<forall>d \<in> set (files_of_entries es). insert d (set (cdc env d)) \<subseteq> U"
    "encode_dir env ` set (dirs_of_entries env es) \<subseteq> U" using 5(5,6) by (auto simp: blobs_of_def)
  obtain st1 where a: "ingest_node env io n st = (Ok (root_of env n), st1)" "castore_inv env U st1"
      "no_orphans st1" "extends st st1" "added_files st st1 (blake3 env ` set (files_of n))"
      "tree_stored env (st_db st1) n" using "5.IH"(1)[OF 5(3,4) n 5(7,8)] by blast
  obtain st2 where b: "ingest_entries env io es st1 = (Ok (entries_of env es), st2)"
      "castore_inv env U st2" "no_orphans st2" "extends st1 st2"
      "added_files st1 st2 (blake3 env ` set (files_of_entries es))"
      "\<forall>d \<in> set (files_of_entries es). file_stored env (st_db st2) d"
      "\<forall>x \<in> set (dirs_of_entries env es). dir_stored env (st_db st2) x"
    using "5.IH"(2)[OF a(2,3) es 5(7,8)] by blast
  have "ingest_entries env io ((name, n) # es) st = (Ok (entries_of env ((name, n) # es)), st2)"
    using a(1) b(1) by (simp add: bindS_def returnS_def)
  moreover have "added_files st st2 (blake3 env ` set (files_of_entries ((name, n) # es)))"
    using added_files_trans[OF a(5) b(5)] by (simp add: image_Un)
  moreover have "\<forall>d \<in> set (files_of n). file_stored env (st_db st2) d"
      "\<forall>x \<in> set (dirs_of env n). dir_stored env (st_db st2) x"
    using a(6) extends_stored[OF b(4)] by (auto simp: tree_stored_def)
  ultimately show ?case using b extends_trans[OF a(4) b(4)] by auto
qed

end
