(* ===== verification/CastoreRefine.thy ===== *)
theory CastoreRefine
  imports CastoreInv
begin

text \<open>
  The server's store against its specification, a map from store hashes to archives: what
  \<open>put_nar\<close>, \<open>put_narinfo\<close>, \<open>evict_path\<close> and the other operations do to the relation \<open>holds\<close>, and the
  properties of \<open>crates/ekapkgs-serve/src/storage/castore.rs\<close> that follow for every history.
\<close>

subsection \<open>Walking the stored tree\<close>

lemma collect_stored:
  assumes env: "cas_env_ok env"
  shows "nar_fuel n \<le> fuel \<Longrightarrow> \<forall>x \<in> set (dirs_of env n). dir_stored env db x \<Longrightarrow>
      \<exists>acc'. collect_file_digests_from_tree fuel env db (root_of env n) acc = Some acc' \<and>
        set acc' = set acc \<union> blake3 env ` set (files_of n)"
    and "sum_list (map (\<lambda>e. Suc (nar_fuel (snd e))) es) \<le> fuel \<Longrightarrow>
      \<forall>x \<in> set (dirs_of_entries env es). dir_stored env db x \<Longrightarrow>
      \<exists>acc'. collect_entries fuel env db (entries_of env es) acc = Some acc' \<and>
        set acc' = set acc \<union> blake3 env ` set (files_of_entries es)"
  using env
proof (induction env n and env es arbitrary: fuel acc and fuel acc rule: root_of_entries_of.induct)
  case (1 env x d)
  then obtain f where "fuel = Suc f" by (cases fuel) auto
  then show ?case using 1(3) by (simp add: try_digest_def cas_env_okD(1))
next
  case (2 env es)
  then obtain f where f: "fuel = Suc f" "sum_list (map (\<lambda>e. Suc (nar_fuel (snd e))) es) \<le> f"
    by (cases fuel) auto
  let ?x = "CaDirectory (entries_of env es)"
  have "map_of (db_directories db) (blake3 env (encode_dir env ?x)) = Some (encode_dir env ?x)"
    using 2(3) by (simp add: dir_stored_def)
  moreover have "\<forall>x \<in> set (dirs_of_entries env es). dir_stored env db x" using 2(3) by simp
  from "2.IH"[OF f(2) this 2(4), of acc] obtain acc' where
      "collect_entries f env db (entries_of env es) acc = Some acc'"
      "set acc' = set acc \<union> blake3 env ` set (files_of_entries es)" by (elim exE conjE)
  ultimately show ?case using f(1) 2(4) by (simp add: try_digest_def cas_env_okD)
next
  case (3 env t)
  then obtain f where "fuel = Suc f" by (cases fuel) auto
  then show ?case by simp
next
  case (5 env name n es)
  then obtain f where f: "fuel = Suc f" "nar_fuel n \<le> f" "sum_list (map (\<lambda>e. Suc (nar_fuel (snd e))) es) \<le> f"
    by (cases fuel) auto
  have dirs: "\<forall>x \<in> set (dirs_of env n). dir_stored env db x" "\<forall>x \<in> set (dirs_of_entries env es). dir_stored env db x"
    using 5(4) by auto
  from "5.IH"(1)[OF f(2) dirs(1) 5(5), of acc] obtain a where
      a: "collect_file_digests_from_tree f env db (root_of env n) acc = Some a"
      "set a = set acc \<union> blake3 env ` set (files_of n)" by (elim exE conjE)
  from "5.IH"(2)[OF f(3) dirs(2) 5(5), of a] obtain b where
      b: "collect_entries f env db (entries_of env es) a = Some b"
      "set b = set a \<union> blake3 env ` set (files_of_entries es)" by (elim exE conjE)
  show ?case using a b f(1) by (auto simp: image_Un)
qed simp

subsection \<open>The relation to the abstract content\<close>

type_synonym content = "string \<rightharpoonup> nar_node option"

text \<open>A hash maps to \<open>Some (Some n)\<close> once its archive was put, to \<open>Some None\<close> when only its narinfo was.\<close>

definition path_holds :: "cas_env \<Rightarrow> bytes set \<Rightarrow> castore_db \<Rightarrow> string \<Rightarrow> nar_node \<Rightarrow> bool" where
  "path_holds env U db h n \<longleftrightarrow> blobs_of env n \<subseteq> U \<and> tree_stored env db n \<and>
     (\<forall>d \<in> set (files_of n). map_of (db_path_files db) (h, blake3 env d) \<noteq> None)"

definition row_holds :: "cas_env \<Rightarrow> bytes set \<Rightarrow> castore_db \<Rightarrow> string \<Rightarrow> nar_node option \<Rightarrow> path_row \<Rightarrow> bool" where
  "row_holds env U db h o' row \<longleftrightarrow>
     (case o' of None \<Rightarrow> pr_root_node row = encode_node env (CaNode None)
      | Some n \<Rightarrow> pr_root_node row = encode_node env (root_of env n) \<and> path_holds env U db h n)"

definition files_owned :: "castore_db \<Rightarrow> bool" where
  "files_owned db \<longleftrightarrow>
     (\<forall>f j. map_of (db_file_chunks db) (f, j) \<noteq> None \<longrightarrow> (\<exists>h. map_of (db_path_files db) (h, f) \<noteq> None)) \<and>
     (\<forall>h f. map_of (db_path_files db) (h, f) \<noteq> None \<longrightarrow> map_of (db_paths db) h \<noteq> None)"

text \<open>\<open>serves\<close> is what reading needs; \<open>holds\<close> adds that nothing in the store is without an owner.\<close>

definition serves :: "cas_env \<Rightarrow> bytes set \<Rightarrow> castore \<Rightarrow> content \<Rightarrow> bool" where
  "serves env U st m \<longleftrightarrow> castore_inv env U st \<and>
     (\<forall>h. (map_of (db_paths (st_db st)) h = None) = (m h = None)) \<and>
     (\<forall>h o' row. m h = Some o' \<longrightarrow> map_of (db_paths (st_db st)) h = Some row \<longrightarrow>
        row_holds env U (st_db st) h o' row)"

definition holds :: "cas_env \<Rightarrow> bytes set \<Rightarrow> castore \<Rightarrow> content \<Rightarrow> bool" where
  "holds env U st m \<longleftrightarrow> castore_inv env U st \<and> no_orphans st \<and> files_owned (st_db st) \<and>
     (\<forall>h. (map_of (db_paths (st_db st)) h = None) = (m h = None)) \<and>
     (\<forall>h o' row. m h = Some o' \<longrightarrow> map_of (db_paths (st_db st)) h = Some row \<longrightarrow>
        row_holds env U (st_db st) h o' row)"

lemma holds_iff: "holds env U st m \<longleftrightarrow> serves env U st m \<and> no_orphans st \<and> files_owned (st_db st)"
  unfolding holds_def serves_def by blast

lemma path_holds_mono:
  assumes "path_holds env U db h n"
    and "\<And>d. d \<in> set (files_of n) \<Longrightarrow> file_stored env db d \<Longrightarrow> file_stored env db' d"
    and "\<And>x. dir_stored env db x \<Longrightarrow> dir_stored env db' x"
    and "\<And>f. map_of (db_path_files db) (h, f) \<noteq> None \<Longrightarrow> map_of (db_path_files db') (h, f) \<noteq> None"
  shows "path_holds env U db' h n"
  using assms unfolding path_holds_def tree_stored_def by blast

lemma row_holds_mono:
  assumes "row_holds env U db h o' row"
    and "\<And>n d. o' = Some n \<Longrightarrow> d \<in> set (files_of n) \<Longrightarrow> path_holds env U db h n \<Longrightarrow> file_stored env db' d"
    and "\<And>x. dir_stored env db x \<Longrightarrow> dir_stored env db' x"
    and "\<And>f. map_of (db_path_files db) (h, f) \<noteq> None \<Longrightarrow> map_of (db_path_files db') (h, f) \<noteq> None"
  shows "row_holds env U db' h o' row"
proof (cases o')
  case None
  then show ?thesis using assms(1) by (simp add: row_holds_def)
next
  case (Some n)
  have "path_holds env U db h n" using assms(1) Some by (simp add: row_holds_def)
  then have "path_holds env U db' h n"
    by (rule path_holds_mono) (use assms(2)[OF Some] \<open>path_holds env U db h n\<close> assms(3,4) in blast)+
  then show ?thesis using assms(1) Some by (simp add: row_holds_def)
qed

text \<open>What a path that is held serves.\<close>

lemma serves_get_nar:
  assumes env: "cas_env_ok env" and inj: "inj_on (blake3 env) U" and h: "serves env U st m"
    and fuel: "\<And>n. m (hash_of_file_path p) = Some (Some n) \<Longrightarrow> nar_fuel n \<le> fuel" and "0 < fuel"
  shows "get_nar fuel env p st =
    (case m (hash_of_file_path p) of
       None \<Rightarrow> Ok None
     | Some None \<Rightarrow> Err NoVariant
     | Some (Some n) \<Rightarrow> Ok (Some (write_nar (sort_nar n))))"
proof (cases "m (hash_of_file_path p)")
  case None
  then have "map_of (db_paths (st_db st)) (hash_of_file_path p) = None" using h unfolding serves_def by blast
  then show ?thesis using None by (simp add: get_nar_def get_root_node_def)
next
  case (Some o')
  then obtain row where row: "map_of (db_paths (st_db st)) (hash_of_file_path p) = Some row"
    using h unfolding serves_def by (metis not_None_eq)
  then have rh: "row_holds env U (st_db st) (hash_of_file_path p) o' row"
    using h Some unfolding serves_def by blast
  have inv: "castore_inv env U st" using h unfolding serves_def by blast
  show ?thesis
  proof (cases o')
    case None
    then have "get_root_node env (hash_of_file_path p) st = Ok (Some (CaNode None))"
      using rh row cas_env_okD(6)[OF env] by (simp add: get_root_node_def row_holds_def)
    moreover obtain f where "fuel = Suc f" using \<open>0 < fuel\<close> by (cases fuel) auto
    ultimately show ?thesis using Some None by (simp add: get_nar_def write_nar_streaming_def)
  next
    case (Some n)
    then have root: "get_root_node env (hash_of_file_path p) st = Ok (Some (root_of env n))"
      using rh row cas_env_okD(6)[OF env] by (simp add: get_root_node_def row_holds_def)
    have "represents (castore_reader env st) (root_of env n) n"
      using rh Some tree_stored_represents[OF env inj inv] by (simp add: row_holds_def path_holds_def)
    moreover have m: "m (hash_of_file_path p) = Some (Some n)" using \<open>m _ = Some o'\<close> Some by simp
    ultimately have "write_nar_streaming fuel (castore_reader env st) (root_of env n) = Ok (write_nar (sort_nar n))"
      using fuel by (intro represents_streaming) auto
    then show ?thesis using root m by (simp add: get_nar_def)
  qed
qed

lemma holds_get_nar:
  assumes "cas_env_ok env" and "inj_on (blake3 env) U" and h: "holds env U st m"
    and "\<And>n. m (hash_of_file_path p) = Some (Some n) \<Longrightarrow> nar_fuel n \<le> fuel" and "0 < fuel"
  shows "get_nar fuel env p st =
    (case m (hash_of_file_path p) of
       None \<Rightarrow> Ok None
     | Some None \<Rightarrow> Err NoVariant
     | Some (Some n) \<Rightarrow> Ok (Some (write_nar (sort_nar n))))"
proof (rule serves_get_nar[OF assms(1,2)])
  show "serves env U st m" using h unfolding holds_iff by blast
qed (use assms(4,5) in auto)

subsection \<open>Operations that touch the path tables only\<close>

lemma db_inv_paths:
  assumes "db_inv env U db" and "db_chunks db' = db_chunks db" "db_file_chunks db' = db_file_chunks db"
    "db_directories db' = db_directories db" and "wf_table (db_paths db')" "wf_table (db_path_files db')"
    and "\<And>h f. map_of (db_path_files db') (h, f) \<noteq> None \<Longrightarrow> length f = 32"
  shows "db_inv env U db'"
proof -
  have "file_stored env db' d = file_stored env db d" for d by (simp add: file_stored_def assms(2,3))
  then show ?thesis using assms(1,5-7) unfolding db_inv_def assms(2-4) by simp
qed

lemma castore_inv_paths:
  assumes "castore_inv env U st" and "db_chunks db' = db_chunks (st_db st)"
    "db_file_chunks db' = db_file_chunks (st_db st)" "db_directories db' = db_directories (st_db st)"
    and "wf_table (db_paths db')" "wf_table (db_path_files db')"
    and "\<And>h f. map_of (db_path_files db') (h, f) \<noteq> None \<Longrightarrow> length f = 32"
  shows "castore_inv env U (st\<lparr>st_db := db'\<rparr>)"
proof (rule castore_inv_db(1)[OF assms(1)])
  show "db_inv env U db'" using castore_invD(1)[OF assms(1)] assms(2-7) by (rule db_inv_paths)
qed (simp_all add: assms(2,4))

lemma holds_frame:
  assumes "st_db st' = st_db st" "st_files st' = st_files st" "st_dir_cache st' = st_dir_cache st"
  shows "holds env U st' m = holds env U st m"
  by (simp add: holds_def castore_inv_def files_inv_def cache_inv_def no_orphans_def assms)

lemma frame_simps [simp]:
  "st_db (path_bloom_insert env h st) = st_db st" "st_files (path_bloom_insert env h st) = st_files st"
  "st_dir_cache (path_bloom_insert env h st) = st_dir_cache st"
  "st_db (invalidate_stats_cache t st) = st_db st" "st_files (invalidate_stats_cache t st) = st_files st"
  "st_dir_cache (invalidate_stats_cache t st) = st_dir_cache st"
  by (simp_all add: path_bloom_insert_def invalidate_stats_cache_def)

lemma insert_path_files:
  "db_paths (fold (insert_path_file h) fds db) = db_paths db"
  "db_chunks (fold (insert_path_file h) fds db) = db_chunks db"
  "db_file_chunks (fold (insert_path_file h) fds db) = db_file_chunks db"
  "db_directories (fold (insert_path_file h) fds db) = db_directories db"
  "db_meta (fold (insert_path_file h) fds db) = db_meta db"
  "wf_table (db_path_files db) \<Longrightarrow> wf_table (db_path_files (fold (insert_path_file h) fds db))"
  "map_of (db_path_files (fold (insert_path_file h) fds db)) (h', f) \<noteq> None \<longleftrightarrow>
     map_of (db_path_files db) (h', f) \<noteq> None \<or> (h' = h \<and> f \<in> set fds)"
  by (induction fds arbitrary: db) (auto simp: insert_path_file_def table_simps wf_insert_or_ignore)

lemma metadata_frame [simp]:
  "db_chunks (store_metadata_with_conn env now h ni root db) = db_chunks db"
  "db_file_chunks (store_metadata_with_conn env now h ni root db) = db_file_chunks db"
  "db_directories (store_metadata_with_conn env now h ni root db) = db_directories db"
  "db_path_files (store_metadata_with_conn env now h ni root db) = db_path_files db"
  "db_meta (store_metadata_with_conn env now h ni root db) = db_meta db"
  by (simp_all add: store_metadata_with_conn_def)

lemma metadata_row:
  "\<exists>row. pr_root_node row = encode_node env root \<and>
     map_of (db_paths (store_metadata_with_conn env now h ni root db)) = (map_of (db_paths db))(h \<mapsto> row)"
  by (simp add: store_metadata_with_conn_def table_simps) (metis path_row.select_convs(4))

lemma wf_metadata:
  "wf_table (db_paths db) \<Longrightarrow> wf_table (db_paths (store_metadata_with_conn env now h ni root db))"
  by (simp add: store_metadata_with_conn_def wf_insert_or_replace)

text \<open>Replacing the row of one path, when the tables already hold what the new row says.\<close>

lemma holds_set_row:
  assumes h: "holds env U st m" and row: "row_holds env U (st_db st) h o' row"
    and db: "db_chunks db' = db_chunks (st_db st)" "db_file_chunks db' = db_file_chunks (st_db st)"
      "db_directories db' = db_directories (st_db st)" "db_path_files db' = db_path_files (st_db st)"
    and wf: "wf_table (db_paths db')" and paths: "map_of (db_paths db') = (map_of (db_paths (st_db st)))(h \<mapsto> row)"
  shows "holds env U (st\<lparr>st_db := db'\<rparr>) (m(h \<mapsto> o'))"
proof -
  have inv: "castore_inv env U st" using h unfolding holds_def by blast
  have same: "row_holds env U db' k q r" if "row_holds env U (st_db st) k q r" for k q r
    using that by (rule row_holds_mono)
      (simp_all add: db path_holds_def tree_stored_def file_stored_def dir_stored_def)
  have "castore_inv env U (st\<lparr>st_db := db'\<rparr>)"
    using inv wf castore_invD(1)[OF inv] by (intro castore_inv_paths) (auto simp: db db_inv_def)
  moreover have "no_orphans (st\<lparr>st_db := db'\<rparr>)" using h by (simp add: holds_def no_orphans_def db)
  moreover have "files_owned db'" using h by (auto simp: holds_def files_owned_def db paths)
  moreover have "row_holds env U db' k q r"
    if "(m(h \<mapsto> o')) k = Some q" "map_of (db_paths db') k = Some r" for k q r
    using that h row same by (cases "k = h") (auto simp: paths holds_def)
  ultimately show ?thesis using h by (simp add: holds_def paths)
qed

lemma holds_store_metadata:
  assumes h: "holds env U st m" and root: "\<And>row. pr_root_node row = encode_node env root \<Longrightarrow>
      row_holds env U (st_db st) h o' row"
  shows "holds env U (store_metadata env now h ni root st) (m(h \<mapsto> o'))"
proof -
  let ?db = "store_metadata_with_conn env now h ni root (st_db st)"
  obtain row where row: "pr_root_node row = encode_node env root"
      "map_of (db_paths ?db) = (map_of (db_paths (st_db st)))(h \<mapsto> row)"
    using metadata_row by blast
  have "wf_table (db_paths ?db)" using h by (intro wf_metadata) (simp add: holds_def castore_inv_def db_inv_def)
  then have "holds env U (st\<lparr>st_db := ?db\<rparr>) (m(h \<mapsto> o'))"
    using holds_set_row[OF h root[OF row(1)]] row(2) by simp
  then show ?thesis unfolding store_metadata_def by (subst holds_frame) simp_all
qed

definition spec_put_narinfo :: "string \<Rightarrow> string \<Rightarrow> content \<Rightarrow> content" where
  "spec_put_narinfo h content m =
     (if parse_narinfo content = None \<or> m h \<noteq> None then m else m(h \<mapsto> None))"

lemma row_holds_root: "row_holds env U db h o' r \<Longrightarrow> pr_root_node r' = pr_root_node r \<Longrightarrow> row_holds env U db h o' r'"
  by (simp add: row_holds_def split: option.splits)

lemma holds_put_narinfo:
  assumes env: "cas_env_ok env" and h: "holds env U st m"
  shows "holds env U (snd (put_narinfo env now h content st)) (spec_put_narinfo h content m)"
proof (cases "parse_narinfo content")
  case None
  then show ?thesis using h by (simp add: put_narinfo_def spec_put_narinfo_def)
next
  case (Some ni)
  show ?thesis
  proof (cases "map_of (db_paths (st_db st)) h")
    case None
    then have "m h = None" using h unfolding holds_def by blast
    moreover have "holds env U (store_metadata env now h ni (CaNode None) st) (m(h \<mapsto> None))"
      using \<open>holds env U st m\<close> by (rule holds_store_metadata) (simp add: row_holds_def)
    ultimately show ?thesis using Some None by (simp add: put_narinfo_def spec_put_narinfo_def)
  next
    case (Some row)
    then obtain o' where o': "m h = Some o'" using h unfolding holds_def by (metis not_None_eq)
    then have rh: "row_holds env U (st_db st) h o' row" using h Some unfolding holds_def by blast
    define root where "root = (case o' of None \<Rightarrow> CaNode None | Some n \<Rightarrow> root_of env n)"
    have enc: "pr_root_node row = encode_node env root"
      using rh by (auto simp: row_holds_def root_def split: option.splits)
    then have "get_root_node env h st = Ok (Some root)"
      using Some cas_env_okD(6)[OF env] by (simp add: get_root_node_def)
    moreover have "holds env U (store_metadata env now h ni root st) (m(h \<mapsto> o'))"
      using h by (rule holds_store_metadata) (use rh enc in \<open>auto intro: row_holds_root\<close>)
    moreover have "m(h \<mapsto> o') = m" using o' by auto
    ultimately show ?thesis using Some \<open>parse_narinfo content = Some ni\<close> o'
      by (simp add: put_narinfo_def spec_put_narinfo_def)
  qed
qed

subsection \<open>Putting an archive\<close>

lemma extends_holds:
  assumes h: "holds env U st m" and inv: "castore_inv env U st1" "no_orphans st1" and e: "extends st st1"
    and m: "m k = Some q" "map_of (db_paths (st_db st)) k = Some r"
  shows "row_holds env U (st_db st1) k q r"
proof -
  have "row_holds env U (st_db st) k q r" using h m unfolding holds_def by blast
  then show ?thesis
  proof (rule row_holds_mono)
    show "dir_stored env (st_db st) x \<Longrightarrow> dir_stored env (st_db st1) x" for x using extends_stored(2)[OF e] .
    show "map_of (db_path_files (st_db st)) (k, f) \<noteq> None \<Longrightarrow> map_of (db_path_files (st_db st1)) (k, f) \<noteq> None" for f
      using e by (simp add: extends_def)
    show "file_stored env (st_db st1) d" if "d \<in> set (files_of n)" "path_holds env U (st_db st) k n" for n d
      using that extends_stored(1)[OF e] by (simp add: path_holds_def tree_stored_def)
  qed
qed

lemma put_nar_steps:
  assumes env: "cas_env_ok env" and inj: "inj_on (blake3 env) U" and io: "\<And>p. io p"
    and inv: "castore_inv env U st" "no_orphans st"
    and n: "parse_nar d = Ok n" "blobs_of env n \<subseteq> U" "nar_fuel n \<le> fuel"
    and h: "h = hash_of_file_path p"
  obtains st1 db' row where
    "put_nar fuel env io now p d st = (Ok True, invalidate_stats_cache (int now) (path_bloom_insert env h (st1\<lparr>st_db := db'\<rparr>)))"
    "castore_inv env U st1" "no_orphans st1" "extends st st1" "added_files st st1 (blake3 env ` set (files_of n))"
    "tree_stored env (st_db st1) n"
    "db_chunks db' = db_chunks (st_db st1)" "db_file_chunks db' = db_file_chunks (st_db st1)"
    "db_directories db' = db_directories (st_db st1)"
    "pr_root_node row = encode_node env (root_of env n)" "map_of (db_paths db') = (map_of (db_paths (st_db st)))(h \<mapsto> row)"
    "\<And>k f. map_of (db_path_files db') (k, f) \<noteq> None \<longleftrightarrow>
       map_of (db_path_files (st_db st)) (k, f) \<noteq> None \<or> (k = h \<and> f \<in> blake3 env ` set (files_of n))"
    "castore_inv env U (st1\<lparr>st_db := db'\<rparr>)"
proof -
  from ingest_steps(1)[where io = io, OF env inj io inv n(2)] obtain st1 where
    1: "ingest_node env io n st = (Ok (root_of env n), st1)" and inv1: "castore_inv env U st1" "no_orphans st1"
    and e: "extends st st1" and added: "added_files st st1 (blake3 env ` set (files_of n))"
    and tree: "tree_stored env (st_db st1) n" by (elim exE conjE)
  have paths1: "db_paths (st_db st1) = db_paths (st_db st)" "db_path_files (st_db st1) = db_path_files (st_db st)"
    using e by (simp_all add: extends_def)
  have "\<forall>x \<in> set (dirs_of env n). dir_stored env (st_db st1) x" using tree by (simp add: tree_stored_def)
  from collect_stored(1)[OF env n(3) this, of "[]"] obtain fds where
    fds: "collect_file_digests_from_tree fuel env (st_db st1) (root_of env n) [] = Some fds"
      "set fds = blake3 env ` set (files_of n)" by auto
  let ?db = "fold (insert_path_file h) fds (st_db st1)"
  define info where "info = (case load_metadata_with_conn h ?db of Some existing \<Rightarrow> existing | None \<Rightarrow> placeholder_info env h d)"
  define db' where "db' = store_metadata_with_conn env now h info (root_of env n) ?db"
  have run: "put_nar fuel env io now p d st = (Ok True, invalidate_stats_cache (int now) (path_bloom_insert env h (st1\<lparr>st_db := db'\<rparr>)))"
    unfolding put_nar_def h[symmetric] Let_def db'_def info_def using 1 fds(1) n(1) by simp
  obtain row where row: "pr_root_node row = encode_node env (root_of env n)"
      "map_of (db_paths db') = (map_of (db_paths (st_db st)))(h \<mapsto> row)"
    unfolding db'_def using metadata_row[of env "root_of env n" now h info ?db] insert_path_files(1) paths1(1) by metis
  have db: "db_chunks db' = db_chunks (st_db st1)" "db_file_chunks db' = db_file_chunks (st_db st1)"
      "db_directories db' = db_directories (st_db st1)"
    by (simp_all add: db'_def insert_path_files)
  have pf: "map_of (db_path_files db') (k, f) \<noteq> None \<longleftrightarrow>
      map_of (db_path_files (st_db st)) (k, f) \<noteq> None \<or> (k = h \<and> f \<in> blake3 env ` set (files_of n))" for k f
    using insert_path_files(7)[of h fds "st_db st1" k f] fds(2) by (simp add: db'_def paths1)
  have wf: "wf_table (db_paths db')" "wf_table (db_path_files db')"
    using castore_invD(1)[OF inv1(1)]
    by (auto simp: db'_def insert_path_files db_inv_def intro!: wf_metadata insert_path_files(6))
  have "map_of (db_path_files (st_db st)) (k, f) \<noteq> None \<longrightarrow> length f = 32" for k f
    using castore_invD(1)[OF inv(1)] unfolding db_inv_def by blast
  then have len: "length f = 32" if "map_of (db_path_files db') (k, f) \<noteq> None" for k f
    using that pf[of k f] cas_env_okD(1)[OF env] by auto
  have "castore_inv env U (st1\<lparr>st_db := db'\<rparr>)"
    using inv1(1) db wf len by (rule castore_inv_paths)
  from that[OF run inv1 e added tree db row pf this] show ?thesis .
qed

lemma holds_put_nar:
  assumes env: "cas_env_ok env" and inj: "inj_on (blake3 env) U" and io: "\<And>p. io p" and h: "holds env U st m"
    and n: "parse_nar d = Ok n" "blobs_of env n \<subseteq> U" "nar_fuel n \<le> fuel"
  shows "\<exists>st'. put_nar fuel env io now p d st = (Ok True, st') \<and>
    holds env U st' (m(hash_of_file_path p \<mapsto> Some n))"
proof -
  let ?h = "hash_of_file_path p"
  have h0: "castore_inv env U st" "no_orphans st" "files_owned (st_db st)" using h unfolding holds_def by blast+
  obtain st1 db' row where
    run: "put_nar fuel env io now p d st = (Ok True, invalidate_stats_cache (int now) (path_bloom_insert env ?h (st1\<lparr>st_db := db'\<rparr>)))"
    and inv1: "castore_inv env U st1" "no_orphans st1" and e: "extends st st1"
    and added: "added_files st st1 (blake3 env ` set (files_of n))" and tree: "tree_stored env (st_db st1) n"
    and db: "db_chunks db' = db_chunks (st_db st1)" "db_file_chunks db' = db_file_chunks (st_db st1)"
      "db_directories db' = db_directories (st_db st1)"
    and row: "pr_root_node row = encode_node env (root_of env n)" "map_of (db_paths db') = (map_of (db_paths (st_db st)))(?h \<mapsto> row)"
    and pf: "\<And>k f. map_of (db_path_files db') (k, f) \<noteq> None \<longleftrightarrow>
      map_of (db_path_files (st_db st)) (k, f) \<noteq> None \<or> (k = ?h \<and> f \<in> blake3 env ` set (files_of n))"
    and inv: "castore_inv env U (st1\<lparr>st_db := db'\<rparr>)"
    by (rule put_nar_steps[where io = io and p = p and now = now, OF env inj io h0(1,2) n refl]) (rule that)
  have paths1: "db_path_files (st_db st1) = db_path_files (st_db st)" using e by (simp add: extends_def)
  have same: "row_holds env U db' k q r" if "row_holds env U (st_db st1) k q r" for k q r
    using that by (rule row_holds_mono)
      (use pf in \<open>auto simp: db path_holds_def tree_stored_def file_stored_def dir_stored_def paths1\<close>)
  have new: "row_holds env U db' ?h (Some n) row"
    using row(1) n(2) tree pf
    by (auto simp: row_holds_def path_holds_def tree_stored_def file_stored_def dir_stored_def db)
  have owned: "map_of (db_file_chunks (st_db st)) (f, j) \<noteq> None \<Longrightarrow> \<exists>k. map_of (db_path_files (st_db st)) (k, f) \<noteq> None"
    "map_of (db_path_files (st_db st)) (k, f) \<noteq> None \<Longrightarrow> map_of (db_paths (st_db st)) k \<noteq> None" for f j k
    using h0(3) unfolding files_owned_def by blast+
  have own: "files_owned db'"
    unfolding files_owned_def
  proof (intro conjI allI impI)
    fix f j assume "map_of (db_file_chunks db') (f, j) \<noteq> None"
    then have "map_of (db_file_chunks (st_db st)) (f, j) \<noteq> None \<or> f \<in> blake3 env ` set (files_of n)"
      using added unfolding added_files_def db by blast
    then show "\<exists>k. map_of (db_path_files db') (k, f) \<noteq> None"
    proof
      assume "map_of (db_file_chunks (st_db st)) (f, j) \<noteq> None"
      then have "\<exists>k. map_of (db_path_files (st_db st)) (k, f) \<noteq> None" by (rule owned(1))
      then show ?thesis unfolding pf by (elim exE) (rule exI, rule disjI1)
    next
      assume "f \<in> blake3 env ` set (files_of n)"
      then show ?thesis unfolding pf by (intro exI[of _ ?h] disjI2 conjI refl)
    qed
  next
    fix k f assume "map_of (db_path_files db') (k, f) \<noteq> None"
    then have "k = ?h \<or> map_of (db_paths (st_db st)) k \<noteq> None"
      unfolding pf by (elim disjE) (drule owned(2), simp_all)
    then show "map_of (db_paths db') k \<noteq> None" by (auto simp: row(2))
  qed
  have "row_holds env U db' k q r"
    if "(m(?h \<mapsto> Some n)) k = Some q" "map_of (db_paths db') k = Some r" for k q r
  proof (cases "k = ?h")
    case True
    then show ?thesis using that new by (simp add: row(2))
  next
    case False
    then show ?thesis using that extends_holds[OF h inv1 e, of k q r] same by (simp add: row(2))
  qed
  then have "holds env U (st1\<lparr>st_db := db'\<rparr>) (m(?h \<mapsto> Some n))"
    using inv inv1(2) own h by (simp add: holds_def no_orphans_def db row(2))
  then have "holds env U (invalidate_stats_cache (int now) (path_bloom_insert env ?h (st1\<lparr>st_db := db'\<rparr>))) (m(?h \<mapsto> Some n))"
    by (subst holds_frame) simp_all
  then show ?thesis using run by blast
qed

subsection \<open>Evicting a path\<close>

definition unreferenced :: "castore_db \<Rightarrow> digest list \<Rightarrow> digest set" where
  "unreferenced db fs = {f \<in> set fs. \<forall>h. map_of (db_path_files db) (h, f) = None}"

lemma path_file_rows: "list_ex (\<lambda>r. snd (fst r) = f) pf \<longleftrightarrow> (\<exists>h. map_of pf (h, f) \<noteq> None)"
  by (force simp: list_ex_iff map_of_eq_None_iff)

lemma set_fold_insert: "set (fold List.insert xs acc) = set acc \<union> set xs"
  by (induction xs arbitrary: acc) auto

lemma set_map_filter: "set (List.map_filter f xs) = {y. \<exists>x \<in> set xs. f x = Some y}"
  by (force simp: List.map_filter_def)

lemma drop_files_fields:
  "drop_files fs db check = (check', db') \<Longrightarrow>
     db_file_chunks db' = filter (\<lambda>r. fst (fst r) \<notin> unreferenced db fs) (db_file_chunks db) \<and>
     db_chunks db' = db_chunks db \<and> db_directories db' = db_directories db \<and> db_paths db' = db_paths db \<and>
     db_path_files db' = db_path_files db \<and> db_meta db' = db_meta db \<and>
     (\<forall>f \<in> unreferenced db fs. \<forall>j g sz. ((f, j), (g, sz)) \<in> set (db_file_chunks db) \<longrightarrow>
        length g = 32 \<longrightarrow> g \<in> set check') \<and>
     set check \<subseteq> set check' \<and>
     (\<forall>g \<in> set check'. g \<in> set check \<or> (\<exists>f \<in> unreferenced db fs. \<exists>j sz. ((f, j), (g, sz)) \<in> set (db_file_chunks db)))"
proof (induction fs db check rule: drop_files.induct)
  case (1 db check)
  then show ?case by (auto simp: unreferenced_def)
next
  case (2 f fs db check)
  show ?case
  proof (cases "list_ex (\<lambda>r. snd (fst r) = f) (db_path_files db)")
    case True
    then have "unreferenced db (f # fs) = unreferenced db fs"
      unfolding path_file_rows by (auto simp: unreferenced_def)
    then show ?thesis using 2(1)[OF True] 2(3) True by simp
  next
    case False
    let ?cs = "List.map_filter try_digest (map fst (rows_of f (db_file_chunks db)))"
    let ?db = "db\<lparr>db_file_chunks := filter (\<lambda>r. fst (fst r) \<noteq> f) (db_file_chunks db)\<rparr>"
    let ?check = "fold List.insert ?cs check"
    have cs: "set ?cs = {g. length g = 32 \<and> (\<exists>j sz. ((f, j), (g, sz)) \<in> set (db_file_chunks db))}"
      by (auto simp: set_map_filter set_rows_of try_digest_def split: if_splits)
    have u: "unreferenced db (f # fs) = insert f (unreferenced ?db fs)"
    proof -
      have "\<forall>h. map_of (db_path_files db) (h, f) = None" using False unfolding path_file_rows by blast
      then have "e \<in> unreferenced db (f # fs) \<longleftrightarrow> e \<in> insert f (unreferenced ?db fs)" for e
        by (cases "e = f") (simp_all add: unreferenced_def)
      then show ?thesis by (rule set_eqI)
    qed
    have run: "drop_files fs ?db ?check = (check', db')" using 2(3) False by (simp add: Let_def)
    note IH = 2(2)[OF False refl refl run]
    have fc: "db_file_chunks db' = filter (\<lambda>r. fst (fst r) \<notin> unreferenced db (f # fs)) (db_file_chunks db)"
      using IH unfolding u by (auto intro!: filter_cong)
    have all: "g \<in> set check'" if "e \<in> unreferenced db (f # fs)" "((e, j), (g, sz)) \<in> set (db_file_chunks db)"
        "length g = 32" for e j g sz
    proof (cases "e = f")
      case True
      then have "g \<in> set ?cs" using that cs by blast
      then show ?thesis using IH by (auto simp: set_fold_insert)
    next
      case False
      then have "e \<in> unreferenced ?db fs" "((e, j), (g, sz)) \<in> set (db_file_chunks ?db)" using that u by auto
      then show ?thesis using IH that(3) by blast
    qed
    have only: "g \<in> set check \<or> (\<exists>e \<in> unreferenced db (f # fs). \<exists>j sz. ((e, j), (g, sz)) \<in> set (db_file_chunks db))"
      if "g \<in> set check'" for g
    proof -
      have "g \<in> set ?check \<or> (\<exists>e \<in> unreferenced ?db fs. \<exists>j sz. ((e, j), (g, sz)) \<in> set (db_file_chunks ?db))"
        using IH that by blast
      then show ?thesis unfolding set_fold_insert cs u by auto
    qed
    show ?thesis using fc IH all only by (auto simp: set_fold_insert)
  qed
qed

definition orphaned_chunks :: "castore_db \<Rightarrow> digest list \<Rightarrow> digest set" where
  "orphaned_chunks db gs = {g \<in> set gs. \<forall>r \<in> set (db_file_chunks db). fst (snd r) \<noteq> g}"

lemma drop_chunks_fields:
  assumes io: "\<And>p. io p"
  shows "drop_chunks io gs st k = (k', st') \<Longrightarrow> wf_table (db_chunks (st_db st)) \<Longrightarrow> wf_table (st_files st) \<Longrightarrow>
     st_dir_cache st' = st_dir_cache st \<and>
     db_file_chunks (st_db st') = db_file_chunks (st_db st) \<and> db_directories (st_db st') = db_directories (st_db st) \<and>
     db_paths (st_db st') = db_paths (st_db st) \<and> db_path_files (st_db st') = db_path_files (st_db st) \<and>
     wf_table (db_chunks (st_db st')) \<and> wf_table (st_files st') \<and>
     (\<forall>g. map_of (db_chunks (st_db st')) g =
        (if g \<in> orphaned_chunks (st_db st) gs then None else map_of (db_chunks (st_db st)) g)) \<and>
     (\<forall>g. map_of (st_files st') (cpath g) =
        (if g \<in> orphaned_chunks (st_db st) gs then None else map_of (st_files st) (cpath g))) \<and>
     total_chunk_bytes st + k = total_chunk_bytes st' + k'"
proof (induction gs arbitrary: st k)
  case Nil
  then show ?case by (auto simp: orphaned_chunks_def)
next
  case (Cons g gs)
  show ?case
  proof (cases "list_ex (\<lambda>r. fst (snd r) = g) (db_file_chunks (st_db st))")
    case True
    then have "orphaned_chunks (st_db st) (g # gs) = orphaned_chunks (st_db st) gs"
      by (auto simp: orphaned_chunks_def list_ex_iff)
    then show ?thesis using Cons True by simp
  next
    case False
    let ?db = "(st_db st)\<lparr>db_chunks := delete_key g (db_chunks (st_db st))\<rparr>"
    let ?st = "st\<lparr>st_db := ?db, st_files := delete_key (cpath g) (st_files st)\<rparr>"
    let ?sz = "case map_of (db_chunks (st_db st)) g of None \<Rightarrow> 0 | Some row \<Rightarrow> ck_size row"
    have run: "drop_chunks io gs ?st (k + ?sz) = (k', st')"
      using Cons.prems(1) False by (simp add: Let_def cpath_def assms[of "chunk_path (hex_encode g)"])
    have o: "orphaned_chunks (st_db st) (g # gs) = insert g (orphaned_chunks ?db gs)"
      using False by (auto simp: orphaned_chunks_def list_ex_iff)
    have tot: "total_chunk_bytes st = total_chunk_bytes ?st + ?sz"
      using sum_delete_key[OF Cons.prems(2), of "\<lambda>r. ck_size (snd r)" g] by (simp add: total_chunk_bytes_def split: option.split)
    have wf: "wf_table (db_chunks (st_db ?st))" "wf_table (st_files ?st)" using Cons.prems(2,3) by auto
    note IH = Cons.IH[OF run wf]
    show ?thesis using IH tot unfolding o by (auto simp: table_simps)
  qed
qed

lemma db_inv_row:
  assumes "db_inv env U db" and "map_of (db_file_chunks db) (f, j) = Some r"
  shows "\<exists>d \<in> U. f = blake3 env d \<and> set (cdc env d) \<subseteq> U \<and> j < length (cdc env d) \<and> file_stored env db d \<and>
    r = (blake3 env (cdc env d ! j), length (cdc env d ! j))"
proof -
  obtain d where d: "d \<in> U" "f = blake3 env d" "set (cdc env d) \<subseteq> U" "j < length (cdc env d)" "file_stored env db d"
    using assms unfolding db_inv_def by blast
  then have "map_of (db_file_chunks db) (f, j) = Some (blake3 env (cdc env d ! j), length (cdc env d ! j))"
    by (simp add: file_stored_def)
  then show ?thesis using d assms(2) by auto
qed

text \<open>The state after an eviction, in terms of the rows that lost their last reference.\<close>

definition dropped_files :: "castore_db \<Rightarrow> string \<Rightarrow> digest set" where
  "dropped_files db h = {f. map_of (db_path_files db) (h, f) \<noteq> None \<and>
     (\<forall>k. k \<noteq> h \<longrightarrow> map_of (db_path_files db) (k, f) = None)}"

definition dropped_chunks :: "castore_db \<Rightarrow> string \<Rightarrow> digest set" where
  "dropped_chunks db h = {g.
     (\<exists>f \<in> dropped_files db h. \<exists>j sz. map_of (db_file_chunks db) (f, j) = Some (g, sz)) \<and>
     (\<forall>f j sz. f \<notin> dropped_files db h \<longrightarrow> map_of (db_file_chunks db) (f, j) \<noteq> Some (g, sz))}"

lemma evict_path_fields:
  assumes io: "\<And>p. io p" and inv: "castore_inv env U st" and env: "cas_env_ok env"
    and run: "evict_path io now h st = (freed, st')"
  defines "D \<equiv> dropped_files (st_db st) h" and "E \<equiv> dropped_chunks (st_db st) h"
  shows "st_dir_cache st' = st_dir_cache st" "db_directories (st_db st') = db_directories (st_db st)"
    "map_of (db_paths (st_db st')) = (map_of (db_paths (st_db st)))(h := None)"
    "\<And>k f. map_of (db_path_files (st_db st')) (k, f) =
        (if k = h then None else map_of (db_path_files (st_db st)) (k, f))"
    "\<And>f j. map_of (db_file_chunks (st_db st')) (f, j) =
        (if f \<in> D then None else map_of (db_file_chunks (st_db st)) (f, j))"
    "\<And>g. map_of (db_chunks (st_db st')) g = (if g \<in> E then None else map_of (db_chunks (st_db st)) g)"
    "\<And>g. map_of (st_files st') (cpath g) = (if g \<in> E then None else map_of (st_files st) (cpath g))"
    "wf_table (db_paths (st_db st'))" "wf_table (db_path_files (st_db st'))"
    "wf_table (db_file_chunks (st_db st'))" "wf_table (db_chunks (st_db st'))" "wf_table (st_files st')"
    "total_chunk_bytes st = total_chunk_bytes st' + freed"
proof -
  let ?db = "delete_path_rows h (st_db st)"
  let ?L = "path_file_digests h (st_db st)"
  have dbi: "db_inv env U (st_db st)" using castore_invD(1)[OF inv] .
  note wf = dbi[unfolded db_inv_def]
  have wf_fc: "wf_table (db_file_chunks (st_db st))" and wf_pf: "wf_table (db_path_files (st_db st))"
    and wf_p: "wf_table (db_paths (st_db st))" and wf_c: "wf_table (db_chunks (st_db st))" using wf by blast+
  have wf_f: "wf_table (st_files st)" using castore_invD(2)[OF inv] by (simp add: files_inv_def)
  obtain check db' where df: "drop_files ?L ?db [] = (check, db')" by fastforce
  obtain k st2 where dc: "drop_chunks io check (st\<lparr>st_db := db'\<rparr>) 0 = (k, st2)" by fastforce
  note F = drop_files_fields[OF df]
  note F1 = F[THEN conjunct1]
    and F2 = F[THEN conjunct2, THEN conjunct1]
    and F3 = F[THEN conjunct2, THEN conjunct2, THEN conjunct1]
    and F4 = F[THEN conjunct2, THEN conjunct2, THEN conjunct2, THEN conjunct1]
    and F5 = F[THEN conjunct2, THEN conjunct2, THEN conjunct2, THEN conjunct2, THEN conjunct1]
    and F6 = F[THEN conjunct2, THEN conjunct2, THEN conjunct2, THEN conjunct2, THEN conjunct2, THEN conjunct1]
    and F7 = F[THEN conjunct2, THEN conjunct2, THEN conjunct2, THEN conjunct2, THEN conjunct2, THEN conjunct2, THEN conjunct1]
    and F8 = F[THEN conjunct2, THEN conjunct2, THEN conjunct2, THEN conjunct2, THEN conjunct2, THEN conjunct2, THEN conjunct2, THEN conjunct1]
    and F9 = F[THEN conjunct2, THEN conjunct2, THEN conjunct2, THEN conjunct2, THEN conjunct2, THEN conjunct2, THEN conjunct2, THEN conjunct2]
  have dbf: "db_file_chunks ?db = db_file_chunks (st_db st)" "db_chunks ?db = db_chunks (st_db st)"
    "db_directories ?db = db_directories (st_db st)" by (simp_all add: delete_path_rows_def)
  have wf': "wf_table (db_chunks (st_db (st\<lparr>st_db := db'\<rparr>)))" "wf_table (st_files (st\<lparr>st_db := db'\<rparr>))"
    using wf_c wf_f by (simp_all add: F2 dbf)
  note C = drop_chunks_fields[where io = io, OF io dc wf']
  note C1 = C[THEN conjunct1]
    and C2 = C[THEN conjunct2, THEN conjunct1]
    and C3 = C[THEN conjunct2, THEN conjunct2, THEN conjunct1]
    and C4 = C[THEN conjunct2, THEN conjunct2, THEN conjunct2, THEN conjunct1]
    and C5 = C[THEN conjunct2, THEN conjunct2, THEN conjunct2, THEN conjunct2, THEN conjunct1]
    and C6 = C[THEN conjunct2, THEN conjunct2, THEN conjunct2, THEN conjunct2, THEN conjunct2, THEN conjunct1]
    and C7 = C[THEN conjunct2, THEN conjunct2, THEN conjunct2, THEN conjunct2, THEN conjunct2, THEN conjunct2, THEN conjunct1]
    and C8 = C[THEN conjunct2, THEN conjunct2, THEN conjunct2, THEN conjunct2, THEN conjunct2, THEN conjunct2, THEN conjunct2, THEN conjunct1]
    and C9 = C[THEN conjunct2, THEN conjunct2, THEN conjunct2, THEN conjunct2, THEN conjunct2, THEN conjunct2, THEN conjunct2, THEN conjunct2, THEN conjunct1]
    and C10 = C[THEN conjunct2, THEN conjunct2, THEN conjunct2, THEN conjunct2, THEN conjunct2, THEN conjunct2, THEN conjunct2, THEN conjunct2, THEN conjunct2]
  have pf: "map_of (db_path_files ?db) (k, f) = (if k = h then None else map_of (db_path_files (st_db st)) (k, f))" for k f
    by (simp add: delete_path_rows_def map_of_filter[OF wf_pf] split: option.split)
  have len: "map_of (db_path_files (st_db st)) (k, f) \<noteq> None \<longrightarrow> length f = 32" for k f
    using dbi unfolding db_inv_def by blast
  have L: "set ?L = {f. map_of (db_path_files (st_db st)) (h, f) \<noteq> None}"
  proof (intro set_eqI iffI)
    fix f assume "f \<in> set ?L"
    then show "f \<in> {f. map_of (db_path_files (st_db st)) (h, f) \<noteq> None}"
      by (auto simp: path_file_digests_def set_map_filter map_of_eq_None_iff try_digest_def split: if_splits) force
  next
    fix f assume f: "f \<in> {f. map_of (db_path_files (st_db st)) (h, f) \<noteq> None}"
    then have "((h, f), ()) \<in> set (db_path_files (st_db st))" by (auto dest: map_of_SomeD)
    moreover have "length f = 32" using f len by blast
    ultimately show "f \<in> set ?L" unfolding path_file_digests_def set_map_filter try_digest_def by force
  qed
  have D: "unreferenced ?db ?L = D"
    unfolding unreferenced_def L pf D_def dropped_files_def by auto
  define E' where "E' = orphaned_chunks db' check"
  have ev: "evict_path io now h st = (k, if ?L = [] then st2 else invalidate_stats_cache (int now) st2)"
  proof (cases "?L = []")
    case True
    then have "db' = ?db" "check = []" using df by simp_all
    then show ?thesis using dc True by (simp add: evict_path_def Let_def)
  next
    case False
    then show ?thesis by (simp add: evict_path_def Let_def df dc)
  qed
  have st': "st_db st' = st_db st2" "st_files st' = st_files st2" "st_dir_cache st' = st_dir_cache st2" "freed = k"
    using run unfolding ev by auto

  have fc: "map_of (db_file_chunks (st_db st')) (f, j) =
      (if f \<in> D then None else map_of (db_file_chunks (st_db st)) (f, j))" for f j
    by (simp add: st' C2 F1 D dbf map_of_filter[OF wf_fc] split: option.split)
  have in_check: "g \<in> set check \<longleftrightarrow> (\<exists>f \<in> D. \<exists>j sz. map_of (db_file_chunks (st_db st)) (f, j) = Some (g, sz))"
    if "\<exists>f j sz. map_of (db_file_chunks (st_db st)) (f, j) = Some (g, sz)" for g
  proof -
    have "length g = 32" using that db_inv_row[OF dbi] cas_env_okD(1)[OF env] by force
    then show ?thesis using F7 F9 unfolding D dbf by (auto simp: wf_map_of[OF wf_fc])
  qed
  have E: "E' = E"
  proof (intro set_eqI iffI)
    fix g assume g: "g \<in> E'"
    then have c: "g \<in> set check" and no: "\<forall>r \<in> set (db_file_chunks db'). fst (snd r) \<noteq> g"
      by (simp_all add: E'_def orphaned_chunks_def)
    have "\<exists>f \<in> D. \<exists>j sz. map_of (db_file_chunks (st_db st)) (f, j) = Some (g, sz)"
      using F9 c unfolding D dbf by (auto simp: wf_map_of[OF wf_fc])
    moreover have "map_of (db_file_chunks (st_db st)) (f, j) \<noteq> Some (g, sz)" if "f \<notin> D" for f j sz
    proof
      assume "map_of (db_file_chunks (st_db st)) (f, j) = Some (g, sz)"
      then have "((f, j), (g, sz)) \<in> set (db_file_chunks db')"
        using that by (simp add: F1 D dbf wf_map_of[OF wf_fc])
      then show False using no by fastforce
    qed
    ultimately show "g \<in> E" unfolding E_def dropped_chunks_def D_def by blast
  next
    fix g assume g: "g \<in> E"
    then have "g \<in> set check" using in_check unfolding E_def dropped_chunks_def D_def by blast
    moreover have "fst (snd r) \<noteq> g" if r: "r \<in> set (db_file_chunks db')" for r
    proof
      assume "fst (snd r) = g"
      then have "((fst (fst r), snd (fst r)), (g, snd (snd r))) \<in> set (db_file_chunks (st_db st))" "fst (fst r) \<notin> D"
        using r by (auto simp: F1 D dbf)
      then show False using g wf_map_of[OF wf_fc] unfolding E_def dropped_chunks_def D_def by blast
    qed
    ultimately show "g \<in> E'" by (simp add: E'_def orphaned_chunks_def)
  qed
  show "st_dir_cache st' = st_dir_cache st" by (simp add: st' C1)
  show "db_directories (st_db st') = db_directories (st_db st)" by (simp add: st' C3 F3 dbf)
  show "map_of (db_paths (st_db st')) = (map_of (db_paths (st_db st)))(h := None)"
    by (simp add: st' C4 F4 delete_path_rows_def table_simps)
  show "map_of (db_path_files (st_db st')) (k, f) = (if k = h then None else map_of (db_path_files (st_db st)) (k, f))" for k f
    using pf[of k f] by (simp add: st' C5 F5)
  show "map_of (db_file_chunks (st_db st')) (f, j) =
      (if f \<in> D then None else map_of (db_file_chunks (st_db st)) (f, j))" for f j by (rule fc)
  show "map_of (db_chunks (st_db st')) g = (if g \<in> E then None else map_of (db_chunks (st_db st)) g)" for g
    using C8 E by (simp add: st' E'_def F2 dbf)
  show "map_of (st_files st') (cpath g) = (if g \<in> E then None else map_of (st_files st) (cpath g))" for g
    using C9 E by (simp add: st' E'_def)
  show "wf_table (db_paths (st_db st'))" using wf_p by (auto simp: st' C4 F4 delete_path_rows_def)
  show "wf_table (db_path_files (st_db st'))" using wf_pf by (auto simp: st' C5 F5 delete_path_rows_def)
  show "wf_table (db_file_chunks (st_db st'))" using wf_fc by (auto simp: st' C2 F1 dbf)
  show "wf_table (db_chunks (st_db st'))" using C6 by (simp add: st')
  show "wf_table (st_files st')" using C7 by (simp add: st')
  show "total_chunk_bytes st = total_chunk_bytes st' + freed"
    using C10 by (simp add: st' total_chunk_bytes_def F2 dbf)
qed

lemma evict_file_stored:
  assumes io: "\<And>p. io p" and inv: "castore_inv env U st" and env: "cas_env_ok env"
    and run: "evict_path io now h st = (freed, st')"
    and d: "file_stored env (st_db st) d" "blake3 env d \<notin> dropped_files (st_db st) h"
  shows "file_stored env (st_db st') d"
proof -
  note F = evict_path_fields[where io = io, OF io inv env run]
  have "map_of (db_chunks (st_db st')) (blake3 env c) \<noteq> None" if c: "c \<in> set (cdc env d)" for c
  proof -
    obtain i where "i < length (cdc env d)" "cdc env d ! i = c" using c by (auto simp: in_set_conv_nth)
    then have "map_of (db_file_chunks (st_db st)) (blake3 env d, i) = Some (blake3 env c, length c)"
      using d(1) by (auto simp: file_stored_def)
    then have "blake3 env c \<notin> dropped_chunks (st_db st) h" using d(2) unfolding dropped_chunks_def by blast
    then show ?thesis using d(1) c by (simp add: F(6) file_stored_def)
  qed
  then show ?thesis using d by (simp add: file_stored_def F(5))
qed

lemma serves_evict:
  assumes io: "\<And>p. io p" and env: "cas_env_ok env" and h: "serves env U st m"
    and run: "evict_path io now h st = (freed, st')"
  shows "serves env U st' (m(h := None))"
proof -
  have h0: "castore_inv env U st" using h unfolding serves_def by blast
  note F = evict_path_fields[where io = io, OF io h0 env run]
  note stored = evict_file_stored[where io = io, OF io h0 env run]
  let ?D = "dropped_files (st_db st) h" and ?E = "dropped_chunks (st_db st) h"
  have dbi: "db_inv env U (st_db st)" using castore_invD(1)[OF h0] .
  have rows: "\<exists>d \<in> U. f = blake3 env d \<and> set (cdc env d) \<subseteq> U \<and> i < length (cdc env d) \<and> file_stored env (st_db st') d"
    if "map_of (db_file_chunks (st_db st')) (f, i) = Some r" for f i r
  proof -
    have "f \<notin> ?D" "map_of (db_file_chunks (st_db st)) (f, i) = Some r" using that by (simp_all add: F(5) split: if_splits)
    then show ?thesis using db_inv_row[OF dbi] stored by blast
  qed
  have dirs: "b \<in> U \<and> g = blake3 env b \<and> (\<exists>x. b = encode_dir env x)"
    if "map_of (db_directories (st_db st')) g = Some b" for g b
    using dbi that unfolding db_inv_def F(2) by blast
  have pf32: "length f = 32" if "map_of (db_path_files (st_db st')) (k, f) \<noteq> None" for k f
  proof -
    have "map_of (db_path_files (st_db st)) (k, f) \<noteq> None" using that by (simp add: F(4) split: if_splits)
    then show ?thesis using dbi unfolding db_inv_def by blast
  qed
  have wfd: "wf_table (db_directories (st_db st'))" using dbi by (simp add: F(2) db_inv_def)
  have a1: "db_inv env U (st_db st')"
    unfolding db_inv_def by (intro conjI allI impI F(8-11) wfd) (use rows dirs pf32 in blast)+
  have a2: "files_inv env U st'"
    unfolding files_inv_def
  proof (intro conjI allI impI)
    show "wf_table (st_files st')" by (rule F(12))
    fix g row assume "map_of (db_chunks (st_db st')) g = Some row"
    then have g: "g \<notin> ?E" "map_of (db_chunks (st_db st)) g = Some row" by (simp_all add: F(6) split: if_splits)
    then have "chunk_ok env U (st_files st) g row" using castore_invD(2)[OF h0] by (simp add: files_inv_def)
    moreover have same: "map_of (st_files st') (cpath g) = map_of (st_files st) (cpath g)" using g(1) by (simp add: F(7))
    ultimately show "chunk_ok env U (st_files st') g row" unfolding chunk_ok_def same by blast
  qed
  have a3: "cache_inv env st'" using castore_invD(3)[OF h0] by (simp add: cache_inv_def F(1,2))
  have a6: "row_holds env U (st_db st') k q r"
    if k: "(m(h := None)) k = Some q" "map_of (db_paths (st_db st')) k = Some r" for k q r
  proof -
    have kh: "k \<noteq> h" using k(1) by auto
    then have "row_holds env U (st_db st) k q r" using k h unfolding serves_def by (simp add: F(3))
    then show ?thesis
    proof (rule row_holds_mono)
      fix n d assume d: "d \<in> set (files_of n)" "path_holds env U (st_db st) k n"
      then have "map_of (db_path_files (st_db st)) (k, blake3 env d) \<noteq> None" by (simp add: path_holds_def)
      then have "blake3 env d \<notin> ?D" using kh by (auto simp: dropped_files_def)
      then show "file_stored env (st_db st') d" using d stored by (simp add: path_holds_def tree_stored_def)
    next
      show "dir_stored env (st_db st) x \<Longrightarrow> dir_stored env (st_db st') x" for x by (simp add: dir_stored_def F(2))
    next
      show "map_of (db_path_files (st_db st)) (k, f) \<noteq> None \<Longrightarrow> map_of (db_path_files (st_db st')) (k, f) \<noteq> None" for f
        using kh by (simp add: F(4))
    qed
  qed
  have a7: "(map_of (db_paths (st_db st')) k = None) = ((m(h := None)) k = None)" for k
    using h by (simp add: serves_def F(3))
  show ?thesis unfolding serves_def castore_inv_def
    by (intro conjI allI impI a1 a2 a3 a7) (rule a6)
qed

lemma holds_evict:
  assumes io: "\<And>p. io p" and env: "cas_env_ok env" and h: "holds env U st m"
    and run: "evict_path io now h st = (freed, st')"
  shows "holds env U st' (m(h := None))"
proof -
  have h0: "castore_inv env U st" "no_orphans st" "files_owned (st_db st)" using h unfolding holds_def by blast+
  note F = evict_path_fields[where io = io, OF io h0(1) env run]
  let ?D = "dropped_files (st_db st) h" and ?E = "dropped_chunks (st_db st) h"
  have a4: "no_orphans st'" using h0(2) by (simp add: no_orphans_def F(6,7))
  have a5: "files_owned (st_db st')"
    unfolding files_owned_def
  proof (intro conjI allI impI)
    fix f j assume "map_of (db_file_chunks (st_db st')) (f, j) \<noteq> None"
    then have f: "f \<notin> ?D" "map_of (db_file_chunks (st_db st)) (f, j) \<noteq> None" by (simp_all add: F(5) split: if_splits)
    then obtain k where k: "map_of (db_path_files (st_db st)) (k, f) \<noteq> None" using h0(3) unfolding files_owned_def by blast
    obtain k' where "k' \<noteq> h" "map_of (db_path_files (st_db st)) (k', f) \<noteq> None"
    proof (cases "k = h")
      case True
      then show ?thesis using f(1) k that unfolding dropped_files_def by blast
    qed (use k that in blast)
    then show "\<exists>k. map_of (db_path_files (st_db st')) (k, f) \<noteq> None" by (intro exI[of _ k']) (simp add: F(4))
  next
    fix k f assume "map_of (db_path_files (st_db st')) (k, f) \<noteq> None"
    then have "k \<noteq> h" "map_of (db_path_files (st_db st)) (k, f) \<noteq> None" by (simp_all add: F(4) split: if_splits)
    moreover from this(2) have "map_of (db_paths (st_db st)) k \<noteq> None" using h0(3) unfolding files_owned_def by blast
    ultimately show "map_of (db_paths (st_db st')) k \<noteq> None" by (simp add: F(3))
  qed
  moreover have "serves env U st m" using h unfolding holds_iff by blast
  from serves_evict[where io = io, OF io env this run] have "serves env U st' (m(h := None))" .
  ultimately show ?thesis unfolding holds_iff using a4 by blast
qed

subsection \<open>The remaining operations\<close>

lemma holds_update_access:
  assumes h: "holds env U st m"
  shows "holds env U (update_access now hashes st) m"
proof -
  define touch :: "string \<Rightarrow> (string, path_row) table \<Rightarrow> (string, path_row) table" where
    "touch = (\<lambda>h ps. update_key h (\<lambda>r. r\<lparr>pr_last_access := now - now mod 3600\<rparr>) ps)"
  have keys: "map fst (fold touch hs ps) = map fst ps" for hs ps
    by (induction hs arbitrary: ps) (auto simp: touch_def)
  have none: "map_of (fold touch hs ps) k = None \<longleftrightarrow> map_of ps k = None" for hs ps k
    unfolding map_of_eq_None_iff by (metis keys list.set_map)
  have root: "map_of (fold touch hs ps) k = Some r \<Longrightarrow> \<exists>r0. map_of ps k = Some r0 \<and> pr_root_node r = pr_root_node r0" for hs ps k r
  proof (induction hs arbitrary: ps)
    case (Cons a hs)
    then obtain r1 where "map_of (touch a ps) k = Some r1" "pr_root_node r = pr_root_node r1" by fastforce
    then show ?case by (auto simp: touch_def table_simps split: if_splits)
  qed simp
  define db' where "db' = (st_db st)\<lparr>db_paths := fold touch (remdups hashes) (db_paths (st_db st))\<rparr>"
  have st': "update_access now hashes st = st\<lparr>st_db := db'\<rparr>" by (simp add: update_access_def touch_def db'_def Let_def)
  have h0: "castore_inv env U st" "no_orphans st" "files_owned (st_db st)" using h unfolding holds_def by blast+
  have "castore_inv env U (st\<lparr>st_db := db'\<rparr>)"
    using h0(1) castore_invD(1)[OF h0(1)]
    by (intro castore_inv_paths) (auto simp: db'_def db_inv_def wf_table_def keys)
  moreover have "no_orphans (st\<lparr>st_db := db'\<rparr>)" using h0(2) by (simp add: no_orphans_def db'_def)
  moreover have "files_owned db'" using h0(3) by (simp add: files_owned_def db'_def none)
  moreover have "row_holds env U db' k q r" if k: "m k = Some q" "map_of (db_paths db') k = Some r" for k q r
  proof -
    obtain r0 where r0: "map_of (db_paths (st_db st)) k = Some r0" "pr_root_node r = pr_root_node r0"
      using root[of "remdups hashes" "db_paths (st_db st)" k r] k(2) by (auto simp: db'_def)
    then have "row_holds env U (st_db st) k q r0" using h k(1) unfolding holds_def by blast
    then have "row_holds env U db' k q r0"
      by (rule row_holds_mono) (simp_all add: db'_def path_holds_def tree_stored_def file_stored_def dir_stored_def)
    then show ?thesis using r0(2) by (rule row_holds_root)
  qed
  moreover have "(map_of (db_paths db') k = None) = (m k = None)" for k
    using h by (simp add: holds_def db'_def none)
  ultimately show ?thesis unfolding st' holds_def by simp
qed

lemma map_of_dir_cache_insert:
  "map_of (dc_map (dir_cache_insert d x c)) k = Some y \<Longrightarrow> (k = d \<and> y = x) \<or> map_of (dc_map c) k = Some y"
  by (auto simp: dir_cache_insert_def Let_def table_simps split: if_splits list.splits)

lemma dc_map_get: "dc_map (snd (dir_cache_get d c)) = dc_map c"
  by (auto simp: dir_cache_get_def split: option.split)

lemma load_directory_inv:
  assumes env: "cas_env_ok env" and inv: "castore_inv env U st"
  shows "castore_inv env U (snd (load_directory env g st)) \<and> st_db (snd (load_directory env g st)) = st_db st \<and>
    st_files (snd (load_directory env g st)) = st_files st"
proof -
  let ?st = "snd (load_directory env g st)"
  let ?c = "snd (dir_cache_get g (st_dir_cache st))"
  note ci = castore_invD(3)[OF inv, unfolded cache_inv_def]
  have frame: "st_db ?st = st_db st" "st_files ?st = st_files st"
    by (auto simp: load_directory_def Let_def split: prod.splits option.splits)
  have wf: "dc_wf ?c" using ci dir_cache_get_wf by blast
  have "st_dir_cache ?st = ?c \<or> (\<exists>b x. map_of (db_directories (st_db st)) g = Some b \<and>
      decode_dir env b = Some x \<and> st_dir_cache ?st = dir_cache_insert g x ?c)"
    by (auto simp: load_directory_def Let_def split: prod.splits option.splits)
  then have "cache_inv env ?st"
  proof (elim disjE exE conjE)
    assume "st_dir_cache ?st = ?c"
    then show ?thesis using ci wf by (simp add: cache_inv_def frame dc_map_get)
  next
    fix b x assume b: "map_of (db_directories (st_db st)) g = Some b" "decode_dir env b = Some x"
      "st_dir_cache ?st = dir_cache_insert g x ?c"
    obtain y where "b = encode_dir env y" using castore_invD(1)[OF inv] b(1) unfolding db_inv_def by blast
    then have "b = encode_dir env x" using b(2) cas_env_okD(5)[OF env] by simp
    then show ?thesis using b ci dir_cache_insert_wf_abs[OF wf, of g x] map_of_dir_cache_insert[of g x ?c]
      unfolding cache_inv_def frame by (metis dc_map_get)
  qed
  then show ?thesis using inv by (simp add: castore_inv_def files_inv_def frame)
qed

lemma holds_load_directory:
  assumes env: "cas_env_ok env" and h: "holds env U st m"
  shows "holds env U (snd (load_directory env g st)) m"
  using h load_directory_inv[OF env, of U st g] by (simp add: holds_def no_orphans_def)

lemma holds_store_chunk:
  assumes env: "cas_env_ok env" and inj: "inj_on (blake3 env) U" and io: "\<And>p. io p" and h: "holds env U st m"
    and c: "c \<in> U" "length c \<le> CHUNK_MAX * 2"
  shows "holds env U (snd (store_chunk env io c st)) m"
proof -
  have h0: "castore_inv env U st" "no_orphans st" "files_owned (st_db st)" using h unfolding holds_def by blast+
  obtain st1 where 1: "store_chunk env io c st = (Ok (blake3 env c), st1)" "castore_inv env U st1"
      "no_orphans st1" "extends st st1" using store_chunk_steps[where io = io, OF env inj h0(1,2) c io] by blast
  have fc: "db_file_chunks (st_db st1) = db_file_chunks (st_db st)"
    using store_chunk_file_chunks[of env io c st] 1(1) by simp
  have paths: "db_paths (st_db st1) = db_paths (st_db st)" "db_path_files (st_db st1) = db_path_files (st_db st)"
    using 1(4) by (simp_all add: extends_def)
  have "files_owned (st_db st1)" using h0(3) by (simp add: files_owned_def fc paths)
  moreover have "row_holds env U (st_db st1) k q r" if "m k = Some q" "map_of (db_paths (st_db st1)) k = Some r" for k q r
    using extends_holds[OF h 1(2-4) that(1)] that(2) by (simp add: paths)
  moreover have "(map_of (db_paths (st_db st1)) k = None) = (m k = None)" for k using h by (simp add: holds_def paths)
  ultimately show ?thesis using 1 by (simp add: holds_def)
qed

subsection \<open>Histories\<close>

datatype store_op =
    PutNar string bytes
  | PutNarinfo string string
  | EvictPath string
  | UploadChunk bytes
  | UpdateAccess "string list"
  | LoadDirectory digest
  | Warmup warmup_thread

text \<open>A step of the warm-up thread is taken from any state the thread may be in: what it carries was
  built at any earlier moment, so a history covers every interleaving.\<close>

definition exec_op ::
  "nat \<Rightarrow> cas_env \<Rightarrow> float_sizes \<Rightarrow> (string \<Rightarrow> bool) \<Rightarrow> nat \<Rightarrow> store_op \<Rightarrow> castore \<Rightarrow> castore" where
  "exec_op fuel env fl io now a st =
     (case a of
        PutNar p d \<Rightarrow> snd (put_nar fuel env io now p d st)
      | PutNarinfo h content \<Rightarrow> snd (put_narinfo env now h content st)
      | EvictPath h \<Rightarrow> snd (evict_path io now h st)
      | UploadChunk d \<Rightarrow> snd (store_chunk env io d st)
      | UpdateAccess hs \<Rightarrow> update_access now hs st
      | LoadDirectory g \<Rightarrow> snd (load_directory env g st)
      | Warmup t \<Rightarrow> snd (spawn_warmup env fl (int now) t st))"

definition spec_op :: "store_op \<Rightarrow> content \<Rightarrow> content" where
  "spec_op a m =
     (case a of
        PutNar p d \<Rightarrow> (case parse_nar d of Inl _ \<Rightarrow> m | Inr n \<Rightarrow> m(hash_of_file_path p \<mapsto> Some n))
      | PutNarinfo h content \<Rightarrow> spec_put_narinfo h content m
      | EvictPath h \<Rightarrow> m(h := None)
      | _ \<Rightarrow> m)"

text \<open>The blobs an operation brings into the store, and the fuel its archive needs.\<close>

definition op_blobs :: "cas_env \<Rightarrow> store_op \<Rightarrow> bytes set" where
  "op_blobs env a =
     (case a of
        PutNar p d \<Rightarrow> (case parse_nar d of Inl _ \<Rightarrow> {} | Inr n \<Rightarrow> blobs_of env n)
      | UploadChunk d \<Rightarrow> {d}
      | _ \<Rightarrow> {})"

definition op_fits :: "nat \<Rightarrow> store_op \<Rightarrow> bool" where
  "op_fits fuel a =
     (case a of
        PutNar p d \<Rightarrow> (case parse_nar d of Inl _ \<Rightarrow> True | Inr n \<Rightarrow> nar_fuel n \<le> fuel)
      | UploadChunk d \<Rightarrow> length d \<le> CHUNK_MAX * 2
      | _ \<Rightarrow> True)"

lemma holds_exec_op:
  assumes env: "cas_env_ok env" and inj: "inj_on (blake3 env) U" and io: "\<And>p. io p" and h: "holds env U st m"
    and a: "op_blobs env a \<subseteq> U" "op_fits fuel a"
  shows "holds env U (exec_op fuel env fl io now a st) (spec_op a m)"
proof (cases a)
  case (PutNar p d)
  show ?thesis
  proof (cases "parse_nar d")
    case (Inl e)
    then show ?thesis using h PutNar by (simp add: exec_op_def spec_op_def put_nar_def)
  next
    case (Inr n)
    then show ?thesis using a holds_put_nar[where io = io, OF env inj io h Inr, of fuel now p] PutNar
      by (auto simp: exec_op_def spec_op_def op_blobs_def op_fits_def)
  qed
next
  case (PutNarinfo k c)
  then show ?thesis using holds_put_narinfo[OF env h] by (simp add: exec_op_def spec_op_def)
next
  case (EvictPath k)
  obtain freed st' where run: "evict_path io now k st = (freed, st')" by fastforce
  then show ?thesis using holds_evict[where io = io, OF io env h run] EvictPath by (simp add: exec_op_def spec_op_def)
next
  case (UploadChunk d)
  then show ?thesis using holds_store_chunk[where io = io, OF env inj io h] a
    by (simp add: exec_op_def spec_op_def op_blobs_def op_fits_def)
next
  case (UpdateAccess hs)
  then show ?thesis using holds_update_access[OF h] by (simp add: exec_op_def spec_op_def)
next
  case (LoadDirectory g)
  then show ?thesis using holds_load_directory[OF env h] by (simp add: exec_op_def spec_op_def)
next
  case (Warmup t)
  have "holds env U (snd (spawn_warmup env fl (int now) t st)) m = holds env U st m"
    by (rule holds_frame) simp_all
  then show ?thesis using h Warmup by (simp add: exec_op_def spec_op_def)
qed

text \<open>A new store: \<open>CastoreBackend::new\<close> on an empty directory.\<close>

definition new_castore :: "float_sizes \<Rightarrow> int \<Rightarrow> int \<Rightarrow> castore" where
  "new_castore fl level clock =
     \<lparr>st_db = empty_db\<lparr>db_meta := [(''clean_shutdown'', 0)]\<rparr>, st_files = [],
      st_dir_cache = dir_cache_new DIR_CACHE_CAPACITY,
      st_chunk_bloom = bloom_new fl 1024, st_path_bloom = bloom_new fl 1024,
      st_stats_cache = (clock, no_stats), st_level = level, st_bloom_ready = False,
      st_path_files_ready = True\<rparr>"

lemma holds_new: "holds env U (new_castore fl level clock) Map.empty"
  by (simp add: holds_def castore_inv_def db_inv_def files_inv_def cache_inv_def no_orphans_def files_owned_def
      new_castore_def empty_db_def dc_wf_new DIR_CACHE_CAPACITY_def) (simp add: dir_cache_new_def)

lemma holds_history:
  assumes "cas_env_ok env" and "inj_on (blake3 env) U" and "\<And>p. io p"
  shows "holds env U st m \<Longrightarrow> (\<Union>a \<in> set as. op_blobs env (snd a)) \<subseteq> U \<Longrightarrow> \<forall>a \<in> set as. op_fits fuel (snd a) \<Longrightarrow>
    holds env U (fold (\<lambda>(now, a). exec_op fuel env fl io now a) as st) (fold (\<lambda>(now, a). spec_op a) as m)"
proof (induction as arbitrary: st m)
  case (Cons a as)
  obtain now b where a: "a = (now, b)" by fastforce
  have "holds env U (exec_op fuel env fl io now b st) (spec_op b m)"
    using holds_exec_op[where io = io, OF assms Cons.prems(1)] Cons.prems(2,3) a by auto
  then show ?case using Cons a by auto
qed simp

end
