(* ===== verification/CastoreProps.thy ===== *)
theory CastoreProps
  imports CastoreRefine
begin

text \<open>
  The properties of the server's store, for every history of its operations
  (\<open>crates/ekapkgs-serve/src/storage/castore.rs\<close>): it serves what was put, eviction drops exactly
  what nothing refers to, the filters never hide an entry, metadata come back; and the case in which
  the claim of the source that an aborted ingest is harmless fails.
\<close>

subsection \<open>What the store serves\<close>

lemma spec_fuel:
  "\<forall>h n. m h = Some (Some n) \<longrightarrow> nar_fuel n \<le> fuel \<Longrightarrow> \<forall>a \<in> set as. op_fits fuel (snd a) \<Longrightarrow>
     fold (\<lambda>(now, a). spec_op a) as m h = Some (Some n) \<Longrightarrow> nar_fuel n \<le> fuel"
proof (induction as arbitrary: m)
  case (Cons a as)
  obtain now b where a: "a = (now, b)" by fastforce
  have "\<forall>h n. spec_op b m h = Some (Some n) \<longrightarrow> nar_fuel n \<le> fuel"
    using Cons.prems(1,2) a
    by (auto simp: spec_op_def spec_put_narinfo_def op_fits_def split: store_op.splits sum.splits if_splits)
  then show ?case using Cons a by auto
qed simp

definition run_store ::
  "nat \<Rightarrow> cas_env \<Rightarrow> float_sizes \<Rightarrow> (string \<Rightarrow> bool) \<Rightarrow> (nat \<times> store_op) list \<Rightarrow> castore \<Rightarrow> castore" where
  "run_store fuel env fl io as st = fold (\<lambda>(now, a). exec_op fuel env fl io now a) as st"

definition run_spec :: "(nat \<times> store_op) list \<Rightarrow> content" where
  "run_spec as = fold (\<lambda>(now, a). spec_op a) as Map.empty"

definition history_blobs :: "cas_env \<Rightarrow> (nat \<times> store_op) list \<Rightarrow> bytes set" where
  "history_blobs env as = (\<Union>a \<in> set as. op_blobs env (snd a))"

lemma holds_run:
  assumes "cas_env_ok env" and "inj_on (blake3 env) (history_blobs env as)" and "\<forall>p. io p"
    and "\<forall>a \<in> set as. op_fits fuel (snd a)"
  shows "holds env (history_blobs env as) (run_store fuel env fl io as (new_castore fl level clock)) (run_spec as)"
  unfolding run_store_def run_spec_def
  using assms(3,4) by (intro holds_history assms(1,2) holds_new) (auto simp: history_blobs_def)

text \<open>C1. The store refines a map from hashes to archives.  After any history of puts, narinfo uploads,
  chunk uploads, evictions, access updates, directory loads and warm-ups on a new store, reading a
  path answers the last archive put for its hash (its entries sorted), byte for byte, and nothing if
  it was evicted since; a hash with only a narinfo is an error.  No put or eviction of another path
  changes this.  Assumed: no digest collision among the blobs of this history, no failing disk write,
  uploaded chunks within the decompression bound.
\<close>

theorem castore_refines_map:
  assumes "cas_env_ok env" and "inj_on (blake3 env) (history_blobs env as)" and "\<forall>p. io p"
    and "\<forall>a \<in> set as. op_fits fuel (snd a)" and "0 < fuel"
  shows "get_nar fuel env p (run_store fuel env fl io as (new_castore fl level clock)) =
    (case run_spec as (hash_of_file_path p) of
       None \<Rightarrow> Ok None
     | Some None \<Rightarrow> Err NoVariant
     | Some (Some n) \<Rightarrow> Ok (Some (write_nar (sort_nar n))))"
proof (rule holds_get_nar[OF assms(1,2)])
  show "holds env (history_blobs env as) (run_store fuel env fl io as (new_castore fl level clock)) (run_spec as)"
    using assms(1-4) by (rule holds_run)
  show "0 < fuel" by fact
  show "nar_fuel n \<le> fuel" if "run_spec as (hash_of_file_path p) = Some (Some n)" for n
    using spec_fuel[of Map.empty fuel as] assms(4) that by (simp add: run_spec_def)
qed

definition sample_put :: "nat \<times> store_op" where
  "sample_put = (7, PutNar ''nar/abc.nar'' (write_nar sample_nar))"

lemma sample_put_parses: "parse_nar (write_nar sample_nar) = Ok sample_nar"
  using parse_write_nar[of sample_nar "[]"]
  by (simp add: sample_nar_def utf8_valid_def write_nar_def write_str_def length_write_bytes pad_len_def)

lemma sample_hash [simp]: "hash_of_file_path ''nar/abc.nar'' = ''abc''"
  by (simp add: hash_of_file_path_def last_segment_def first_segment_def)

lemma sample_fuel [simp]: "nar_fuel sample_nar = 3"
  by (simp add: sample_nar_def)

lemma sample_history:
  "history_blobs sample_env [sample_put] = blobs_of sample_env sample_nar"
  "\<forall>a \<in> set [sample_put]. op_fits 9 (snd a)"
  "run_spec [sample_put] = [''abc'' \<mapsto> Some sample_nar]"
  by (simp_all add: history_blobs_def sample_put_def op_blobs_def op_fits_def run_spec_def spec_op_def
      sample_put_parses)

theorem castore_refines_map_witness:
  "get_nar 9 sample_env ''nar/abc.nar''
     (run_store 9 sample_env toy_sizes (\<lambda>_. True) [sample_put] (new_castore toy_sizes 3 0)) =
   Ok (Some (write_nar (sort_nar sample_nar)))"
proof -
  have "inj_on (blake3 sample_env) (history_blobs sample_env [sample_put])"
    unfolding sample_history(1) by (rule sample_nar_inj)
  from castore_refines_map[OF sample_env_ok this, of "\<lambda>_. True" 9 "''nar/abc.nar''" toy_sizes 3 0]
  show ?thesis using sample_history(2) by (simp add: sample_history(3))
qed

subsection \<open>What an eviction removes\<close>

definition has_row :: "castore \<Rightarrow> digest \<Rightarrow> digest \<Rightarrow> bool" where
  "has_row st f g \<longleftrightarrow> (\<exists>j sz. map_of (db_file_chunks (st_db st)) (f, j) = Some (g, sz))"

definition refers :: "castore \<Rightarrow> string \<Rightarrow> digest \<Rightarrow> bool" where
  "refers st h f \<longleftrightarrow> map_of (db_path_files (st_db st)) (h, f) \<noteq> None"

lemma files_owned_refers:
  assumes "files_owned (st_db st)" and "map_of (db_file_chunks (st_db st)) (f, j) \<noteq> None"
  shows "\<exists>k. refers st k f"
  using assms unfolding files_owned_def refers_def by blast

lemma drop_chunks_other_files:
  "drop_chunks io gs st k = (k', st') \<Longrightarrow> \<forall>g. p \<noteq> chunk_path (hex_encode g) \<Longrightarrow>
     map_of (st_files st') p = map_of (st_files st) p"
proof (induction gs arbitrary: st k)
  case (Cons g gs)
  have ne: "p \<noteq> chunk_path (hex_encode g)" using Cons.prems(2) by blast
  show ?case
  proof (cases "list_ex (\<lambda>r. fst (snd r) = g) (db_file_chunks (st_db st))")
    case False
    let ?db = "(st_db st)\<lparr>db_chunks := delete_key g (db_chunks (st_db st))\<rparr>"
    let ?p = "chunk_path (hex_encode g)"
    let ?st = "st\<lparr>st_db := ?db, st_files := (if io ?p then delete_key ?p (st_files st) else st_files st)\<rparr>"
    obtain k2 where "drop_chunks io gs ?st k2 = (k', st')" using Cons.prems(1) False by (auto simp: Let_def)
    from Cons.IH[OF this Cons.prems(2)] show ?thesis using ne by (simp add: table_simps)
  qed (use Cons in simp)
qed simp

lemma evict_path_other_files:
  assumes "evict_path io now h st = (freed, st')" and "\<forall>g. p \<noteq> chunk_path (hex_encode g)"
  shows "map_of (st_files st') p = map_of (st_files st) p"
  using assms drop_chunks_other_files[OF _ assms(2)]
  by (auto simp: evict_path_def Let_def invalidate_stats_cache_def split: prod.splits if_splits)

text \<open>The chunks an eviction loses: a row of a file named them before, none does any more.\<close>

definition lost_chunk :: "castore \<Rightarrow> castore \<Rightarrow> digest \<Rightarrow> bool" where
  "lost_chunk st st' g \<longleftrightarrow> (\<exists>f. has_row st f g) \<and> \<not> (\<exists>f. has_row st' f g)"

text \<open>C3. Eviction is exact.  In any state a history reaches, evicting \<open>h\<close> removes the row of \<open>h\<close> and
  its file references and no other; the rows of a file go exactly when no path other than \<open>h\<close> refers
  to the file; the row and the file on disk of a chunk go exactly when rows of the file table named
  the chunk before and none does any more (a chunk that was uploaded and is part of no path stays);
  every other row and every other file on disk is as before, and the answer is the number of chunk
  bytes the table lost.  No file operation fails, and no two blobs of the history have the same
  digest.
\<close>

theorem evict_path_exact:
  assumes "cas_env_ok env" and "inj_on (blake3 env) (history_blobs env as)" and "\<forall>p. io p"
    and "\<forall>a \<in> set as. op_fits fuel (snd a)"
    and "st = run_store fuel env fl io as (new_castore fl level clock)"
    and "evict_path io now h st = (freed, st')"
  shows "total_chunk_bytes st = total_chunk_bytes st' + freed \<and>
    map_of (db_paths (st_db st')) = (map_of (db_paths (st_db st)))(h := None) \<and>
    (\<forall>k f. map_of (db_path_files (st_db st')) (k, f) =
      (if k = h then None else map_of (db_path_files (st_db st)) (k, f))) \<and>
    (\<forall>f j. map_of (db_file_chunks (st_db st')) (f, j) =
      (if \<exists>k. k \<noteq> h \<and> refers st k f then map_of (db_file_chunks (st_db st)) (f, j) else None)) \<and>
    (\<forall>g. map_of (db_chunks (st_db st')) g =
      (if lost_chunk st st' g then None else map_of (db_chunks (st_db st)) g)) \<and>
    (\<forall>p. map_of (st_files st') p =
      (if \<exists>g. lost_chunk st st' g \<and> p = chunk_path (hex_encode g) then None else map_of (st_files st) p)) \<and>
    db_directories (st_db st') = db_directories (st_db st)"
proof -
  have h: "holds env (history_blobs env as) st (run_spec as)" unfolding assms(5) using assms(1-4) by (rule holds_run)
  then have inv: "castore_inv env (history_blobs env as) st" and own: "files_owned (st_db st)"
    unfolding holds_def by blast+
  have io: "\<And>p. io p" using assms(3) by blast
  note F = evict_path_fields[where io = io, OF io inv assms(1) assms(6)]
  let ?D = "dropped_files (st_db st) h" and ?E = "dropped_chunks (st_db st) h"
  have D0: "f \<in> ?D \<longleftrightarrow> refers st h f \<and> (\<forall>k. k \<noteq> h \<longrightarrow> \<not> refers st k f)" for f
    unfolding dropped_files_def refers_def by (simp only: mem_Collect_eq not_not)
  have D: "f \<in> ?D \<longleftrightarrow> \<not> (\<exists>k. k \<noteq> h \<and> refers st k f)"
    if "map_of (db_file_chunks (st_db st)) (f, j) \<noteq> None" for f j
    using files_owned_refers[OF own that] unfolding D0 by metis
  have rows: "map_of (db_file_chunks (st_db st')) (f, j) =
      (if \<exists>k. k \<noteq> h \<and> refers st k f then map_of (db_file_chunks (st_db st)) (f, j) else None)" for f j
    using D[of f j] by (cases "map_of (db_file_chunks (st_db st)) (f, j) = None") (auto simp: F(5))
  have E: "g \<in> ?E \<longleftrightarrow> lost_chunk st st' g" for g
    unfolding lost_chunk_def dropped_chunks_def has_row_def by (auto simp: F(5) split: if_splits)
  have chunks: "map_of (db_chunks (st_db st')) g =
      (if lost_chunk st st' g then None else map_of (db_chunks (st_db st)) g)" for g
    by (simp add: F(6) E)
  have files: "map_of (st_files st') p =
      (if \<exists>g. lost_chunk st st' g \<and> p = chunk_path (hex_encode g) then None else map_of (st_files st) p)" for p
  proof (cases "\<exists>g. p = chunk_path (hex_encode g)")
    case True
    show ?thesis
    proof (cases "\<exists>g. lost_chunk st st' g \<and> p = chunk_path (hex_encode g)")
      case lost: True
      then obtain g where "lost_chunk st st' g" "p = chunk_path (hex_encode g)" by blast
      then have "map_of (st_files st') p = None" by (simp add: F(7)[unfolded cpath_def] E)
      then show ?thesis using lost by argo
    next
      case kept: False
      from True obtain g where "p = chunk_path (hex_encode g)" by blast
      moreover then have "\<not> lost_chunk st st' g" using kept by blast
      ultimately have "map_of (st_files st') p = map_of (st_files st) p" by (simp add: F(7)[unfolded cpath_def] E)
      then show ?thesis using kept by argo
    qed
  next
    case False
    then show ?thesis using evict_path_other_files[OF assms(6), of p] by auto
  qed
  show ?thesis using F(13) F(3) F(4) rows chunks files F(2) by blast
qed

theorem evict_path_exact_witness:
  "total_chunk_bytes (run_store 9 sample_env toy_sizes (\<lambda>_. True) [sample_put] (new_castore toy_sizes 3 0)) =
   total_chunk_bytes (snd (evict_path (\<lambda>_. True) 8 ''abc''
     (run_store 9 sample_env toy_sizes (\<lambda>_. True) [sample_put] (new_castore toy_sizes 3 0)))) +
   fst (evict_path (\<lambda>_. True) 8 ''abc''
     (run_store 9 sample_env toy_sizes (\<lambda>_. True) [sample_put] (new_castore toy_sizes 3 0)))"
proof -
  have "inj_on (blake3 sample_env) (history_blobs sample_env [sample_put])"
    unfolding sample_history(1) by (rule sample_nar_inj)
  from evict_path_exact[OF sample_env_ok this _ sample_history(2) refl prod.collapse[symmetric]]
  show ?thesis by simp
qed

subsection \<open>Nothing stays that nothing refers to\<close>

definition uploaded :: "cas_env \<Rightarrow> (nat \<times> store_op) list \<Rightarrow> digest set" where
  "uploaded env as = {blake3 env d | now d. (now, UploadChunk d) \<in> set as}"

definition chunks_owned :: "digest set \<Rightarrow> castore \<Rightarrow> bool" where
  "chunks_owned A st \<longleftrightarrow> (\<forall>g. map_of (db_chunks (st_db st)) g \<noteq> None \<longrightarrow> g \<in> A \<or> (\<exists>f. has_row st f g))"

definition chunk_keys :: "castore \<Rightarrow> digest set" where
  "chunk_keys st = fst ` set (db_chunks (st_db st))"

lemma map_of_chunk_keys: "map_of (db_chunks (st_db st)) g \<noteq> None \<longleftrightarrow> g \<in> chunk_keys st"
  by (simp add: chunk_keys_def map_of_eq_None_iff)

lemma store_chunk_keys: "chunk_keys (snd (store_chunk env io c st)) \<subseteq> insert (blake3 env c) (chunk_keys st)"
  by (auto simp: chunk_keys_def store_chunk_def bindS_def write_chunk_file_def chunk_bloom_insert_def
      insert_chunk_row_def insert_or_ignore_def Let_def split: prod.splits sum.splits option.splits if_splits)

lemma ingest_chunks_keys: "chunk_keys (snd (ingest_chunks env io cs st)) \<subseteq> blake3 env ` set cs \<union> chunk_keys st"
proof (induction cs arbitrary: st)
  case (Cons c cs)
  obtain r st1 where 1: "store_chunk env io c st = (r, st1)" by fastforce
  have "chunk_keys st1 \<subseteq> insert (blake3 env c) (chunk_keys st)" using store_chunk_keys[of env io c st] 1 by simp
  then show ?case using Cons[of st1] 1
    by (fastforce simp: bindS_def returnS_def split: prod.splits sum.splits)
qed (simp add: returnS_def)

lemma chunk_keys_db [simp]:
  "chunk_keys (st\<lparr>st_db := insert_file_chunk_rows f i rows (st_db st)\<rparr>) = chunk_keys st"
  "chunk_keys (st\<lparr>st_db := snd (insert_directory env x (st_db st))\<rparr>) = chunk_keys st"
  by (simp_all add: chunk_keys_def insert_directory_def Let_def)

lemma ingest_keys:
  "chunk_keys (snd (ingest_node env io n st)) \<subseteq> (\<Union>d \<in> set (files_of n). blake3 env ` set (cdc env d)) \<union> chunk_keys st"
  "chunk_keys (snd (ingest_entries env io es st)) \<subseteq>
     (\<Union>d \<in> set (files_of_entries es). blake3 env ` set (cdc env d)) \<union> chunk_keys st"
proof (induction env io n st and env io es st rule: ingest_node_ingest_entries.induct)
  case (1 env io x d st)
  obtain r st1 where 1: "ingest_chunks env io (cdc env d) st = (r, st1)" by fastforce
  then have "chunk_keys (snd (ingest_node env io (Regular x d) st)) = chunk_keys st1"
    by (cases r) (simp_all add: bindS_def Let_def)
  then show ?case using ingest_chunks_keys[of env io "cdc env d" st] 1 by auto
next
  case (2 env io es st)
  obtain r st1 where 1: "ingest_entries env io es st = (r, st1)" by fastforce
  then have "chunk_keys (snd (ingest_node env io (Directory es) st)) = chunk_keys st1"
    by (cases r) (simp_all add: bindS_def split_def Let_def)
  then show ?case using 2[of st] 1 by (simp del: ingest_node.simps)
next
  case (5 env io name n es st)
  obtain r st1 where 1: "ingest_node env io n st = (r, st1)" by fastforce
  have a: "chunk_keys (snd (ingest_node env io n x)) \<subseteq>
      (\<Union>d \<in> set (files_of n). blake3 env ` set (cdc env d)) \<union> chunk_keys x" for x by (rule 5(1))
  have b: "chunk_keys (snd (ingest_entries env io es x)) \<subseteq>
      (\<Union>d \<in> set (files_of_entries es). blake3 env ` set (cdc env d)) \<union> chunk_keys x" for x by (rule 5(2))
  show ?case
  proof (cases r)
    case (Inl e)
    then have "snd (ingest_entries env io ((name, n) # es) st) = st1" using 1 by (simp add: bindS_def)
    moreover have "chunk_keys st1 \<subseteq> (\<Union>d \<in> set (files_of n). blake3 env ` set (cdc env d)) \<union> chunk_keys st"
      using a[of st] 1 by simp
    ultimately show ?thesis by auto
  next
    case (Inr c)
    obtain r2 st2 where 2: "ingest_entries env io es st1 = (r2, st2)" by fastforce
    have "snd (ingest_entries env io ((name, n) # es) st) = st2"
      using 1 2 Inr by (cases r2) (simp_all add: bindS_def returnS_def)
    moreover have "chunk_keys st1 \<subseteq> (\<Union>d \<in> set (files_of n). blake3 env ` set (cdc env d)) \<union> chunk_keys st"
      using a[of st] 1 by simp
    moreover have "chunk_keys st2 \<subseteq> (\<Union>d \<in> set (files_of_entries es). blake3 env ` set (cdc env d)) \<union> chunk_keys st1"
      using b[of st1] 2 by simp
    ultimately show ?thesis by auto
  qed
qed (simp_all add: returnS_def)

lemma chunks_owned_put_nar:
  assumes env: "cas_env_ok env" and inj: "inj_on (blake3 env) U" and io: "\<And>p. io p" and h: "holds env U st m"
    and n: "parse_nar d = Ok n" "blobs_of env n \<subseteq> U" "nar_fuel n \<le> fuel" and own: "chunks_owned A st"
  shows "chunks_owned A (snd (put_nar fuel env io now p d st))"
proof -
  have h0: "castore_inv env U st" "no_orphans st" using h unfolding holds_def by blast+
  from ingest_steps(1)[where io = io, OF env inj io h0 n(2)] obtain st1 where
    1: "ingest_node env io n st = (Ok (root_of env n), st1)" and e: "extends st st1"
    and tree: "tree_stored env (st_db st1) n" by (elim exE conjE)
  have keys: "chunk_keys st1 \<subseteq> (\<Union>d \<in> set (files_of n). blake3 env ` set (cdc env d)) \<union> chunk_keys st"
    using ingest_keys(1)[of env io n st] 1 by simp
  have le: "map_of (db_file_chunks (st_db st)) \<subseteq>\<^sub>m map_of (db_file_chunks (st_db st1))"
    using e by (simp add: extends_def)
  have old: "has_row st f g \<Longrightarrow> has_row st1 f g" for f g
    using le unfolding has_row_def map_le_def by (metis domI)
  have new: "\<exists>f. has_row st1 f (blake3 env c)" if d: "d \<in> set (files_of n)" "c \<in> set (cdc env d)" for d c
  proof -
    obtain i where "i < length (cdc env d)" "cdc env d ! i = c" using d(2) by (auto simp: in_set_conv_nth)
    then have "map_of (db_file_chunks (st_db st1)) (blake3 env d, i) = Some (blake3 env c, length c)"
      using tree d(1) by (auto simp: tree_stored_def file_stored_def)
    then show ?thesis unfolding has_row_def by blast
  qed
  have "chunks_owned A st1"
    unfolding chunks_owned_def map_of_chunk_keys
  proof (intro allI impI)
    fix g assume "g \<in> chunk_keys st1"
    then consider d c where "d \<in> set (files_of n)" "c \<in> set (cdc env d)" "g = blake3 env c" | "g \<in> chunk_keys st"
      using keys by blast
    then show "g \<in> A \<or> (\<exists>f. has_row st1 f g)"
    proof cases
      case 1
      then show ?thesis using new by blast
    next
      case 2
      then show ?thesis using own old unfolding chunks_owned_def map_of_chunk_keys by blast
    qed
  qed
  moreover have "\<forall>x \<in> set (dirs_of env n). dir_stored env (st_db st1) x" using tree by (simp add: tree_stored_def)
  from collect_stored(1)[OF env n(3) this, of "[]"] obtain fds where
    "collect_file_digests_from_tree fuel env (st_db st1) (root_of env n) [] = Some fds" by auto
  then have "db_chunks (st_db (snd (put_nar fuel env io now p d st))) = db_chunks (st_db st1)"
      "db_file_chunks (st_db (snd (put_nar fuel env io now p d st))) = db_file_chunks (st_db st1)"
    using 1 n(1) by (simp_all add: put_nar_def Let_def insert_path_files)
  ultimately show ?thesis by (simp add: chunks_owned_def has_row_def)
qed

lemma chunks_owned_evict:
  assumes io: "\<And>p. io p" and inv: "castore_inv env U st" and env: "cas_env_ok env" and own: "chunks_owned A st"
    and run: "evict_path io now h st = (freed, st')"
  shows "chunks_owned A st'"
proof -
  note F = evict_path_fields[where io = io, OF io inv env run]
  show ?thesis unfolding chunks_owned_def
  proof (intro allI impI)
    fix g assume "map_of (db_chunks (st_db st')) g \<noteq> None"
    then have g: "g \<notin> dropped_chunks (st_db st) h" "map_of (db_chunks (st_db st)) g \<noteq> None"
      by (simp_all add: F(6) split: if_splits)
    show "g \<in> A \<or> (\<exists>f. has_row st' f g)"
    proof (cases "g \<in> A")
      case False
      then obtain f j sz where "map_of (db_file_chunks (st_db st)) (f, j) = Some (g, sz)"
        using own g(2) unfolding chunks_owned_def has_row_def by blast
      then obtain f j sz where "f \<notin> dropped_files (st_db st) h" "map_of (db_file_chunks (st_db st)) (f, j) = Some (g, sz)"
        using g(1) unfolding dropped_chunks_def by blast
      then have "map_of (db_file_chunks (st_db st')) (f, j) = Some (g, sz)" by (simp add: F(5))
      then show ?thesis unfolding has_row_def by blast
    qed simp
  qed
qed

lemma chunks_owned_mono:
  assumes "chunks_owned A st" and "chunk_keys st' \<subseteq> B \<union> chunk_keys st" and "A \<union> B \<subseteq> C"
    and "db_file_chunks (st_db st') = db_file_chunks (st_db st)"
  shows "chunks_owned C st'"
  using assms unfolding chunks_owned_def map_of_chunk_keys has_row_def by auto

lemma chunks_owned_exec_op:
  assumes env: "cas_env_ok env" and inj: "inj_on (blake3 env) U" and io: "\<And>p. io p" and h: "holds env U st m"
    and a: "op_blobs env a \<subseteq> U" "op_fits fuel a" and own: "chunks_owned A st"
    and up: "\<And>d. a = UploadChunk d \<Longrightarrow> blake3 env d \<in> A"
  shows "chunks_owned A (exec_op fuel env fl io now a st)"
proof (cases a)
  case (PutNar p d)
  show ?thesis
  proof (cases "parse_nar d")
    case (Inl e)
    then show ?thesis using own PutNar by (simp add: exec_op_def put_nar_def)
  next
    case (Inr n)
    then show ?thesis using chunks_owned_put_nar[where io = io, OF env inj io h Inr _ _ own] a PutNar
      by (simp add: exec_op_def op_blobs_def op_fits_def)
  qed
next
  case (PutNarinfo k c)
  have "chunk_keys (snd (put_narinfo env now k c st)) = chunk_keys st \<and>
      db_file_chunks (st_db (snd (put_narinfo env now k c st))) = db_file_chunks (st_db st)"
    by (auto simp: put_narinfo_def chunk_keys_def store_metadata_def split: option.splits sum.splits)
  then show ?thesis using PutNarinfo own by (auto simp: exec_op_def intro: chunks_owned_mono[of A st _ "{}"])
next
  case (EvictPath k)
  obtain freed st' where run: "evict_path io now k st = (freed, st')" by fastforce
  have "castore_inv env U st" using h unfolding holds_def by blast
  then have "chunks_owned A st'" by (rule chunks_owned_evict[where io = io, OF io _ env own run])
  then show ?thesis using EvictPath run by (simp add: exec_op_def)
next
  case (UploadChunk d)
  then show ?thesis using own up store_chunk_keys[of env io d st] store_chunk_file_chunks[of env io d st]
    by (auto simp: exec_op_def intro: chunks_owned_mono[of A st _ "{blake3 env d}"])
next
  case (UpdateAccess hs)
  have "chunk_keys (update_access now hs st) = chunk_keys st \<and>
      db_file_chunks (st_db (update_access now hs st)) = db_file_chunks (st_db st)"
    by (simp add: update_access_def chunk_keys_def Let_def)
  then show ?thesis using UpdateAccess own by (auto simp: exec_op_def intro: chunks_owned_mono[of A st _ "{}"])
next
  case (LoadDirectory g)
  have "st_db (snd (load_directory env g st)) = st_db st"
    by (auto simp: load_directory_def Let_def split: prod.splits option.splits)
  then show ?thesis using LoadDirectory own by (simp add: exec_op_def chunks_owned_def has_row_def)
next
  case (Warmup t)
  then show ?thesis using own by (simp add: exec_op_def chunks_owned_def has_row_def)
qed

lemma chunks_owned_history:
  assumes "cas_env_ok env" and "inj_on (blake3 env) U" and "\<And>p. io p"
  shows "holds env U st m \<Longrightarrow> chunks_owned A st \<Longrightarrow> history_blobs env as \<subseteq> U \<Longrightarrow> uploaded env as \<subseteq> A \<Longrightarrow>
    \<forall>a \<in> set as. op_fits fuel (snd a) \<Longrightarrow> chunks_owned A (run_store fuel env fl io as st)"
  unfolding run_store_def
proof (induction as arbitrary: st m)
  case (Cons a as)
  obtain now b where a: "a = (now, b)" by fastforce
  have b: "op_blobs env b \<subseteq> U" "op_fits fuel b" using Cons.prems(3,5) a by (auto simp: history_blobs_def)
  have "chunks_owned A (exec_op fuel env fl io now b st)"
    using Cons.prems(2,4) a by (intro chunks_owned_exec_op[where io = io, OF assms Cons.prems(1) b]) (auto simp: uploaded_def)
  moreover have "holds env U (exec_op fuel env fl io now b st) (spec_op b m)"
    by (rule holds_exec_op[where io = io, OF assms Cons.prems(1) b])
  moreover have "history_blobs env as \<subseteq> U" "uploaded env as \<subseteq> A" "\<forall>a \<in> set as. op_fits fuel (snd a)"
    using Cons.prems(3-5) a by (auto simp: history_blobs_def uploaded_def)
  ultimately show ?case using Cons.IH a by simp
qed simp

text \<open>C4. No leak.  Once every path of a history is evicted, no file row and no reference is left, and the
  only chunks left, in the table or on disk, are those that were uploaded on their own; no operation
  of the store ever removes such a chunk unless a path with it was put and evicted.
\<close>

theorem evicted_store_is_empty:
  assumes "cas_env_ok env" and "inj_on (blake3 env) (history_blobs env as)" and "\<forall>p. io p"
    and "\<forall>a \<in> set as. op_fits fuel (snd a)" and "run_spec as = Map.empty"
  shows "db_file_chunks (st_db (run_store fuel env fl io as (new_castore fl level clock))) = [] \<and>
    db_path_files (st_db (run_store fuel env fl io as (new_castore fl level clock))) = [] \<and>
    chunk_keys (run_store fuel env fl io as (new_castore fl level clock)) \<subseteq> uploaded env as \<and>
    {g. map_of (st_files (run_store fuel env fl io as (new_castore fl level clock))) (chunk_path (hex_encode g)) \<noteq> None}
      \<subseteq> uploaded env as"
proof -
  define st where "st = run_store fuel env fl io as (new_castore fl level clock)"
  have io: "\<And>p. io p" using assms(3) by blast
  have h: "holds env (history_blobs env as) st (run_spec as)" unfolding st_def using assms(1-4) by (rule holds_run)
  then have own: "files_owned (st_db st)" and orph: "no_orphans st"
    and none: "\<forall>k. map_of (db_paths (st_db st)) k = None" using assms(5) by (simp_all add: holds_def)
  have pf: "map_of (db_path_files (st_db st)) (k, f) = None" for k f
    using own none unfolding files_owned_def by blast
  then have "map_of (db_file_chunks (st_db st)) (f, j) = None" for f j
    using files_owned_refers[OF own, of f j] unfolding refers_def by metis
  then have fc: "map_of (db_file_chunks (st_db st)) = Map.empty" by (auto simp: fun_eq_iff)
  have pf': "map_of (db_path_files (st_db st)) = Map.empty" using pf by (auto simp: fun_eq_iff)
  have "chunks_owned (uploaded env as) st" unfolding st_def
    by (rule chunks_owned_history[where io = io, OF assms(1,2) io holds_new _ order_refl order_refl assms(4)])
      (simp add: chunks_owned_def new_castore_def empty_db_def)
  then have keys: "chunk_keys st \<subseteq> uploaded env as"
    unfolding chunks_owned_def map_of_chunk_keys has_row_def by (auto simp: fc)
  have files: "{g. map_of (st_files st) (chunk_path (hex_encode g)) \<noteq> None} \<subseteq> uploaded env as"
    using orph keys unfolding no_orphans_def cpath_def map_of_chunk_keys by blast
  show ?thesis unfolding st_def[symmetric] using fc pf' keys files by (simp add: map_of_eq_empty_iff)
qed

definition sample_cycle :: "(nat \<times> store_op) list" where
  "sample_cycle = [sample_put, (8, EvictPath ''abc''), (9, UploadChunk ''o'')]"

theorem evicted_store_is_empty_witness:
  "db_file_chunks (st_db (run_store 9 sample_env toy_sizes (\<lambda>_. True) sample_cycle (new_castore toy_sizes 3 0))) = [] \<and>
   chunk_keys (run_store 9 sample_env toy_sizes (\<lambda>_. True) sample_cycle (new_castore toy_sizes 3 0)) \<subseteq> {sample_blake3 ''o''}"
proof -
  have blobs: "history_blobs sample_env sample_cycle = blobs_of sample_env sample_nar"
    using sample_history(1) sample_nar_blobs
    by (auto simp: sample_cycle_def history_blobs_def op_blobs_def)
  have inj: "inj_on (blake3 sample_env) (history_blobs sample_env sample_cycle)"
    unfolding blobs by (rule sample_nar_inj)
  have fits: "\<forall>a \<in> set sample_cycle. op_fits 9 (snd a)"
    using sample_history(2) by (simp add: sample_cycle_def op_fits_def CHUNK_MAX_def)
  have empty: "run_spec sample_cycle = Map.empty"
    by (simp add: sample_cycle_def run_spec_def spec_op_def sample_put_def sample_put_parses)
  have up: "uploaded sample_env sample_cycle = {sample_blake3 ''o''}"
    by (auto simp: uploaded_def sample_cycle_def sample_put_def)
  from evicted_store_is_empty[OF sample_env_ok inj _ fits empty, of "\<lambda>_. True" toy_sizes 3 0]
  show ?thesis by (simp add: up)
qed

subsection \<open>An aborted ingest is not harmless\<close>

text \<open>C36. A \<open>put_nar\<close> that fails between two chunks.  The archive is one file of at least two chunks
  that both go to disk; the first is new and zstd shortens it, writing the second one's file fails.
  Then \<open>put_nar\<close> fails and its transaction is rolled back, but the compressed file of the first chunk
  stays without a row.  Storing that chunk again records it as uncompressed, because
  \<open>write_chunk_file\<close> finds the file and returns no level; reads of it then answer the compressed bytes
  instead of the chunk.
\<close>

theorem aborted_ingest_corrupts_chunk:
  assumes "parse_nar a = Ok (Regular x d)" and "cdc env d = c # c2 # cs"
    and "INLINE_THRESHOLD \<le> length c" and "INLINE_THRESHOLD \<le> length c2"
    and "length (zstd_compress env (st_level st) c) < length c"
    and "map_of (st_files st) (chunk_path (hex_encode (blake3 env c))) = None"
    and "map_of (st_files st) (chunk_path (hex_encode (blake3 env c2))) = None"
    and "map_of (db_chunks (st_db st)) (blake3 env c) = None"
    and "io (chunk_path (hex_encode (blake3 env c)))" and "\<not> io (chunk_path (hex_encode (blake3 env c2)))"
  shows "fst (put_nar fuel env io now p a st) = Err IoError \<and>
    st_db (snd (put_nar fuel env io now p a st)) = st_db st \<and>
    get_chunk_by_digest env (snd (store_chunk env io' c (snd (put_nar fuel env io now p a st)))) (blake3 env c) =
      Ok (Some (zstd_compress env (st_level st) c))"
proof -
  have ne: "chunk_path (hex_encode (blake3 env c2)) \<noteq> chunk_path (hex_encode (blake3 env c))" using assms(9,10) by metis
  obtain st1 where st1: "store_chunk env io c st = (Ok (blake3 env c), st1)"
    and files: "st_files st1 = insert_or_replace (chunk_path (hex_encode (blake3 env c)))
        (zstd_compress env (st_level st) c) (st_files st)" and lv: "st_level st1 = st_level st"
    using assms(3,5,6,9)
    by (simp add: store_chunk_def bindS_def write_chunk_file_def Let_def chunk_bloom_insert_def)
  have "map_of (st_files st1) (chunk_path (hex_encode (blake3 env c2))) = None"
    using ne assms(7) by (simp add: files table_simps)
  then have "store_chunk env io c2 st1 = (Err IoError, st1)"
    using assms(4,10) by (simp add: store_chunk_def bindS_def write_chunk_file_def Let_def)
  then have put: "put_nar fuel env io now p a st = (Err IoError, rollback st st1)"
    using assms(1,2) st1 by (simp add: put_nar_def bindS_def Let_def)
  have "map_of (st_files (rollback st st1)) (chunk_path (hex_encode (blake3 env c))) =
      Some (zstd_compress env (st_level st) c)"
    by (simp add: rollback_def files table_simps)
  then show ?thesis using assms(3,8) unfolding put fst_conv snd_conv
    by (simp add: rollback_def store_chunk_def bindS_def write_chunk_file_def Let_def chunk_bloom_insert_def
        insert_chunk_row_def inline_of_def get_chunk_by_digest_def table_simps)
qed

definition half_written :: bytes where
  "half_written = replicate 2048 (CHR ''a'') @ replicate 2048 (CHR ''b'')"

definition second_file_fails :: "string \<Rightarrow> bool" where
  "second_file_fails p \<longleftrightarrow> p \<noteq> chunk_path (hex_encode (sample_blake3 (replicate 2048 (CHR ''b''))))"

lemma half_written_chunks: "sample_cdc half_written = [replicate 2048 (CHR ''a''), replicate 2048 (CHR ''b'')]"
  by (simp add: sample_cdc_def half_written_def slices.simps[of _ "_ @ _"] slices.simps[of _ "replicate _ _"] slices.simps[of _ "[]"])

theorem aborted_ingest_corrupts_chunk_witness:
  "fst (put_nar 9 sample_env second_file_fails 7 ''nar/abc.nar'' (write_nar (Regular False half_written))
      (new_castore toy_sizes 3 0)) = Err IoError"
proof -
  have "sample_blake3 (replicate 2048 (CHR ''a'')) \<noteq> sample_blake3 (replicate 2048 (CHR ''b''))"
    by (simp add: sample_blake3_def)
  then have "cpath (sample_blake3 (replicate 2048 (CHR ''a''))) \<noteq> cpath (sample_blake3 (replicate 2048 (CHR ''b'')))"
    by simp
  then have io: "second_file_fails (chunk_path (hex_encode (sample_blake3 (replicate 2048 (CHR ''a'')))))"
    by (simp only: second_file_fails_def cpath_def) simp
  have parse: "parse_nar (write_nar (Regular False half_written)) = Ok (Regular False half_written)"
    using parse_write_nar[of "Regular False half_written" "[]"]
    by (simp add: half_written_def write_nar_def write_str_def length_write_bytes pad_len_def)
  have "sample_cdc half_written = replicate 2048 (CHR ''a'') # replicate 2048 (CHR ''b'') # []"
    using half_written_chunks .
  from aborted_ingest_corrupts_chunk[OF parse, of sample_env, unfolded sample_env_simps, OF this, of "new_castore toy_sizes 3 0" second_file_fails 9 7 "''nar/abc.nar''"]
  show ?thesis using io
    by (simp add: INLINE_THRESHOLD_def sample_compress_def new_castore_def empty_db_def second_file_fails_def u64_to_le_bytes_def)
qed

subsection \<open>Metadata\<close>

lemma basename_notin: "CHR ''/'' \<notin> set (basename r)"
  by (simp add: basename_def last_segment_notin)

lemma split_column_join:
  "\<forall>s \<in> set ss. c \<notin> set s \<and> s \<noteq> [] \<Longrightarrow> split_column c (join [c] ss) = ss"
proof (cases ss)
  case (Cons a list)
  assume "\<forall>s \<in> set ss. c \<notin> set s \<and> s \<noteq> []"
  moreover from this have "join [c] ss \<noteq> []" using Cons by (cases list) auto
  ultimately show ?thesis using Cons by (simp add: split_column_def split_on_join)
qed (simp add: split_column_def)

lemma store_chunk_paths: "db_paths (st_db (snd (store_chunk env io c st))) = db_paths (st_db st)"
  by (auto simp: store_chunk_def bindS_def write_chunk_file_def chunk_bloom_insert_def insert_chunk_row_def
      Let_def split: prod.splits sum.splits option.splits if_splits)

lemma ingest_chunks_paths: "db_paths (st_db (snd (ingest_chunks env io cs st))) = db_paths (st_db st)"
proof (induction cs arbitrary: st)
  case (Cons c cs)
  obtain r st1 where 1: "store_chunk env io c st = (r, st1)" by fastforce
  obtain r2 st2 where 2: "ingest_chunks env io cs st1 = (r2, st2)" by fastforce
  show ?case using 1 2 Cons[of st1] store_chunk_paths[of env io c st]
    by (cases r; cases r2) (simp_all add: bindS_def returnS_def)
qed (simp add: returnS_def)

lemma ingest_paths:
  "db_paths (st_db (snd (ingest_node env io n st))) = db_paths (st_db st)"
  "db_paths (st_db (snd (ingest_entries env io es st))) = db_paths (st_db st)"
proof (induction env io n st and env io es st rule: ingest_node_ingest_entries.induct)
  case (1 env io x d st)
  obtain r st1 where 1: "ingest_chunks env io (cdc env d) st = (r, st1)" by fastforce
  then show ?case using ingest_chunks_paths[of env io "cdc env d" st] by (cases r) (simp_all add: bindS_def Let_def)
next
  case (2 env io es st)
  have IH: "db_paths (st_db (snd (ingest_entries env io es x))) = db_paths (st_db x)" for x by (rule 2)
  obtain r st1 where 1: "ingest_entries env io es st = (r, st1)" by fastforce
  then show ?case using IH[of st] by (cases r) (simp_all add: bindS_def insert_directory_def Let_def)
next
  case (5 env io name n es st)
  have a: "db_paths (st_db (snd (ingest_node env io n x))) = db_paths (st_db x)" for x by (rule 5(1))
  have b: "db_paths (st_db (snd (ingest_entries env io es x))) = db_paths (st_db x)" for x by (rule 5(2))
  obtain r st1 where 1: "ingest_node env io n st = (r, st1)" by fastforce
  obtain r2 st2 where 2: "ingest_entries env io es st1 = (r2, st2)" by fastforce
  show ?case using 1 2 a[of st] b[of st1] by (cases r; cases r2) (simp_all add: bindS_def returnS_def)
qed (simp_all add: returnS_def)

text \<open>What the columns of \<open>cas_paths\<close> can represent.\<close>

definition storable :: "narinfo \<Rightarrow> bool" where
  "storable ni \<longleftrightarrow>
     (\<forall>r \<in> set (ni_references ni). basename r \<noteq> [] \<and> CHR '' '' \<notin> set (basename r)) \<and>
     (\<forall>s \<in> set (ni_signatures ni). s \<noteq> [] \<and> NL \<notin> set s) \<and> ni_deriver ni \<noteq> Some [] \<and> ni_ca ni \<noteq> Some []"

text \<open>What a path served from the store reports: uncompressed, its own URL, references by name.\<close>

definition served_info :: "string \<Rightarrow> narinfo \<Rightarrow> narinfo" where
  "served_info h ni = ni\<lparr>ni_url := ''nar/'' @ h @ ''.nar'', ni_compression := ''none'', ni_file_hash := [],
     ni_file_size := 0, ni_references := map basename (ni_references ni)\<rparr>"

lemma load_stored_metadata:
  assumes "storable ni"
  shows "load_metadata_with_conn h (store_metadata_with_conn env now h ni root db) = Some (served_info h ni)"
proof -
  have "opt_column (column_of x) = x" if "x \<noteq> Some []" for x
    using that by (cases x) (auto simp: opt_column_def column_of_def)
  moreover have "split_column (CHR '' '') (join '' '' (map basename (ni_references ni))) = map basename (ni_references ni)"
    using assms by (intro split_column_join) (auto simp: storable_def)
  moreover have "split_column NL (join [NL] (ni_signatures ni)) = ni_signatures ni"
    using assms by (intro split_column_join) (auto simp: storable_def)
  ultimately show ?thesis
    using assms by (simp add: load_metadata_with_conn_def store_metadata_with_conn_def table_simps
        row_to_narinfo_def served_info_def storable_def)
qed

lemma basename_basename: "basename (basename r) = basename r"
  using basename_notin[of r] by (simp add: basename_def last_segment_id)

lemma storable_served: "storable ni \<Longrightarrow> storable (served_info h ni)"
  by (simp add: storable_def served_info_def basename_basename)

lemma served_twice: "served_info h (served_info h ni) = served_info h ni"
  by (simp add: served_info_def basename_basename o_def)

text \<open>Metadata round trip.  After \<open>put_narinfo\<close> succeeds, \<open>get_narinfo\<close> answers the parsed narinfo with
  the store's own URL, no compression and references by base name, whether the path already had an
  archive or not; and putting the archive afterwards keeps that metadata.
\<close>

theorem put_narinfo_roundtrip:
  assumes "put_narinfo env now h content st = (Ok True, st1)" and "parse_narinfo content = Some ni" and "storable ni"
  shows "get_narinfo h st1 = Some (served_info h ni) \<and>
    (put_nar fuel env io now' p d st1 = (Ok True, st2) \<longrightarrow> hash_of_file_path p = h \<longrightarrow>
       get_narinfo h st2 = Some (served_info h ni))"
proof (intro conjI impI)
  obtain root where "st1 = store_metadata env now h ni root st"
    using assms(1,2) by (auto simp: put_narinfo_def get_root_node_def split: if_splits sum.splits option.splits)
  then show 1: "get_narinfo h st1 = Some (served_info h ni)"
    using assms(3) by (simp add: get_narinfo_def store_metadata_def load_stored_metadata)
  assume put: "put_nar fuel env io now' p d st1 = (Ok True, st2)" and p: "hash_of_file_path p = h"
  obtain n root st3 fds where 2: "parse_nar d = Ok n" "ingest_node env io n st1 = (Ok root, st3)"
      "collect_file_digests_from_tree fuel env (st_db st3) root [] = Some fds"
    using put by (auto simp: put_nar_def Let_def split: sum.splits prod.splits option.splits)
  let ?db = "fold (insert_path_file h) fds (st_db st3)"
  have "db_paths (st_db st3) = db_paths (st_db st1)" using ingest_paths(1)[of env io n st1] 2(2) by simp
  then have load: "load_metadata_with_conn h ?db = Some (served_info h ni)"
    using 1 by (simp add: load_metadata_with_conn_def get_narinfo_def insert_path_files)
  have "st_db st2 = store_metadata_with_conn env now' h (served_info h ni) root ?db"
    using put 2 p load by (auto simp: put_nar_def Let_def)
  then show "get_narinfo h st2 = Some (served_info h ni)"
    using load_stored_metadata[OF storable_served[OF assms(3)]] by (simp add: get_narinfo_def served_twice)
qed

lemma sample_narinfo_parses:
  "parse_narinfo (to_narinfo_string sample_narinfo) = Some (sample_narinfo\<lparr>ni_references := [''xyz-glibc'', ''abc-hello'']\<rparr>)"
  unfolding parse_narinfo_def to_narinfo_string_parses[OF sample_narinfo_clean]
  by (simp add: finish_def sample_narinfo_def basename_def last_segment_def)

theorem put_narinfo_roundtrip_witness:
  "map_option ni_references (get_narinfo ''abc''
     (snd (put_narinfo sample_env 5 ''abc'' (to_narinfo_string sample_narinfo) (new_castore toy_sizes 3 0)))) =
   Some [''xyz-glibc'', ''abc-hello'']"
proof -
  let ?ni = "sample_narinfo\<lparr>ni_references := [''xyz-glibc'', ''abc-hello'']\<rparr>"
  let ?r = "put_narinfo sample_env 5 ''abc'' (to_narinfo_string sample_narinfo) (new_castore toy_sizes 3 0)"
  have run: "?r = (Ok True, snd ?r)"
    by (simp add: put_narinfo_def sample_narinfo_parses new_castore_def empty_db_def)
  have ok: "storable ?ni" by (simp add: storable_def sample_narinfo_def basename_def last_segment_def)
  from put_narinfo_roundtrip[OF run sample_narinfo_parses ok] show ?thesis
    by (simp add: served_info_def basename_def last_segment_def)
qed

end
