(* ===== verification/CastoreFilters.thy ===== *)
theory CastoreFilters
  imports CastoreProps
begin

text \<open>
  The two Bloom filters of the backend and its cached statistics
  (\<open>crates/ekapkgs-serve/src/storage/castore.rs\<close>) and the warm-up thread that builds them while
  requests are served.  As long as nothing is stored between the moment the thread reads a table and
  the moment it puts the filter in place, \<open>has_chunk\<close> and \<open>has_narinfo\<close> agree with the tables, failing
  disk writes included; what is stored in that window is hidden.
\<close>

lemma in_bloom_iff: "bloom_wf b \<Longrightarrow> in_bloom b d \<longleftrightarrow> maybe_contains b d = Ok True"
  by (simp add: in_bloom_def maybe_contains_iff)

lemma add_to_bloom:
  assumes "bloom_wf b"
  shows "bloom_wf (add_to_bloom d b)" "in_bloom (add_to_bloom d b) d" "in_bloom b e \<Longrightarrow> in_bloom (add_to_bloom d b) e"
proof -
  obtain b' where b': "bloom_insert d b = Ok b'" using bloom.ins_total[OF assms] by blast
  then have a: "add_to_bloom d b = b'" by (simp add: add_to_bloom_def)
  have wf: "bloom_wf b'" using bloom.ins_inv[OF assms b'] .
  show "bloom_wf (add_to_bloom d b)" "in_bloom (add_to_bloom d b) d"
    using a wf bloom.mem_ins[OF assms b'] by (simp_all add: in_bloom_iff)
  show "in_bloom b e \<Longrightarrow> in_bloom (add_to_bloom d b) e"
    using a wf assms bloom.mem_keeps[OF assms b'] by (simp add: in_bloom_iff)
qed

lemma fold_add_to_bloom:
  "bloom_wf b \<Longrightarrow> bloom_wf (fold add_to_bloom ds b) \<and> (\<forall>e. in_bloom b e \<or> e \<in> set ds \<longrightarrow> in_bloom (fold add_to_bloom ds b) e)"
proof (induction ds arbitrary: b)
  case (Cons d ds)
  then show ?case using add_to_bloom[OF Cons.prems, where d = d] Cons.IH[OF add_to_bloom(1)[OF Cons.prems, of d]] by auto
qed simp

text \<open>The sizes of the filters stay far below the range of \<open>u64\<close> up to \<open>2 ^ 40\<close> entries: the program asks
  for less than 15 bits an entry.\<close>

definition max_rows :: nat where
  "max_rows = 2 ^ 40"

definition sizes_ok :: "float_sizes \<Rightarrow> bool" where
  "sizes_ok fl \<longleftrightarrow> (\<forall>n \<le> max_rows. fl_bits_1pct fl n < 2 ^ 60 \<and> fl_bits_fpr fl n < 2 ^ 60)"

definition tables_fit :: "castore \<Rightarrow> bool" where
  "tables_fit st \<longleftrightarrow> length (db_chunks (st_db st)) \<le> max_rows \<and> length (db_paths (st_db st)) \<le> max_rows"

definition path_keys :: "castore \<Rightarrow> string set" where
  "path_keys st = fst ` set (db_paths (st_db st))"

text \<open>Well-formed filters; the chunk filter is complete when \<open>c\<close>, the path filter when \<open>p\<close>.\<close>

definition indexed :: "cas_env \<Rightarrow> bool \<Rightarrow> bool \<Rightarrow> castore \<Rightarrow> bool" where
  "indexed env c p st \<longleftrightarrow> bloom_wf (st_chunk_bloom st) \<and> bloom_wf (st_path_bloom st) \<and>
     (\<forall>g \<in> chunk_keys st. length g = 32) \<and>
     (c \<longrightarrow> (\<forall>g \<in> chunk_keys st. in_bloom (st_chunk_bloom st) g)) \<and>
     (p \<longrightarrow> (\<forall>h \<in> path_keys st. in_bloom (st_path_bloom st) (blake3 env h)))"

text \<open>What an ingest, complete or not, may do to the filters.\<close>

definition bgrow :: "castore \<Rightarrow> castore \<Rightarrow> bool" where
  "bgrow st st' \<longleftrightarrow> (bloom_wf (st_chunk_bloom st) \<longrightarrow> bloom_wf (st_chunk_bloom st') \<and>
       (\<forall>g. in_bloom (st_chunk_bloom st) g \<longrightarrow> in_bloom (st_chunk_bloom st') g) \<and>
       (\<forall>g \<in> chunk_keys st'. g \<in> chunk_keys st \<or> (in_bloom (st_chunk_bloom st') g \<and> length g = 32))) \<and>
     st_path_bloom st' = st_path_bloom st \<and> st_bloom_ready st' = st_bloom_ready st"

lemma bgrow_refl [simp]: "bgrow st st"
  by (simp add: bgrow_def)

lemma bgrow_trans: "bgrow st st1 \<Longrightarrow> bgrow st1 st2 \<Longrightarrow> bgrow st st2"
  unfolding bgrow_def by (metis (no_types, lifting))

lemma bgrow_db: "chunk_keys st2 = chunk_keys st1 \<Longrightarrow> st_chunk_bloom st2 = st_chunk_bloom st1 \<Longrightarrow>
  st_path_bloom st2 = st_path_bloom st1 \<Longrightarrow> st_bloom_ready st2 = st_bloom_ready st1 \<Longrightarrow> bgrow st1 st2"
  by (simp add: bgrow_def)

lemma store_chunk_bgrow:
  assumes "cas_env_ok env"
  shows "bgrow st (snd (store_chunk env io c st))"
proof (cases "write_chunk_file env io c st")
  case (Pair r st1)
  then have same: "chunk_keys st1 = chunk_keys st" "st_chunk_bloom st1 = st_chunk_bloom st"
      "st_path_bloom st1 = st_path_bloom st" "st_bloom_ready st1 = st_bloom_ready st"
    by (auto simp: write_chunk_file_def Let_def chunk_keys_def split: if_splits option.splits)
  show ?thesis
  proof (cases r)
    case (Inl e)
    then show ?thesis using Pair same by (simp add: store_chunk_def bindS_def bgrow_def)
  next
    case (Inr t)
    obtain g l dsk where t: "t = (g, l, dsk)" by (cases t)
    have g: "g = blake3 env c"
      using Pair Inr t by (auto simp: write_chunk_file_def Let_def split: if_splits option.splits)
    let ?st = "snd (store_chunk env io c st)"
    have "st_chunk_bloom ?st = add_to_bloom g (st_chunk_bloom st)" "st_path_bloom ?st = st_path_bloom st"
        "st_bloom_ready ?st = st_bloom_ready st" "chunk_keys ?st \<subseteq> insert g (chunk_keys st)"
      using Pair Inr t same store_chunk_keys[of env io c st] g
      by (simp_all add: store_chunk_def bindS_def chunk_bloom_insert_def)
    then show ?thesis using add_to_bloom[where b = "st_chunk_bloom st" and d = g] cas_env_okD(1)[OF assms, of c] g
      by (auto simp: bgrow_def)
  qed
qed

lemma ingest_chunks_bgrow: "cas_env_ok env \<Longrightarrow> bgrow st (snd (ingest_chunks env io cs st))"
proof (induction cs arbitrary: st)
  case (Cons c cs)
  obtain r st1 where 1: "store_chunk env io c st = (r, st1)" by fastforce
  obtain r2 st2 where 2: "ingest_chunks env io cs st1 = (r2, st2)" by fastforce
  have a: "bgrow st st1" using store_chunk_bgrow[OF Cons.prems, of st io c] 1 by simp
  moreover have "bgrow st1 st2" using Cons.IH[OF Cons.prems, of st1] 2 by simp
  ultimately have "bgrow st st2" by (rule bgrow_trans)
  then show ?case using 1 2 a by (cases r; cases r2) (simp_all add: bindS_def returnS_def)
qed (simp add: returnS_def)

lemma ingest_bgrow:
  assumes env: "cas_env_ok env"
  shows "bgrow st (snd (ingest_node env io n st))" "bgrow st (snd (ingest_entries env io es st))"
  using env
proof (induction env io n st and env io es st rule: ingest_node_ingest_entries.induct)
  case (1 env io x d st)
  obtain r st1 where r: "ingest_chunks env io (cdc env d) st = (r, st1)" by fastforce
  have a: "bgrow st st1" using ingest_chunks_bgrow[OF 1, of st io "cdc env d"] r by simp
  show ?case
  proof (cases r)
    case (Inr ds)
    let ?st = "st1\<lparr>st_db := insert_file_chunk_rows (blake3 env d) 0 ds (st_db st1)\<rparr>"
    have "bgrow st1 ?st" by (rule bgrow_db) simp_all
    then have "bgrow st ?st" using a bgrow_trans by blast
    then show ?thesis using r Inr by (simp add: bindS_def Let_def)
  qed (use r a in \<open>simp add: bindS_def\<close>)
next
  case (2 env io es st)
  have IH: "bgrow x (snd (ingest_entries env io es x))" for x using 2 by blast
  obtain r st1 where r: "ingest_entries env io es st = (r, st1)" by fastforce
  have a: "bgrow st st1" using IH[of st] r by simp
  show ?case
  proof (cases r)
    case (Inr ces)
    let ?st = "st1\<lparr>st_db := snd (insert_directory env (CaDirectory ces) (st_db st1))\<rparr>"
    have "bgrow st1 ?st" by (rule bgrow_db) simp_all
    then have "bgrow st ?st" using a bgrow_trans by blast
    then show ?thesis using r Inr by (simp add: bindS_def split_def Let_def)
  qed (use r a in \<open>simp add: bindS_def\<close>)
next
  case (5 env io name n es st)
  have a: "bgrow x (snd (ingest_node env io n x))" for x using 5(1,3) by blast
  have b: "bgrow x (snd (ingest_entries env io es x))" for x using 5(2,3) by blast
  obtain r st1 where 1: "ingest_node env io n st = (r, st1)" by fastforce
  obtain r2 st2 where 2: "ingest_entries env io es st1 = (r2, st2)" by fastforce
  have c: "bgrow st st1" "bgrow st1 st2" using a[of st] b[of st1] 1 2 by simp_all
  then have "bgrow st st2" by (rule bgrow_trans)
  then show ?case using 1 2 c by (cases r; cases r2) (simp_all add: bindS_def returnS_def)
qed (simp_all add: returnS_def)

text \<open>Operations that add one path, or none.\<close>

lemma indexed_put_path:
  assumes "indexed env c q st1" and "chunk_keys st2 = chunk_keys st1" and "path_keys st2 \<subseteq> insert h (path_keys st1)"
    and "st_chunk_bloom st2 = st_chunk_bloom st1" "st_bloom_ready st2 = st_bloom_ready st1"
    and "st_path_bloom st2 = add_to_bloom (blake3 env h) (st_path_bloom st1)"
  shows "indexed env c q st2"
  using assms add_to_bloom[where b = "st_path_bloom st1" and d = "blake3 env h"] unfolding indexed_def by auto

lemma indexed_shrink:
  assumes "indexed env c q st1" and "chunk_keys st2 \<subseteq> chunk_keys st1" and "path_keys st2 \<subseteq> path_keys st1"
    and "st_chunk_bloom st2 = st_chunk_bloom st1" "st_bloom_ready st2 = st_bloom_ready st1"
    and "st_path_bloom st2 = st_path_bloom st1"
  shows "indexed env c q st2"
  using assms unfolding indexed_def by auto

lemma indexed_bgrow:
  assumes "indexed env c q st" and "bgrow st st1" and "path_keys st1 \<subseteq> path_keys st"
  shows "indexed env c q st1"
  using assms unfolding indexed_def bgrow_def by auto

subsection \<open>Every operation keeps the filters complete\<close>

lemma path_keys_metadata:
  "fst ` set (db_paths (store_metadata_with_conn env now h ni root db)) \<subseteq> insert h (fst ` set (db_paths db))"
  by (auto simp: store_metadata_with_conn_def table_simps)

lemma indexed_put_nar:
  assumes env: "cas_env_ok env" and ix: "indexed env c q st"
  shows "indexed env c q (snd (put_nar fuel env io now p d st))"
proof (cases "parse_nar d")
  case (Inl e)
  then show ?thesis using ix by (simp add: put_nar_def)
next
  case (Inr n)
  obtain r st1 where r: "ingest_node env io n st = (r, st1)" by fastforce
  have grow: "bgrow st st1" using ingest_bgrow(1)[OF env, of st io n] r by simp
  have paths: "path_keys st1 = path_keys st" using ingest_paths(1)[of env io n st] r by (simp add: path_keys_def)
  have ix1: "indexed env c q st1" using indexed_bgrow[OF ix grow] paths by simp
  have rolled: "indexed env c q (rollback st st1)"
  proof -
    have "bgrow st (rollback st st1)"
      using grow unfolding bgrow_def by (simp add: rollback_def chunk_keys_def)
    from indexed_bgrow[OF ix this] show ?thesis by (simp add: rollback_def path_keys_def)
  qed
  show ?thesis
  proof (cases r)
    case (Inl e)
    then show ?thesis using \<open>parse_nar d = Ok n\<close> r rolled by (simp add: put_nar_def Let_def)
  next
    case (Inr root)
    show ?thesis
    proof (cases "collect_file_digests_from_tree fuel env (st_db st1) root []")
      case None
      then show ?thesis using \<open>parse_nar d = Ok n\<close> r Inr rolled by (simp add: put_nar_def Let_def)
    next
      case (Some fds)
      let ?h = "hash_of_file_path p"
      define db where "db = fold (insert_path_file ?h) fds (st_db st1)"
      define info where "info = (case load_metadata_with_conn ?h db of Some e \<Rightarrow> e | None \<Rightarrow> placeholder_info env ?h d)"
      define db' where "db' = store_metadata_with_conn env now ?h info root db"
      have st': "snd (put_nar fuel env io now p d st) =
          invalidate_stats_cache (int now) (path_bloom_insert env ?h (st1\<lparr>st_db := db'\<rparr>))"
        using \<open>parse_nar d = Ok n\<close> r Inr Some by (simp add: put_nar_def Let_def db_def info_def db'_def)
      have "path_keys (st1\<lparr>st_db := db'\<rparr>) \<subseteq> insert ?h (path_keys st1)"
        using path_keys_metadata[of env now ?h info root db] by (simp add: path_keys_def db'_def db_def insert_path_files)
      moreover have "chunk_keys (st1\<lparr>st_db := db'\<rparr>) = chunk_keys st1"
        by (simp add: chunk_keys_def db'_def db_def insert_path_files)
      ultimately show ?thesis unfolding st'
        by (intro indexed_put_path[OF ix1, of _ ?h])
          (simp_all add: path_bloom_insert_def invalidate_stats_cache_def chunk_keys_def path_keys_def)
    qed
  qed
qed

lemma indexed_put_narinfo:
  assumes ix: "indexed env c q st"
  shows "indexed env c q (snd (put_narinfo env now h content st))"
proof -
  have store: "indexed env c q (store_metadata env now h ni root st)" for ni root
    using path_keys_metadata[of env now h ni root "st_db st"]
    by (intro indexed_put_path[OF ix, of _ h])
      (simp_all add: store_metadata_def path_bloom_insert_def chunk_keys_def path_keys_def)
  show ?thesis using ix store by (auto simp: put_narinfo_def split: option.split sum.split)
qed

lemma drop_files_frame:
  "drop_files fs db check = (c', db') \<Longrightarrow> db_chunks db' = db_chunks db \<and> db_paths db' = db_paths db"
  using drop_files_fields by blast

lemma drop_chunks_frame:
  "drop_chunks io gs st k = (k', st') \<Longrightarrow> chunk_keys st' \<subseteq> chunk_keys st \<and> path_keys st' = path_keys st \<and>
     st_chunk_bloom st' = st_chunk_bloom st \<and> st_path_bloom st' = st_path_bloom st \<and> st_bloom_ready st' = st_bloom_ready st"
proof (induction gs arbitrary: st k)
  case (Cons g gs)
  show ?case
  proof (cases "list_ex (\<lambda>r. fst (snd r) = g) (db_file_chunks (st_db st))")
    case False
    let ?db = "(st_db st)\<lparr>db_chunks := delete_key g (db_chunks (st_db st))\<rparr>"
    let ?p = "chunk_path (hex_encode g)"
    let ?st = "st\<lparr>st_db := ?db, st_files := (if io ?p then delete_key ?p (st_files st) else st_files st)\<rparr>"
    have "chunk_keys ?st \<subseteq> chunk_keys st" "path_keys ?st = path_keys st"
      by (auto simp: chunk_keys_def path_keys_def table_simps)
    moreover obtain k2 where "drop_chunks io gs ?st k2 = (k', st')" using Cons.prems False by (auto simp: Let_def)
    ultimately show ?thesis using Cons.IH[of ?st k2] by auto
  qed (use Cons in simp)
qed simp

text \<open>What leaves the keys of a table alone.\<close>

definition stores_chunks :: "store_op \<Rightarrow> bool" where
  "stores_chunks a \<longleftrightarrow> (case a of PutNar p d \<Rightarrow> True | UploadChunk d \<Rightarrow> True | _ \<Rightarrow> False)"

definition stores_paths :: "store_op \<Rightarrow> bool" where
  "stores_paths a \<longleftrightarrow> (case a of PutNar p d \<Rightarrow> True | PutNarinfo h c \<Rightarrow> True | _ \<Rightarrow> False)"

definition is_warmup :: "store_op \<Rightarrow> bool" where
  "is_warmup a \<longleftrightarrow> (case a of Warmup t \<Rightarrow> True | _ \<Rightarrow> False)"

lemma update_access_keys: "path_keys (update_access now hs st) = path_keys st"
proof -
  have "map fst (fold (\<lambda>h. update_key h f) ks t) = map fst t" for f :: "path_row \<Rightarrow> path_row" and ks t
    by (induction ks arbitrary: t) auto
  then have "fst ` set (fold (\<lambda>h. update_key h f) ks t) = fst ` set t" for f :: "path_row \<Rightarrow> path_row" and ks t
    by (metis list.set_map)
  then show ?thesis by (simp add: update_access_def Let_def path_keys_def)
qed

lemma load_directory_frame:
  "st_db (snd (load_directory env g st)) = st_db st"
  "st_chunk_bloom (snd (load_directory env g st)) = st_chunk_bloom st"
  "st_path_bloom (snd (load_directory env g st)) = st_path_bloom st"
  "st_bloom_ready (snd (load_directory env g st)) = st_bloom_ready st"
  by (auto simp: load_directory_def Let_def split: prod.splits option.splits)

lemma evict_path_filters:
  "chunk_keys (snd (evict_path io now h st)) \<subseteq> chunk_keys st \<and> path_keys (snd (evict_path io now h st)) \<subseteq> path_keys st \<and>
   st_chunk_bloom (snd (evict_path io now h st)) = st_chunk_bloom st \<and>
   st_path_bloom (snd (evict_path io now h st)) = st_path_bloom st \<and>
   st_bloom_ready (snd (evict_path io now h st)) = st_bloom_ready st"
proof -
  let ?db = "delete_path_rows h (st_db st)"
  let ?L = "path_file_digests h (st_db st)"
  obtain check db' where df: "drop_files ?L ?db [] = (check, db')" by fastforce
  obtain k st2 where dc: "drop_chunks io check (st\<lparr>st_db := db'\<rparr>) 0 = (k, st2)" by fastforce
  have sub: "fst ` set (db_chunks ?db) = chunk_keys st" "fst ` set (db_paths ?db) \<subseteq> path_keys st"
    by (auto simp: delete_path_rows_def chunk_keys_def path_keys_def table_simps)
  have "chunk_keys (st\<lparr>st_db := db'\<rparr>) = chunk_keys st" "path_keys (st\<lparr>st_db := db'\<rparr>) \<subseteq> path_keys st"
    using drop_files_frame[OF df] sub by (simp_all add: chunk_keys_def path_keys_def)
  then have "chunk_keys st2 \<subseteq> chunk_keys st \<and> path_keys st2 \<subseteq> path_keys st \<and> st_chunk_bloom st2 = st_chunk_bloom st \<and>
      st_path_bloom st2 = st_path_bloom st \<and> st_bloom_ready st2 = st_bloom_ready st"
    using drop_chunks_frame[OF dc] by auto
  then show ?thesis using sub
    by (simp add: evict_path_def Let_def df dc invalidate_stats_cache_def chunk_keys_def path_keys_def)
qed

lemma put_nar_ready: "st_bloom_ready (snd (put_nar fuel env io now p d st)) = st_bloom_ready st"
  if "cas_env_ok env"
proof -
  have "st_bloom_ready (snd (ingest_node env io n st)) = st_bloom_ready st" for n
    using ingest_bgrow(1)[OF that, of st io n] by (simp add: bgrow_def)
  then have "ingest_node env io n st = (r, st1) \<Longrightarrow> st_bloom_ready st1 = st_bloom_ready st" for n r st1
    by (metis snd_conv)
  then show ?thesis
    by (auto simp: put_nar_def Let_def rollback_def invalidate_stats_cache_def path_bloom_insert_def
        split: sum.split prod.split option.split)
qed

lemma chunk_keys_mono: "\<not> stores_chunks a \<Longrightarrow> \<not> is_warmup a \<Longrightarrow> chunk_keys (exec_op fuel env fl io now a st) \<subseteq> chunk_keys st"
  using evict_path_filters[of io now _ st]
  by (auto simp: stores_chunks_def is_warmup_def exec_op_def update_access_def load_directory_frame put_narinfo_def store_metadata_def
      store_metadata_with_conn_def path_bloom_insert_def chunk_keys_def Let_def split: store_op.split option.splits sum.splits)

lemma path_keys_mono: "\<not> stores_paths a \<Longrightarrow> path_keys (exec_op fuel env fl io now a st) \<subseteq> path_keys st"
proof (cases a)
  case (UploadChunk d)
  then show ?thesis using store_chunk_paths[of env io d st] by (simp add: exec_op_def path_keys_def)
next
  case (EvictPath h)
  then show ?thesis using evict_path_filters[of io now h st] by (simp add: exec_op_def)
qed (simp_all add: stores_paths_def exec_op_def update_access_keys, simp_all add: path_keys_def load_directory_frame)

lemma exec_op_ready:
  assumes "cas_env_ok env" and "\<not> is_warmup a"
  shows "st_bloom_ready (exec_op fuel env fl io now a st) = st_bloom_ready st"
proof (cases a)
  case (EvictPath h)
  then show ?thesis using evict_path_filters[of io now h st] by (simp add: exec_op_def)
next
  case (UploadChunk d)
  then show ?thesis using store_chunk_bgrow[OF assms(1), of st io d] by (simp add: exec_op_def bgrow_def)
next
  case (PutNarinfo h c)
  then show ?thesis by (auto simp: exec_op_def put_narinfo_def store_metadata_def path_bloom_insert_def split: option.split sum.split)
qed (use assms in \<open>simp_all add: exec_op_def put_nar_ready load_directory_frame update_access_def is_warmup_def\<close>)

lemma indexed_exec_op:
  assumes env: "cas_env_ok env" and ix: "indexed env c q st" and "\<not> is_warmup a"
  shows "indexed env c q (exec_op fuel env fl io now a st)"
proof (cases a)
  case (PutNar p d)
  then show ?thesis using indexed_put_nar[OF env ix] by (simp add: exec_op_def)
next
  case (PutNarinfo h c)
  then show ?thesis using indexed_put_narinfo[OF ix] by (simp add: exec_op_def)
next
  case (EvictPath h)
  then show ?thesis using evict_path_filters[of io now h st] by (auto simp: exec_op_def intro: indexed_shrink[OF ix])
next
  case (UploadChunk d)
  have "db_paths (st_db (snd (store_chunk env io d st))) = db_paths (st_db st)" by (rule store_chunk_paths)
  then show ?thesis using UploadChunk indexed_bgrow[OF ix store_chunk_bgrow[OF env]]
    by (simp add: exec_op_def path_keys_def)
next
  case (UpdateAccess hs)
  then show ?thesis using update_access_keys[of now hs st]
    by (intro indexed_shrink[OF ix]) (simp_all add: exec_op_def, simp_all add: update_access_def Let_def chunk_keys_def)
next
  case (LoadDirectory g)
  then show ?thesis
    by (auto simp: exec_op_def chunk_keys_def path_keys_def load_directory_frame intro!: indexed_shrink[OF ix])
qed (use assms in \<open>simp add: is_warmup_def\<close>)

subsection \<open>One warm-up thread beside the requests\<close>

text \<open>An event is a request's operation or a step of the thread.\<close>

datatype filter_event = Request nat store_op | ThreadStep nat

fun filter_step ::
  "nat \<Rightarrow> cas_env \<Rightarrow> float_sizes \<Rightarrow> (string \<Rightarrow> bool) \<Rightarrow> filter_event
   \<Rightarrow> warmup_thread \<times> castore \<Rightarrow> warmup_thread \<times> castore" where
  "filter_step fuel env fl io (Request now a) (t, st) = (t, exec_op fuel env fl io now a st)"
| "filter_step fuel env fl io (ThreadStep clock) (t, st) = spawn_warmup env fl (int clock) t st"

definition run_filters ::
  "nat \<Rightarrow> cas_env \<Rightarrow> float_sizes \<Rightarrow> (string \<Rightarrow> bool) \<Rightarrow> filter_event list
   \<Rightarrow> warmup_thread \<times> castore \<Rightarrow> warmup_thread \<times> castore" where
  "run_filters fuel env fl io es s = fold (filter_step fuel env fl io) es s"

text \<open>Nothing is stored between reading a table and putting the filter built from it in place; the
  tables are of a size the filters can be built for.\<close>

fun in_the_clear :: "filter_event \<Rightarrow> warmup_thread \<times> castore \<Rightarrow> bool" where
  "in_the_clear (Request now a) (t, st) \<longleftrightarrow> \<not> is_warmup a \<and>
     (case t of ChunkBloomBuilt b \<Rightarrow> \<not> stores_chunks a | PathBloomBuilt b \<Rightarrow> \<not> stores_paths a | _ \<Rightarrow> True)"
| "in_the_clear (ThreadStep clock) (t, st) \<longleftrightarrow> tables_fit st"

fun undisturbed ::
  "nat \<Rightarrow> cas_env \<Rightarrow> float_sizes \<Rightarrow> (string \<Rightarrow> bool) \<Rightarrow> filter_event list \<Rightarrow> warmup_thread \<times> castore \<Rightarrow> bool" where
  "undisturbed fuel env fl io [] s \<longleftrightarrow> True"
| "undisturbed fuel env fl io (e # es) s \<longleftrightarrow>
     in_the_clear e s \<and> undisturbed fuel env fl io es (filter_step fuel env fl io e s)"

definition chunks_swapped :: "warmup_thread \<Rightarrow> bool" where
  "chunks_swapped t \<longleftrightarrow> (case t of WarmupSpawned \<Rightarrow> False | ChunkBloomBuilt b \<Rightarrow> False | _ \<Rightarrow> True)"

definition paths_swapped :: "warmup_thread \<Rightarrow> bool" where
  "paths_swapped t \<longleftrightarrow> (case t of WarmupSpawned \<Rightarrow> False | ChunkBloomBuilt b \<Rightarrow> False
     | ChunkBloomSwapped \<Rightarrow> False | PathBloomBuilt b \<Rightarrow> False | _ \<Rightarrow> True)"

definition carried_ok :: "cas_env \<Rightarrow> warmup_thread \<Rightarrow> castore \<Rightarrow> bool" where
  "carried_ok env t st \<longleftrightarrow>
     (case t of
        ChunkBloomBuilt b \<Rightarrow> bloom_wf b \<and> (\<forall>g \<in> chunk_keys st. in_bloom b g)
      | PathBloomBuilt b \<Rightarrow> bloom_wf b \<and> (\<forall>h \<in> path_keys st. in_bloom b (blake3 env h))
      | _ \<Rightarrow> True)"

definition filters_inv :: "cas_env \<Rightarrow> warmup_thread \<times> castore \<Rightarrow> bool" where
  "filters_inv env s \<longleftrightarrow> (case s of (t, st) \<Rightarrow>
     indexed env (chunks_swapped t) (paths_swapped t) st \<and> carried_ok env t st \<and>
     (st_bloom_ready st \<longrightarrow> paths_swapped t))"

lemma build_chunk_bloom_complete:
  assumes "sizes_ok fl" and "tables_fit st" and "indexed env c q st"
  shows "bloom_wf (build_chunk_bloom fl st) \<and> (\<forall>g \<in> chunk_keys st. in_bloom (build_chunk_bloom fl st) g)"
proof -
  have "max (length (db_chunks (st_db st))) 1024 \<le> max_rows" using assms(2) by (simp add: tables_fit_def max_rows_def)
  then have wf: "bloom_wf (bloom_with_fpr fl (max (length (db_chunks (st_db st))) 1024))"
    using assms(1) by (auto simp: bloom_with_fpr_def sizes_ok_def intro!: bloom_sized_wf)
  have "filter (\<lambda>d. try_digest d \<noteq> None) (map fst (db_chunks (st_db st))) = map fst (db_chunks (st_db st))"
    using assms(3) by (intro filter_True) (auto simp: indexed_def chunk_keys_def try_digest_def)
  then show ?thesis using fold_add_to_bloom[OF wf] by (simp add: build_chunk_bloom_def chunk_keys_def)
qed

lemma build_path_bloom_complete:
  assumes "sizes_ok fl" and "tables_fit st"
  shows "bloom_wf (build_path_bloom env fl st) \<and>
    (\<forall>h \<in> path_keys st. in_bloom (build_path_bloom env fl st) (blake3 env h))"
proof -
  have "max (length (db_paths (st_db st))) 1024 \<le> max_rows" using assms(2) by (simp add: tables_fit_def max_rows_def)
  then have wf: "bloom_wf (bloom_with_fpr fl (max (length (db_paths (st_db st))) 1024))"
    using assms(1) by (auto simp: bloom_with_fpr_def sizes_ok_def intro!: bloom_sized_wf)
  show ?thesis using fold_add_to_bloom[OF wf] by (simp add: build_path_bloom_def path_keys_def)
qed

lemma filters_inv_thread:
  assumes "sizes_ok fl" and "tables_fit st" and inv: "filters_inv env (t, st)"
  shows "filters_inv env (spawn_warmup env fl clock t st)"
proof -
  have ix: "indexed env (chunks_swapped t) (paths_swapped t) st"
    and c: "carried_ok env t st" and r: "st_bloom_ready st \<longrightarrow> paths_swapped t"
    using inv by (simp_all add: filters_inv_def)
  note build = build_chunk_bloom_complete[OF assms(1,2) ix] build_path_bloom_complete[OF assms(1,2), of env]
  note defs = filters_inv_def indexed_def chunks_swapped_def paths_swapped_def carried_ok_def chunk_keys_def path_keys_def
  show ?thesis
  proof (cases t)
    case WarmupSpawned
    then show ?thesis using ix r build(1) by (simp add: defs)
  next
    case (ChunkBloomBuilt b)
    then show ?thesis using ix r c by (simp add: defs)
  next
    case ChunkBloomSwapped
    then show ?thesis using ix r build(2) by (simp add: defs)
  next
    case (PathBloomBuilt b)
    then show ?thesis using ix r c by (simp add: defs)
  qed (use ix r in \<open>simp_all add: defs\<close>)
qed

lemma filters_inv_request:
  assumes env: "cas_env_ok env" and inv: "filters_inv env (t, st)" and clear: "in_the_clear (Request now a) (t, st)"
  shows "filters_inv env (t, exec_op fuel env fl io now a st)"
proof -
  have ix: "indexed env (chunks_swapped t) (paths_swapped t) st"
    and c: "carried_ok env t st" and r: "st_bloom_ready st \<longrightarrow> paths_swapped t"
    using inv by (simp_all add: filters_inv_def)
  have w: "\<not> is_warmup a" using clear by simp
  have "carried_ok env t (exec_op fuel env fl io now a st)"
  proof (cases t)
    case (ChunkBloomBuilt b)
    then have "chunk_keys (exec_op fuel env fl io now a st) \<subseteq> chunk_keys st"
      using chunk_keys_mono[OF _ w] clear by simp
    then show ?thesis using c ChunkBloomBuilt by (auto simp: carried_ok_def)
  next
    case (PathBloomBuilt b)
    then have "path_keys (exec_op fuel env fl io now a st) \<subseteq> path_keys st"
      using path_keys_mono clear by simp
    then show ?thesis using c PathBloomBuilt by (auto simp: carried_ok_def)
  qed (simp_all add: carried_ok_def)
  then show ?thesis using indexed_exec_op[OF env ix w] exec_op_ready[OF env w] r by (simp add: filters_inv_def)
qed

lemma filters_inv_step:
  assumes "cas_env_ok env" and "sizes_ok fl" and "filters_inv env s" and "in_the_clear e s"
  shows "filters_inv env (filter_step fuel env fl io e s)"
proof (cases s)
  case (Pair t st)
  show ?thesis
  proof (cases e)
    case (Request now a)
    then show ?thesis using assms Pair filters_inv_request[OF assms(1), of t st now a] by simp
  next
    case (ThreadStep clock)
    then show ?thesis using assms Pair filters_inv_thread[OF assms(2), of st env t] by simp
  qed
qed

lemma filters_inv_run:
  assumes "cas_env_ok env" and "sizes_ok fl"
  shows "filters_inv env s \<Longrightarrow> undisturbed fuel env fl io es s \<Longrightarrow> filters_inv env (run_filters fuel env fl io es s)"
  unfolding run_filters_def using filters_inv_step[OF assms] by (induction es arbitrary: s) auto

lemma filters_inv_new:
  assumes "sizes_ok fl"
  shows "filters_inv env (WarmupSpawned, new_castore fl level clock)"
proof -
  have "bloom_wf (bloom_new fl 1024)"
    using assms by (auto simp: bloom_new_def sizes_ok_def max_rows_def intro: bloom_sized_wf)
  then show ?thesis
    by (simp add: filters_inv_def indexed_def chunks_swapped_def paths_swapped_def carried_ok_def new_castore_def
        empty_db_def chunk_keys_def path_keys_def)
qed

text \<open>C5. The filters never hide an entry, as long as nothing is stored while the warm-up thread holds a
  filter it has built and not put in place.  Whatever operations run before, between and after the
  steps of the thread, with failing disk writes and colliding digests allowed, \<open>has_chunk\<close> and
  \<open>has_narinfo\<close> answer exactly whether the row exists, if no chunk is stored between reading the chunk
  table and swapping its filter in and no path between reading the path table and swapping its filter
  in.  The sizes of the filters are those of tables of at most \<open>2 ^ 40\<close> rows.
\<close>

theorem filters_agree_with_tables:
  assumes "cas_env_ok env" and "sizes_ok fl"
    and "undisturbed fuel env fl io es (WarmupSpawned, new_castore fl level clock)"
    and "(t, st) = run_filters fuel env fl io es (WarmupSpawned, new_castore fl level clock)"
  shows "has_chunk st g = (map_of (db_chunks (st_db st)) g \<noteq> None) \<and>
    has_narinfo env h st = (map_of (db_paths (st_db st)) h \<noteq> None)"
proof -
  have inv: "filters_inv env (t, st)"
    unfolding assms(4) using filters_inv_run[OF assms(1,2) filters_inv_new[OF assms(2)] assms(3)] .
  have s: "paths_swapped t \<Longrightarrow> chunks_swapped t" by (cases t) (simp_all add: paths_swapped_def chunks_swapped_def)
  have "map_of (db_chunks (st_db st)) g \<noteq> None \<longrightarrow> bloom_maybe_contains st g"
    using inv s unfolding map_of_chunk_keys by (auto simp: filters_inv_def indexed_def bloom_maybe_contains_def)
  moreover have "map_of (db_paths (st_db st)) h \<noteq> None \<longrightarrow> path_bloom_maybe_contains env st h"
    using inv by (auto simp: filters_inv_def indexed_def path_bloom_maybe_contains_def path_keys_def map_of_eq_None_iff)
  ultimately show ?thesis by (auto simp: has_chunk_def has_narinfo_def)
qed

lemma toy_sizes_ok: "sizes_ok toy_sizes"
  by (simp add: sizes_ok_def toy_sizes_def max_rows_def)

definition sample_warmup :: "filter_event list" where
  "sample_warmup = [ThreadStep 1, ThreadStep 2, Request 7 (UploadChunk ''hello''), ThreadStep 8, ThreadStep 9, ThreadStep 10]"

theorem filters_agree_with_tables_witness:
  "has_chunk (snd (run_filters 9 sample_env toy_sizes (\<lambda>_. True) sample_warmup (WarmupSpawned, new_castore toy_sizes 3 0)))
     (sample_blake3 ''hello'') =
   (map_of (db_chunks (st_db (snd (run_filters 9 sample_env toy_sizes (\<lambda>_. True) sample_warmup
      (WarmupSpawned, new_castore toy_sizes 3 0))))) (sample_blake3 ''hello'') \<noteq> None)"
proof -
  have rows: "length (db_chunks (st_db (snd (store_chunk sample_env (\<lambda>_. True) ''hello'' st)))) \<le>
      Suc (length (db_chunks (st_db st)))"
    "db_paths (st_db (snd (store_chunk sample_env (\<lambda>_. True) ''hello'' st))) = db_paths (st_db st)" for st
    by (simp_all add: store_chunk_def bindS_def write_chunk_file_def INLINE_THRESHOLD_def insert_chunk_row_def
        chunk_bloom_insert_def insert_or_ignore_def)
  have "undisturbed 9 sample_env toy_sizes (\<lambda>_. True) sample_warmup (WarmupSpawned, new_castore toy_sizes 3 0)"
    using rows(1)[of "new_castore toy_sizes 3 0\<lparr>st_chunk_bloom := build_chunk_bloom toy_sizes (new_castore toy_sizes 3 0)\<rparr>"]
    by (simp add: sample_warmup_def exec_op_def is_warmup_def tables_fit_def max_rows_def rows(2))
      (simp add: new_castore_def empty_db_def)
  from filters_agree_with_tables[OF sample_env_ok toy_sizes_ok this prod.collapse] show ?thesis by blast
qed

subsection \<open>What the window hides\<close>

text \<open>A chunk stored while the thread holds the chunk filter it has built: the swap forgets the digest,
  and once the filters are declared ready \<open>has_chunk\<close> says no although the row is there, unless the
  filter happens to answer "maybe".
\<close>

theorem warmup_hides_chunk:
  assumes "\<not> in_bloom (build_chunk_bloom fl st) (blake3 env d)" and "length d < INLINE_THRESHOLD"
    and "(t, st') = run_filters fuel env fl io
      [ThreadStep c0, Request now (UploadChunk d), ThreadStep c1, ThreadStep c2, ThreadStep c3, ThreadStep c4]
      (WarmupSpawned, st)"
  shows "map_of (db_chunks (st_db st')) (blake3 env d) \<noteq> None \<and> \<not> has_chunk st' (blake3 env d)"
  using assms
  by (simp add: run_filters_def exec_op_def store_chunk_def bindS_def write_chunk_file_def Let_def
      chunk_bloom_insert_def insert_chunk_row_def has_chunk_def bloom_maybe_contains_def table_simps split: option.split)

theorem warmup_hides_chunk_witness:
  "\<not> has_chunk (snd (run_filters 9 sample_env toy_sizes (\<lambda>_. True)
      [ThreadStep 1, Request 2 (UploadChunk ''hello''), ThreadStep 3, ThreadStep 4, ThreadStep 5, ThreadStep 6]
      (WarmupSpawned, new_castore toy_sizes 3 0))) (sample_blake3 ''hello'')"
proof -
  let ?b = "build_chunk_bloom toy_sizes (new_castore toy_sizes 3 0)"
  have b: "?b = bloom_sized toy_sizes (15 * 1024) 1024"
    by (simp add: build_chunk_bloom_def new_castore_def empty_db_def bloom_with_fpr_def toy_sizes_def)
  have "maybe_contains ?b (sample_blake3 ''hello'') = Ok False"
    unfolding b by (rule bloom_fresh_empty[THEN conjunct2, THEN conjunct2]) simp
  then have "\<not> in_bloom ?b (blake3 sample_env ''hello'')" by (simp add: in_bloom_def)
  from warmup_hides_chunk[OF this _ prod.collapse] show ?thesis by (simp add: INLINE_THRESHOLD_def)
qed

end
