(* ===== verification/AppState.thy ===== *)
theory AppState
  imports ServerCaches Manifest CastoreFilters
begin

text \<open>
  The state the server's handlers share, \<open>AppState\<close> of \<open>crates/ekapkgs-serve/src/main.rs\<close>, with the
  content-addressed store as its storage.  Signers are functions from the text they sign.  The GC
  tracker is the list of access events sent to the background task, \<open>None\<close> when there is none.
  Metrics and the semaphores that bound memory are left out.
\<close>

record cert_signer =
  cs_cert_name :: string
  cs_signing_key :: "string \<Rightarrow> bytes"
  cs_chain :: certificate_chain

definition cert_sign :: "cert_signer \<Rightarrow> string \<Rightarrow> cert_signature" where
  "cert_sign cs fp = \<lparr>sig_cert_name = cs_cert_name cs, sig_bytes = cs_signing_key cs fp\<rparr>"

record permissions =
  pm_read :: bool
  pm_write :: bool

record token =
  tk_name :: string
  tk_token :: string
  tk_permissions :: permissions
  tk_created_at :: nat

record app_state =
  as_storage :: castore
  as_signer :: "string \<Rightarrow> string"
  as_cert_signer :: "cert_signer option"
  as_cert_signers :: "cert_signer list"
  as_signing_threshold :: nat
  as_gc_tracker :: "string list option"
  as_write_tokens :: "string list"
  as_admin_token :: "string option"
  as_token_store :: "token list"
  as_delta_cache :: delta_cache
  as_narinfo_cache :: narinfo_cache

definition record_access :: "string \<Rightarrow> app_state \<Rightarrow> app_state" where
  "record_access h s = s\<lparr>as_gc_tracker := map_option (\<lambda>events. events @ [h]) (as_gc_tracker s)\<rparr>"

lemma record_access_simps [simp]:
  "as_storage (record_access h s) = as_storage s" "as_signer (record_access h s) = as_signer s"
  "as_write_tokens (record_access h s) = as_write_tokens s" "as_delta_cache (record_access h s) = as_delta_cache s"
  "as_narinfo_cache (record_access h s) = as_narinfo_cache s" "as_token_store (record_access h s) = as_token_store s"
  "as_admin_token (record_access h s) = as_admin_token s"
  "as_cert_signer (record_access h s) = as_cert_signer s" "as_cert_signers (record_access h s) = as_cert_signers s"
  by (simp_all add: record_access_def)

end
