(* ===== verification/TreeWalk.thy ===== *)
theory TreeWalk
  imports CastoreFilters
begin

text \<open>
  What the server answers when a client asks at the level of chunks: \<open>ChunkHaveCheck\<close>, \<open>walk_cas_node\<close>
  and \<open>walk_cas_trees\<close> of \<open>crates/ekapkgs-serve/src/storage/castore.rs\<close>, and \<open>reconstruct_node\<close>, the
  reference the streaming writer replaced.  One pass over the trees collects the chunks the client
  lacks, the directories and the chunk lists of the files, children before their directory.
\<close>

subsection \<open>What the client has\<close>

datatype chunk_have_check = Exact "digest set" | Bloom bloom

text \<open>A filter made from a non-empty byte string has bits, so the query does not panic.\<close>

fun have_contains :: "chunk_have_check \<Rightarrow> digest \<Rightarrow> bool" where
  "have_contains (Exact S) d = (d \<in> S)"
| "have_contains (Bloom b) d = in_bloom b d"

subsection \<open>The walk\<close>

record walk_state =
  wk_chunk_seen :: "digest set"
  wk_missing :: "chunk_meta list"
  wk_dir_seen :: "digest set"
  wk_dirs :: "(digest \<times> ca_directory) list"
  wk_file_seen :: "digest set"
  wk_files :: "(digest \<times> (digest \<times> nat) list) list"

definition walk_init :: walk_state where
  "walk_init = \<lparr>wk_chunk_seen = {}, wk_missing = [], wk_dir_seen = {}, wk_dirs = [], wk_file_seen = {},
     wk_files = []\<rparr>"

definition add_missing :: "chunk_have_check \<Rightarrow> digest \<times> nat \<Rightarrow> walk_state \<Rightarrow> walk_state" where
  "add_missing hv r w =
     (if \<not> have_contains hv (fst r) \<and> fst r \<notin> wk_chunk_seen w
      then w\<lparr>wk_chunk_seen := insert (fst r) (wk_chunk_seen w),
             wk_missing := wk_missing w @ [\<lparr>cm_digest = Some (fst r), cm_size = snd r\<rparr>]\<rparr>
      else w)"

definition walk_file :: "chunk_have_check \<Rightarrow> digest \<Rightarrow> castore \<Rightarrow> walk_state \<Rightarrow> walk_state" where
  "walk_file hv f st w =
     (if f \<in> wk_file_seen w then w
      else let w = w\<lparr>wk_file_seen := insert f (wk_file_seen w)\<rparr>;
               chunks = filter (\<lambda>r. try_digest (fst r) \<noteq> None) (file_rows st f);
               w = fold (add_missing hv) chunks w
           in if chunks \<noteq> [] then w\<lparr>wk_files := wk_files w @ [(f, chunks)]\<rparr> else w)"

text \<open>The walk follows digests, so it takes fuel; a directory that does not load is left out.\<close>

fun walk_cas_node ::
  "nat \<Rightarrow> cas_env \<Rightarrow> chunk_have_check \<Rightarrow> ca_node \<Rightarrow> walk_state \<times> castore \<Rightarrow> (walk_state \<times> castore) option"
  and walk_children ::
  "nat \<Rightarrow> cas_env \<Rightarrow> chunk_have_check \<Rightarrow> (string \<times> ca_node option) list \<Rightarrow> walk_state \<times> castore
   \<Rightarrow> (walk_state \<times> castore) option" where
  "walk_cas_node 0 env hv c s = None"
| "walk_cas_node (Suc fuel) env hv c (w, st) =
     (case node c of
        None \<Rightarrow> Some (w, st)
      | Some (CaFileNode dg sz x) \<Rightarrow>
          (case Option.bind dg try_digest of
             None \<Rightarrow> Some (w, st)
           | Some f \<Rightarrow> Some (walk_file hv f st w, st))
      | Some (CaDirectoryNode dg sz) \<Rightarrow>
          (case Option.bind dg try_digest of
             None \<Rightarrow> Some (w, st)
           | Some g \<Rightarrow>
              if g \<in> wk_dir_seen w then Some (w, st)
              else let w = w\<lparr>wk_dir_seen := insert g (wk_dir_seen w)\<rparr> in
                case load_directory env g st of
                  (Inl _, st) \<Rightarrow> Some (w, st)
                | (Inr x, st) \<Rightarrow>
                    (case walk_children fuel env hv (dir_entries x) (w, st) of
                       None \<Rightarrow> None
                     | Some (w, st) \<Rightarrow> Some (w\<lparr>wk_dirs := wk_dirs w @ [(g, x)]\<rparr>, st)))
      | Some (CaSymlinkNode t) \<Rightarrow> Some (w, st))"
| "walk_children fuel env hv [] s = Some s"
| "walk_children 0 env hv (e # es) s = None"
| "walk_children (Suc fuel) env hv ((name, child) # es) s =
     (case (case child of None \<Rightarrow> Some s | Some c \<Rightarrow> walk_cas_node fuel env hv c s) of
        None \<Rightarrow> None
      | Some s \<Rightarrow> walk_children fuel env hv es s)"

text \<open>The outer option is the fuel, the inner result the outcome of the source.\<close>

fun walk_hashes ::
  "nat \<Rightarrow> cas_env \<Rightarrow> chunk_have_check \<Rightarrow> string list \<Rightarrow> walk_state \<times> castore
   \<Rightarrow> (cas_error + walk_state \<times> castore) option" where
  "walk_hashes fuel env hv [] s = Some (Ok s)"
| "walk_hashes fuel env hv (h # hs) (w, st) =
     (case get_root_node env h st of
        Inl e \<Rightarrow> Some (Err e)
      | Inr None \<Rightarrow> walk_hashes fuel env hv hs (w, st)
      | Inr (Some root) \<Rightarrow>
          (case walk_cas_node fuel env hv root (w, st) of
             None \<Rightarrow> None
           | Some s \<Rightarrow> walk_hashes fuel env hv hs s))"

definition walk_cas_trees ::
  "nat \<Rightarrow> cas_env \<Rightarrow> string list \<Rightarrow> chunk_have_check \<Rightarrow> castore \<Rightarrow> (cas_error + walk_state \<times> castore) option" where
  "walk_cas_trees fuel env want_hashes hv st = walk_hashes fuel env hv want_hashes (walk_init, st)"

definition store_chunk_external ::
  "cas_env \<Rightarrow> (string \<Rightarrow> bool) \<Rightarrow> bytes \<Rightarrow> castore \<Rightarrow> (cas_error + digest) \<times> castore" where
  "store_chunk_external env io d st = store_chunk env io d st"

subsection \<open>The reference reconstruction\<close>

fun reconstruct_node :: "nat \<Rightarrow> chunk_reader \<Rightarrow> ca_node \<Rightarrow> cas_error + nar_node"
  and reconstruct_entries :: "nat \<Rightarrow> chunk_reader \<Rightarrow> (string \<times> ca_node option) list \<Rightarrow> cas_error + (string \<times> nar_node) list"
where
  "reconstruct_node 0 r c = Err StreamOutOfFuel"
| "reconstruct_node (Suc fuel) r c =
     (case node c of
        None \<Rightarrow> Err NoVariant
      | Some (CaFileNode dg sz x) \<Rightarrow>
          bindR (digest_field dg) (\<lambda>d. bindR (cr_read_file r d) (\<lambda>content. Ok (Regular x content)))
      | Some (CaDirectoryNode dg sz) \<Rightarrow>
          bindR (digest_field dg) (\<lambda>d.
          bindR (cr_load_dir r d) (\<lambda>dir.
          bindR (reconstruct_entries fuel r (dir_entries dir)) (\<lambda>entries.
            Ok (Directory (sort_entries entries)))))
      | Some (CaSymlinkNode t) \<Rightarrow> Ok (Symlink t))"
| "reconstruct_entries fuel r [] = Ok []"
| "reconstruct_entries 0 r (e # es) = Err StreamOutOfFuel"
| "reconstruct_entries (Suc fuel) r ((name, child) # es) =
     bindR (case child of None \<Rightarrow> Err MissingEntryNode | Some c \<Rightarrow> reconstruct_node fuel r c) (\<lambda>n.
     bindR (reconstruct_entries fuel r es) (\<lambda>ns. Ok ((name, n) # ns)))"

subsection \<open>What the walk has collected\<close>

definition rows_for :: "cas_env \<Rightarrow> bytes \<Rightarrow> (digest \<times> nat) list" where
  "rows_for env d = map (\<lambda>c. (blake3 env c, length c)) (cdc env d)"

definition covered :: "walk_state \<Rightarrow> ca_node \<Rightarrow> bool" where
  "covered w c \<longleftrightarrow>
     (case node c of
        Some (CaFileNode (Some f) sz x) \<Rightarrow> f \<in> wk_file_seen w
      | Some (CaDirectoryNode (Some g) sz) \<Rightarrow> g \<in> wk_dir_seen w
      | _ \<Rightarrow> True)"

text \<open>Sent are exactly the chunks of the files seen that the client lacks, once each.\<close>

definition missing_ok :: "cas_env \<Rightarrow> bytes set \<Rightarrow> castore_db \<Rightarrow> chunk_have_check \<Rightarrow> walk_state \<Rightarrow> bool" where
  "missing_ok env U db hv w \<longleftrightarrow>
     map cm_digest (wk_missing w) = map Some (map (the \<circ> cm_digest) (wk_missing w)) \<and>
     distinct (map (the \<circ> cm_digest) (wk_missing w)) \<and>
     wk_chunk_seen w = set (map (the \<circ> cm_digest) (wk_missing w)) \<and>
     (\<forall>m \<in> set (wk_missing w). \<exists>c \<in> U. cm_digest m = Some (blake3 env c) \<and> cm_size m = length c \<and>
        \<not> have_contains hv (blake3 env c) \<and> map_of (db_chunks db) (blake3 env c) \<noteq> None)"

definition files_ok :: "cas_env \<Rightarrow> bytes set \<Rightarrow> castore_db \<Rightarrow> chunk_have_check \<Rightarrow> walk_state \<Rightarrow> bool" where
  "files_ok env U db hv w \<longleftrightarrow>
     (\<forall>f \<in> wk_file_seen w. \<exists>d \<in> U. f = blake3 env d \<and> (cdc env d \<noteq> [] \<longrightarrow> (f, rows_for env d) \<in> set (wk_files w))) \<and>
     (\<forall>(f, rows) \<in> set (wk_files w). \<exists>d \<in> U. f = blake3 env d \<and> set (cdc env d) \<subseteq> U \<and> rows = rows_for env d \<and>
        cdc env d \<noteq> [] \<and> (\<forall>c \<in> set (cdc env d). have_contains hv (blake3 env c) \<or> blake3 env c \<in> wk_chunk_seen w))"

text \<open>\<open>P\<close>: the directories the walk is still inside.\<close>

definition dirs_ok :: "cas_env \<Rightarrow> bytes set \<Rightarrow> digest set \<Rightarrow> walk_state \<Rightarrow> bool" where
  "dirs_ok env U P w \<longleftrightarrow>
     (\<forall>g \<in> wk_dir_seen w. g \<in> P \<or> (\<exists>x. (g, x) \<in> set (wk_dirs w))) \<and>
     (\<forall>(g, x) \<in> set (wk_dirs w). g = blake3 env (encode_dir env x) \<and> encode_dir env x \<in> U \<and>
        (\<forall>nm c. (nm, Some c) \<in> set (dir_entries x) \<longrightarrow> covered w c))"

definition walk_ok :: "cas_env \<Rightarrow> bytes set \<Rightarrow> castore_db \<Rightarrow> chunk_have_check \<Rightarrow> digest set \<Rightarrow> walk_state \<Rightarrow> bool" where
  "walk_ok env U db hv P w \<longleftrightarrow> missing_ok env U db hv w \<and> files_ok env U db hv w \<and> dirs_ok env U P w"

definition wgrow :: "walk_state \<Rightarrow> walk_state \<Rightarrow> bool" where
  "wgrow w w' \<longleftrightarrow> wk_file_seen w \<subseteq> wk_file_seen w' \<and> wk_dir_seen w \<subseteq> wk_dir_seen w'"

lemma wgrow_refl [simp]: "wgrow w w"
  by (simp add: wgrow_def)

lemma wgrow_trans: "wgrow w w1 \<Longrightarrow> wgrow w1 w2 \<Longrightarrow> wgrow w w2"
  by (auto simp: wgrow_def)

lemma covered_mono: "covered w c \<Longrightarrow> wgrow w w' \<Longrightarrow> covered w' c"
  by (auto simp: covered_def wgrow_def split: option.splits ca_variant.splits)

lemma walk_ok_init: "walk_ok env U db hv {} walk_init"
  by (simp add: walk_ok_def missing_ok_def files_ok_def dirs_ok_def walk_init_def)

lemma walk_frame [simp]:
  "missing_ok env U db hv (w\<lparr>wk_dir_seen := S\<rparr>) = missing_ok env U db hv w"
  "files_ok env U db hv (w\<lparr>wk_dir_seen := S\<rparr>) = files_ok env U db hv w"
  "missing_ok env U db hv (w\<lparr>wk_dirs := D\<rparr>) = missing_ok env U db hv w"
  "files_ok env U db hv (w\<lparr>wk_dirs := D\<rparr>) = files_ok env U db hv w"
  by (simp_all add: missing_ok_def files_ok_def)

subsection \<open>What a walk adds\<close>

text \<open>Everything reported beyond \<open>w\<close> belongs to the files \<open>F\<close> and the directories \<open>D\<close>.\<close>

definition adds_only :: "cas_env \<Rightarrow> bytes set \<Rightarrow> ca_directory set \<Rightarrow> walk_state \<Rightarrow> walk_state \<Rightarrow> bool" where
  "adds_only env F D w w' \<longleftrightarrow>
     (\<forall>m \<in> set (wk_missing w'). m \<in> set (wk_missing w) \<or>
        (\<exists>d \<in> F. \<exists>c \<in> set (cdc env d). cm_digest m = Some (blake3 env c))) \<and>
     (\<forall>r \<in> set (wk_files w'). r \<in> set (wk_files w) \<or> (\<exists>d \<in> F. d \<noteq> [] \<and> r = (blake3 env d, rows_for env d))) \<and>
     (\<forall>r \<in> set (wk_dirs w'). r \<in> set (wk_dirs w) \<or> (\<exists>x \<in> D. r = (blake3 env (encode_dir env x), x)))"

lemma adds_only_same:
  "wk_missing w' = wk_missing w \<Longrightarrow> wk_files w' = wk_files w \<Longrightarrow> wk_dirs w' = wk_dirs w \<Longrightarrow> adds_only env F D w w'"
  by (simp add: adds_only_def)

lemma adds_only_trans:
  "adds_only env F D w w1 \<Longrightarrow> adds_only env F' D' w1 w2 \<Longrightarrow> adds_only env (F \<union> F') (D \<union> D') w w2"
  unfolding adds_only_def by (elim conjE, intro conjI; fast)

lemma adds_only_mono: "adds_only env F D w w' \<Longrightarrow> F \<subseteq> F' \<Longrightarrow> D \<subseteq> D' \<Longrightarrow> adds_only env F' D' w w'"
  unfolding adds_only_def by blast

lemma cdc_Nil: "cas_env_ok env \<Longrightarrow> cdc env d = [] \<longleftrightarrow> d = []"
proof (cases "cdc env d")
  case (Cons c cs)
  assume env: "cas_env_ok env"
  have "c \<noteq> []" using cas_env_okD(3)[OF env, of c d] Cons by simp
  then show ?thesis using cas_env_okD(2)[OF env, of d] Cons by auto
qed (use cas_env_okD(2)[of env d] in auto)

subsection \<open>One file\<close>

lemma add_missing_frame [simp]:
  "wk_dir_seen (add_missing hv r w) = wk_dir_seen w" "wk_dirs (add_missing hv r w) = wk_dirs w"
  "wk_file_seen (add_missing hv r w) = wk_file_seen w" "wk_files (add_missing hv r w) = wk_files w"
  by (simp_all add: add_missing_def)

lemma fold_missing_frame [simp]:
  "wk_dir_seen (fold (add_missing hv) rs w) = wk_dir_seen w" "wk_dirs (fold (add_missing hv) rs w) = wk_dirs w"
  "wk_file_seen (fold (add_missing hv) rs w) = wk_file_seen w" "wk_files (fold (add_missing hv) rs w) = wk_files w"
  by (induction rs arbitrary: w) simp_all

lemma add_missing_ok:
  assumes "missing_ok env U db hv w" and "c \<in> U" "map_of (db_chunks db) (blake3 env c) \<noteq> None"
  shows "missing_ok env U db hv (add_missing hv (blake3 env c, length c) w)"
  using assms by (auto simp: missing_ok_def add_missing_def)

lemma fold_missing_ok:
  assumes "missing_ok env U db hv w" and "set cs \<subseteq> U" "\<forall>c \<in> set cs. map_of (db_chunks db) (blake3 env c) \<noteq> None"
  shows "missing_ok env U db hv (fold (add_missing hv) (map (\<lambda>c. (blake3 env c, length c)) cs) w) \<and>
    wk_chunk_seen (fold (add_missing hv) (map (\<lambda>c. (blake3 env c, length c)) cs) w) =
      wk_chunk_seen w \<union> {g \<in> blake3 env ` set cs. \<not> have_contains hv g}"
  using assms
proof (induction cs arbitrary: w)
  case (Cons c cs)
  let ?w = "add_missing hv (blake3 env c, length c) w"
  have "missing_ok env U db hv ?w" using add_missing_ok Cons.prems by simp
  moreover have "wk_chunk_seen ?w = wk_chunk_seen w \<union> {g \<in> {blake3 env c}. \<not> have_contains hv g}"
    by (auto simp: add_missing_def)
  ultimately show ?case using Cons.IH[of ?w] Cons.prems by auto
qed simp

lemma walk_file_ok:
  assumes env: "cas_env_ok env" and inj: "inj_on (blake3 env) U" and inv: "castore_inv env U st"
    and w: "walk_ok env U (st_db st) hv P w"
    and d: "d \<in> U" "set (cdc env d) \<subseteq> U" "file_stored env (st_db st) d"
  shows "walk_ok env U (st_db st) hv P (walk_file hv (blake3 env d) st w) \<and>
    wgrow w (walk_file hv (blake3 env d) st w) \<and> blake3 env d \<in> wk_file_seen (walk_file hv (blake3 env d) st w)"
proof (cases "blake3 env d \<in> wk_file_seen w")
  case True
  then show ?thesis using w by (simp add: walk_file_def)
next
  case False
  let ?f = "blake3 env d"
  let ?w1 = "w\<lparr>wk_file_seen := insert ?f (wk_file_seen w)\<rparr>"
  let ?w2 = "fold (add_missing hv) (rows_for env d) ?w1"
  let ?w' = "walk_file hv ?f st w"
  have rows: "file_rows st ?f = rows_for env d"
    using file_rows_stored[OF inj castore_invD(1)[OF inv] d(1,3)] by (simp add: rows_for_def)
  have all: "filter (\<lambda>r. try_digest (fst r) \<noteq> None) (rows_for env d) = rows_for env d"
    by (rule filter_True) (auto simp: rows_for_def try_digest_def cas_env_okD(1)[OF env])
  have ne: "rows_for env d = [] \<longleftrightarrow> cdc env d = []" by (simp add: rows_for_def)
  have w': "?w' = (if cdc env d \<noteq> [] then ?w2\<lparr>wk_files := wk_files w @ [(?f, rows_for env d)]\<rparr> else ?w2)"
    using False by (simp add: walk_file_def Let_def rows all ne del: not_None_eq)
  have m1: "missing_ok env U (st_db st) hv ?w1" using w by (simp add: walk_ok_def missing_ok_def)
  have st: "\<forall>c \<in> set (cdc env d). map_of (db_chunks (st_db st)) (blake3 env c) \<noteq> None"
    using d(3) by (simp add: file_stored_def)
  note fm = fold_missing_ok[OF m1 d(2) st]
  have m: "missing_ok env U (st_db st) hv ?w2"
    and seen: "wk_chunk_seen ?w2 = wk_chunk_seen w \<union> {g \<in> blake3 env ` set (cdc env d). \<not> have_contains hv g}"
    using fm unfolding rows_for_def by simp_all
  have fields: "wk_missing ?w' = wk_missing ?w2" "wk_chunk_seen ?w' = wk_chunk_seen ?w2"
      "wk_dir_seen ?w' = wk_dir_seen w" "wk_dirs ?w' = wk_dirs w" "wk_file_seen ?w' = insert ?f (wk_file_seen w)"
      "wk_files ?w' = wk_files w @ (if cdc env d \<noteq> [] then [(?f, rows_for env d)] else [])"
    by (simp_all add: w')
  have grow: "wgrow w ?w'" by (auto simp: wgrow_def fields)
  have "missing_ok env U (st_db st) hv ?w'" using m by (simp add: missing_ok_def fields)
  moreover have "files_ok env U (st_db st) hv ?w'"
  proof -
    have fo: "files_ok env U (st_db st) hv w" using w by (simp add: walk_ok_def)
    have "\<exists>d' \<in> U. g = blake3 env d' \<and> (cdc env d' \<noteq> [] \<longrightarrow> (g, rows_for env d') \<in> set (wk_files ?w'))"
      if "g \<in> wk_file_seen ?w'" for g
      using that fo d(1) unfolding fields files_ok_def by auto
    moreover have "\<exists>d' \<in> U. g = blake3 env d' \<and> set (cdc env d') \<subseteq> U \<and> rows = rows_for env d' \<and> cdc env d' \<noteq> [] \<and>
        (\<forall>c \<in> set (cdc env d'). have_contains hv (blake3 env c) \<or> blake3 env c \<in> wk_chunk_seen ?w')"
      if "(g, rows) \<in> set (wk_files ?w')" for g rows
    proof (cases "(g, rows) \<in> set (wk_files w)")
      case True
      then show ?thesis using fo unfolding files_ok_def fields(2) seen by fast
    next
      case False
      then have "cdc env d \<noteq> []" "g = ?f" "rows = rows_for env d" using that by (auto simp: fields split: if_splits)
      then show ?thesis using d unfolding fields(2) seen by blast
    qed
    ultimately show ?thesis unfolding files_ok_def by fast
  qed
  moreover have "dirs_ok env U P ?w'"
    using w covered_mono[OF _ grow] unfolding walk_ok_def dirs_ok_def fields by fast
  ultimately show ?thesis using grow by (simp add: walk_ok_def fields)
qed

lemma fold_missing_adds:
  "m \<in> set (wk_missing (fold (add_missing hv) (map (\<lambda>c. (blake3 env c, length c)) cs) w)) \<Longrightarrow>
    m \<in> set (wk_missing w) \<or> (\<exists>c \<in> set cs. cm_digest m = Some (blake3 env c))"
proof (induction cs arbitrary: w)
  case (Cons c cs)
  have "m \<in> set (wk_missing (fold (add_missing hv) (map (\<lambda>c. (blake3 env c, length c)) cs)
      (add_missing hv (blake3 env c, length c) w)))" using Cons.prems by simp
  from Cons.IH[OF this] show ?case by (auto simp: add_missing_def split: if_splits)
qed simp

lemma walk_file_adds:
  assumes env: "cas_env_ok env" and inj: "inj_on (blake3 env) U" and inv: "castore_inv env U st"
    and d: "d \<in> U" "file_stored env (st_db st) d"
  shows "adds_only env {d} {} w (walk_file hv (blake3 env d) st w)"
proof (cases "blake3 env d \<in> wk_file_seen w")
  case True
  then show ?thesis by (simp add: walk_file_def adds_only_same)
next
  case False
  have rows: "file_rows st (blake3 env d) = rows_for env d"
    using file_rows_stored[OF inj castore_invD(1)[OF inv] d] by (simp add: rows_for_def)
  have all: "filter (\<lambda>r. try_digest (fst r) \<noteq> None) (rows_for env d) = rows_for env d"
    by (rule filter_True) (auto simp: rows_for_def try_digest_def cas_env_okD(1)[OF env])
  have ne: "rows_for env d = [] \<longleftrightarrow> d = []" by (simp add: rows_for_def cdc_Nil[OF env])
  let ?w1 = "w\<lparr>wk_file_seen := insert (blake3 env d) (wk_file_seen w)\<rparr>"
  let ?w2 = "fold (add_missing hv) (rows_for env d) ?w1"
  have w': "walk_file hv (blake3 env d) st w =
      (if d \<noteq> [] then ?w2\<lparr>wk_files := wk_files w @ [(blake3 env d, rows_for env d)]\<rparr> else ?w2)"
    using False by (simp add: walk_file_def Let_def rows all ne del: not_None_eq)
  have "m \<in> set (wk_missing ?w2) \<Longrightarrow> m \<in> set (wk_missing w) \<or>
      (\<exists>c \<in> set (cdc env d). cm_digest m = Some (blake3 env c))" for m
    using fold_missing_adds[of m hv env "cdc env d" ?w1] unfolding rows_for_def by simp
  then show ?thesis unfolding w' adds_only_def by auto
qed

subsection \<open>A whole tree\<close>

lemma walk_stored:
  assumes env: "cas_env_ok env" and inj: "inj_on (blake3 env) U"
  shows "nar_fuel n \<le> fuel \<Longrightarrow> blobs_of env n \<subseteq> U \<Longrightarrow> tree_stored env (st_db st) n \<Longrightarrow>
      castore_inv env U st \<Longrightarrow> walk_ok env U (st_db st) hv P w \<Longrightarrow>
      \<exists>w' st'. walk_cas_node fuel env hv (root_of env n) (w, st) = Some (w', st') \<and>
        walk_ok env U (st_db st) hv P w' \<and> wgrow w w' \<and> covered w' (root_of env n) \<and>
        castore_inv env U st' \<and> st_db st' = st_db st \<and> st_files st' = st_files st \<and>
        adds_only env (set (files_of n)) (set (dirs_of env n)) w w'"
    and "sum_list (map (\<lambda>e. Suc (nar_fuel (snd e))) es) \<le> fuel \<Longrightarrow>
      (\<forall>d \<in> set (files_of_entries es). d \<in> U \<and> set (cdc env d) \<subseteq> U \<and> file_stored env (st_db st) d) \<Longrightarrow>
      (\<forall>x \<in> set (dirs_of_entries env es). encode_dir env x \<in> U \<and> dir_stored env (st_db st) x) \<Longrightarrow>
      castore_inv env U st \<Longrightarrow> walk_ok env U (st_db st) hv P w \<Longrightarrow>
      \<exists>w' st'. walk_children fuel env hv (entries_of env es) (w, st) = Some (w', st') \<and>
        walk_ok env U (st_db st) hv P w' \<and> wgrow w w' \<and>
        (\<forall>nm c. (nm, Some c) \<in> set (entries_of env es) \<longrightarrow> covered w' c) \<and>
        castore_inv env U st' \<and> st_db st' = st_db st \<and> st_files st' = st_files st \<and>
        adds_only env (set (files_of_entries es)) (set (dirs_of_entries env es)) w w'"
  using env inj
proof (induction env n and env es arbitrary: fuel P w st and fuel P w st rule: root_of_entries_of.induct)
  case (1 env x d)
  then obtain f where f: "fuel = Suc f" by (cases fuel) auto
  have d: "d \<in> U" "set (cdc env d) \<subseteq> U" "file_stored env (st_db st) d"
    using 1(2,3) by (auto simp: blobs_of_def tree_stored_def)
  show ?case using walk_file_ok[OF 1(6,7,4,5) d] walk_file_adds[OF 1(6,7,4) d(1,3), of w hv] f 1(4,6)
    by (simp add: try_digest_def cas_env_okD(1) covered_def)
next
  case (2 env es)
  obtain f where f: "fuel = Suc f" "sum_list (map (\<lambda>e. Suc (nar_fuel (snd e))) es) \<le> f"
    using 2(2) by (cases fuel) auto
  let ?x = "CaDirectory (entries_of env es)"
  let ?g = "blake3 env (encode_dir env ?x)"
  let ?w1 = "w\<lparr>wk_dir_seen := insert ?g (wk_dir_seen w)\<rparr>"
  have x: "encode_dir env ?x \<in> U" "dir_stored env (st_db st) ?x"
    using 2(3,4) by (auto simp: blobs_of_def tree_stored_def)
  have len: "length ?g = 32" by (simp add: cas_env_okD(1)[OF 2(7)])
  show ?case
  proof (cases "?g \<in> wk_dir_seen w")
    case True
    then show ?thesis using 2(5,6) f len by (simp add: try_digest_def covered_def adds_only_same)
  next
    case False
    obtain st1 where ld: "load_directory env ?g st = (Ok ?x, st1)"
      using load_directory_stored[OF 2(7,5) x(2)] by (metis prod.collapse)
    have st1: "castore_inv env U st1" "st_db st1 = st_db st" "st_files st1 = st_files st"
      using load_directory_inv[OF 2(7,5), of ?g] ld by simp_all
    have grow1: "wgrow w ?w1" by (auto simp: wgrow_def)
    have ok1: "walk_ok env U (st_db st1) hv (insert ?g P) ?w1"
    proof -
      have "dirs_ok env U (insert ?g P) ?w1"
        using 2(6) covered_mono[OF _ grow1] unfolding walk_ok_def dirs_ok_def by fastforce
      then show ?thesis using 2(6) by (simp add: walk_ok_def st1)
    qed
    have fs: "\<forall>d \<in> set (files_of_entries es). d \<in> U \<and> set (cdc env d) \<subseteq> U \<and> file_stored env (st_db st1) d"
      and ds: "\<forall>x \<in> set (dirs_of_entries env es). encode_dir env x \<in> U \<and> dir_stored env (st_db st1) x"
      using 2(3,4) by (auto simp: blobs_of_def tree_stored_def st1)
    from "2.IH"[OF f(2) fs ds st1(1) ok1 2(7,8)] obtain w2 st2 where
        w2: "walk_children f env hv (entries_of env es) (?w1, st1) = Some (w2, st2)"
        "walk_ok env U (st_db st1) hv (insert ?g P) w2" "wgrow ?w1 w2"
        "\<forall>nm c. (nm, Some c) \<in> set (entries_of env es) \<longrightarrow> covered w2 c"
        "castore_inv env U st2" "st_db st2 = st_db st1" "st_files st2 = st_files st1"
        "adds_only env (set (files_of_entries es)) (set (dirs_of_entries env es)) ?w1 w2" by (elim exE conjE)
    let ?w' = "w2\<lparr>wk_dirs := wk_dirs w2 @ [(?g, ?x)]\<rparr>"
    have run: "walk_cas_node fuel env hv (root_of env (Directory es)) (w, st) = Some (?w', st2)"
      using False ld w2(1) f(1) len by (simp add: try_digest_def)
    have grow2: "wgrow w2 ?w'" by (simp add: wgrow_def)
    have "dirs_ok env U P ?w'"
    proof -
      have dk: "dirs_ok env U (insert ?g P) w2" using w2(2) by (simp add: walk_ok_def)
      have a: "\<forall>g \<in> wk_dir_seen w2. g \<in> P \<or> g = ?g \<or> (\<exists>x. (g, x) \<in> set (wk_dirs w2))"
        using dk unfolding dirs_ok_def by blast
      have b: "\<forall>(g, x) \<in> set (wk_dirs w2). g = blake3 env (encode_dir env x) \<and> encode_dir env x \<in> U \<and>
          (\<forall>nm c. (nm, Some c) \<in> set (dir_entries x) \<longrightarrow> covered ?w' c)"
        using dk covered_mono[OF _ grow2] unfolding dirs_ok_def by fast
      have c: "\<forall>nm c. (nm, Some c) \<in> set (dir_entries ?x) \<longrightarrow> covered ?w' c"
        using w2(4) covered_mono[OF _ grow2] by simp
      show ?thesis unfolding dirs_ok_def using a b c x(1) by auto
    qed
    then have ok': "walk_ok env U (st_db st) hv P ?w'"
      using w2(2) by (simp add: walk_ok_def st1)
    have "?g \<in> wk_dir_seen ?w'" using w2(3) by (auto simp: wgrow_def)
    then have cov: "covered ?w' (root_of env (Directory es))" by (simp add: covered_def)
    have adds: "adds_only env (set (files_of (Directory es))) (set (dirs_of env (Directory es))) w ?w'"
      using w2(8) unfolding adds_only_def by auto
    have "wgrow w ?w'" using grow1 w2(3) grow2 wgrow_trans by blast
    then show ?thesis using run ok' cov w2(5-7) st1 adds by (intro exI[of _ ?w'] exI[of _ st2]) simp
  qed
next
  case (3 env t)
  then obtain f where "fuel = Suc f" by (cases fuel) auto
  then show ?case using 3 by (simp add: covered_def adds_only_same)
next
  case (5 env name n es)
  obtain f where f: "fuel = Suc f" "nar_fuel n \<le> f" "sum_list (map (\<lambda>e. Suc (nar_fuel (snd e))) es) \<le> f"
    using 5(3) by (cases fuel) auto
  have n: "blobs_of env n \<subseteq> U" "tree_stored env (st_db st) n"
    using 5(4,5) by (auto simp: blobs_of_def tree_stored_def)
  from "5.IH"(1)[OF f(2) n 5(6,7,8,9)] obtain w1 st1 where
      w1: "walk_cas_node f env hv (root_of env n) (w, st) = Some (w1, st1)" "walk_ok env U (st_db st) hv P w1"
      "wgrow w w1" "covered w1 (root_of env n)" "castore_inv env U st1" "st_db st1 = st_db st"
      "st_files st1 = st_files st" "adds_only env (set (files_of n)) (set (dirs_of env n)) w w1" by (elim exE conjE)
  have es: "\<forall>d \<in> set (files_of_entries es). d \<in> U \<and> set (cdc env d) \<subseteq> U \<and> file_stored env (st_db st1) d"
      "\<forall>x \<in> set (dirs_of_entries env es). encode_dir env x \<in> U \<and> dir_stored env (st_db st1) x"
    using 5(4,5) by (simp_all add: w1(6))
  have "walk_ok env U (st_db st1) hv P w1" using w1(2,6) by simp
  from "5.IH"(2)[OF f(3) es w1(5) this 5(8,9)] obtain w2 st2 where
      w2: "walk_children f env hv (entries_of env es) (w1, st1) = Some (w2, st2)" "walk_ok env U (st_db st1) hv P w2"
      "wgrow w1 w2" "\<forall>nm c. (nm, Some c) \<in> set (entries_of env es) \<longrightarrow> covered w2 c" "castore_inv env U st2"
      "st_db st2 = st_db st1" "st_files st2 = st_files st1"
      "adds_only env (set (files_of_entries es)) (set (dirs_of_entries env es)) w1 w2" by (elim exE conjE)
  have "adds_only env (set (files_of_entries ((name, n) # es))) (set (dirs_of_entries env ((name, n) # es))) w w2"
    using adds_only_trans[OF w1(8) w2(8)] by simp
  then show ?case using w1(1-7) w2(1-7) f(1) wgrow_trans[OF w1(3) w2(3)] covered_mono[OF w1(4) w2(3)]
    by (intro exI[of _ w2] exI[of _ st2]) auto
qed (auto simp: adds_only_same)

subsection \<open>The wanted paths\<close>

lemma holds_root:
  assumes env: "cas_env_ok env" and h: "holds env U st m"
  shows "get_root_node env k st = Ok (case m k of None \<Rightarrow> None | Some None \<Rightarrow> Some (CaNode None)
    | Some (Some n) \<Rightarrow> Some (root_of env n))"
proof (cases "m k")
  case None
  then have "map_of (db_paths (st_db st)) k = None" using h unfolding holds_def by blast
  then show ?thesis using None by (simp add: get_root_node_def)
next
  case (Some o')
  then obtain row where row: "map_of (db_paths (st_db st)) k = Some row" "row_holds env U (st_db st) k o' row"
    using h unfolding holds_def by (metis not_None_eq)
  then show ?thesis using Some
    by (cases o') (simp_all add: get_root_node_def row_holds_def cas_env_okD(6)[OF env])
qed

lemma holds_tree:
  assumes h: "holds env U st m" and "m k = Some (Some n)"
  shows "blobs_of env n \<subseteq> U \<and> tree_stored env (st_db st) n"
proof -
  obtain row where "row_holds env U (st_db st) k (Some n) row"
    using assms unfolding holds_def by (metis not_None_eq option.distinct(1))
  then show ?thesis by (simp add: row_holds_def path_holds_def)
qed

lemma holds_same:
  assumes "holds env U st m" and "castore_inv env U st'" "st_db st' = st_db st" "st_files st' = st_files st"
  shows "holds env U st' m"
  using assms by (simp add: holds_def no_orphans_def)

text \<open>The files and directories of the wanted archives the store holds.\<close>

definition files_wanted :: "(string \<Rightarrow> nar_node option option) \<Rightarrow> string list \<Rightarrow> bytes set" where
  "files_wanted m hs = {d. \<exists>h \<in> set hs. \<exists>n. m h = Some (Some n) \<and> d \<in> set (files_of n)}"

definition dirs_wanted :: "cas_env \<Rightarrow> (string \<Rightarrow> nar_node option option) \<Rightarrow> string list \<Rightarrow> ca_directory set" where
  "dirs_wanted env m hs = {x. \<exists>h \<in> set hs. \<exists>n. m h = Some (Some n) \<and> x \<in> set (dirs_of env n)}"

lemma wanted_Cons:
  "files_wanted m (h # hs) = files_wanted m [h] \<union> files_wanted m hs"
  "dirs_wanted env m (h # hs) = dirs_wanted env m [h] \<union> dirs_wanted env m hs"
  by (auto simp: files_wanted_def dirs_wanted_def)

lemma walk_hashes_holds:
  assumes env: "cas_env_ok env" and inj: "inj_on (blake3 env) U"
    and fuel: "0 < fuel" "\<forall>h n. m h = Some (Some n) \<longrightarrow> nar_fuel n \<le> fuel"
  shows "holds env U st m \<Longrightarrow> walk_ok env U (st_db st) hv {} w \<Longrightarrow>
    \<exists>w' st'. walk_hashes fuel env hv hs (w, st) = Some (Ok (w', st')) \<and> walk_ok env U (st_db st) hv {} w' \<and>
      wgrow w w' \<and> (\<forall>h \<in> set hs. \<forall>n. m h = Some (Some n) \<longrightarrow> covered w' (root_of env n)) \<and>
      holds env U st' m \<and> st_db st' = st_db st \<and> st_files st' = st_files st \<and>
      adds_only env (files_wanted m hs) (dirs_wanted env m hs) w w'"
proof (induction hs arbitrary: w st)
  case Nil
  then show ?case by (simp add: adds_only_same)
next
  case (Cons h hs)
  have inv: "castore_inv env U st" using Cons.prems(1) unfolding holds_def by blast
  have step: "\<exists>w1 st1. walk_hashes fuel env hv (h # hs) (w, st) = walk_hashes fuel env hv hs (w1, st1) \<and>
      walk_ok env U (st_db st) hv {} w1 \<and> wgrow w w1 \<and> (\<forall>n. m h = Some (Some n) \<longrightarrow> covered w1 (root_of env n)) \<and>
      castore_inv env U st1 \<and> st_db st1 = st_db st \<and> st_files st1 = st_files st \<and>
      adds_only env (files_wanted m [h]) (dirs_wanted env m [h]) w w1"
  proof (cases "m h")
    case None
    then show ?thesis using holds_root[OF env Cons.prems(1), of h] Cons.prems(2) inv
      by (intro exI[of _ w] exI[of _ st]) (simp add: adds_only_same)
  next
    case (Some o')
    show ?thesis
    proof (cases o')
      case None
      obtain f where "fuel = Suc f" using fuel(1) by (cases fuel) auto
      then show ?thesis using None Some holds_root[OF env Cons.prems(1), of h] Cons.prems(2) inv
        by (intro exI[of _ w] exI[of _ st]) (simp add: adds_only_same)
    next
      case (Some n)
      then have n: "m h = Some (Some n)" using \<open>m h = Some o'\<close> by simp
      have t: "blobs_of env n \<subseteq> U" "tree_stored env (st_db st) n" using holds_tree[OF Cons.prems(1) n] by blast+
      from walk_stored(1)[OF env inj fuel(2)[rule_format, OF n] t inv Cons.prems(2)] obtain w1 st1 where
        "walk_cas_node fuel env hv (root_of env n) (w, st) = Some (w1, st1)" "walk_ok env U (st_db st) hv {} w1"
        "wgrow w w1" "covered w1 (root_of env n)" "castore_inv env U st1" "st_db st1 = st_db st"
        "st_files st1 = st_files st" "adds_only env (set (files_of n)) (set (dirs_of env n)) w w1" by (elim exE conjE)
      moreover have "files_wanted m [h] = set (files_of n)" "dirs_wanted env m [h] = set (dirs_of env n)"
        using n by (simp_all add: files_wanted_def dirs_wanted_def)
      ultimately show ?thesis using holds_root[OF env Cons.prems(1), of h] n
        by (intro exI[of _ w1] exI[of _ st1]) simp
    qed
  qed
  then obtain w1 st1 where 1: "walk_hashes fuel env hv (h # hs) (w, st) = walk_hashes fuel env hv hs (w1, st1)"
      "walk_ok env U (st_db st) hv {} w1" "wgrow w w1" "\<forall>n. m h = Some (Some n) \<longrightarrow> covered w1 (root_of env n)"
      "castore_inv env U st1" "st_db st1 = st_db st" "st_files st1 = st_files st"
      "adds_only env (files_wanted m [h]) (dirs_wanted env m [h]) w w1" by (elim exE conjE)
  have h1: "holds env U st1 m" using holds_same[OF Cons.prems(1) 1(5-7)] .
  have "walk_ok env U (st_db st1) hv {} w1" using 1(2,6) by simp
  from Cons.IH[OF h1 this] obtain w2 st2 where 2: "walk_hashes fuel env hv hs (w1, st1) = Some (Ok (w2, st2))"
      "walk_ok env U (st_db st1) hv {} w2" "wgrow w1 w2"
      "\<forall>h \<in> set hs. \<forall>n. m h = Some (Some n) \<longrightarrow> covered w2 (root_of env n)" "holds env U st2 m"
      "st_db st2 = st_db st1" "st_files st2 = st_files st1"
      "adds_only env (files_wanted m hs) (dirs_wanted env m hs) w1 w2" by (elim exE conjE)
  have adds: "adds_only env (files_wanted m (h # hs)) (dirs_wanted env m (h # hs)) w w2"
    using adds_only_trans[OF 1(8) 2(8)] by (simp only: wanted_Cons(1)[of m h hs, symmetric] wanted_Cons(2)[of env m h hs, symmetric])
  have "\<forall>k \<in> set (h # hs). \<forall>n. m k = Some (Some n) \<longrightarrow> covered w2 (root_of env n)"
    using 1(4) 2(4) covered_mono[OF _ 2(3)] by auto
  then show ?case using 1(1-7) 2(1-7) adds wgrow_trans[OF 1(3) 2(3)] by (intro exI[of _ w2] exI[of _ st2]) simp
qed

subsection \<open>A finished walk is complete\<close>

lemma covered_complete:
  assumes env: "cas_env_ok env" and inj: "inj_on (blake3 env) U" and w: "walk_ok env U db hv {} w"
  shows "blobs_of env n \<subseteq> U \<Longrightarrow> covered w (root_of env n) \<Longrightarrow>
      (\<forall>d \<in> set (files_of n). d \<noteq> [] \<longrightarrow> (blake3 env d, rows_for env d) \<in> set (wk_files w)) \<and>
      (\<forall>x \<in> set (dirs_of env n). (blake3 env (encode_dir env x), x) \<in> set (wk_dirs w))"
    and "set (files_of_entries es) \<subseteq> U \<Longrightarrow> encode_dir env ` set (dirs_of_entries env es) \<subseteq> U \<Longrightarrow>
      (\<forall>d \<in> set (files_of_entries es). set (cdc env d) \<subseteq> U) \<Longrightarrow>
      (\<forall>nm c. (nm, Some c) \<in> set (entries_of env es) \<longrightarrow> covered w c) \<Longrightarrow>
      (\<forall>d \<in> set (files_of_entries es). d \<noteq> [] \<longrightarrow> (blake3 env d, rows_for env d) \<in> set (wk_files w)) \<and>
      (\<forall>x \<in> set (dirs_of_entries env es). (blake3 env (encode_dir env x), x) \<in> set (wk_dirs w))"
  using env inj w
proof (induction env n and env es rule: root_of_entries_of.induct)
  case (1 env x d)
  have "d \<in> U" using 1(1) by (auto simp: blobs_of_def)
  have "blake3 env d \<in> wk_file_seen w" using 1(2) by (simp add: covered_def)
  then obtain d' where "d' \<in> U" "blake3 env d = blake3 env d'"
      "cdc env d' \<noteq> [] \<longrightarrow> (blake3 env d, rows_for env d') \<in> set (wk_files w)"
    using 1(5) unfolding walk_ok_def files_ok_def by blast
  moreover from this have "d' = d" using inj_onD[OF 1(4)] \<open>d \<in> U\<close> by metis
  ultimately show ?case using cdc_Nil[OF 1(3)] by simp
next
  case (2 env es)
  let ?x = "CaDirectory (entries_of env es)"
  have x: "encode_dir env ?x \<in> U" using 2(2) by (auto simp: blobs_of_def)
  have "blake3 env (encode_dir env ?x) \<in> wk_dir_seen w" using 2(3) by (simp add: covered_def)
  then obtain y where y: "(blake3 env (encode_dir env ?x), y) \<in> set (wk_dirs w)"
    using 2(6) unfolding walk_ok_def dirs_ok_def by blast
  then have yy: "blake3 env (encode_dir env ?x) = blake3 env (encode_dir env y)" "encode_dir env y \<in> U"
      "\<forall>nm c. (nm, Some c) \<in> set (dir_entries y) \<longrightarrow> covered w c"
    using 2(6) unfolding walk_ok_def dirs_ok_def by blast+
  then have "encode_dir env ?x = encode_dir env y" using inj_onD[OF 2(5) yy(1) x yy(2)] by simp
  then have "y = ?x" using encode_dir_inj[OF 2(4)] by simp
  then have cov: "\<forall>nm c. (nm, Some c) \<in> set (entries_of env es) \<longrightarrow> covered w c" using yy(3) by simp
  have sub: "set (files_of_entries es) \<subseteq> U" "encode_dir env ` set (dirs_of_entries env es) \<subseteq> U"
      "\<forall>d \<in> set (files_of_entries es). set (cdc env d) \<subseteq> U" using 2(2) by (auto simp: blobs_of_def)
  show ?case using "2.IH"[OF sub cov 2(4-6)] y \<open>y = ?x\<close> by auto
next
  case (5 env name n es)
  have n: "blobs_of env n \<subseteq> U" "covered w (root_of env n)" using 5(3-6) by (auto simp: blobs_of_def)
  have es: "set (files_of_entries es) \<subseteq> U" "encode_dir env ` set (dirs_of_entries env es) \<subseteq> U"
      "\<forall>d \<in> set (files_of_entries es). set (cdc env d) \<subseteq> U"
      "\<forall>nm c. (nm, Some c) \<in> set (entries_of env es) \<longrightarrow> covered w c" using 5(3-6) by auto
  show ?case using "5.IH"(1)[OF n 5(7-9)] "5.IH"(2)[OF es 5(7-9)] by auto
qed simp_all

lemma walk_ok_chunk:
  assumes inj: "inj_on (blake3 env) U" and w: "walk_ok env U db hv P w"
    and d: "d \<in> U" "(blake3 env d, rows_for env d) \<in> set (wk_files w)" "c \<in> set (cdc env d)"
  shows "have_contains hv (blake3 env c) \<or> (\<exists>m \<in> set (wk_missing w). cm_digest m = Some (blake3 env c))"
proof -
  obtain d' where "d' \<in> U" "blake3 env d = blake3 env d'"
      "\<forall>c \<in> set (cdc env d'). have_contains hv (blake3 env c) \<or> blake3 env c \<in> wk_chunk_seen w"
    using w d(2) unfolding walk_ok_def files_ok_def by blast
  moreover from this have "d' = d" using inj_onD[OF inj] d(1) by metis
  ultimately have "have_contains hv (blake3 env c) \<or> blake3 env c \<in> wk_chunk_seen w" using d(3) by simp
  moreover have "\<exists>m \<in> set (wk_missing w). cm_digest m = Some g" if "g \<in> wk_chunk_seen w" for g
    using w that unfolding walk_ok_def missing_ok_def by fastforce
  ultimately show ?thesis by blast
qed

lemma missing_distinct: "missing_ok env U db hv w \<Longrightarrow> distinct (map cm_digest (wk_missing w))"
  unfolding missing_ok_def by (metis distinct_map inj_Some inj_on_subset subset_UNIV)

text \<open>C7. What the server sends in answer to a chunk negotiation is exactly what the wanted archives
  need: the walk of any wanted hashes succeeds on a store with any history and returns the
  directories of the wanted archives the store holds and no others, the chunk lists of their
  non-empty files and no others, and, each once, the chunks of these files the client does not claim
  to have and no others, each with its length and readable from the store.  No file operation of
  the history failed and no two of its blobs have the same digest.\<close>

theorem walk_complete_and_minimal:
  assumes "cas_env_ok env" and "inj_on (blake3 env) (history_blobs env as)" and "\<forall>p. io p"
    and "\<forall>a \<in> set as. op_fits fuel (snd a)" and "0 < fuel"
    and st: "st = run_store fuel env fl io as (new_castore fl level clock)"
  shows "\<exists>w st'. walk_cas_trees fuel env hs hv st = Some (Ok (w, st')) \<and>
    set (wk_dirs w) = {(blake3 env (encode_dir env x), x) | x. x \<in> dirs_wanted env (run_spec as) hs} \<and>
    set (wk_files w) = {(blake3 env d, rows_for env d) | d. d \<in> files_wanted (run_spec as) hs \<and> d \<noteq> []} \<and>
    cm_digest ` set (wk_missing w) = {Some (blake3 env c) | c.
       \<not> have_contains hv (blake3 env c) \<and> (\<exists>d \<in> files_wanted (run_spec as) hs. c \<in> set (cdc env d))} \<and>
    distinct (map cm_digest (wk_missing w)) \<and>
    (\<forall>m \<in> set (wk_missing w). \<exists>c. cm_digest m = Some (blake3 env c) \<and> cm_size m = length c \<and>
       \<not> have_contains hv (blake3 env c) \<and> get_chunk_by_digest env st (blake3 env c) = Ok (Some c))"
proof -
  let ?U = "history_blobs env as" and ?m = "run_spec as"
  note env = assms(1) and inj = assms(2)
  have h: "holds env ?U st ?m" unfolding st by (rule holds_run[OF assms(1-4)])
  have fuel: "\<forall>k n. ?m k = Some (Some n) \<longrightarrow> nar_fuel n \<le> fuel"
    using spec_fuel[of Map.empty fuel as] assms(4) by (simp add: run_spec_def)
  from walk_hashes_holds[OF env inj assms(5) fuel h walk_ok_init, where hv = hv and hs = hs] obtain w st' where
      w: "walk_hashes fuel env hv hs (walk_init, st) = Some (Ok (w, st'))" "walk_ok env ?U (st_db st) hv {} w"
      "\<forall>h \<in> set hs. \<forall>n. ?m h = Some (Some n) \<longrightarrow> covered w (root_of env n)"
      "adds_only env (files_wanted ?m hs) (dirs_wanted env ?m hs) walk_init w" by (elim exE conjE)
  have files: "files_inv env ?U st" using h unfolding holds_def castore_inv_def by blast
  have ok: "missing_ok env ?U (st_db st) hv w" using w(2) by (simp add: walk_ok_def)
  have served: "\<exists>c. cm_digest m = Some (blake3 env c) \<and> cm_size m = length c \<and> \<not> have_contains hv (blake3 env c) \<and>
      get_chunk_by_digest env st (blake3 env c) = Ok (Some c)" if m: "m \<in> set (wk_missing w)" for m
  proof -
    obtain c where c: "c \<in> ?U" "cm_digest m = Some (blake3 env c)" "cm_size m = length c"
        "\<not> have_contains hv (blake3 env c)" "map_of (db_chunks (st_db st)) (blake3 env c) \<noteq> None"
      using ok m unfolding missing_ok_def by blast
    then show ?thesis using get_chunk_stored[OF env inj files c(1,5)] by blast
  qed
  have complete: "(\<forall>x \<in> set (dirs_of env n). (blake3 env (encode_dir env x), x) \<in> set (wk_dirs w)) \<and>
       (\<forall>d \<in> set (files_of n). d \<noteq> [] \<longrightarrow> (blake3 env d, rows_for env d) \<in> set (wk_files w) \<and>
          (\<forall>c \<in> set (cdc env d). have_contains hv (blake3 env c) \<or>
             (\<exists>m \<in> set (wk_missing w). cm_digest m = Some (blake3 env c))))"
    if "k \<in> set hs" "?m k = Some (Some n)" for k n
  proof -
    have U: "blobs_of env n \<subseteq> ?U" using holds_tree[OF h that(2)] by blast
    have "covered w (root_of env n)" using w(3) that by blast
    note cc = covered_complete(1)[OF env inj w(2) U this]
    have "d \<in> ?U" if "d \<in> set (files_of n)" for d using that U by (auto simp: blobs_of_def)
    then show ?thesis using cc walk_ok_chunk[OF inj w(2)] by blast
  qed
  have empty: "cdc env [] = []" using cdc_Nil[OF env] by simp
  have init: "wk_missing walk_init = []" "wk_files walk_init = []" "wk_dirs walk_init = []"
    by (simp_all add: walk_init_def)
  note only = w(4)[unfolded adds_only_def init]
  have only_missing: "\<forall>m \<in> set (wk_missing w). \<exists>d \<in> files_wanted ?m hs. \<exists>c \<in> set (cdc env d). cm_digest m = Some (blake3 env c)"
    using only by (elim conjE) simp
  have dirs: "set (wk_dirs w) = {(blake3 env (encode_dir env x), x) | x. x \<in> dirs_wanted env ?m hs}"
  proof
    show "set (wk_dirs w) \<subseteq> {(blake3 env (encode_dir env x), x) | x. x \<in> dirs_wanted env ?m hs}"
      using only by auto
    show "{(blake3 env (encode_dir env x), x) | x. x \<in> dirs_wanted env ?m hs} \<subseteq> set (wk_dirs w)"
      using complete unfolding dirs_wanted_def by blast
  qed
  have fls: "set (wk_files w) = {(blake3 env d, rows_for env d) | d. d \<in> files_wanted ?m hs \<and> d \<noteq> []}"
  proof
    show "set (wk_files w) \<subseteq> {(blake3 env d, rows_for env d) | d. d \<in> files_wanted ?m hs \<and> d \<noteq> []}"
      using only by auto
    show "{(blake3 env d, rows_for env d) | d. d \<in> files_wanted ?m hs \<and> d \<noteq> []} \<subseteq> set (wk_files w)"
      using complete unfolding files_wanted_def by blast
  qed
  have miss: "cm_digest ` set (wk_missing w) = {Some (blake3 env c) | c.
       \<not> have_contains hv (blake3 env c) \<and> (\<exists>d \<in> files_wanted ?m hs. c \<in> set (cdc env d))}" (is "?L = ?R")
  proof
    show "?L \<subseteq> ?R"
    proof
      fix y assume "y \<in> ?L"
      then obtain m where m: "m \<in> set (wk_missing w)" "y = cm_digest m" by blast
      from only_missing m(1) obtain d c where d: "d \<in> files_wanted ?m hs" "c \<in> set (cdc env d)" "cm_digest m = Some (blake3 env c)"
        by blast
      obtain c' where "cm_digest m = Some (blake3 env c')" "\<not> have_contains hv (blake3 env c')"
        using served[OF m(1)] by blast
      then have "\<not> have_contains hv (blake3 env c)" using d(3) by simp
      then show "y \<in> ?R" using m(2) d by blast
    qed
    show "?R \<subseteq> ?L"
    proof
      fix y assume "y \<in> ?R"
      then obtain c d where c: "y = Some (blake3 env c)" "\<not> have_contains hv (blake3 env c)"
          "d \<in> files_wanted ?m hs" "c \<in> set (cdc env d)" by blast
      then have "d \<noteq> []" using empty by auto
      moreover obtain k n where "k \<in> set hs" "?m k = Some (Some n)" "d \<in> set (files_of n)"
        using c(3) unfolding files_wanted_def by blast
      ultimately obtain m where "m \<in> set (wk_missing w)" "cm_digest m = Some (blake3 env c)"
        using complete[THEN conjunct2, rule_format, THEN conjunct2, rule_format] c(2,4) \<open>d \<noteq> []\<close> by blast
      then show "y \<in> ?L" using c(1) by force
    qed
  qed
  show ?thesis unfolding walk_cas_trees_def
    using w(1) dirs fls miss missing_distinct[OF ok] served
    by (intro exI[of _ w] exI[of _ st'] conjI) (assumption | simp)+
qed

theorem walk_complete_and_minimal_witness:
  "\<exists>w st'. walk_cas_trees 9 sample_env [''abc''] (Exact {})
     (run_store 9 sample_env toy_sizes (\<lambda>_. True) [sample_put] (new_castore toy_sizes 3 0)) = Some (Ok (w, st')) \<and>
     set (wk_dirs w) = {(blake3 sample_env (encode_dir sample_env x), x) | x. x \<in> set (dirs_of sample_env sample_nar)}"
proof -
  have inj: "inj_on (blake3 sample_env) (history_blobs sample_env [sample_put])"
    using sample_nar_inj by (simp add: sample_history)
  have io: "\<forall>p. (\<lambda>_. True) (p :: string)" and nine: "0 < (9::nat)" by simp_all
  from walk_complete_and_minimal[OF sample_env_ok inj io sample_history(2) nine refl, where fl = toy_sizes and level = 3 and clock = 0 and hs = "[''abc'']" and hv = "Exact {}"]
  obtain w st' where w: "walk_cas_trees 9 sample_env [''abc''] (Exact {})
      (run_store 9 sample_env toy_sizes (\<lambda>_. True) [sample_put] (new_castore toy_sizes 3 0)) = Some (Ok (w, st'))"
    "set (wk_dirs w) = {(blake3 sample_env (encode_dir sample_env x), x) | x.
       x \<in> dirs_wanted sample_env (run_spec [sample_put]) [''abc'']}"
    by (elim exE conjE)
  have "dirs_wanted sample_env (run_spec [sample_put]) [''abc''] = set (dirs_of sample_env sample_nar)"
    unfolding dirs_wanted_def sample_history(3) by (simp del: dirs_of.simps)
  with w(2) have "set (wk_dirs w) =
      {(blake3 sample_env (encode_dir sample_env x), x) | x. x \<in> set (dirs_of sample_env sample_nar)}"
    by (simp only:)
  with w(1) show ?thesis by (intro exI conjI)
qed

subsection \<open>Streaming agrees with the reference reconstruction\<close>

lemma reconstruct_root_of:
  assumes "cas_env_ok env"
  shows "nar_fuel n \<le> fuel \<Longrightarrow> \<forall>d \<in> set (files_of n). cr_read_file r (blake3 env d) = Ok d \<Longrightarrow>
      \<forall>x \<in> set (dirs_of env n). cr_load_dir r (blake3 env (encode_dir env x)) = Ok x \<Longrightarrow>
      reconstruct_node fuel r (root_of env n) = Ok (sort_nar n)"
    and "sum_list (map (\<lambda>e. Suc (nar_fuel (snd e))) es) \<le> fuel \<Longrightarrow>
      \<forall>d \<in> set (files_of_entries es). cr_read_file r (blake3 env d) = Ok d \<Longrightarrow>
      \<forall>x \<in> set (dirs_of_entries env es). cr_load_dir r (blake3 env (encode_dir env x)) = Ok x \<Longrightarrow>
      reconstruct_entries fuel r (entries_of env es) = Ok (map (\<lambda>e. (fst e, sort_nar (snd e))) es)"
  using assms
proof (induction env n and env es arbitrary: fuel and fuel rule: root_of_entries_of.induct)
  case (1 env x d)
  then obtain f where "fuel = Suc f" by (cases fuel) auto
  then show ?case using 1 by (simp add: cas_env_okD(1))
next
  case (2 env es)
  then obtain f where f: "fuel = Suc f" "sum_list (map (\<lambda>e. Suc (nar_fuel (snd e))) es) \<le> f"
    by (cases fuel) auto
  then show ?case using 2 by (simp add: cas_env_okD(1) sort_entries_def sort_key_map_snd)
next
  case (3 env t)
  then obtain f where "fuel = Suc f" by (cases fuel) auto
  then show ?case by simp
next
  case (5 env name n es)
  obtain f where f: "fuel = Suc f" "nar_fuel n \<le> f" "sum_list (map (\<lambda>e. Suc (nar_fuel (snd e))) es) \<le> f"
    using 5(3) by (cases fuel) auto
  have "reconstruct_node f r (root_of env n) = Ok (sort_nar n)" using 5 f by (intro "5.IH"(1)) auto
  moreover have "reconstruct_entries f r (entries_of env es) = Ok (map (\<lambda>e. (fst e, sort_nar (snd e))) es)"
    using 5 f by (intro "5.IH"(2)) auto
  ultimately show ?case by (simp add: f(1))
qed simp

text \<open>The streaming writer that replaced the reconstruction of the tree in memory is equivalent to
  it: for every archive in the store, rebuilding the tree and writing it gives the bytes that
  streaming writes.\<close>

theorem streaming_equals_reconstruction:
  assumes "cas_env_ok env" and "inj_on (blake3 env) (history_blobs env as)" and "\<forall>p. io p"
    and "\<forall>a \<in> set as. op_fits fuel (snd a)" and "run_spec as h = Some (Some n)"
    and st: "st = run_store fuel env fl io as (new_castore fl level clock)"
    and root: "get_root_node env h st = Ok (Some root)"
  shows "write_nar_streaming fuel (castore_reader env st) root =
    bindR (reconstruct_node fuel (castore_reader env st) root) (\<lambda>n. Ok (write_nar n))"
proof -
  let ?U = "history_blobs env as"
  note env = assms(1) and inj = assms(2)
  have h: "holds env ?U st (run_spec as)" unfolding st by (rule holds_run[OF assms(1-4)])
  have fuel: "nar_fuel n \<le> fuel" using spec_fuel[of Map.empty fuel as h n] assms(4,5) by (simp add: run_spec_def)
  have inv: "castore_inv env ?U st" using h unfolding holds_def by blast
  have t: "blobs_of env n \<subseteq> ?U" "tree_stored env (st_db st) n" using holds_tree[OF h assms(5)] by blast+
  have r: "root = root_of env n" using holds_root[OF env h, of h] assms(5) root by simp
  have "\<forall>d \<in> set (files_of n). cr_read_file (castore_reader env st) (blake3 env d) = Ok d"
    using file_data_stored(2)[OF env inj inv] t
    by (auto simp: castore_reader_def blobs_of_def tree_stored_def UN_subset_iff)
  moreover have "\<forall>x \<in> set (dirs_of env n). cr_load_dir (castore_reader env st) (blake3 env (encode_dir env x)) = Ok x"
    using load_directory_stored[OF env inv] t(2) by (simp add: castore_reader_def tree_stored_def)
  ultimately have "reconstruct_node fuel (castore_reader env st) root = Ok (sort_nar n)"
    unfolding r using reconstruct_root_of(1)[OF env fuel] by blast
  then show ?thesis using represents_streaming[OF tree_stored_represents[OF env inj inv t] fuel] r by simp
qed

theorem streaming_equals_reconstruction_witness:
  "let st = run_store 9 sample_env toy_sizes (\<lambda>_. True) [sample_put] (new_castore toy_sizes 3 0) in
   \<exists>root. write_nar_streaming 9 (castore_reader sample_env st) root =
     bindR (reconstruct_node 9 (castore_reader sample_env st) root) (\<lambda>n. Ok (write_nar n))"
proof -
  let ?st = "run_store 9 sample_env toy_sizes (\<lambda>_. True) [sample_put] (new_castore toy_sizes 3 0)"
  have inj: "inj_on (blake3 sample_env) (history_blobs sample_env [sample_put])"
    using sample_nar_inj by (simp add: sample_history)
  have "holds sample_env (history_blobs sample_env [sample_put]) ?st (run_spec [sample_put])"
    by (rule holds_run[OF sample_env_ok inj _ sample_history(2)]) simp
  from holds_root[OF sample_env_ok this, of "''abc''"]
  have root: "get_root_node sample_env ''abc'' ?st = Ok (Some (root_of sample_env sample_nar))"
    by (simp add: sample_history(3))
  from streaming_equals_reconstruction[OF sample_env_ok inj _ sample_history(2) _ refl root]
  show ?thesis unfolding Let_def by (intro exI[of _ "root_of sample_env sample_nar"]) (simp add: sample_history(3))
qed

end
