(* ===== verification/ChunkNegotiate.thy ===== *)
theory ChunkNegotiate
  imports TreeWalk
begin

text \<open>
  Negotiation of chunks between a client and the server: \<open>negotiate_chunks\<close> and \<open>push_negotiate\<close> of
  \<open>crates/ekapkgs-serve/src/api/negotiate.rs\<close>, the chunk download of \<open>api/chunks.rs\<close>, and the request
  the client builds (\<open>crates/ekapkgs/src/negotiate.rs\<close>).  A handler returns the answer, the hashes it
  reports to the GC tracker and the store it leaves; \<open>None\<close> as storage is a backend without CAS.
\<close>

subsection \<open>Messages\<close>

record chunk_negotiate_request =
  cq_want :: "string list"
  cq_have :: "string list"
  cq_have_chunks :: "bytes list"
  cq_have_chunks_bloom :: "u8 list"
  cq_bloom_num_hashes :: nat

record ca_path_mapping =
  pm_store_path_hash :: string
  pm_root_node :: "ca_node option"

record chunk_download =
  cd_digest :: "digest option"
  cd_size :: nat
  cd_url :: string

record ca_directory_data =
  dd_digest :: "digest option"
  dd_directory :: "ca_directory option"

record chunk_negotiate_response =
  cr_path_mappings :: "ca_path_mapping list"
  cr_missing_chunks :: "chunk_download list"
  cr_unavailable :: "string list"
  cr_total_chunk_size :: nat
  cr_directories :: "ca_directory_data list"
  cr_file_chunk_mappings :: "file_chunk_mapping list"

datatype status =
    InvalidArgument string nat
  | Unimplemented
  | Unavailable
  | Internal

subsection \<open>The client's request\<close>

definition BLOOM_THRESHOLD :: nat where
  "BLOOM_THRESHOLD = 1000"

definition chunk_request :: "float_sizes \<Rightarrow> string list \<Rightarrow> string list \<Rightarrow> digest list \<Rightarrow> chunk_negotiate_request" where
  "chunk_request fl want hv have_chunks =
     (if length have_chunks > BLOOM_THRESHOLD
      then let bf = fold add_to_bloom have_chunks (bloom_new fl (length have_chunks))
           in \<lparr>cq_want = want, cq_have = hv, cq_have_chunks = [], cq_have_chunks_bloom = bloom_into_bytes bf,
               cq_bloom_num_hashes = bl_num_hashes bf\<rparr>
      else \<lparr>cq_want = want, cq_have = hv, cq_have_chunks = have_chunks, cq_have_chunks_bloom = [],
            cq_bloom_num_hashes = 0\<rparr>)"

subsection \<open>The server's answer\<close>

definition MAX_CHUNK_WANT :: nat where "MAX_CHUNK_WANT = 10000"
definition MAX_CHUNK_HAVE :: nat where "MAX_CHUNK_HAVE = 10000"
definition MAX_HAVE_CHUNKS :: nat where "MAX_HAVE_CHUNKS = 500000"
definition MAX_BLOOM_BYTES :: nat where "MAX_BLOOM_BYTES = 16 * 1024 * 1024"

definition have_check :: "chunk_negotiate_request \<Rightarrow> chunk_have_check" where
  "have_check req =
     (if cq_have_chunks_bloom req \<noteq> []
      then Bloom (bloom_from_bytes (cq_have_chunks_bloom req) (cq_bloom_num_hashes req))
      else Exact (set (List.map_filter try_digest (cq_have_chunks req))))"

text \<open>The hashes with a root node, and the others.\<close>

fun collect_roots :: "cas_env \<Rightarrow> castore \<Rightarrow> string list \<Rightarrow> ca_path_mapping list \<times> string list" where
  "collect_roots env st [] = ([], [])"
| "collect_roots env st (h # hs) =
     (let (mappings, unavailable) = collect_roots env st hs in
      case get_cas_root env h st of
        Inr (Some root_bytes) \<Rightarrow>
          (case decode_node env root_bytes of
             Some root_node \<Rightarrow> (\<lparr>pm_store_path_hash = h, pm_root_node = Some root_node\<rparr> # mappings, unavailable)
           | None \<Rightarrow> (mappings, h # unavailable))
      | _ \<Rightarrow> (mappings, h # unavailable))"

definition chunk_url :: "digest option \<Rightarrow> string" where
  "chunk_url d = ''cas/chunk/'' @ (case d of None \<Rightarrow> [] | Some g \<Rightarrow> hex_encode g)"

definition to_download :: "chunk_meta \<Rightarrow> chunk_download" where
  "to_download m = \<lparr>cd_digest = cm_digest m, cd_size = cm_size m, cd_url = chunk_url (cm_digest m)\<rparr>"

definition to_directory_data :: "digest \<times> ca_directory \<Rightarrow> ca_directory_data" where
  "to_directory_data r = \<lparr>dd_digest = Some (fst r), dd_directory = Some (snd r)\<rparr>"

definition to_mapping :: "digest \<times> (digest \<times> nat) list \<Rightarrow> file_chunk_mapping" where
  "to_mapping r = \<lparr>fm_file_digest = Some (fst r),
     fm_chunks = map (\<lambda>(g, sz). \<lparr>cm_digest = Some g, cm_size = sz\<rparr>) (snd r)\<rparr>"

definition check_request :: "chunk_negotiate_request \<Rightarrow> status + unit" where
  "check_request req =
     (if length (cq_want req) > MAX_CHUNK_WANT then Err (InvalidArgument ''too many want entries'' MAX_CHUNK_WANT)
      else if length (cq_have req) > MAX_CHUNK_HAVE then Err (InvalidArgument ''too many have entries'' MAX_CHUNK_HAVE)
      else if length (cq_have_chunks req) > MAX_HAVE_CHUNKS
      then Err (InvalidArgument ''too many have_chunks entries'' MAX_HAVE_CHUNKS)
      else if cq_have_chunks_bloom req \<noteq> [] \<and> length (cq_have_chunks_bloom req) > MAX_BLOOM_BYTES
      then Err (InvalidArgument ''bloom filter too large'' MAX_BLOOM_BYTES)
      else Ok ())"

definition negotiate_chunks ::
  "nat \<Rightarrow> cas_env \<Rightarrow> chunk_negotiate_request \<Rightarrow> castore option
   \<Rightarrow> ((status + chunk_negotiate_response) \<times> string list \<times> castore option) option" where
  "negotiate_chunks fuel env req storage =
     (case storage of
        None \<Rightarrow> Some (Err Unimplemented, [], storage)
      | Some st \<Rightarrow>
         (case check_request req of
            Inl e \<Rightarrow> Some (Err e, [], storage)
          | Inr _ \<Rightarrow>
             (let (mappings, unavailable) = collect_roots env st (cq_want req);
                  want_hashes = map pm_store_path_hash mappings
              in case walk_cas_trees fuel env want_hashes (have_check req) st of
                   None \<Rightarrow> None
                 | Some (Inl _) \<Rightarrow> Some (Err Internal, [], storage)
                 | Some (Inr (w, st)) \<Rightarrow>
                    (let missing_chunks = map to_download (wk_missing w)
                     in Some (Ok \<lparr>cr_path_mappings = mappings, cr_missing_chunks = missing_chunks,
                                cr_unavailable = unavailable,
                                cr_total_chunk_size = sum_list (map cd_size missing_chunks),
                                cr_directories = map to_directory_data (wk_dirs w),
                                cr_file_chunk_mappings = map to_mapping (wk_files w)\<rparr>,
                              want_hashes, Some st)))))"

subsection \<open>Pushing: which chunks the server lacks\<close>

definition push_negotiate ::
  "string \<Rightarrow> file_chunk_mapping list \<Rightarrow> cas_env \<Rightarrow> castore option \<Rightarrow> status + digest list \<times> bool" where
  "push_negotiate h mappings env storage =
     (case storage of
        None \<Rightarrow> Err Unimplemented
      | Some st \<Rightarrow>
          if has_narinfo env h st then Ok ([], True)
          else let all_chunk_digests = List.map_filter cm_digest (concat (map fm_chunks mappings))
               in Ok (filter (\<lambda>d. case try_digest d of None \<Rightarrow> False | Some g \<Rightarrow> \<not> has_chunk st g) all_chunk_digests, False))"

subsection \<open>Downloading a chunk\<close>

text \<open>\<open>u8::from_str_radix(s, 16)\<close> on two bytes: it also takes a plus sign before one digit.  Slicing
  inside a multi-byte character panics.\<close>

definition hex_value :: "char \<Rightarrow> nat option" where
  "hex_value c =
     (let n = of_char c in
      if 48 \<le> n \<and> n \<le> 57 then Some (n - 48)
      else if 97 \<le> n \<and> n \<le> 102 then Some (n - 87)
      else if 65 \<le> n \<and> n \<le> 70 then Some (n - 55) else None)"

definition from_hex_pair :: "char \<Rightarrow> char \<Rightarrow> nat option" where
  "from_hex_pair a b =
     (if a = CHR ''+'' then hex_value b
      else case hex_value a of None \<Rightarrow> None
           | Some x \<Rightarrow> (case hex_value b of None \<Rightarrow> None | Some y \<Rightarrow> Some (16 * x + y)))"

definition is_continuation :: "char \<Rightarrow> bool" where
  "is_continuation c \<longleftrightarrow> utf8_cont (of_char c)"

datatype slice_panic = NotCharBoundary nat

fun hex_pairs :: "nat \<Rightarrow> string \<Rightarrow> slice_panic + bytes option" where
  "hex_pairs i [] = Ok (Some [])"
| "hex_pairs i [a] = Ok None"
| "hex_pairs i (a # b # rest) =
     (if is_continuation a \<or> (rest \<noteq> [] \<and> is_continuation (hd rest)) then Err (NotCharBoundary i)
      else case from_hex_pair a b of
             None \<Rightarrow> Ok None
           | Some v \<Rightarrow> bindR (hex_pairs (Suc i) rest) (\<lambda>r. Ok (map_option (\<lambda>bs. char_of v # bs) r)))"

definition hex_decode :: "string \<Rightarrow> slice_panic + digest option" where
  "hex_decode hex = (if length hex \<noteq> 64 then Ok None else hex_pairs 0 hex)"

definition get_chunk_handler :: "cas_env \<Rightarrow> castore option \<Rightarrow> string \<Rightarrow> slice_panic + nat \<times> bytes" where
  "get_chunk_handler env storage b3hex =
     (case storage of
        None \<Rightarrow> Ok (404, ''CAS not available'')
      | Some st \<Rightarrow>
         bindR (hex_decode b3hex) (\<lambda>r.
           case r of
             None \<Rightarrow> Ok (400, ''invalid digest'')
           | Some d \<Rightarrow>
              (case trait_get_chunk env st d of
                 Inr (Some c) \<Rightarrow> Ok (200, c)
               | Inr None \<Rightarrow> Ok (404, ''chunk not found'')
               | Inl _ \<Rightarrow> Ok (500, ''internal error''))))"

subsection \<open>Hexadecimal digests\<close>

lemma hex_digit_value: "n < 16 \<Longrightarrow> hex_value (hex_digit n) = Some n \<and> hex_digit n \<noteq> CHR ''+'' \<and> \<not> is_continuation (hex_digit n)"
proof -
  have "list_all (\<lambda>n. hex_value (hex_digit n) = Some n \<and> hex_digit n \<noteq> CHR ''+'' \<and> \<not> is_continuation (hex_digit n)) [0..<16]"
    by code_simp
  then show "n < 16 \<Longrightarrow> ?thesis" by (simp add: list_all_iff)
qed

lemma hex_pairs_encode: "hex_pairs i (hex_encode d) = Ok (Some d)"
proof (induction d arbitrary: i)
  case Nil
  then show ?case by (simp add: hex_encode_def)
next
  case (Cons c d)
  have lt: "(of_char c :: nat) div 16 < 16" "(of_char c :: nat) mod 16 < 16"
    using of_char_less_256[of c] by (simp_all add: less_mult_imp_div_less)
  have next_ok: "hex_encode d = [] \<or> \<not> is_continuation (hd (hex_encode d))"
  proof (cases d)
    case (Cons e d')
    have "(of_char e :: nat) div 16 < 16" using of_char_less_256[of e] by (simp add: less_mult_imp_div_less)
    then show ?thesis using hex_digit_value by (simp add: Cons hex_encode_Cons)
  qed (simp add: hex_encode_def)
  have "(16 * (of_char c div 16) + of_char c mod 16 :: nat) = of_char c" by simp
  then show ?case using hex_digit_value[OF lt(1)] hex_digit_value[OF lt(2)] Cons next_ok
    by (auto simp: hex_encode_Cons from_hex_pair_def)
qed

lemma length_hex_encode: "length (hex_encode d) = 2 * length d"
  by (induction d) (simp_all add: hex_encode_Cons, simp add: hex_encode_def)

lemma hex_decode_encode: "length d = 32 \<Longrightarrow> hex_decode (hex_encode d) = Ok (Some d)"
  by (simp add: hex_decode_def length_hex_encode hex_pairs_encode)

lemma get_chunk_handler_serves:
  assumes "get_chunk_by_digest env st g = Ok (Some c)" and "length g = 32"
  shows "get_chunk_handler env (Some st) (hex_encode g) = Ok (200, c)"
  using assms by (simp add: get_chunk_handler_def hex_decode_encode trait_get_chunk_def try_digest_def)

subsection \<open>The answer of a store with a history\<close>

lemma collect_roots_holds:
  assumes env: "cas_env_ok env" and h: "holds env U st m"
  shows "collect_roots env st hs =
    (map (\<lambda>h. \<lparr>pm_store_path_hash = h, pm_root_node = Some (case the (m h) of None \<Rightarrow> CaNode None | Some n \<Rightarrow> root_of env n)\<rparr>)
       (filter (\<lambda>h. m h \<noteq> None) hs),
     filter (\<lambda>h. m h = None) hs)"
proof (induction hs)
  case (Cons k hs)
  show ?case using Cons holds_root[OF env h, of k]
    by (auto simp: get_cas_root_def cas_env_okD(6)[OF env] split: option.splits)
qed simp

end
