(* ===== verification/Negotiate.thy ===== *)
theory Negotiate
  imports AppState ChunkNegotiate "HOL-Library.Multiset"
begin

text \<open>
  The negotiation of paths, \<open>negotiate\<close> of \<open>crates/ekapkgs-serve/src/api/negotiate.rs\<close>: the closure of the
  wanted hashes (\<open>expand_closure_hashes\<close>), the manifest, the download plan (\<open>build_download_plan\<close>) and
  the deltas against paths the client has (\<open>compute_deltas\<close>).
\<close>

subsection \<open>The closure of the wanted hashes\<close>

definition MAX_CLOSURE_SIZE :: nat where
  "MAX_CLOSURE_SIZE = 50000"

definition enqueue :: "string set \<Rightarrow> string \<Rightarrow> string set \<times> string list \<Rightarrow> string set \<times> string list" where
  "enqueue hv h s = (case s of (visited, queue) \<Rightarrow>
     if h \<notin> hv \<and> h \<notin> visited then (insert h visited, queue @ [h]) else (visited, queue))"

function expand_loop ::
  "nat \<Rightarrow> string set \<Rightarrow> castore \<Rightarrow> string set \<Rightarrow> string list \<Rightarrow> string list \<Rightarrow> string list" where
  "expand_loop cap hv st visited queue result =
     (case queue of
        [] \<Rightarrow> result
      | h # queue \<Rightarrow>
          if length result \<ge> cap then result
          else case get_narinfo h st of
                 None \<Rightarrow> expand_loop cap hv st visited queue (result @ [h])
               | Some ni \<Rightarrow>
                   (let (visited, queue) = fold (\<lambda>r. enqueue hv (path_hash r)) (ni_references ni) (visited, queue)
                    in expand_loop cap hv st visited queue (result @ [h])))"
  by pat_completeness auto
termination by (relation "measure (\<lambda>(cap, hv, st, visited, queue, result). cap - length result)") auto

declare expand_loop.simps [simp del]

definition expand_closure_hashes :: "string list \<Rightarrow> string set \<Rightarrow> castore \<Rightarrow> string list" where
  "expand_closure_hashes seeds hv st =
     (let (visited, queue) = fold (enqueue hv) seeds ({}, [])
      in expand_loop MAX_CLOSURE_SIZE hv st visited queue [])"

subsection \<open>The download plan\<close>

record download_batch =
  db_batch_paths :: "string list"
  db_priority :: nat

definition all_resolved :: "string set \<Rightarrow> manifest_entry \<Rightarrow> bool" where
  "all_resolved resolved e \<longleftrightarrow> list_all (\<lambda>r. path_hash r \<in> resolved) (me_references e)"

definition unassigned :: "manifest_entry list \<Rightarrow> nat set \<Rightarrow> nat list" where
  "unassigned ents assigned = filter (\<lambda>i. i \<notin> assigned) [0..<length ents]"

lemma unassigned_step:
  "unassigned ents (assigned \<union> {i \<in> set (unassigned ents assigned). P i}) = filter (\<lambda>i. \<not> P i) (unassigned ents assigned)"
  by (auto simp: unassigned_def intro: filter_cong)

lemma length_unassigned_less:
  assumes "filter P (unassigned ents assigned) \<noteq> []"
  shows "length (unassigned ents (assigned \<union> {i \<in> set (unassigned ents assigned). P i})) < length (unassigned ents assigned)"
  using assms unfolding unassigned_step by (auto simp: filter_empty_conv intro!: length_filter_less)

function plan_loop :: "manifest_entry list \<Rightarrow> nat set \<Rightarrow> string set \<Rightarrow> download_batch list \<Rightarrow> download_batch list" where
  "plan_loop ents assigned resolved plan =
     (let ready = filter (\<lambda>i. all_resolved resolved (ents ! i)) (unassigned ents assigned);
          hash = (\<lambda>i. path_hash (me_store_path (ents ! i)))
      in if ready = []
         then let rest = map hash (unassigned ents assigned)
              in if rest = [] then plan else plan @ [\<lparr>db_batch_paths = rest, db_priority = length plan\<rparr>]
         else let batch_paths = map hash ready;
                  assigned = assigned \<union> set ready;
                  resolved = resolved \<union> set batch_paths;
                  plan = plan @ [\<lparr>db_batch_paths = batch_paths, db_priority = length plan\<rparr>]
              in if unassigned ents assigned = [] then plan
                 else plan_loop ents assigned resolved plan)"
  by pat_completeness auto
termination
  by (relation "measure (\<lambda>(ents, assigned, resolved, plan). length (unassigned ents assigned))")
    (auto intro: length_unassigned_less)

declare plan_loop.simps [simp del]

definition build_download_plan :: "manifest_entry list \<Rightarrow> string set \<Rightarrow> download_batch list" where
  "build_download_plan ents hv = plan_loop ents {} hv []"

subsection \<open>Deltas\<close>

text \<open>\<open>zstd\<close> with a dictionary: a parameter.\<close>

record delta_codec =
  dc_compress :: "bytes \<Rightarrow> bytes \<Rightarrow> bytes option"
  dc_decompress :: "bytes \<Rightarrow> bytes \<Rightarrow> bytes option"

definition MAX_DELTAS_PER_REQUEST :: nat where
  "MAX_DELTAS_PER_REQUEST = 32"

definition DELTA_MAX_NAR_SIZE :: nat where
  "DELTA_MAX_NAR_SIZE = 64 * 1024 * 1024"

definition starts_with_digit :: "string \<Rightarrow> bool" where
  "starts_with_digit s = (case s of [] \<Rightarrow> False | c # _ \<Rightarrow> is_ascii_digit c)"

text \<open>The segments before the last run of segments that start with a digit.\<close>

definition extract_pname :: "string \<Rightarrow> string option" where
  "extract_pname store_path =
     (case split_once (CHR ''-'') (last_segment (CHR ''/'') store_path) of
        None \<Rightarrow> None
      | Some (_, after_hash) \<Rightarrow>
          (let pname = rev (dropWhile starts_with_digit (rev (split_on (CHR ''-'') after_hash)))
           in if pname = [] then Some after_hash else Some (join ''-'' pname)))"

text \<open>By package name, the last of the client's hashes with its NAR size.\<close>

definition have_by_pname :: "string list \<Rightarrow> castore \<Rightarrow> (string \<times> (string \<times> nat)) list" where
  "have_by_pname hashes st =
     rev (List.map_filter (\<lambda>h. Option.bind (get_narinfo h st) (\<lambda>ni.
            map_option (\<lambda>p. (p, (h, ni_nar_size ni))) (extract_pname (ni_store_path ni)))) hashes)"

record delta_candidate =
  dn_idx :: nat
  dn_base_hash :: string
  dn_target_hash :: string
  dn_target_url :: string
  dn_file_size :: nat

definition delta_candidate_of :: "(string \<times> (string \<times> nat)) list \<Rightarrow> nat \<Rightarrow> manifest_entry \<Rightarrow> delta_candidate option" where
  "delta_candidate_of by_pname idx e =
     Option.bind (extract_pname (me_store_path e)) (\<lambda>p.
     Option.bind (map_of by_pname p) (\<lambda>(base_hash, base_nar_size).
       let target_hash = path_hash (me_store_path e) in
       if base_hash = target_hash \<or> me_nar_size e > DELTA_MAX_NAR_SIZE \<or> base_nar_size > DELTA_MAX_NAR_SIZE then None
       else Some \<lparr>dn_idx = idx, dn_base_hash = base_hash, dn_target_hash = target_hash, dn_target_url = me_url e,
                  dn_file_size = me_file_size e\<rparr>))"

fun delta_candidates ::
  "(string \<times> (string \<times> nat)) list \<Rightarrow> nat \<Rightarrow> manifest_entry list \<Rightarrow> delta_candidate list \<Rightarrow> delta_candidate list" where
  "delta_candidates by_pname idx [] candidates = candidates"
| "delta_candidates by_pname idx (e # es) candidates =
     (if length candidates \<ge> MAX_DELTAS_PER_REQUEST then candidates
      else delta_candidates by_pname (Suc idx) es
             (case delta_candidate_of by_pname idx e of None \<Rightarrow> candidates | Some c \<Rightarrow> candidates @ [c]))"

text \<open>\<open>(a as f64 / b as f64) < 0.80\<close> is exactly \<open>5 * a < 4 * b\<close> for the lengths that fit in memory.\<close>

definition below_ratio :: "nat \<Rightarrow> nat \<Rightarrow> bool" where
  "below_ratio a b \<longleftrightarrow> 5 * a < 4 * b"

definition compute_delta :: "nat \<Rightarrow> cas_env \<Rightarrow> delta_codec \<Rightarrow> castore \<Rightarrow> delta_candidate \<Rightarrow> bytes option" where
  "compute_delta fuel env codec st c =
     (case get_nar fuel env (''nar/'' @ dn_base_hash c @ ''.nar'') st of
        Inr (Some base_nar) \<Rightarrow>
          (case get_nar fuel env (dn_target_url c) st of
             Inr (Some target_nar) \<Rightarrow>
               (case dc_compress codec target_nar base_nar of
                  None \<Rightarrow> None
                | Some delta \<Rightarrow> if target_nar \<noteq> [] \<and> below_ratio (length delta) (length target_nar) then Some delta else None)
           | _ \<Rightarrow> None)
      | _ \<Rightarrow> None)"

definition apply_delta_result ::
  "delta_candidate \<times> bytes \<Rightarrow> manifest_entry list \<times> nat \<times> delta_cache \<Rightarrow> manifest_entry list \<times> nat \<times> delta_cache" where
  "apply_delta_result r s = (case (r, s) of ((c, delta), (available, total_size, cache)) \<Rightarrow>
     (available[dn_idx c := (available ! dn_idx c)\<lparr>me_delta_base_hash := dn_base_hash c,
        me_delta_url := ''delta/'' @ dn_base_hash c @ ''/'' @ dn_target_hash c, me_delta_size := length delta\<rparr>],
      (total_size - dn_file_size c) + length delta,
      delta_insert (dn_base_hash c) (dn_target_hash c) delta cache))"

text \<open>A task whose \<open>try_acquire\<close> finds no permit gives up; \<open>permit i\<close> says whether the \<open>i\<close>-th does.\<close>

definition compute_deltas ::
  "nat \<Rightarrow> cas_env \<Rightarrow> delta_codec \<Rightarrow> (nat \<Rightarrow> bool) \<Rightarrow> castore \<Rightarrow> string list
   \<Rightarrow> manifest_entry list \<times> nat \<times> delta_cache \<Rightarrow> manifest_entry list \<times> nat \<times> delta_cache" where
  "compute_deltas fuel env codec permit st have_hashes s =
     (let by_pname = have_by_pname have_hashes st;
          candidates = delta_candidates by_pname 0 (fst s) [];
          results = List.map_filter (\<lambda>(i, c). if permit i then map_option (Pair c) (compute_delta fuel env codec st c) else None)
                      (zip [0..<length candidates] candidates)
      in fold apply_delta_result results s)"

subsection \<open>The handler\<close>

record negotiate_request =
  nq_want :: "string list"
  nq_have :: "string list"
  nq_supports_cas :: bool
  nq_target_hash :: string
  nq_expand_closure :: bool

record negotiate_response =
  nr_available :: "manifest_entry list"
  nr_unavailable :: "string list"
  nr_certificate_chain :: "certificate_chain option"
  nr_certificate_chains :: "certificate_chain list"
  nr_threshold_policy :: "(nat \<times> signing_certificate list) option"
  nr_download_plan :: "download_batch list"
  nr_total_download_size :: nat
  nr_total_nar_size :: nat
  nr_ca_path_mappings :: "ca_path_mapping list"

definition MAX_WANT_ENTRIES :: nat where
  "MAX_WANT_ENTRIES = 10000"

definition all_signers :: "app_state \<Rightarrow> cert_signer list" where
  "all_signers s = (case as_cert_signer s of None \<Rightarrow> [] | Some cs \<Rightarrow> [cs]) @ as_cert_signers s"

definition threshold_policy :: "app_state \<Rightarrow> (nat \<times> signing_certificate list) option" where
  "threshold_policy s =
     (if as_signing_threshold s > 0
      then Some (as_signing_threshold s, List.map_filter (\<lambda>cs. signing_cert (cs_chain cs)) (all_signers s)) else None)"

definition ca_path_mappings :: "cas_env \<Rightarrow> castore \<Rightarrow> manifest_entry list \<Rightarrow> ca_path_mapping list" where
  "ca_path_mappings env st available =
     List.map_filter (\<lambda>e. let h = path_hash (me_store_path e) in
       case get_cas_root env h st of
         Inr (Some root_bytes) \<Rightarrow>
           map_option (\<lambda>n. \<lparr>pm_store_path_hash = h, pm_root_node = Some n\<rparr>) (decode_node env root_bytes)
       | _ \<Rightarrow> None) available"

definition manifest_of :: "app_state \<Rightarrow> narinfo \<Rightarrow> manifest_entry" where
  "manifest_of s ni = certify_entry (map cert_sign (all_signers s)) (manifest_entry_of (as_signer s) ni)"

definition negotiate ::
  "nat \<Rightarrow> cas_env \<Rightarrow> delta_codec \<Rightarrow> (nat \<Rightarrow> bool) \<Rightarrow> negotiate_request \<Rightarrow> app_state
   \<Rightarrow> (status + negotiate_response) \<times> app_state" where
  "negotiate fuel env codec permit req s =
     (if length (nq_want req) > MAX_WANT_ENTRIES then (Err (InvalidArgument ''too many want entries'' MAX_WANT_ENTRIES), s)
      else
        let st = as_storage s;
            have_set = set (nq_have req);
            want_hashes = (if nq_expand_closure req then expand_closure_hashes (nq_want req) have_set st else nq_want req);
            (narinfo_results, unavailable) = batch_load_metadata want_hashes st;
            available = map (\<lambda>(_, ni). manifest_of s ni) narinfo_results;
            s = fold (\<lambda>e. record_access (path_hash (me_store_path e))) available s;
            download_plan = build_download_plan available have_set;
            mappings = (if nq_supports_cas req then ca_path_mappings env st available else []);
            (available', total_download_size, cache) =
              compute_deltas fuel env codec permit st (nq_have req)
                (available, sum_list (map me_file_size available) mod 2 ^ 64, as_delta_cache s)
        in (Ok \<lparr>nr_available = available', nr_unavailable = unavailable,
               nr_certificate_chain = map_option cs_chain (as_cert_signer s),
               nr_certificate_chains = map cs_chain (all_signers s), nr_threshold_policy = threshold_policy s,
               nr_download_plan = download_plan, nr_total_download_size = total_download_size,
               nr_total_nar_size = sum_list (map me_nar_size available) mod 2 ^ 64, nr_ca_path_mappings = mappings\<rparr>,
            s\<lparr>as_delta_cache := cache\<rparr>))"

subsection \<open>Closure expansion visits what is reachable\<close>

text \<open>A path points to its references, except those the client has.\<close>

definition ref_edges :: "string set \<Rightarrow> castore \<Rightarrow> (string \<times> string) set" where
  "ref_edges hv st = {(a, b). b \<notin> hv \<and> (\<exists>ni. get_narinfo a st = Some ni \<and> b \<in> path_hash ` set (ni_references ni))}"

definition wanted_closure :: "string list \<Rightarrow> string set \<Rightarrow> castore \<Rightarrow> string set" where
  "wanted_closure seeds hv st = (ref_edges hv st)\<^sup>* `` (set seeds - hv)"

lemma enqueue_all:
  "distinct queue \<Longrightarrow> set queue \<subseteq> visited \<Longrightarrow> \<exists>new. fold (enqueue hv) hs (visited, queue) = (visited \<union> (set hs - hv), queue @ new) \<and>
     distinct new \<and> set new = (set hs - hv) - visited"
proof (induction hs arbitrary: visited queue)
  case (Cons h hs)
  show ?case
  proof (cases "h \<notin> hv \<and> h \<notin> visited")
    case True
    then obtain new where new: "fold (enqueue hv) hs (insert h visited, queue @ [h]) =
        (insert h visited \<union> (set hs - hv), (queue @ [h]) @ new)" "distinct new" "set new = (set hs - hv) - insert h visited"
      using Cons.IH[of "queue @ [h]" "insert h visited"] Cons.prems by auto
    have "insert h visited \<union> (set hs - hv) = visited \<union> (set (h # hs) - hv)" "set (h # new) = set (h # hs) - hv - visited"
      using True new(3) by auto
    moreover have "enqueue hv h (visited, queue) = (insert h visited, queue @ [h])" using True by (simp add: enqueue_def)
    ultimately show ?thesis using True new(1,2,3) by (intro exI[of _ "h # new"]) simp
  next
    case False
    then have "enqueue hv h (visited, queue) = (visited, queue)" "set (h # hs) - hv - visited = set hs - hv - visited"
        "visited \<union> (set (h # hs) - hv) = visited \<union> (set hs - hv)"
      by (auto simp: enqueue_def)
    then show ?thesis using Cons.IH[OF Cons.prems] by simp
  qed
qed simp

text \<open>Everything visited is queued or answered, and the references of what is answered are visited.\<close>

definition expand_inv :: "string list \<Rightarrow> string set \<Rightarrow> castore \<Rightarrow> string set \<Rightarrow> string list \<Rightarrow> string list \<Rightarrow> bool" where
  "expand_inv seeds hv st visited queue result \<longleftrightarrow>
     distinct (result @ queue) \<and> visited = set result \<union> set queue \<and> visited \<subseteq> wanted_closure seeds hv st \<and>
     set seeds - hv \<subseteq> visited \<and> ref_edges hv st `` set result \<subseteq> visited"

lemma expand_inv_done:
  assumes "expand_inv seeds hv st visited [] result"
  shows "set result = wanted_closure seeds hv st"
proof -
  have i: "visited = set result" "set result \<subseteq> wanted_closure seeds hv st" "set seeds - hv \<subseteq> set result"
      "ref_edges hv st `` set result \<subseteq> set result"
    using assms by (auto simp: expand_inv_def)
  have "wanted_closure seeds hv st \<subseteq> set result"
    unfolding wanted_closure_def
    using Image_mono[OF order_refl i(3), of "(ref_edges hv st)\<^sup>*"] by (simp only: Image_closed_trancl[OF i(4)])
  then show ?thesis using i(2) by blast
qed

lemma expand_inv_step:
  assumes inv: "expand_inv seeds hv st visited (h # queue) result"
    and refs: "refs = (case get_narinfo h st of None \<Rightarrow> [] | Some ni \<Rightarrow> map path_hash (ni_references ni))"
    and step: "fold (enqueue hv) refs (visited, queue) = (visited', queue')"
  shows "expand_inv seeds hv st visited' queue' (result @ [h])"
proof -
  have i: "distinct (result @ h # queue)" "visited = insert h (set result \<union> set queue)" "visited \<subseteq> wanted_closure seeds hv st"
      "set seeds - hv \<subseteq> visited" "ref_edges hv st `` set result \<subseteq> visited"
    using inv by (auto simp: expand_inv_def)
  have succ: "ref_edges hv st `` {h} = set refs - hv"
    by (cases "get_narinfo h st") (auto simp: ref_edges_def refs)
  obtain new where new: "visited' = visited \<union> (set refs - hv)" "queue' = queue @ new" "distinct new"
      "set new = (set refs - hv) - visited"
    using enqueue_all[of queue visited hv refs] step i(1,2) by auto
  have "set refs - hv \<subseteq> wanted_closure seeds hv st"
  proof -
    have "h \<in> wanted_closure seeds hv st" using i(2,3) by blast
    then show ?thesis unfolding succ[symmetric] wanted_closure_def by (auto intro: rtrancl_into_rtrancl)
  qed
  moreover have "ref_edges hv st `` set (result @ [h]) \<subseteq> visited'"
    using i(5) succ new(1) by auto
  ultimately show ?thesis using i new by (auto simp: expand_inv_def)
qed

lemma expand_loop_stops [simp]:
  "expand_loop cap hv st visited [] result = result"
  "length result \<ge> cap \<Longrightarrow> expand_loop cap hv st visited (h # queue) result = result"
  by (simp_all add: expand_loop.simps)

lemma expand_loop_reaches:
  "expand_inv seeds hv st visited queue result \<Longrightarrow> length result \<le> cap \<Longrightarrow>
   \<exists>res. expand_loop cap hv st visited queue result = res \<and> distinct res \<and> length res \<le> cap \<and>
     set res \<subseteq> wanted_closure seeds hv st \<and> (set res = wanted_closure seeds hv st \<or> length res = cap)"
proof (induction cap hv st visited queue result rule: expand_loop.induct)
  case (1 cap hv st visited queue result)
  show ?case
  proof (cases queue)
    case Nil
    then have "set result = wanted_closure seeds hv st" using expand_inv_done "1.prems"(1) by blast
    then show ?thesis using Nil "1.prems" by (simp add: expand_inv_def)
  next
    case (Cons h q)
    show ?thesis
    proof (cases "length result \<ge> cap")
      case True
      then show ?thesis using "1.prems" Cons by (auto simp: expand_inv_def)
    next
      case False
      note inv = "1.prems"(1)[unfolded Cons]
      show ?thesis
      proof (cases "get_narinfo h st")
        case None
        have "expand_inv seeds hv st visited q (result @ [h])"
          using expand_inv_step[OF inv refl] by (simp add: None)
        moreover have "expand_loop cap hv st visited queue result = expand_loop cap hv st visited q (result @ [h])"
          using False None by (subst expand_loop.simps) (simp add: Cons)
        ultimately show ?thesis using "1.IH"(1)[OF Cons False None] False by simp
      next
        case (Some ni)
        obtain v' q' where f: "fold (\<lambda>r. enqueue hv (path_hash r)) (ni_references ni) (visited, q) = (v', q')" by fastforce
        then have "fold (enqueue hv) (map path_hash (ni_references ni)) (visited, q) = (v', q')" by (simp add: fold_map comp_def)
        then have "expand_inv seeds hv st v' q' (result @ [h])"
          using expand_inv_step[OF inv refl, of v' q'] by (simp add: Some)
        moreover have "expand_loop cap hv st visited queue result = expand_loop cap hv st v' q' (result @ [h])"
          using False Some f by (subst expand_loop.simps) (simp add: Cons)
        ultimately show ?thesis using "1.IH"(2)[OF Cons False Some f[symmetric] refl] False by simp
      qed
    qed
  qed
qed

text \<open>C16. Closure expansion computes the runtime closure: the answered hashes are distinct, each is reachable
  from a wanted hash through the references the store knows without passing a hash the client has, and
  all of these are answered unless there are more than 50,000.\<close>

theorem expand_closure_exact:
  "let res = expand_closure_hashes seeds hv st; R = wanted_closure seeds hv st in
   distinct res \<and> set res \<subseteq> R \<and> length res \<le> MAX_CLOSURE_SIZE \<and>
   (length res < MAX_CLOSURE_SIZE \<or> finite R \<and> card R \<le> MAX_CLOSURE_SIZE \<longrightarrow> set res = R)"
proof -
  let ?R = "wanted_closure seeds hv st" and ?res = "expand_closure_hashes seeds hv st"
  obtain new where new: "fold (enqueue hv) seeds ({}, []) = (set seeds - hv, new)" "distinct new" "set new = set seeds - hv"
    using enqueue_all[of "[]" "{}" hv seeds] by auto
  have "expand_inv seeds hv st (set seeds - hv) new []"
    using new by (auto simp: expand_inv_def wanted_closure_def)
  from expand_loop_reaches[OF this, of MAX_CLOSURE_SIZE]
  have r: "distinct ?res" "length ?res \<le> MAX_CLOSURE_SIZE" "set ?res \<subseteq> ?R" "set ?res = ?R \<or> length ?res = MAX_CLOSURE_SIZE"
    by (simp_all add: expand_closure_hashes_def new(1))
  have "set ?res = ?R" if "finite ?R" "card ?R \<le> MAX_CLOSURE_SIZE"
    using r that card_seteq[OF that(1) r(3)] distinct_card[OF r(1)] by auto
  then show ?thesis using r unfolding Let_def by auto
qed

definition sample_state :: castore where
  "sample_state = store_metadata sample_env 0 ''abc'' (sample_narinfo\<lparr>ni_references := [''xyz-glibc'', ''abc-hello'']\<rparr>)
     (CaNode None) (new_castore toy_sizes 3 0)"

lemma sample_state_narinfo:
  "get_narinfo ''abc'' sample_state = Some (served_info ''abc'' (sample_narinfo\<lparr>ni_references := [''xyz-glibc'', ''abc-hello'']\<rparr>))"
  "get_narinfo ''xyz'' sample_state = None"
proof -
  have "storable (sample_narinfo\<lparr>ni_references := [''xyz-glibc'', ''abc-hello'']\<rparr>)"
    by (simp add: storable_def sample_narinfo_def basename_def last_segment_def)
  from load_stored_metadata[OF this]
  show "get_narinfo ''abc'' sample_state = Some (served_info ''abc'' (sample_narinfo\<lparr>ni_references := [''xyz-glibc'', ''abc-hello'']\<rparr>))"
    by (simp add: get_narinfo_def sample_state_def store_metadata_def)
  show "get_narinfo ''xyz'' sample_state = None"
    by (simp add: get_narinfo_def sample_state_def store_metadata_def load_metadata_with_conn_def
        store_metadata_with_conn_def table_simps new_castore_def empty_db_def)
qed

lemma sample_state_refs:
  "map path_hash (ni_references (served_info ''abc'' (sample_narinfo\<lparr>ni_references := [''xyz-glibc'', ''abc-hello'']\<rparr>))) = [''xyz'', ''abc'']"
  by (simp add: served_info_def path_hash_def basename_def last_segment_def first_segment_def)

lemma sample_state_expand: "expand_closure_hashes [''abc''] {} sample_state = [''abc'', ''xyz'']"
proof -
  have fold: "fold (\<lambda>r. enqueue {} (path_hash r)) (ni_references (served_info ''abc'' (sample_narinfo\<lparr>ni_references := [''xyz-glibc'', ''abc-hello'']\<rparr>)))
      s = fold (enqueue {}) [''xyz'', ''abc''] s" for s
    unfolding sample_state_refs[symmetric] by (simp add: fold_map comp_def)
  show ?thesis
    unfolding expand_closure_hashes_def
    by (subst expand_loop.simps, simp add: MAX_CLOSURE_SIZE_def sample_state_narinfo fold enqueue_def)
      (subst expand_loop.simps, simp add: sample_state_narinfo)
qed

theorem expand_closure_exact_witness:
  "set (expand_closure_hashes [''abc''] {} sample_state) = wanted_closure [''abc''] {} sample_state"
  using expand_closure_exact[of "[''abc'']" "{}" sample_state]
  by (simp add: sample_state_expand MAX_CLOSURE_SIZE_def Let_def)

subsection \<open>The download plan orders dependencies first\<close>

abbreviation entry_hash :: "manifest_entry \<Rightarrow> string" where
  "entry_hash e \<equiv> path_hash (me_store_path e)"

definition refs_of :: "manifest_entry \<Rightarrow> string set" where
  "refs_of e = path_hash ` set (me_references e)"

lemma all_resolved_iff: "all_resolved R e \<longleftrightarrow> refs_of e \<subseteq> R"
  by (auto simp: all_resolved_def refs_of_def list_all_iff)

text \<open>The hashes available when batch \<open>k\<close> is processed, and that the batch needs no others.\<close>

definition before :: "download_batch list \<Rightarrow> nat \<Rightarrow> string set" where
  "before plan k = (\<Union>b \<in> set (take k plan). set (db_batch_paths b))"

definition batch_ready :: "manifest_entry list \<Rightarrow> string set \<Rightarrow> download_batch list \<Rightarrow> nat \<Rightarrow> bool" where
  "batch_ready available hv plan k \<longleftrightarrow>
     (\<forall>h \<in> set (db_batch_paths (plan ! k)). \<exists>e \<in> set available. entry_hash e = h \<and> refs_of e \<subseteq> hv \<union> before plan k)"

definition dependencies :: "manifest_entry list \<Rightarrow> (string \<times> string) set" where
  "dependencies available = {(r, entry_hash e) |r e. e \<in> set available \<and> r \<in> refs_of e}"

lemma before_snoc: "k \<le> length plan \<Longrightarrow> before (plan @ bs) k = before plan k"
  by (simp add: before_def)

lemma before_Cons: "before (b # plan) (Suc k) = set (db_batch_paths b) \<union> before plan k"
  by (simp add: before_def)

text \<open>What one run of the loop adds to the plan, as a list of its own.\<close>

definition plan_adds ::
  "manifest_entry list \<Rightarrow> nat set \<Rightarrow> string set \<Rightarrow> download_batch list \<Rightarrow> download_batch list \<Rightarrow> bool" where
  "plan_adds ents A R plan new \<longleftrightarrow>
     map db_priority new = [length plan..<length plan + length new] \<and> [] \<notin> db_batch_paths ` set new \<and>
     mset (concat (map db_batch_paths new)) = mset (map (\<lambda>i. entry_hash (ents ! i)) (unassigned ents A)) \<and>
     (\<forall>k. Suc k < length new \<longrightarrow> batch_ready ents R new k)"

lemma plan_adds_Cons:
  assumes "ready = filter (\<lambda>i. all_resolved R (ents ! i)) (unassigned ents A)" and "ready \<noteq> []"
    and b: "b = \<lparr>db_batch_paths = map (\<lambda>i. entry_hash (ents ! i)) ready, db_priority = length plan\<rparr>"
    and new: "plan_adds ents (A \<union> set ready) (R \<union> set (db_batch_paths b)) (plan @ [b]) new"
  shows "plan_adds ents A R plan (b # new)"
proof -
  have rest: "unassigned ents (A \<union> set ready) = filter (\<lambda>i. \<not> all_resolved R (ents ! i)) (unassigned ents A)"
    unfolding assms(1) set_filter by (rule unassigned_step)
  have "mset (unassigned ents A) = mset ready + mset (unassigned ents (A \<union> set ready))"
    unfolding rest unfolding assms(1) mset_filter by (rule multiset_partition)
  then have "mset (map (\<lambda>i. entry_hash (ents ! i)) (unassigned ents A)) =
      mset (db_batch_paths b) + mset (concat (map db_batch_paths new))"
    using new by (simp add: plan_adds_def b mset_map)
  moreover have "batch_ready ents R (b # new) k" if "Suc k < length (b # new)" for k
  proof (cases k)
    case 0
    have "\<exists>e \<in> set ents. entry_hash e = h \<and> refs_of e \<subseteq> R" if "h \<in> set (db_batch_paths b)" for h
    proof -
      obtain i where "i \<in> set ready" "h = entry_hash (ents ! i)" using \<open>h \<in> _\<close> by (auto simp: b)
      then show ?thesis by (intro bexI[of _ "ents ! i"]) (auto simp: assms(1) unassigned_def all_resolved_iff)
    qed
    then show ?thesis by (simp add: 0 batch_ready_def before_def)
  next
    case (Suc j)
    then have "batch_ready ents (R \<union> set (db_batch_paths b)) new j" using new that by (simp add: plan_adds_def)
    then show ?thesis by (simp add: Suc batch_ready_def before_Cons Un_assoc)
  qed
  moreover have "map db_priority (b # new) = [length plan..<length plan + length (b # new)]"
  proof -
    have "[length plan..<length plan + length (b # new)] = length plan # [Suc (length plan)..<Suc (length plan) + length new]"
      by (simp add: upt_conv_Cons del: upt_Suc)
    then show ?thesis using new by (simp add: plan_adds_def b)
  qed
  moreover have "[] \<notin> db_batch_paths ` set (b # new)" using new assms(2) by (simp add: plan_adds_def b)
  ultimately show ?thesis unfolding plan_adds_def by simp
qed

text \<open>The loop adds such a list; its last batch is ready too unless no entry left was.\<close>

lemma plan_loop_adds:
  "\<exists>new. plan_loop ents A R plan = plan @ new \<and> plan_adds ents A R plan new \<and>
     (new = [] \<or> batch_ready ents R new (length new - 1) \<or>
      (\<exists>A'. unassigned ents A' \<noteq> [] \<and> db_batch_paths (last new) = map (\<lambda>i. entry_hash (ents ! i)) (unassigned ents A') \<and>
         (\<forall>i \<in> set (unassigned ents A'). \<not> refs_of (ents ! i) \<subseteq> R \<union> before new (length new - 1))))"
proof (induction ents A R plan rule: plan_loop.induct)
  case (1 ents A R plan)
  let ?hash = "\<lambda>i. entry_hash (ents ! i)"
  define ready where "ready = filter (\<lambda>i. all_resolved R (ents ! i)) (unassigned ents A)"
  show ?case
  proof (cases "ready = []")
    case True
    let ?rest = "map ?hash (unassigned ents A)"
    show ?thesis
    proof (cases "unassigned ents A = []")
      case empty: True
      then show ?thesis
        by (intro exI[of _ "[]"]) (simp add: plan_loop.simps[of ents A R plan] plan_adds_def)
    next
      case False
      let ?b = "\<lparr>db_batch_paths = ?rest, db_priority = length plan\<rparr>"
      have "plan_loop ents A R plan = plan @ [?b]"
        using True False by (simp add: plan_loop.simps[of ents A R plan] ready_def[symmetric])
      moreover have "plan_adds ents A R plan [?b]" using False by (simp add: plan_adds_def)
      moreover have "\<forall>i \<in> set (unassigned ents A). \<not> refs_of (ents ! i) \<subseteq> R"
        using True by (auto simp: ready_def filter_empty_conv all_resolved_iff)
      ultimately show ?thesis using False by (intro exI[of _ "[?b]"]) (auto simp: before_def)
    qed
  next
    case False
    let ?b = "\<lparr>db_batch_paths = map ?hash ready, db_priority = length plan\<rparr>"
    let ?A = "A \<union> set ready" and ?R = "R \<union> set (map ?hash ready)"
    have first: "batch_ready ents R [?b] 0"
    proof -
      have "\<exists>e \<in> set ents. entry_hash e = ?hash i \<and> refs_of e \<subseteq> R" if "i \<in> set ready" for i
        using that by (intro bexI[of _ "ents ! i"]) (auto simp: ready_def unassigned_def all_resolved_iff)
      then show ?thesis by (auto simp: batch_ready_def before_def)
    qed
    show ?thesis
    proof (cases "unassigned ents ?A = []")
      case True
      have "plan_loop ents A R plan = plan @ [?b]"
        using True False by (simp add: plan_loop.simps[of ents A R plan] ready_def[symmetric] Let_def)
      moreover have "plan_adds ents A R plan [?b]"
        using plan_adds_Cons[OF ready_def False, of ?b plan "[]"] True by (simp add: plan_adds_def)
      ultimately show ?thesis using first by (intro exI[of _ "[?b]"]) simp
    next
      case more: False
      have eq: "plan_loop ents A R plan = plan_loop ents ?A ?R (plan @ [?b])"
        using False more by (simp add: plan_loop.simps[of ents A R plan] ready_def[symmetric] Let_def)
      obtain new where new: "plan_loop ents ?A ?R (plan @ [?b]) = (plan @ [?b]) @ new" "plan_adds ents ?A ?R (plan @ [?b]) new"
        and last: "new = [] \<or> batch_ready ents ?R new (length new - 1) \<or>
          (\<exists>A'. unassigned ents A' \<noteq> [] \<and> db_batch_paths (last new) = map ?hash (unassigned ents A') \<and>
             (\<forall>i \<in> set (unassigned ents A'). \<not> refs_of (ents ! i) \<subseteq> ?R \<union> before new (length new - 1)))"
        using "1.IH"[OF refl refl _ refl refl refl refl] False more unfolding ready_def by auto
      have adds: "plan_adds ents A R plan (?b # new)" using plan_adds_Cons[OF ready_def False refl] new(2) by simp
      have "new \<noteq> []"
      proof
        assume "new = []"
        then have "unassigned ents ?A = []" using new(2) by (simp add: plan_adds_def)
        then show False using more by blast
      qed
      then obtain m where m: "length new = Suc m" by (cases new) auto
      have b: "before (?b # new) (Suc m) = set (map ?hash ready) \<union> before new m" by (simp add: before_Cons)
      show ?thesis
        using eq new(1) adds last \<open>new \<noteq> []\<close> m
        by (intro exI[of _ "?b # new"]) (auto simp: batch_ready_def b Un_assoc)
    qed
  qed
qed

lemma map_entry_nth: "map (\<lambda>i. f (xs ! i)) [0..<length xs] = map f xs"
  by (rule nth_equalityI) simp_all

lemma build_download_plan_adds:
  "\<exists>new. build_download_plan ents hv = new \<and> plan_adds ents {} hv [] new \<and>
     (new = [] \<or> batch_ready ents hv new (length new - 1) \<or>
      (\<exists>A'. unassigned ents A' \<noteq> [] \<and> db_batch_paths (last new) = map (\<lambda>i. entry_hash (ents ! i)) (unassigned ents A') \<and>
         (\<forall>i \<in> set (unassigned ents A'). \<not> refs_of (ents ! i) \<subseteq> hv \<union> before new (length new - 1))))"
  using plan_loop_adds[of ents "{}" hv "[]"] by (auto simp: build_download_plan_def)

lemma plan_paths:
  assumes "plan_adds ents {} hv [] plan"
  shows "mset (concat (map db_batch_paths plan)) = mset (map entry_hash ents)"
  using assms map_entry_nth[of entry_hash ents] by (simp add: plan_adds_def unassigned_def flip: mset_map)

lemma set_plan: "(\<Union>b \<in> set plan. set (db_batch_paths b)) = set (concat (map db_batch_paths plan))"
  by simp

text \<open>In a plan the paths of the last batch are those not in an earlier one.\<close>

lemma before_last:
  assumes "plan \<noteq> []" and "set (concat (map db_batch_paths plan)) = H"
  shows "H \<subseteq> before plan (length plan - 1) \<union> set (db_batch_paths (last plan))"
proof -
  have "plan = take (length plan - 1) plan @ [last plan]"
    using assms(1) by (metis append_butlast_last_id butlast_conv_take)
  then have "set plan = set (take (length plan - 1) plan) \<union> {last plan}" by (metis list.set(1,2) set_append)
  then show ?thesis using assms(2) by (auto simp: before_def)
qed

text \<open>C17. The download plan is complete and ordered: its batches hold every available path exactly once, are
  not empty and numbered in order; every path of a batch but the last has all its references among
  the client's paths and earlier batches, and so has every path of the last batch if the references
  among the available paths are acyclic and each is available or at the client.\<close>

theorem download_plan_sound:
  "let plan = build_download_plan available hv in
   mset (concat (map db_batch_paths plan)) = mset (map entry_hash available) \<and>
   map db_priority plan = [0..<length plan] \<and> [] \<notin> db_batch_paths ` set plan \<and>
   (\<forall>k < length plan. Suc k < length plan \<or>
      acyclic (dependencies available) \<and> (\<forall>e \<in> set available. refs_of e \<subseteq> hv \<union> entry_hash ` set available) \<longrightarrow>
      batch_ready available hv plan k)"
proof -
  obtain plan where plan: "build_download_plan available hv = plan" and adds: "plan_adds available {} hv [] plan"
    and last: "plan = [] \<or> batch_ready available hv plan (length plan - 1) \<or>
      (\<exists>A'. unassigned available A' \<noteq> [] \<and> db_batch_paths (last plan) = map (\<lambda>i. entry_hash (available ! i)) (unassigned available A') \<and>
         (\<forall>i \<in> set (unassigned available A'). \<not> refs_of (available ! i) \<subseteq> hv \<union> before plan (length plan - 1)))"
    using build_download_plan_adds by blast
  have paths: "mset (concat (map db_batch_paths plan)) = mset (map entry_hash available)" by (rule plan_paths[OF adds])
  then have H: "set (concat (map db_batch_paths plan)) = entry_hash ` set available" by (metis set_map set_mset_mset)
  have "batch_ready available hv plan (length plan - 1)"
    if ac: "acyclic (dependencies available)" and cl: "\<forall>e \<in> set available. refs_of e \<subseteq> hv \<union> entry_hash ` set available"
      and ne: "plan \<noteq> []"
  proof (rule ccontr)
    assume "\<not> batch_ready available hv plan (length plan - 1)"
    then obtain A where A: "unassigned available A \<noteq> []"
        "db_batch_paths (last plan) = map (\<lambda>i. entry_hash (available ! i)) (unassigned available A)"
        "\<forall>i \<in> set (unassigned available A). \<not> refs_of (available ! i) \<subseteq> hv \<union> before plan (length plan - 1)"
      using last ne by blast
    let ?S = "set (db_batch_paths (last plan))"
    have "dependencies available = (\<Union>e \<in> set available. (\<lambda>r. (r, entry_hash e)) ` refs_of e)"
      by (auto simp: dependencies_def)
    then have "finite (dependencies available)" by (simp add: refs_of_def)
    then have wf: "wf (dependencies available)" using ac by (rule finite_acyclic_wf)
    obtain h where h: "h \<in> ?S" and min: "\<forall>r. (r, h) \<in> dependencies available \<longrightarrow> r \<notin> ?S"
      using A(1,2) wfE_min[OF wf, of "hd (db_batch_paths (last plan))" ?S] by (metis hd_in_set map_is_Nil_conv)
    obtain i where i: "i \<in> set (unassigned available A)" "h = entry_hash (available ! i)" using h A(2) by auto
    have e: "available ! i \<in> set available" using i(1) by (simp add: unassigned_def)
    obtain r where r: "r \<in> refs_of (available ! i)" "r \<notin> hv \<union> before plan (length plan - 1)" using A(3) i(1) by blast
    have "(r, h) \<in> dependencies available" using e r(1) i(2) by (auto simp: dependencies_def)
    moreover have "r \<in> ?S" using cl e r before_last[OF ne H] by blast
    ultimately show False using min by blast
  qed
  moreover have "k = length plan - 1 \<and> plan \<noteq> []" if "k < length plan" "\<not> Suc k < length plan" for k using that by auto
  moreover have "map db_priority plan = [0..<length plan]" "[] \<notin> db_batch_paths ` set plan"
      "\<forall>k. Suc k < length plan \<longrightarrow> batch_ready available hv plan k"
    using adds by (simp_all add: plan_adds_def)
  ultimately show ?thesis unfolding plan Let_def using paths by metis
qed

text \<open>Paths that block each other: none is at the client and each refers to one of them.\<close>

lemma blocked_not_before:
  assumes "\<And>e. e \<in> set available \<Longrightarrow> entry_hash e \<in> D \<Longrightarrow> refs_of e \<inter> D \<noteq> {}" and "D \<inter> hv = {}"
    and ready: "\<forall>k. Suc k < length plan \<longrightarrow> batch_ready available hv plan k" and "Suc k \<le> length plan"
  shows "before plan k \<inter> D = {}"
  using assms(4)
proof (induction k)
  case 0
  then show ?case by (simp add: before_def)
next
  case (Suc k)
  then have b: "before plan k \<inter> D = {}" "batch_ready available hv plan k" using ready by simp_all
  have "before plan (Suc k) = before plan k \<union> set (db_batch_paths (plan ! k))"
    using Suc.prems by (auto simp: before_def take_Suc_conv_app_nth)
  moreover have "h \<notin> D" if h: "h \<in> set (db_batch_paths (plan ! k))" for h
  proof
    assume "h \<in> D"
    obtain e where "e \<in> set available" "entry_hash e = h" "refs_of e \<subseteq> hv \<union> before plan k"
      using b(2) h by (auto simp: batch_ready_def)
    then show False using assms(1)[of e] \<open>h \<in> D\<close> b(1) assms(2) by blast
  qed
  ultimately show ?case using b(1) by blast
qed

text \<open>A path that refers to itself, as many Nix store paths do, never becomes ready: unless the client has
  it, it is put into the last batch together with every path that depends on it, directly or not, so
  that batch does not come after its dependencies.\<close>

theorem self_reference_flattens_plan:
  assumes "e \<in> set available" and "entry_hash e \<in> refs_of e" and "distinct (map entry_hash available)"
    and "\<forall>e' \<in> set available. (entry_hash e, entry_hash e') \<in> (dependencies available)\<^sup>* \<longrightarrow> entry_hash e' \<notin> hv"
  shows "\<forall>e' \<in> set available. (entry_hash e, entry_hash e') \<in> (dependencies available)\<^sup>* \<longrightarrow>
    entry_hash e' \<in> set (db_batch_paths (last (build_download_plan available hv)))"
proof -
  obtain plan where plan: "build_download_plan available hv = plan" and adds: "plan_adds available {} hv [] plan"
    using build_download_plan_adds by blast
  define D where "D = {h \<in> entry_hash ` set available. (entry_hash e, h) \<in> (dependencies available)\<^sup>*}"
  have same: "a = b" if "a \<in> set available" "b \<in> set available" "entry_hash a = entry_hash b" for a b
    using assms(3) that by (simp add: distinct_map inj_on_def)
  have blocked: "refs_of a \<inter> D \<noteq> {}" if a: "a \<in> set available" "entry_hash a \<in> D" for a
  proof (cases "entry_hash a = entry_hash e")
    case True
    then have "a = e" using same a(1) assms(1) by blast
    then show ?thesis using assms(1,2) by (auto simp: D_def)
  next
    case False
    have "(entry_hash e, entry_hash a) \<in> (dependencies available)\<^sup>*" using a(2) by (simp add: D_def)
    then obtain r where r: "(entry_hash e, r) \<in> (dependencies available)\<^sup>*" "(r, entry_hash a) \<in> dependencies available"
      using False by (metis rtranclE)
    then obtain b where "b \<in> set available" "entry_hash b = entry_hash a" "r \<in> refs_of b" by (auto simp: dependencies_def)
    then have ref: "r \<in> refs_of a" using same a(1) by metis
    have "r \<in> entry_hash ` set available"
    proof (cases "r = entry_hash e")
      case True
      then show ?thesis using assms(1) by simp
    next
      case False
      then obtain r' where "(r', r) \<in> dependencies available" using r(1) by (metis rtranclE)
      then show ?thesis by (auto simp: dependencies_def)
    qed
    then show ?thesis using ref r(1) by (auto simp: D_def)
  qed
  have H: "set (concat (map db_batch_paths plan)) = entry_hash ` set available"
    using plan_paths[OF adds] by (metis set_map set_mset_mset)
  have "plan \<noteq> []" using H assms(1) by auto
  then have "Suc (length plan - 1) \<le> length plan" by (cases plan) simp_all
  moreover have "D \<inter> hv = {}" using assms(4) by (auto simp: D_def)
  moreover have "\<forall>k. Suc k < length plan \<longrightarrow> batch_ready available hv plan k" using adds by (simp add: plan_adds_def)
  ultimately have "before plan (length plan - 1) \<inter> D = {}" by (intro blocked_not_before[OF blocked])
  then show ?thesis using before_last[OF \<open>plan \<noteq> []\<close> H] unfolding plan by (auto simp: D_def)
qed

definition sample_path :: "string \<Rightarrow> string list \<Rightarrow> manifest_entry" where
  "sample_path p refs = (manifest_entry_of (\<lambda>_. ''k:s'') sample_narinfo)\<lparr>me_store_path := p, me_references := refs\<rparr>"

lemma sample_path_simps [simp]:
  "me_store_path (sample_path p refs) = p" "refs_of (sample_path p refs) = path_hash ` set refs"
  by (simp_all add: sample_path_def refs_of_def)

lemma sample_path_hash [simp]: "path_hash ''a-x'' = ''a''" "path_hash ''b-x'' = ''b''"
  by (simp_all add: path_hash_def last_segment_def first_segment_def)

lemma dependencies_simps [simp]:
  "dependencies [] = {}" "dependencies (e # es) = (\<lambda>r. (r, entry_hash e)) ` refs_of e \<union> dependencies es"
  by (auto simp: dependencies_def)

theorem download_plan_sound_witness:
  "let plan = build_download_plan [sample_path ''b-x'' [''a-x''], sample_path ''a-x'' []] {} in
   mset (concat (map db_batch_paths plan)) = {#''b'', ''a''#} \<and>
   (\<forall>k < length plan. batch_ready [sample_path ''b-x'' [''a-x''], sample_path ''a-x'' []] {} plan k)"
proof -
  let ?av = "[sample_path ''b-x'' [''a-x''], sample_path ''a-x'' []]"
  have "dependencies ?av = {(''a'', ''b'')}" by simp
  then have "acyclic (dependencies ?av)" by (simp add: acyclic_insert) (simp add: acyclic_def)
  then show ?thesis using download_plan_sound[of ?av "{}"] by (simp add: Let_def)
qed

theorem self_reference_flattens_plan_witness:
  "let available = [sample_path ''b-x'' [''a-x''], sample_path ''a-x'' [''a-x'']] in
   {''a'', ''b''} \<subseteq> set (db_batch_paths (last (build_download_plan available {})))"
proof -
  let ?av = "[sample_path ''b-x'' [''a-x''], sample_path ''a-x'' [''a-x'']]"
  have "(''a'', ''b'') \<in> dependencies ?av" by simp
  then show ?thesis
    using self_reference_flattens_plan[of "sample_path ''a-x'' [''a-x'']" ?av "{}"] by (auto simp: Let_def)
qed

subsection \<open>The manifest answers every wanted hash\<close>

lemma batches_Nil [simp]: "batches k [] = []"
  by (simp add: batches.simps)

lemma concat_batches: "0 < k \<Longrightarrow> concat (batches k xs) = xs"
proof (induction k xs rule: batches.induct)
  case (1 k xs)
  then show ?case by (cases "xs = []") (simp_all add: batches.simps[of k xs])
qed

lemma batch_load_metadata_found:
  assumes wf: "wf_table (db_paths (st_db st))"
  shows "set (fst (batch_load_metadata hs st)) = {(h, ni). h \<in> set hs \<and> get_narinfo h st = Some ni}"
    and "snd (batch_load_metadata hs st) = filter (\<lambda>h. get_narinfo h st = None) hs"
proof -
  have q: "set (query_in b (st_db st)) = {(h, ni). h \<in> set b \<and> get_narinfo h st = Some ni}" for b
    using wf_map_of[OF wf] by (force simp: query_in_def get_narinfo_def load_metadata_with_conn_def)
  have "set (concat (batches BATCH_SIZE hs)) = set hs" by (simp only: concat_batches BATCH_SIZE_def)  
  then have b: "(\<Union>b \<in> set (batches BATCH_SIZE hs). set b) = set hs" by simp
  show found: "set (fst (batch_load_metadata hs st)) = {(h, ni). h \<in> set hs \<and> get_narinfo h st = Some ni}"
    using b by (auto simp: batch_load_metadata_def Let_def q)
  have "snd (batch_load_metadata hs st) = filter (\<lambda>h. h \<notin> fst ` set (fst (batch_load_metadata hs st))) hs"
    by (simp add: batch_load_metadata_def Let_def)
  then show "snd (batch_load_metadata hs st) = filter (\<lambda>h. get_narinfo h st = None) hs"
    unfolding found by (auto intro!: filter_cong simp: image_iff)
qed

lemma image_snd_Collect: "(\<lambda>x. f (snd x)) ` {(h, ni). P h ni} = {f ni |h ni. P h ni}"
  by force

text \<open>What deltas change of an entry.\<close>

definition without_delta :: "manifest_entry \<Rightarrow> manifest_entry" where
  "without_delta e = e\<lparr>me_delta_base_hash := [], me_delta_url := [], me_delta_size := 0\<rparr>"

lemma map_update_same: "f y = f (xs ! i) \<Longrightarrow> map f (xs[i := y]) = map f xs"
  by (metis list_update_beyond list_update_id map_update not_le)

lemma apply_delta_result_entries:
  "map without_delta (fst (apply_delta_result r s)) = map without_delta (fst s)"
  by (cases r; cases s) (simp add: apply_delta_result_def map_update_same without_delta_def)

lemma compute_deltas_entries:
  "map without_delta (fst (compute_deltas fuel env codec permit st hs s)) = map without_delta (fst s)"
proof -
  have "map without_delta (fst (fold apply_delta_result rs s)) = map without_delta (fst s)" for rs
    by (induction rs arbitrary: s) (simp_all add: apply_delta_result_entries)
  then show ?thesis by (simp add: compute_deltas_def Let_def)
qed

lemma record_accesses_simps [simp]:
  "as_storage (fold (\<lambda>e. record_access (f e)) es s) = as_storage s"
  "as_delta_cache (fold (\<lambda>e. record_access (f e)) es s) = as_delta_cache s"
  "as_signer (fold (\<lambda>e. record_access (f e)) es s) = as_signer s"
  by (induction es arbitrary: s) simp_all

text \<open>Without paths at the client there is no delta.\<close>

lemma compute_deltas_no_have: "compute_deltas fuel env codec permit st [] s = s"
proof -
  have "delta_candidates [] idx es cs = cs" for idx es cs
    by (induction es arbitrary: idx) (simp_all add: delta_candidate_of_def split: Option.bind_split)
  then show ?thesis by (simp add: compute_deltas_def have_by_pname_def List.map_filter_simps)
qed

lemma negotiate_facts:
  assumes "wf_table (db_paths (st_db (as_storage s)))" and "length (nq_want req) \<le> MAX_WANT_ENTRIES"
    and hs: "hs = (if nq_expand_closure req then expand_closure_hashes (nq_want req) (set (nq_have req)) (as_storage s)
             else nq_want req)"
  shows "\<exists>r s'. negotiate fuel env codec permit req s = (Ok r, s') \<and> as_storage s' = as_storage s \<and>
    nr_unavailable r = filter (\<lambda>h. get_narinfo h (as_storage s) = None) hs \<and>
    without_delta ` set (nr_available r) = {manifest_of s ni |h ni. h \<in> set hs \<and> get_narinfo h (as_storage s) = Some ni} \<and>
    mset (concat (map db_batch_paths (nr_download_plan r))) = mset (map entry_hash (nr_available r)) \<and>
    (nq_have req = [] \<longrightarrow> as_delta_cache s' = as_delta_cache s \<and> without_delta ` set (nr_available r) = set (nr_available r))"
proof -
  let ?st = "as_storage s"
  define found where "found = fst (batch_load_metadata hs ?st)"
  define unavailable where "unavailable = snd (batch_load_metadata hs ?st)"
  note b = batch_load_metadata_found[OF assms(1), of hs, folded found_def unavailable_def]
  have split: "batch_load_metadata hs ?st = (found, unavailable)" by (simp add: found_def unavailable_def)
  let ?av = "map (\<lambda>(_, ni). manifest_of s ni) found"
  obtain av' tds cache where d: "compute_deltas fuel env codec permit ?st (nq_have req)
      (?av, sum_list (map me_file_size ?av) mod 2 ^ 64, as_delta_cache s) = (av', tds, cache)" by (metis prod_cases3)
  have same: "map without_delta av' = map without_delta ?av"
    using compute_deltas_entries[of fuel env codec permit ?st "nq_have req"] d by (metis fst_conv)
  have plain: "without_delta (manifest_of s ni) = manifest_of s ni" for ni
    by (simp add: without_delta_def manifest_of_def certify_entry_def manifest_entry_of_def Let_def)
  have "without_delta ` set av' = set (map without_delta ?av)" using same by (metis set_map)
  also have "\<dots> = (\<lambda>x. manifest_of s (snd x)) ` set found" by (simp add: image_image split_def plain)
  finally have entries: "without_delta ` set av' = {manifest_of s ni |h ni. h \<in> set hs \<and> get_narinfo h ?st = Some ni}"
    unfolding b(1) using image_snd_Collect[of "manifest_of s"] by (rule trans)
  have "map entry_hash av' = map entry_hash (map without_delta av')" by (simp add: without_delta_def)
  also have "\<dots> = map entry_hash ?av" unfolding same by (simp add: without_delta_def)
  finally have plan: "mset (concat (map db_batch_paths (build_download_plan ?av (set (nq_have req))))) = mset (map entry_hash av')"
    using plan_paths build_download_plan_adds by metis
  have none: "av' = ?av \<and> cache = as_delta_cache s" if "nq_have req = []"
    using d unfolding that compute_deltas_no_have by simp
  have fixed: "without_delta ` set av' = set av'" if "nq_have req = []"
    unfolding conjunct1[OF none[OF that]] by (simp add: image_image split_def plain)
  obtain r s' where r: "negotiate fuel env codec permit req s = (Ok r, s')" "as_storage s' = as_storage s"
      "nr_unavailable r = unavailable" "nr_available r = av'"
      "nr_download_plan r = build_download_plan ?av (set (nq_have req))" "as_delta_cache s' = cache"
    using assms(2) unfolding negotiate_def Let_def hs[symmetric] split not_less[symmetric]
    by (simp only: if_False record_accesses_simps prod.case d) simp
  show ?thesis
    by (rule exI[of _ r], rule exI[of _ s'], unfold r(3-6), intro conjI impI; (fact r(1,2) b(2) entries plan)?)
      (use none fixed in simp_all)
qed

text \<open>C18. A negotiation answers every hash it considers (the wanted ones, or their closure): a hash the store
  has no metadata for is reported unavailable, for any other the manifest holds the entry made from
  the stored narinfo, signed by the server and by each certificate signer, deltas aside; the manifest
  holds nothing else and the download plan covers it; the store is left as it was.\<close>

theorem negotiate_answers_every_hash:
  assumes "wf_table (db_paths (st_db (as_storage s)))" and "length (nq_want req) \<le> MAX_WANT_ENTRIES"
    and "hs = (if nq_expand_closure req then expand_closure_hashes (nq_want req) (set (nq_have req)) (as_storage s)
         else nq_want req)"
  shows "\<exists>r s'. negotiate fuel env codec permit req s = (Ok r, s') \<and> as_storage s' = as_storage s \<and>
    nr_unavailable r = filter (\<lambda>h. get_narinfo h (as_storage s) = None) hs \<and>
    without_delta ` set (nr_available r) = {manifest_of s ni |h ni. h \<in> set hs \<and> get_narinfo h (as_storage s) = Some ni} \<and>
    mset (concat (map db_batch_paths (nr_download_plan r))) = mset (map entry_hash (nr_available r))"
  using negotiate_facts[OF assms, of fuel env codec permit] by (elim exE conjE, intro exI conjI)

definition sample_app :: app_state where
  "sample_app = \<lparr>as_storage = sample_state, as_signer = (\<lambda>_. ''k:s''), as_cert_signer = None, as_cert_signers = [],
     as_signing_threshold = 0, as_gc_tracker = Some [], as_write_tokens = [''secret''], as_admin_token = None,
     as_token_store = [], as_delta_cache = delta_cache_new, as_narinfo_cache = narinfo_cache_new\<rparr>"

definition sample_request :: negotiate_request where
  "sample_request = \<lparr>nq_want = [''abc''], nq_have = [], nq_supports_cas = False, nq_target_hash = [], nq_expand_closure = True\<rparr>"

theorem negotiate_answers_every_hash_witness:
  "\<exists>r s'. negotiate 9 sample_env \<lparr>dc_compress = \<lambda>_ _. None, dc_decompress = \<lambda>_ _. None\<rparr> (\<lambda>_. True) sample_request sample_app = (Ok r, s') \<and>
     nr_unavailable r = [''xyz''] \<and> without_delta ` set (nr_available r) \<noteq> {}"
proof -
  have "wf_table (db_paths (st_db (as_storage sample_app)))"
    by (simp add: sample_app_def sample_state_def store_metadata_def store_metadata_with_conn_def new_castore_def empty_db_def
        wf_insert_or_replace)
  moreover have "length (nq_want sample_request) \<le> MAX_WANT_ENTRIES" by (simp add: sample_request_def MAX_WANT_ENTRIES_def)
  moreover have "[''abc'', ''xyz''] = (if nq_expand_closure sample_request
      then expand_closure_hashes (nq_want sample_request) (set (nq_have sample_request)) (as_storage sample_app) else nq_want sample_request)"
    by (simp add: sample_request_def sample_app_def sample_state_expand)
  ultimately obtain r s' where r: "negotiate 9 sample_env \<lparr>dc_compress = \<lambda>_ _. None, dc_decompress = \<lambda>_ _. None\<rparr> (\<lambda>_. True) sample_request sample_app = (Ok r, s')"
      "nr_unavailable r = filter (\<lambda>h. get_narinfo h (as_storage sample_app) = None) [''abc'', ''xyz'']"
      "without_delta ` set (nr_available r) = {manifest_of sample_app ni |h ni. h \<in> set [''abc'', ''xyz''] \<and> get_narinfo h (as_storage sample_app) = Some ni}"
    using negotiate_answers_every_hash[of sample_app sample_request "[''abc'', ''xyz'']" 9 sample_env
        "\<lparr>dc_compress = \<lambda>_ _. None, dc_decompress = \<lambda>_ _. None\<rparr>" "\<lambda>_. True"] by blast
  have s: "as_storage sample_app = sample_state" by (simp add: sample_app_def)
  have "nr_unavailable r = [''xyz'']" using r(2) by (simp add: s sample_state_narinfo)
  moreover have "without_delta ` set (nr_available r) \<noteq> {}" unfolding r(3) s using sample_state_narinfo(1) by auto
  ultimately show ?thesis using r(1) by blast
qed

end
