(* ===== verification/ChunkStore.thy ===== *)
theory ChunkStore
  imports ChunkNegotiate
begin

text \<open>
  The client's chunk store, \<open>crates/ekapkgs/src/chunk_store.rs\<close>: chunk files on disk, four SQLite
  tables, one definition per method.  Chunks are stored uncompressed.  As for the server, \<open>io\<close> tells
  whether the file system carries out the write or removal of a path.
\<close>

subsection \<open>State and operations\<close>

record chunk_store =
  cl_files :: "(string, bytes) table"
  cl_chunks :: "(digest, nat) table"
  cl_file_chunks :: "(digest \<times> nat, digest \<times> nat) table"
  cl_dirs :: "(digest, bytes) table"
  cl_paths :: "(string, bytes \<times> nat) table"

definition open_at :: chunk_store where
  "open_at = \<lparr>cl_files = [], cl_chunks = [], cl_file_chunks = [], cl_dirs = [], cl_paths = []\<rparr>"

definition all_chunk_digests :: "chunk_store \<Rightarrow> digest list" where
  "all_chunk_digests cl = List.map_filter (try_digest \<circ> fst) (cl_chunks cl)"

definition cl_store_chunk :: "(string \<Rightarrow> bool) \<Rightarrow> digest \<Rightarrow> bytes \<Rightarrow> chunk_store \<Rightarrow> (cas_error + unit) \<times> chunk_store" where
  "cl_store_chunk io dg d cl =
     (let path = chunk_path (hex_encode dg) in
      if map_of (cl_files cl) path \<noteq> None then (Ok (), cl)
      else if \<not> io path then (Err IoError, cl)
      else (Ok (), cl\<lparr>cl_files := insert_or_replace path d (cl_files cl),
                      cl_chunks := insert_or_ignore dg (length d) (cl_chunks cl)\<rparr>))"

definition cl_get_chunk :: "chunk_store \<Rightarrow> digest \<Rightarrow> bytes option" where
  "cl_get_chunk cl dg = map_of (cl_files cl) (chunk_path (hex_encode dg))"

definition store_directory :: "digest \<Rightarrow> bytes \<Rightarrow> chunk_store \<Rightarrow> chunk_store" where
  "store_directory dg b cl = cl\<lparr>cl_dirs := insert_or_ignore dg b (cl_dirs cl)\<rparr>"

definition cl_load_directory :: "cas_env \<Rightarrow> chunk_store \<Rightarrow> digest \<Rightarrow> cas_error + ca_directory" where
  "cl_load_directory env cl dg =
     (case map_of (cl_dirs cl) dg of
        None \<Rightarrow> Err (MissingRow dg)
      | Some b \<Rightarrow> (case decode_dir env b of None \<Rightarrow> Err DecodeError | Some x \<Rightarrow> Ok x))"

fun store_file_chunks :: "digest \<Rightarrow> nat \<Rightarrow> (digest \<times> nat) list \<Rightarrow> chunk_store \<Rightarrow> chunk_store" where
  "store_file_chunks f i [] cl = cl"
| "store_file_chunks f i (r # rs) cl =
     store_file_chunks f (Suc i) rs (cl\<lparr>cl_file_chunks := insert_or_ignore (f, i) r (cl_file_chunks cl)\<rparr>)"

fun cl_read_rows :: "chunk_store \<Rightarrow> (digest \<times> nat) list \<Rightarrow> cas_error + bytes" where
  "cl_read_rows cl [] = Ok []"
| "cl_read_rows cl ((b, sz) # rows) =
     bindR (case try_digest b of None \<Rightarrow> Err InvalidDigestLength | Some g \<Rightarrow> Ok g) (\<lambda>g.
     bindR (case cl_get_chunk cl g of None \<Rightarrow> Err (MissingChunk g) | Some d \<Rightarrow> Ok d) (\<lambda>d.
     bindR (cl_read_rows cl rows) (\<lambda>ds. Ok (d @ ds))))"

definition cl_read_file_data :: "chunk_store \<Rightarrow> digest \<Rightarrow> cas_error + bytes" where
  "cl_read_file_data cl f = cl_read_rows cl (rows_of f (cl_file_chunks cl))"

text \<open>The trait's default \<open>write_file_data_to\<close> writes what \<open>read_file_data\<close> returns.\<close>

definition store_reader :: "cas_env \<Rightarrow> chunk_store \<Rightarrow> chunk_reader" where
  "store_reader env cl = \<lparr>cr_read_file = cl_read_file_data cl, cr_write_file = cl_read_file_data cl,
     cr_load_dir = cl_load_directory env cl\<rparr>"

definition index_directory :: "cas_env \<Rightarrow> ca_directory_data \<Rightarrow> chunk_store \<Rightarrow> chunk_store" where
  "index_directory env dd cl =
     (case (Option.bind (dd_digest dd) try_digest, dd_directory dd) of
        (Some dg, Some x) \<Rightarrow> store_directory dg (encode_dir env x) cl
      | _ \<Rightarrow> cl)"

definition index_mapping :: "file_chunk_mapping \<Rightarrow> chunk_store \<Rightarrow> chunk_store" where
  "index_mapping fm cl =
     (case Option.bind (fm_file_digest fm) try_digest of
        None \<Rightarrow> cl
      | Some f \<Rightarrow>
         (let chunks = List.map_filter (\<lambda>cm. map_option (\<lambda>g. (g, cm_size cm)) (Option.bind (cm_digest cm) try_digest))
                         (fm_chunks fm)
          in if chunks \<noteq> [] then store_file_chunks f 0 chunks cl else cl))"

definition index_response :: "cas_env \<Rightarrow> chunk_negotiate_response \<Rightarrow> chunk_store \<Rightarrow> chunk_store" where
  "index_response env resp cl =
     fold index_mapping (cr_file_chunk_mappings resp) (fold (index_directory env) (cr_directories resp) cl)"

definition record_cas_path :: "cas_env \<Rightarrow> nat \<Rightarrow> string \<Rightarrow> ca_node \<Rightarrow> chunk_store \<Rightarrow> chunk_store" where
  "record_cas_path env now h root cl =
     cl\<lparr>cl_paths := insert_or_replace h (encode_node env root, now) (cl_paths cl)\<rparr>"

definition cl_total_chunk_bytes :: "chunk_store \<Rightarrow> nat" where
  "cl_total_chunk_bytes cl = sum_list (map snd (cl_chunks cl))"

subsection \<open>Eviction\<close>

fun collect_file_digests ::
  "nat \<Rightarrow> cas_env \<Rightarrow> chunk_store \<Rightarrow> ca_node \<Rightarrow> digest list \<Rightarrow> digest list option"
  and collect_file_digests_entries ::
  "nat \<Rightarrow> cas_env \<Rightarrow> chunk_store \<Rightarrow> (string \<times> ca_node option) list \<Rightarrow> digest list \<Rightarrow> digest list option" where
  "collect_file_digests 0 env cl c out = None"
| "collect_file_digests (Suc fuel) env cl c out =
     (case node c of
        None \<Rightarrow> Some out
      | Some (CaFileNode dg sz x) \<Rightarrow>
          (case Option.bind dg try_digest of None \<Rightarrow> Some out | Some d \<Rightarrow> Some (out @ [d]))
      | Some (CaDirectoryNode dg sz) \<Rightarrow>
          (case Option.bind dg try_digest of None \<Rightarrow> Some out
           | Some d \<Rightarrow>
              (case Option.bind (map_of (cl_dirs cl) d) (decode_dir env) of
                 None \<Rightarrow> Some out
               | Some x \<Rightarrow> collect_file_digests_entries fuel env cl (dir_entries x) out))
      | Some (CaSymlinkNode t) \<Rightarrow> Some out)"
| "collect_file_digests_entries fuel env cl [] out = Some out"
| "collect_file_digests_entries 0 env cl (e # es) out = None"
| "collect_file_digests_entries (Suc fuel) env cl ((name, child) # es) out =
     Option.bind (case child of None \<Rightarrow> Some out | Some c \<Rightarrow> collect_file_digests fuel env cl c out)
       (collect_file_digests_entries fuel env cl es)"

text \<open>The chunks of the evicted path's files; the rows go only with the last path of the store.\<close>

fun release_files :: "string \<Rightarrow> digest list \<Rightarrow> digest list \<Rightarrow> chunk_store \<Rightarrow> digest list \<times> chunk_store" where
  "release_files h [] chunk_digests cl = (chunk_digests, cl)"
| "release_files h (f # fs) chunk_digests cl =
     (let chunk_digests = chunk_digests @ List.map_filter (try_digest \<circ> fst) (rows_of f (cl_file_chunks cl));
          other_paths_exist = list_ex (\<lambda>r. fst r \<noteq> h) (cl_paths cl)
      in release_files h fs chunk_digests
           (if other_paths_exist then cl
            else cl\<lparr>cl_file_chunks := filter (\<lambda>r. fst (fst r) \<noteq> f) (cl_file_chunks cl)\<rparr>))"

fun release_chunks :: "(string \<Rightarrow> bool) \<Rightarrow> digest list \<Rightarrow> nat \<Rightarrow> chunk_store \<Rightarrow> nat \<times> chunk_store" where
  "release_chunks io [] freed cl = (freed, cl)"
| "release_chunks io (g # gs) freed cl =
     (if list_ex (\<lambda>r. fst (snd r) = g) (cl_file_chunks cl) then release_chunks io gs freed cl
      else let path = chunk_path (hex_encode g);
               sz = (case map_of (cl_chunks cl) g of None \<Rightarrow> 0 | Some n \<Rightarrow> n)
           in release_chunks io gs (freed + sz)
                (cl\<lparr>cl_chunks := delete_key g (cl_chunks cl),
                    cl_files := (if io path then delete_key path (cl_files cl) else cl_files cl)\<rparr>))"

definition evict_one :: "nat \<Rightarrow> cas_env \<Rightarrow> (string \<Rightarrow> bool) \<Rightarrow> string \<Rightarrow> nat \<times> chunk_store \<Rightarrow> (nat \<times> chunk_store) option" where
  "evict_one fuel env io h s =
     (let (freed, cl) = s in
      case map_of (cl_paths cl) h of
        None \<Rightarrow> Some (freed, cl)
      | Some (root_bytes, _) \<Rightarrow>
         (case (case decode_node env root_bytes of None \<Rightarrow> Some [] | Some root \<Rightarrow> collect_file_digests fuel env cl root []) of
            None \<Rightarrow> None
          | Some file_digests \<Rightarrow>
             (let cl = cl\<lparr>cl_paths := delete_key h (cl_paths cl)\<rparr>;
                  (chunk_digests, cl) = release_files h file_digests [] cl
              in Some (release_chunks io chunk_digests freed cl))))"

fun evict_loop :: "nat \<Rightarrow> cas_env \<Rightarrow> (string \<Rightarrow> bool) \<Rightarrow> nat \<Rightarrow> string list \<Rightarrow> nat \<times> chunk_store \<Rightarrow> (nat \<times> chunk_store) option" where
  "evict_loop fuel env io to_free [] s = Some s"
| "evict_loop fuel env io to_free (h # hs) s =
     (if fst s \<ge> to_free then Some s
      else case evict_one fuel env io h s of None \<Rightarrow> None | Some s \<Rightarrow> evict_loop fuel env io to_free hs s)"

text \<open>Paths recorded in the same second come in row order.\<close>

definition evict_to_size :: "nat \<Rightarrow> cas_env \<Rightarrow> (string \<Rightarrow> bool) \<Rightarrow> nat \<Rightarrow> chunk_store \<Rightarrow> (nat \<times> chunk_store) option" where
  "evict_to_size fuel env io target_bytes cl =
     (let current = cl_total_chunk_bytes cl in
      if current \<le> target_bytes then Some (0, cl)
      else let hashes = map fst (sort_key (\<lambda>r. snd (snd r)) (cl_paths cl))
           in evict_loop fuel env io (current - target_bytes) hashes (0, cl))"

subsection \<open>The invariant\<close>

text \<open>A row and its file come together; the rows of a file are complete, their chunks need not be there.\<close>

definition file_indexed :: "cas_env \<Rightarrow> chunk_store \<Rightarrow> bytes \<Rightarrow> bool" where
  "file_indexed env cl d \<longleftrightarrow>
     (\<forall>i < length (cdc env d). map_of (cl_file_chunks cl) (blake3 env d, i) = Some (rows_for env d ! i))"

definition client_inv :: "cas_env \<Rightarrow> bytes set \<Rightarrow> chunk_store \<Rightarrow> bool" where
  "client_inv env U cl \<longleftrightarrow>
     wf_table (cl_files cl) \<and> wf_table (cl_chunks cl) \<and> wf_table (cl_file_chunks cl) \<and> wf_table (cl_dirs cl) \<and>
     wf_table (cl_paths cl) \<and>
     (\<forall>g sz. map_of (cl_chunks cl) g = Some sz \<longrightarrow>
        (\<exists>c \<in> U. g = blake3 env c \<and> sz = length c \<and> map_of (cl_files cl) (cpath g) = Some c)) \<and>
     (\<forall>g. map_of (cl_files cl) (cpath g) \<noteq> None \<longrightarrow> map_of (cl_chunks cl) g \<noteq> None) \<and>
     (\<forall>f i r. map_of (cl_file_chunks cl) (f, i) = Some r \<longrightarrow>
        (\<exists>d \<in> U. f = blake3 env d \<and> i < length (cdc env d) \<and> file_indexed env cl d)) \<and>
     (\<forall>g b. map_of (cl_dirs cl) g = Some b \<longrightarrow> b \<in> U \<and> g = blake3 env b \<and> (\<exists>x. b = encode_dir env x))"

lemma client_invD:
  assumes "client_inv env U cl"
  shows "wf_table (cl_chunks cl)" "wf_table (cl_file_chunks cl)"
    "map_of (cl_chunks cl) g = Some sz \<Longrightarrow> \<exists>c \<in> U. g = blake3 env c \<and> sz = length c \<and> map_of (cl_files cl) (cpath g) = Some c"
    "map_of (cl_files cl) (cpath g) = Some b \<Longrightarrow> \<exists>sz. map_of (cl_chunks cl) g = Some sz"
    "map_of (cl_file_chunks cl) (f, i) = Some r \<Longrightarrow> \<exists>d \<in> U. f = blake3 env d \<and> i < length (cdc env d) \<and> file_indexed env cl d"
    "map_of (cl_dirs cl) g = Some b' \<Longrightarrow> b' \<in> U \<and> g = blake3 env b' \<and> (\<exists>x. b' = encode_dir env x)"
  using assms unfolding client_inv_def by blast+

lemma client_inv_open: "client_inv env U open_at"
  by (simp add: client_inv_def open_at_def)

lemma file_indexed_frame [simp]:
  "file_indexed env (cl\<lparr>cl_paths := P\<rparr>) d = file_indexed env cl d"
  "file_indexed env (cl\<lparr>cl_dirs := D\<rparr>) d = file_indexed env cl d"
  "file_indexed env (cl\<lparr>cl_files := F, cl_chunks := C\<rparr>) d = file_indexed env cl d"
  by (simp_all add: file_indexed_def)

lemma client_inv_paths: "client_inv env U cl \<Longrightarrow> wf_table P \<Longrightarrow> client_inv env U (cl\<lparr>cl_paths := P\<rparr>)"
  by (simp add: client_inv_def)

subsection \<open>Each operation keeps it\<close>

lemma client_inv_store_chunk:
  assumes inv: "client_inv env U cl" and "c \<in> U"
  shows "client_inv env U (snd (cl_store_chunk io (blake3 env c) c cl))"
proof (cases "map_of (cl_files cl) (cpath (blake3 env c)) \<noteq> None \<or> \<not> io (cpath (blake3 env c))")
  case True
  then show ?thesis using inv by (auto simp: cl_store_chunk_def Let_def cpath_def)
next
  case False
  let ?g = "blake3 env c"
  have new: "map_of (cl_chunks cl) ?g = None"
    using client_invD(3)[OF inv, of ?g] False by fastforce
  have st: "snd (cl_store_chunk io ?g c cl) = cl\<lparr>cl_files := insert_or_replace (cpath ?g) c (cl_files cl),
      cl_chunks := insert_or_ignore ?g (length c) (cl_chunks cl)\<rparr>"
    using False by (simp add: cl_store_chunk_def Let_def cpath_def)
  show ?thesis using inv new \<open>c \<in> U\<close> unfolding st client_inv_def file_indexed_def
    by (auto simp: table_simps)
qed

lemma store_file_chunks_frame [simp]:
  "cl_files (store_file_chunks f i rs cl) = cl_files cl" "cl_chunks (store_file_chunks f i rs cl) = cl_chunks cl"
  "cl_dirs (store_file_chunks f i rs cl) = cl_dirs cl" "cl_paths (store_file_chunks f i rs cl) = cl_paths cl"
  by (induction rs arbitrary: i cl) simp_all

lemma map_of_store_file_chunks:
  "map_of (cl_file_chunks (store_file_chunks f i rs cl)) (g, j) =
     (if map_of (cl_file_chunks cl) (g, j) \<noteq> None then map_of (cl_file_chunks cl) (g, j)
      else if g = f \<and> i \<le> j \<and> j < i + length rs then Some (rs ! (j - i)) else None)"
proof (induction rs arbitrary: i cl)
  case (Cons r rs)
  show ?case by (auto simp: Cons table_simps nth_Cons' not_less_eq_eq Suc_le_eq)
next
  case Nil
  show ?case by (cases "map_of (cl_file_chunks cl) (g, j)") auto
qed

lemma wf_store_file_chunks: "wf_table (cl_file_chunks cl) \<Longrightarrow> wf_table (cl_file_chunks (store_file_chunks f i rs cl))"
proof (induction rs arbitrary: i cl)
  case (Cons r rs)
  have "wf_table (insert_or_ignore (f, i) r (cl_file_chunks cl))" using Cons.prems by (rule wf_insert_or_ignore)
  then show ?case using Cons.IH[of "cl\<lparr>cl_file_chunks := insert_or_ignore (f, i) r (cl_file_chunks cl)\<rparr>"] by simp
qed simp

lemma client_inv_file_chunks:
  assumes inj: "inj_on (blake3 env) U" and inv: "client_inv env U cl" and d: "d \<in> U"
  shows "client_inv env U (store_file_chunks (blake3 env d) 0 (rows_for env d) cl) \<and>
    file_indexed env (store_file_chunks (blake3 env d) 0 (rows_for env d) cl) d"
proof -
  let ?cl = "store_file_chunks (blake3 env d) 0 (rows_for env d) cl"
  have len: "length (rows_for env d) = length (cdc env d)" by (simp add: rows_for_def)
  have keep: "map_of (cl_file_chunks ?cl) k = map_of (cl_file_chunks cl) k" if "map_of (cl_file_chunks cl) k \<noteq> None" for k
    using that by (cases k) (simp add: map_of_store_file_chunks)
  have old: "file_indexed env ?cl e" if "file_indexed env cl e" for e
    using that keep unfolding file_indexed_def by (metis option.distinct(1))
  have new: "file_indexed env ?cl d"
  proof (cases "\<exists>j. map_of (cl_file_chunks cl) (blake3 env d, j) \<noteq> None")
    case True
    then obtain j r where "map_of (cl_file_chunks cl) (blake3 env d, j) = Some r" by auto
    then obtain d' where "d' \<in> U" "blake3 env d = blake3 env d'" "file_indexed env cl d'"
      using client_invD(5)[OF inv] by blast
    moreover from this have "d' = d" using inj_onD[OF inj] d by metis
    ultimately show ?thesis using old by simp
  next
    case False
    then show ?thesis by (simp add: file_indexed_def map_of_store_file_chunks len)
  qed
  have "\<exists>e \<in> U. f = blake3 env e \<and> i < length (cdc env e) \<and> file_indexed env ?cl e"
    if r: "map_of (cl_file_chunks ?cl) (f, i) = Some r" for f i r
  proof (cases "map_of (cl_file_chunks cl) (f, i)")
    case None
    then have "f = blake3 env d \<and> i < length (cdc env d)"
      using r by (simp add: map_of_store_file_chunks len split: if_splits)
    then show ?thesis using d new by blast
  next
    case (Some r')
    then show ?thesis using client_invD(5)[OF inv Some] old by blast
  qed
  then have "client_inv env U ?cl" using inv wf_store_file_chunks[of cl] unfolding client_inv_def by simp
  then show ?thesis using new by blast
qed

lemma client_inv_directory:
  assumes inv: "client_inv env U cl" and "encode_dir env x \<in> U"
  shows "client_inv env U (store_directory (blake3 env (encode_dir env x)) (encode_dir env x) cl)"
  using assms unfolding client_inv_def store_directory_def file_indexed_def by (auto simp: table_simps)

lemma client_inv_record:
  "client_inv env U cl \<Longrightarrow> client_inv env U (record_cas_path env now h root cl)"
  unfolding record_cas_path_def by (rule client_inv_paths) (auto simp: client_inv_def)

subsection \<open>Reading back\<close>

lemma cl_chunk_present:
  assumes inj: "inj_on (blake3 env) U" and inv: "client_inv env U cl" and c: "c \<in> U"
    and "map_of (cl_chunks cl) (blake3 env c) \<noteq> None"
  shows "cl_get_chunk cl (blake3 env c) = Some c"
proof -
  obtain c' where "c' \<in> U" "blake3 env c = blake3 env c'" "map_of (cl_files cl) (cpath (blake3 env c)) = Some c'"
    using client_invD(3)[OF inv] assms(4) by blast
  moreover from this have "c' = c" using inj_onD[OF inj] c by metis
  ultimately show ?thesis by (simp add: cl_get_chunk_def cpath_def)
qed

lemma cl_rows_indexed:
  assumes inj: "inj_on (blake3 env) U" and inv: "client_inv env U cl" and d: "d \<in> U" "file_indexed env cl d"
  shows "rows_of (blake3 env d) (cl_file_chunks cl) = rows_for env d"
proof (rule rows_of_eq[OF client_invD(2)[OF inv]])
  fix i
  have len: "length (rows_for env d) = length (cdc env d)" by (simp add: rows_for_def)
  show "map_of (cl_file_chunks cl) (blake3 env d, i) = (if i < length (rows_for env d) then Some (rows_for env d ! i) else None)"
  proof (cases "i < length (cdc env d)")
    case True
    then show ?thesis using d(2) by (simp add: file_indexed_def len)
  next
    case False
    have "map_of (cl_file_chunks cl) (blake3 env d, i) = None"
    proof (rule ccontr)
      assume "\<not> ?thesis"
      then obtain r where "map_of (cl_file_chunks cl) (blake3 env d, i) = Some r" by blast
      then obtain d' where "d' \<in> U" "blake3 env d = blake3 env d'" "i < length (cdc env d')"
        using client_invD(5)[OF inv] by blast
      moreover from this have "d' = d" using inj_onD[OF inj] d(1) by metis
      ultimately show False using False by simp
    qed
    then show ?thesis using False by (simp add: len)
  qed
qed

lemma cl_read_rows_present:
  "cas_env_ok env \<Longrightarrow> \<forall>c \<in> set cs. cl_get_chunk cl (blake3 env c) = Some c \<Longrightarrow>
     cl_read_rows cl (map (\<lambda>c. (blake3 env c, length c)) cs) = Ok (concat cs)"
  by (induction cs) (auto simp: try_digest_def cas_env_okD(1))

lemma cl_file_present:
  assumes env: "cas_env_ok env" and inj: "inj_on (blake3 env) U" and inv: "client_inv env U cl"
    and d: "d \<in> U" "set (cdc env d) \<subseteq> U" "file_indexed env cl d"
    and "\<forall>c \<in> set (cdc env d). map_of (cl_chunks cl) (blake3 env c) \<noteq> None"
  shows "cl_read_file_data cl (blake3 env d) = Ok d"
proof -
  have "\<forall>c \<in> set (cdc env d). cl_get_chunk cl (blake3 env c) = Some c"
    using cl_chunk_present[OF inj inv] assms(5,7) by blast
  then show ?thesis unfolding cl_read_file_data_def cl_rows_indexed[OF inj inv d(1,3)] rows_for_def
    using cl_read_rows_present[OF env] cas_env_okD(2)[OF env, of d] by simp
qed

lemma client_represents:
  assumes env: "cas_env_ok env" and inj: "inj_on (blake3 env) U" and inv: "client_inv env U cl"
    and U: "blobs_of env n \<subseteq> U"
    and files: "\<forall>d \<in> set (files_of n). file_indexed env cl d \<and>
      (\<forall>c \<in> set (cdc env d). map_of (cl_chunks cl) (blake3 env c) \<noteq> None)"
    and dirs: "\<forall>x \<in> set (dirs_of env n). map_of (cl_dirs cl) (blake3 env (encode_dir env x)) = Some (encode_dir env x)"
  shows "represents (store_reader env cl) (root_of env n) n"
proof (rule represents_root_of(1)[OF env]; intro ballI)
  fix d assume d: "d \<in> set (files_of n)"
  then have "d \<in> U" "set (cdc env d) \<subseteq> U" using U by (auto simp: blobs_of_def)
  then show "cr_write_file (store_reader env cl) (blake3 env d) = Ok d"
    using cl_file_present[OF env inj inv] files d by (simp add: store_reader_def)
next
  fix x assume "x \<in> set (dirs_of env n)"
  then show "cr_load_dir (store_reader env cl) (blake3 env (encode_dir env x)) = Ok x"
    using dirs by (simp add: store_reader_def cl_load_directory_def cas_env_okD(5)[OF env])
qed

subsection \<open>What eviction removes\<close>

lemma collect_file_digests_paths:
  "collect_file_digests fuel env (cl\<lparr>cl_paths := P\<rparr>) c out = collect_file_digests fuel env cl c out"
  "collect_file_digests_entries fuel env (cl\<lparr>cl_paths := P\<rparr>) es out = collect_file_digests_entries fuel env cl es out"
proof (induction fuel env cl c out and fuel env cl es out
    rule: collect_file_digests_collect_file_digests_entries.induct)
  case (5 fuel env cl name child es out)
  have "Option.bind (case child of None \<Rightarrow> Some out | Some c \<Rightarrow> collect_file_digests fuel env (cl\<lparr>cl_paths := P\<rparr>) c out)
      (collect_file_digests_entries fuel env (cl\<lparr>cl_paths := P\<rparr>) es) =
    Option.bind (case child of None \<Rightarrow> Some out | Some c \<Rightarrow> collect_file_digests fuel env cl c out)
      (collect_file_digests_entries fuel env cl es)"
    using 5 by (intro Option.bind_cong) (auto split: option.split)
  then show ?case by simp
next
  case (2 fuel env cl c out)
  then show ?case
    by (cases "node c") (auto split: option.split ca_variant.split)
qed simp_all

lemma release_files_others:
  assumes "list_ex (\<lambda>r. fst r \<noteq> h) (cl_paths cl)"
  shows "\<forall>g \<in> set gs. list_ex (\<lambda>r. fst (snd r) = g) (cl_file_chunks cl) \<Longrightarrow>
    \<exists>gs'. release_files h fs gs cl = (gs', cl) \<and> (\<forall>g \<in> set gs'. list_ex (\<lambda>r. fst (snd r) = g) (cl_file_chunks cl))"
proof (induction fs arbitrary: gs)
  case (Cons f fs)
  have "list_ex (\<lambda>r. fst (snd r) = g) (cl_file_chunks cl)"
    if "g \<in> set (List.map_filter (try_digest \<circ> fst) (rows_of f (cl_file_chunks cl)))" for g
    using that by (force simp: set_map_filter set_rows_of list_ex_iff try_digest_def split: if_splits)
  then have "\<forall>g \<in> set (gs @ List.map_filter (try_digest \<circ> fst) (rows_of f (cl_file_chunks cl))).
      list_ex (\<lambda>r. fst (snd r) = g) (cl_file_chunks cl)" using Cons.prems by auto
  from Cons.IH[OF this] show ?case using assms by simp
qed simp

lemma release_chunks_referenced:
  "\<forall>g \<in> set gs. list_ex (\<lambda>r. fst (snd r) = g) (cl_file_chunks cl) \<Longrightarrow> release_chunks io gs freed cl = (freed, cl)"
  by (induction gs) auto

lemma evict_one_not_last:
  assumes "map_of (cl_paths cl) h = Some (rb, t)" and "list_ex (\<lambda>r. fst r \<noteq> h) (cl_paths cl)"
    and fuel: "\<And>root. decode_node env rb = Some root \<Longrightarrow> collect_file_digests fuel env cl root [] \<noteq> None"
  shows "evict_one fuel env io h (freed, cl) = Some (freed, cl\<lparr>cl_paths := delete_key h (cl_paths cl)\<rparr>)"
proof -
  let ?cl = "cl\<lparr>cl_paths := delete_key h (cl_paths cl)\<rparr>"
  obtain fds where fds: "(case decode_node env rb of None \<Rightarrow> Some [] | Some root \<Rightarrow> collect_file_digests fuel env cl root []) = Some fds"
    using fuel by (cases "decode_node env rb") auto
  have "list_ex (\<lambda>r. fst r \<noteq> h) (cl_paths ?cl)" using assms(2) by (force simp: list_ex_iff table_simps)
  from release_files_others[OF this, of "[]" fds] obtain gs where
    "release_files h fds [] ?cl = (gs, ?cl)" "\<forall>g \<in> set gs. list_ex (\<lambda>r. fst (snd r) = g) (cl_file_chunks ?cl)" by auto
  then show ?thesis using assms(1) fds release_chunks_referenced[of gs ?cl io freed] by (simp add: evict_one_def)
qed

lemma evict_loop_prefix:
  assumes "0 < to_free"
  shows "distinct (hs @ [h]) \<Longrightarrow> fst ` set (cl_paths cl) = set (hs @ [h]) \<Longrightarrow>
    (\<forall>k rb t root. map_of (cl_paths cl) k = Some (rb, t) \<longrightarrow> decode_node env rb = Some root \<longrightarrow>
       collect_file_digests fuel env cl root [] \<noteq> None) \<Longrightarrow>
    evict_loop fuel env io to_free (hs @ [h]) (0, cl) =
      evict_one fuel env io h (0, cl\<lparr>cl_paths := filter (\<lambda>r. fst r = h) (cl_paths cl)\<rparr>)"
proof (induction hs arbitrary: cl)
  case Nil
  have "filter (\<lambda>r. fst r = h) (cl_paths cl) = cl_paths cl" using Nil(2) by (intro filter_True) auto
  then show ?case using assms by (simp split: option.split)
next
  case (Cons k hs)
  let ?cl = "cl\<lparr>cl_paths := delete_key k (cl_paths cl)\<rparr>"
  obtain rb t where kb: "map_of (cl_paths cl) k = Some (rb, t)"
    using Cons.prems(2) by (metis append_Cons list.set_intros(1) map_of_eq_None_iff not_None_eq surj_pair)
  have "h \<in> fst ` set (cl_paths cl)" using Cons.prems(2) by simp
  then have "list_ex (\<lambda>r. fst r \<noteq> k) (cl_paths cl)" using Cons.prems(1) by (auto simp: list_ex_iff)
  from evict_one_not_last[OF kb this, of env fuel io 0]
  have one: "evict_one fuel env io k (0, cl) = Some (0, ?cl)" using Cons.prems(3) kb by blast
  have keys: "fst ` set (cl_paths ?cl) = set (hs @ [h])"
  proof -
    have "fst ` set (cl_paths ?cl) = fst ` set (cl_paths cl) - {k}" by (force simp: table_simps)
    then show ?thesis using Cons.prems(1,2) by auto
  qed
  have "filter (\<lambda>r. fst r = h) (delete_key k (cl_paths cl)) = filter (\<lambda>r. fst r = h) (cl_paths cl)"
    using Cons.prems(1) by (auto simp: delete_key_def intro: filter_cong)
  moreover have "evict_loop fuel env io to_free (hs @ [h]) (0, ?cl) =
      evict_one fuel env io h (0, ?cl\<lparr>cl_paths := filter (\<lambda>r. fst r = h) (cl_paths ?cl)\<rparr>)"
  proof (rule Cons.IH)
    show "\<forall>j rb t root. map_of (cl_paths ?cl) j = Some (rb, t) \<longrightarrow> decode_node env rb = Some root \<longrightarrow>
        collect_file_digests fuel env ?cl root [] \<noteq> None"
      using Cons.prems(3) by (auto simp: collect_file_digests_paths table_simps)
  qed (use Cons.prems(1) keys in auto)
  ultimately show ?case using one assms by simp
qed

lemma release_files_fields:
  "release_files h fs gs cl = (gs', cl') \<Longrightarrow> cl_files cl' = cl_files cl \<and> cl_chunks cl' = cl_chunks cl \<and>
     cl_dirs cl' = cl_dirs cl \<and> cl_paths cl' = cl_paths cl \<and>
     (\<forall>f i. f \<notin> set fs \<longrightarrow> map_of (cl_file_chunks cl') (f, i) = map_of (cl_file_chunks cl) (f, i))"
proof (induction fs arbitrary: gs cl)
  case (Cons f fs)
  let ?cl = "if list_ex (\<lambda>r. fst r \<noteq> h) (cl_paths cl) then cl
    else cl\<lparr>cl_file_chunks := filter (\<lambda>r. fst (fst r) \<noteq> f) (cl_file_chunks cl)\<rparr>"
  have "map_of (filter (\<lambda>r. fst (fst r) \<noteq> f) t) (e, i) = map_of t (e, i)" if "e \<noteq> f" for e i and t :: "(digest \<times> nat, digest \<times> nat) table"
    using that by (induction t) auto
  then show ?case using Cons.IH[of _ ?cl] Cons.prems by (auto simp: Let_def split: if_splits)
qed simp

lemma release_chunks_fields:
  "release_chunks io gs freed cl = (freed', cl') \<Longrightarrow> cl_file_chunks cl' = cl_file_chunks cl \<and> cl_dirs cl' = cl_dirs cl \<and>
     cl_paths cl' = cl_paths cl \<and>
     (\<forall>k r. map_of (cl_file_chunks cl) k = Some r \<longrightarrow> map_of (cl_chunks cl') (fst r) = map_of (cl_chunks cl) (fst r) \<and>
        map_of (cl_files cl') (cpath (fst r)) = map_of (cl_files cl) (cpath (fst r)))"
proof (induction gs arbitrary: freed cl)
  case (Cons g gs)
  show ?case
  proof (cases "list_ex (\<lambda>r. fst (snd r) = g) (cl_file_chunks cl)")
    case True
    then show ?thesis using Cons by simp
  next
    case False
    let ?cl = "cl\<lparr>cl_chunks := delete_key g (cl_chunks cl),
        cl_files := (if io (cpath g) then delete_key (cpath g) (cl_files cl) else cl_files cl)\<rparr>"
    have ne: "fst r \<noteq> g" if "map_of (cl_file_chunks cl) k = Some r" for k r
      using False map_of_SomeD[OF that] by (fastforce simp: list_ex_iff)
    have "\<exists>fr. release_chunks io gs fr ?cl = (freed', cl')" using Cons.prems False by (auto simp: Let_def cpath_def)
    then obtain fr where "release_chunks io gs fr ?cl = (freed', cl')" by blast
    from Cons.IH[OF this] have ih: "cl_file_chunks cl' = cl_file_chunks cl" "cl_dirs cl' = cl_dirs cl" "cl_paths cl' = cl_paths cl"
      "\<forall>k r. map_of (cl_file_chunks cl) k = Some r \<longrightarrow> map_of (cl_chunks cl') (fst r) = map_of (cl_chunks ?cl) (fst r) \<and>
         map_of (cl_files cl') (cpath (fst r)) = map_of (cl_files ?cl) (cpath (fst r))" by simp_all
    show ?thesis
    proof (intro conjI allI impI)
      fix k r assume r: "map_of (cl_file_chunks cl) k = Some r"
      have "fst r \<noteq> g" using ne[OF r] .
      then show "map_of (cl_chunks cl') (fst r) = map_of (cl_chunks cl) (fst r)"
        and "map_of (cl_files cl') (cpath (fst r)) = map_of (cl_files cl) (cpath (fst r))"
        using ih(4)[rule_format, OF r] by (simp_all add: table_simps)
    qed (use ih in simp_all)
  qed
qed simp

lemma map_of_filter_key: "map_of (filter (\<lambda>r. fst r = h) t) h = map_of t h"
  by (induction t) auto

text \<open>C37. Eviction of the client store does not bring it under its limit: with more than the allowed
  bytes it forgets every recorded path, but releases chunks of the most recent path only; the chunk
  lists of all other files, and the chunks they name, stay, and no later call frees anything.\<close>

theorem evict_to_size_keeps_older_paths:
  assumes wf: "wf_table (cl_paths cl)" and over: "limit < cl_total_chunk_bytes cl"
    and fuel: "\<forall>k rb t root. map_of (cl_paths cl) k = Some (rb, t) \<longrightarrow> decode_node env rb = Some root \<longrightarrow>
      collect_file_digests fuel env cl root [] \<noteq> None"
    and newest: "map fst (sort_key (\<lambda>r. snd (snd r)) (cl_paths cl)) = hs @ [h]"
    and files: "map_of (cl_paths cl) h = Some (rb, t)" "decode_node env rb = Some root"
      "collect_file_digests fuel env cl root [] = Some fds"
  shows "\<exists>freed cl'. evict_to_size fuel env io limit cl = Some (freed, cl') \<and> cl_paths cl' = [] \<and>
    (\<forall>f i r. map_of (cl_file_chunks cl) (f, i) = Some r \<longrightarrow> f \<notin> set fds \<longrightarrow>
       map_of (cl_file_chunks cl') (f, i) = Some r \<and>
       map_of (cl_chunks cl') (fst r) = map_of (cl_chunks cl) (fst r) \<and>
       map_of (cl_files cl') (cpath (fst r)) = map_of (cl_files cl) (cpath (fst r))) \<and>
    evict_to_size fuel env io limit cl' = Some (0, cl')"
proof -
  have perm: "set (sort_key (\<lambda>r. snd (snd r)) (cl_paths cl)) = set (cl_paths cl)" by simp
  have keys: "fst ` set (cl_paths cl) = set (hs @ [h])"
    using arg_cong[OF newest, of set] by simp
  have "distinct (map fst (sort_key (\<lambda>r. snd (snd r)) (cl_paths cl)))"
    using wf by (simp add: wf_table_def distinct_map)
  then have dist: "distinct (hs @ [h])" unfolding newest .
  let ?cl = "cl\<lparr>cl_paths := filter (\<lambda>r. fst r = h) (cl_paths cl)\<rparr>"
  have "evict_to_size fuel env io limit cl = evict_loop fuel env io (cl_total_chunk_bytes cl - limit) (hs @ [h]) (0, cl)"
    using over newest by (simp add: evict_to_size_def Let_def)
  also have "\<dots> = evict_one fuel env io h (0, ?cl)"
    using over by (intro evict_loop_prefix[OF _ dist keys fuel]) simp
  finally have run: "evict_to_size fuel env io limit cl = evict_one fuel env io h (0, ?cl)" .
  have hb: "map_of (cl_paths ?cl) h = Some (rb, t)" using files(1) map_of_filter_key[of h "cl_paths cl"] by simp
  have none: "delete_key h (cl_paths ?cl) = []" by (simp add: delete_key_def)
  obtain gs cl1 where rel: "release_files h fds [] (?cl\<lparr>cl_paths := []\<rparr>) = (gs, cl1)" by fastforce
  obtain freed cl' where ch: "release_chunks io gs 0 cl1 = (freed, cl')" by fastforce
  have "evict_one fuel env io h (0, ?cl) = Some (freed, cl')"
    using hb files(2,3) none rel ch by (simp add: evict_one_def collect_file_digests_paths)
  moreover have "cl_paths cl' = []" using release_files_fields[OF rel] release_chunks_fields[OF ch] by simp
  moreover have "evict_to_size fuel env io limit cl' = Some (0, cl')"
    using \<open>cl_paths cl' = []\<close> by (simp add: evict_to_size_def Let_def)
  moreover have "map_of (cl_file_chunks cl') (f, i) = Some r \<and> map_of (cl_chunks cl') (fst r) = map_of (cl_chunks cl) (fst r) \<and>
       map_of (cl_files cl') (cpath (fst r)) = map_of (cl_files cl) (cpath (fst r))"
    if "map_of (cl_file_chunks cl) (f, i) = Some r" "f \<notin> set fds" for f i r
  proof -
    have "map_of (cl_file_chunks cl1) (f, i) = Some r" using release_files_fields[OF rel] that by simp
    then show ?thesis using release_files_fields[OF rel] release_chunks_fields[OF ch] by (cases r) auto
  qed
  ultimately show ?thesis unfolding run by blast
qed

definition sample_client :: chunk_store where
  "sample_client =
     (let f1 = CaNode (Some (CaFileNode (Some (sample_blake3 ''one'')) 3 False));
          f2 = CaNode (Some (CaFileNode (Some (sample_blake3 ''two'')) 3 False));
          cl = snd (cl_store_chunk (\<lambda>_. True) (sample_blake3 ''one'') ''one'' open_at);
          cl = snd (cl_store_chunk (\<lambda>_. True) (sample_blake3 ''two'') ''two'' cl);
          cl = store_file_chunks (sample_blake3 ''one'') 0 [(sample_blake3 ''one'', 3)] cl;
          cl = store_file_chunks (sample_blake3 ''two'') 0 [(sample_blake3 ''two'', 3)] cl
      in record_cas_path sample_env 2 ''b'' f2 (record_cas_path sample_env 1 ''a'' f1 cl))"

theorem evict_to_size_keeps_older_paths_witness:
  "\<exists>freed cl'. evict_to_size 3 sample_env (\<lambda>_. True) 4 sample_client = Some (freed, cl') \<and> cl_paths cl' = [] \<and>
     map_of (cl_chunks cl') (sample_blake3 ''one'') = Some 3"
proof -
  let ?f1 = "CaNode (Some (CaFileNode (Some (sample_blake3 ''one'')) 3 False))"
  let ?f2 = "CaNode (Some (CaFileNode (Some (sample_blake3 ''two'')) 3 False))"
  have ne: "sample_blake3 ''one'' \<noteq> sample_blake3 ''two''" by (simp add: sample_blake3_def)
  have len: "length (sample_blake3 x) = 32" for x by (simp add: sample_blake3_def)
  have path: "cpath (sample_blake3 ''one'') \<noteq> cpath (sample_blake3 ''two'')" using ne by simp
  have paths: "cl_paths sample_client = [(''a'', encode_node sample_env ?f1, 1), (''b'', encode_node sample_env ?f2, 2)]"
    and chunks: "cl_chunks sample_client = [(sample_blake3 ''one'', 3), (sample_blake3 ''two'', 3)]"
    and rows: "cl_file_chunks sample_client =
      [((sample_blake3 ''one'', 0), (sample_blake3 ''one'', 3)), ((sample_blake3 ''two'', 0), (sample_blake3 ''two'', 3))]"
    using ne path by (simp_all add: sample_client_def record_cas_path_def cl_store_chunk_def open_at_def Let_def
        insert_or_replace_def insert_or_ignore_def delete_key_def cpath_def)
  have dec: "decode_node sample_env (encode_node sample_env c) = Some c" for c
    using cas_env_okD(6)[OF sample_env_ok] .
  have "\<exists>freed cl'. evict_to_size 3 sample_env (\<lambda>_. True) 4 sample_client = Some (freed, cl') \<and> cl_paths cl' = [] \<and>
    (\<forall>f i r. map_of (cl_file_chunks sample_client) (f, i) = Some r \<longrightarrow> f \<notin> set [sample_blake3 ''two''] \<longrightarrow>
       map_of (cl_file_chunks cl') (f, i) = Some r \<and>
       map_of (cl_chunks cl') (fst r) = map_of (cl_chunks sample_client) (fst r) \<and>
       map_of (cl_files cl') (cpath (fst r)) = map_of (cl_files sample_client) (cpath (fst r))) \<and>
    evict_to_size 3 sample_env (\<lambda>_. True) 4 cl' = Some (0, cl')"
  proof (rule evict_to_size_keeps_older_paths[where hs = "[''a'']" and h = "''b''" and t = 2 and root = ?f2
        and rb = "encode_node sample_env ?f2"])
    show "collect_file_digests 3 sample_env sample_client ?f2 [] = Some [sample_blake3 ''two'']"
      by (simp add: eval_nat_numeral try_digest_def len)
    show "\<forall>k rb t root. map_of (cl_paths sample_client) k = Some (rb, t) \<longrightarrow> decode_node sample_env rb = Some root \<longrightarrow>
        collect_file_digests 3 sample_env sample_client root [] \<noteq> None"
      using dec by (auto simp: paths eval_nat_numeral try_digest_def len split: if_splits)
  qed (simp_all add: paths chunks dec wf_table_def cl_total_chunk_bytes_def)
  then obtain freed cl' where run: "evict_to_size 3 sample_env (\<lambda>_. True) 4 sample_client = Some (freed, cl')" "cl_paths cl' = []"
    and keep: "\<forall>f i r. map_of (cl_file_chunks sample_client) (f, i) = Some r \<longrightarrow> f \<notin> set [sample_blake3 ''two''] \<longrightarrow>
       map_of (cl_chunks cl') (fst r) = map_of (cl_chunks sample_client) (fst r)" by blast
  have "map_of (cl_chunks cl') (fst (sample_blake3 ''one'', 3 :: nat)) = map_of (cl_chunks sample_client) (fst (sample_blake3 ''one'', 3 :: nat))"
    by (rule keep[rule_format, of "sample_blake3 ''one''" 0]) (use ne in \<open>simp_all add: rows\<close>)
  then show ?thesis using run by (simp add: chunks)
qed

end
