(* ===== verification/CasPull.thy ===== *)
theory CasPull
  imports ChunkStore Manifest
begin

text \<open>
  The client's pull at the level of chunks, \<open>crates/ekapkgs/src/cas_pull.rs\<close>: negotiate, index the answer,
  download and check the missing chunks, write the archives from the local store, check their hash,
  stage them for import, record the paths and evict.  Parameters: the server's answer, \<open>get\<close> (an HTTP
  request for a relative URL: status and body, \<open>None\<close> when it fails), \<open>arrive\<close> (the order in which
  concurrent downloads complete) and \<open>import\<close> (the import of the staged paths into the Nix store).
\<close>

subsection \<open>Downloading\<close>

definition fetch_chunk :: "cas_env \<Rightarrow> (string \<Rightarrow> (nat \<times> bytes) option) \<Rightarrow> chunk_download \<Rightarrow> (digest \<times> bytes) option" where
  "fetch_chunk env get cd =
     (case get (cd_url cd) of
        None \<Rightarrow> None
      | Some (st, body) \<Rightarrow>
         (let expected = (case cd_digest cd of None \<Rightarrow> [] | Some g \<Rightarrow> g) in
          if \<not> (200 \<le> st \<and> st < 300) then None
          else if blake3 env body \<noteq> expected then None
          else map_option (\<lambda>g. (g, body)) (try_digest expected)))"

text \<open>A failed download is remembered, a failed write ends the pull.\<close>

fun store_downloads ::
  "(string \<Rightarrow> bool) \<Rightarrow> (digest \<times> bytes) option list \<Rightarrow> bool \<Rightarrow> chunk_store \<Rightarrow> (cas_error + bool) \<times> chunk_store" where
  "store_downloads io [] any_failed cl = (Ok any_failed, cl)"
| "store_downloads io (None # rs) any_failed cl = store_downloads io rs True cl"
| "store_downloads io (Some (g, d) # rs) any_failed cl =
     (case cl_store_chunk io g d cl of
        (Inl e, cl) \<Rightarrow> (Err e, cl)
      | (Inr _, cl) \<Rightarrow> store_downloads io rs any_failed cl)"

subsection \<open>Reassembly\<close>

definition verify_nar_hash :: "cas_env \<Rightarrow> bytes \<Rightarrow> string \<Rightarrow> bool" where
  "verify_nar_hash env nar_bytes expected =
     (if take 7 expected = ''sha256:'' then sha256_hex env nar_bytes = drop 7 expected else True)"

record staged_path =
  sp_hash :: string
  sp_url :: string
  sp_nar :: bytes
  sp_narinfo :: string

definition stage_path ::
  "nat \<Rightarrow> cas_env \<Rightarrow> manifest_entry list \<Rightarrow> chunk_store \<Rightarrow> ca_path_mapping \<Rightarrow> staged_path option" where
  "stage_path fuel env available cl pm =
     (case pm_root_node pm of
        None \<Rightarrow> None
      | Some root \<Rightarrow>
         (case entry_by_hash available (pm_store_path_hash pm) of
            None \<Rightarrow> None
          | Some e \<Rightarrow>
             (case write_nar_streaming fuel (store_reader env cl) root of
                Inl _ \<Rightarrow> None
              | Inr nar_bytes \<Rightarrow>
                  if verify_nar_hash env nar_bytes (me_nar_hash e)
                  then Some \<lparr>sp_hash = pm_store_path_hash pm, sp_url = me_url e, sp_nar = nar_bytes,
                             sp_narinfo = build_narinfo_text e\<rparr>
                  else None)))"

definition record_paths :: "cas_env \<Rightarrow> nat \<Rightarrow> ca_path_mapping list \<Rightarrow> chunk_store \<Rightarrow> chunk_store" where
  "record_paths env now pms cl =
     fold (\<lambda>pm cl. case pm_root_node pm of None \<Rightarrow> cl | Some root \<Rightarrow> record_cas_path env now (pm_store_path_hash pm) root cl)
       pms cl"

definition DEFAULT_MAX_CACHE_BYTES :: nat where
  "DEFAULT_MAX_CACHE_BYTES = 10 * 1024 * 1024 * 1024"

subsection \<open>The pull\<close>

datatype pull_error = NegotiateFailed status | StoreFailed cas_error | ImportFailed

text \<open>The staged paths are those imported; the store is \<open>None\<close> when the eviction ran out of fuel.\<close>

definition cas_pull ::
  "nat \<Rightarrow> cas_env \<Rightarrow> (string \<Rightarrow> bool) \<Rightarrow> nat \<Rightarrow> status + chunk_negotiate_response
   \<Rightarrow> (string \<Rightarrow> (nat \<times> bytes) option)
   \<Rightarrow> ((digest \<times> bytes) option list \<Rightarrow> (digest \<times> bytes) option list) \<Rightarrow> (staged_path list \<Rightarrow> bool)
   \<Rightarrow> manifest_entry list \<Rightarrow> chunk_store \<Rightarrow> (pull_error + bool) \<times> staged_path list \<times> chunk_store option" where
  "cas_pull fuel env io now answer get arrive import available cl =
     (case answer of
        Inl Unimplemented \<Rightarrow> (Ok False, [], Some cl)
      | Inl e \<Rightarrow> (Err (NegotiateFailed e), [], Some cl)
      | Inr resp \<Rightarrow>
          if cr_path_mappings resp = [] then (Ok False, [], Some cl)
          else let cl = index_response env resp cl;
                   downloads = arrive (map (fetch_chunk env get) (cr_missing_chunks resp))
               in case (if cr_missing_chunks resp \<noteq> [] then store_downloads io downloads False cl else (Ok False, cl)) of
                    (Inl e, cl) \<Rightarrow> (Err (StoreFailed e), [], Some cl)
                  | (Inr True, cl) \<Rightarrow> (Ok False, [], Some cl)
                  | (Inr False, cl) \<Rightarrow>
                     (let staged = List.map_filter (stage_path fuel env available cl) (cr_path_mappings resp) in
                      if staged = [] then (Ok False, [], Some cl)
                      else if \<not> import staged then (Err ImportFailed, [], Some cl)
                      else let cl = record_paths env now (cr_path_mappings resp) cl
                           in (Ok True, staged,
                               map_option snd (evict_to_size fuel env io (DEFAULT_MAX_CACHE_BYTES * 4 div 5) cl))))"

subsection \<open>Indexing an honest answer\<close>

lemma index_directories:
  assumes env: "cas_env_ok env" and inj: "inj_on (blake3 env) U"
  shows "client_inv env U cl \<Longrightarrow> \<forall>(g, x) \<in> set ds. g = blake3 env (encode_dir env x) \<and> encode_dir env x \<in> U \<Longrightarrow>
    cl' = fold (index_directory env) (map to_directory_data ds) cl \<Longrightarrow>
    client_inv env U cl' \<and> cl_chunks cl' = cl_chunks cl \<and> cl_files cl' = cl_files cl \<and>
    cl_file_chunks cl' = cl_file_chunks cl \<and> cl_paths cl' = cl_paths cl \<and>
    (\<forall>g b. map_of (cl_dirs cl) g = Some b \<longrightarrow> map_of (cl_dirs cl') g = Some b) \<and>
    (\<forall>(g, x) \<in> set ds. map_of (cl_dirs cl') g = Some (encode_dir env x))"
proof (induction ds arbitrary: cl)
  case Nil
  then show ?case by simp
next
  case (Cons r ds)
  obtain g x where r: "r = (g, x)" by fastforce
  have g: "g = blake3 env (encode_dir env x)" "encode_dir env x \<in> U" using Cons.prems(2) r by auto
  let ?cl = "store_directory g (encode_dir env x) cl"
  have one: "index_directory env (to_directory_data r) cl = ?cl"
    by (simp add: r index_directory_def to_directory_data_def try_digest_def g cas_env_okD(1)[OF env])
  have inv: "client_inv env U ?cl" using client_inv_directory[OF Cons.prems(1) g(2)] g(1) by simp
  have here: "map_of (cl_dirs ?cl) g = Some (encode_dir env x)"
  proof (cases "map_of (cl_dirs cl) g")
    case None
    then show ?thesis by (simp add: store_directory_def table_simps)
  next
    case (Some b)
    then have "b \<in> U" "blake3 env b = blake3 env (encode_dir env x)"
      using client_invD(6)[OF Cons.prems(1) Some] g(1) by simp_all
    then have "b = encode_dir env x" using inj_onD[OF inj] g(2) by metis
    then show ?thesis using Some by (simp add: store_directory_def table_simps)
  qed
  have keep: "map_of (cl_dirs ?cl) k = Some b" if "map_of (cl_dirs cl) k = Some b" for k b
    using that by (auto simp: store_directory_def table_simps)
  have frame: "cl_chunks ?cl = cl_chunks cl" "cl_files ?cl = cl_files cl" "cl_file_chunks ?cl = cl_file_chunks cl"
      "cl_paths ?cl = cl_paths cl" by (simp_all add: store_directory_def)
  have "\<forall>(g, x) \<in> set ds. g = blake3 env (encode_dir env x) \<and> encode_dir env x \<in> U" using Cons.prems(2) by auto
  from Cons.IH[OF inv this] Cons.prems(3) one have ih: "client_inv env U cl'" "cl_chunks cl' = cl_chunks ?cl"
    "cl_files cl' = cl_files ?cl" "cl_file_chunks cl' = cl_file_chunks ?cl" "cl_paths cl' = cl_paths ?cl"
    "\<forall>g b. map_of (cl_dirs ?cl) g = Some b \<longrightarrow> map_of (cl_dirs cl') g = Some b"
    "\<forall>(g, x) \<in> set ds. map_of (cl_dirs cl') g = Some (encode_dir env x)" by simp_all
  have "map_of (cl_dirs cl') g = Some (encode_dir env x)" using ih(6) here by blast
  moreover have "\<forall>g b. map_of (cl_dirs cl) g = Some b \<longrightarrow> map_of (cl_dirs cl') g = Some b"
    using ih(6) keep by blast
  ultimately show ?case using ih frame r by simp
qed

lemma to_mapping_chunks:
  "cas_env_ok env \<Longrightarrow> List.map_filter (\<lambda>cm. map_option (\<lambda>g. (g, cm_size cm)) (Option.bind (cm_digest cm) try_digest))
     (fm_chunks (to_mapping (f, rows_for env d))) = rows_for env d"
proof -
  assume env: "cas_env_ok env"
  have "List.map_filter (\<lambda>cm. map_option (\<lambda>g. (g, cm_size cm)) (Option.bind (cm_digest cm) try_digest))
      (map (\<lambda>(g, sz). \<lparr>cm_digest = Some g, cm_size = sz\<rparr>) (map (\<lambda>c. (blake3 env c, length c)) cs)) =
    map (\<lambda>c. (blake3 env c, length c)) cs" for cs
    by (induction cs) (simp_all add: List.map_filter_simps try_digest_def cas_env_okD(1)[OF env])
  then show ?thesis by (simp add: to_mapping_def rows_for_def)
qed

lemma index_mappings:
  assumes env: "cas_env_ok env" and inj: "inj_on (blake3 env) U"
  shows "client_inv env U cl \<Longrightarrow>
    \<forall>(f, rows) \<in> set fs. \<exists>d \<in> U. f = blake3 env d \<and> rows = rows_for env d \<and> cdc env d \<noteq> [] \<Longrightarrow>
    cl' = fold index_mapping (map to_mapping fs) cl \<Longrightarrow>
    client_inv env U cl' \<and> cl_chunks cl' = cl_chunks cl \<and> cl_files cl' = cl_files cl \<and> cl_dirs cl' = cl_dirs cl \<and>
    cl_paths cl' = cl_paths cl \<and> (\<forall>d. file_indexed env cl d \<longrightarrow> file_indexed env cl' d) \<and>
    (\<forall>d \<in> U. (blake3 env d, rows_for env d) \<in> set fs \<longrightarrow> file_indexed env cl' d)"
proof (induction fs arbitrary: cl)
  case Nil
  then show ?case by simp
next
  case (Cons r fs)
  obtain f rows where r: "r = (f, rows)" by fastforce
  obtain d where d: "d \<in> U" "f = blake3 env d" "rows = rows_for env d" "cdc env d \<noteq> []" using Cons.prems(2) r by auto
  let ?cl = "store_file_chunks f 0 rows cl"
  have ne: "rows_for env d \<noteq> []" using d(4) by (simp add: rows_for_def)
  have "index_mapping (to_mapping (blake3 env d, rows_for env d)) cl =
      (let chunks = List.map_filter (\<lambda>cm. map_option (\<lambda>g. (g, cm_size cm)) (Option.bind (cm_digest cm) try_digest))
         (fm_chunks (to_mapping (blake3 env d, rows_for env d))) in if chunks \<noteq> [] then store_file_chunks (blake3 env d) 0 chunks cl else cl)"
    by (simp add: index_mapping_def to_mapping_def[of "(blake3 env d, rows_for env d)"] try_digest_def cas_env_okD(1)[OF env])
  then have one: "index_mapping (to_mapping r) cl = ?cl" unfolding to_mapping_chunks[OF env] by (simp add: r d(2,3) ne Let_def)
  have inv: "client_inv env U ?cl" "file_indexed env ?cl d"
    using client_inv_file_chunks[OF inj Cons.prems(1) d(1)] d(2,3) by simp_all
  have keep: "file_indexed env ?cl e" if "file_indexed env cl e" for e
    using that by (simp add: file_indexed_def map_of_store_file_chunks)
  have "\<forall>(f, rows) \<in> set fs. \<exists>d \<in> U. f = blake3 env d \<and> rows = rows_for env d \<and> cdc env d \<noteq> []" using Cons.prems(2) by auto
  from Cons.IH[OF inv(1) this] Cons.prems(3) one have ih: "client_inv env U cl'" "cl_chunks cl' = cl_chunks ?cl"
    "cl_files cl' = cl_files ?cl" "cl_dirs cl' = cl_dirs ?cl" "cl_paths cl' = cl_paths ?cl"
    "\<forall>d. file_indexed env ?cl d \<longrightarrow> file_indexed env cl' d"
    "\<forall>d \<in> U. (blake3 env d, rows_for env d) \<in> set fs \<longrightarrow> file_indexed env cl' d" by simp_all
  have "file_indexed env cl' e" if "e \<in> U" "(blake3 env e, rows_for env e) = r" for e
  proof -
    have "blake3 env e = blake3 env d" using that(2) by (simp add: r d(2))
    then have "e = d" using inj_onD[OF inj] that(1) d(1) by metis
    then show ?thesis using ih(6) inv(2) by blast
  qed
  then show ?case using ih keep by auto
qed

subsection \<open>Storing what arrived\<close>

lemma cl_store_chunk_present:
  assumes inv: "client_inv env U cl" and c: "c \<in> U" and io: "\<forall>p. io p"
  shows "\<exists>cl'. cl_store_chunk io (blake3 env c) c cl = (Ok (), cl') \<and> client_inv env U cl' \<and>
    (\<forall>g. map_of (cl_chunks cl) g \<noteq> None \<longrightarrow> map_of (cl_chunks cl') g \<noteq> None) \<and> map_of (cl_chunks cl') (blake3 env c) \<noteq> None \<and>
    cl_file_chunks cl' = cl_file_chunks cl \<and> cl_dirs cl' = cl_dirs cl \<and> cl_paths cl' = cl_paths cl"
proof -
  have "fst (cl_store_chunk io (blake3 env c) c cl) = Ok ()" using io by (simp add: cl_store_chunk_def Let_def)
  then obtain cl' where run: "cl_store_chunk io (blake3 env c) c cl = (Ok (), cl')" by (metis prod.collapse)
  have inv': "client_inv env U cl'" using client_inv_store_chunk[OF inv c, of io] run by simp
  have "cl_file_chunks cl' = cl_file_chunks cl \<and> cl_dirs cl' = cl_dirs cl \<and> cl_paths cl' = cl_paths cl \<and>
      (\<forall>g. map_of (cl_chunks cl) g \<noteq> None \<longrightarrow> map_of (cl_chunks cl') g \<noteq> None)"
    using run io by (auto simp: cl_store_chunk_def Let_def table_simps split: if_splits)
  moreover have "map_of (cl_chunks cl') (blake3 env c) \<noteq> None"
  proof (cases "map_of (cl_files cl) (cpath (blake3 env c))")
    case None
    then show ?thesis using run io by (auto simp: cl_store_chunk_def Let_def cpath_def table_simps)
  next
    case (Some b)
    then show ?thesis using run client_invD(4)[OF inv Some] by (auto simp: cl_store_chunk_def Let_def cpath_def)
  qed
  ultimately show ?thesis using run inv' by blast
qed

lemma store_downloads_present:
  assumes io: "\<forall>p. io p"
  shows "client_inv env U cl \<Longrightarrow> \<forall>r \<in> set rs. \<exists>c \<in> U. r = Some (blake3 env c, c) \<Longrightarrow>
    \<exists>cl'. store_downloads io rs b cl = (Ok b, cl') \<and> client_inv env U cl' \<and>
      (\<forall>g. map_of (cl_chunks cl) g \<noteq> None \<longrightarrow> map_of (cl_chunks cl') g \<noteq> None) \<and>
      (\<forall>c. Some (blake3 env c, c) \<in> set rs \<longrightarrow> map_of (cl_chunks cl') (blake3 env c) \<noteq> None) \<and>
      cl_file_chunks cl' = cl_file_chunks cl \<and> cl_dirs cl' = cl_dirs cl \<and> cl_paths cl' = cl_paths cl"
proof (induction rs arbitrary: cl)
  case (Cons r rs)
  obtain c where c: "c \<in> U" "r = Some (blake3 env c, c)" using Cons.prems(2) by auto
  obtain cl1 where 1: "cl_store_chunk io (blake3 env c) c cl = (Ok (), cl1)" "client_inv env U cl1"
    "\<forall>g. map_of (cl_chunks cl) g \<noteq> None \<longrightarrow> map_of (cl_chunks cl1) g \<noteq> None" "map_of (cl_chunks cl1) (blake3 env c) \<noteq> None"
    "cl_file_chunks cl1 = cl_file_chunks cl" "cl_dirs cl1 = cl_dirs cl" "cl_paths cl1 = cl_paths cl"
    using cl_store_chunk_present[OF Cons.prems(1) c(1) io] by (elim exE conjE)
  have "\<forall>r \<in> set rs. \<exists>c \<in> U. r = Some (blake3 env c, c)" using Cons.prems(2) by simp
  from Cons.IH[OF 1(2) this] obtain cl2 where 2: "store_downloads io rs b cl1 = (Ok b, cl2)" "client_inv env U cl2"
    "\<forall>g. map_of (cl_chunks cl1) g \<noteq> None \<longrightarrow> map_of (cl_chunks cl2) g \<noteq> None"
    "\<forall>c. Some (blake3 env c, c) \<in> set rs \<longrightarrow> map_of (cl_chunks cl2) (blake3 env c) \<noteq> None"
    "cl_file_chunks cl2 = cl_file_chunks cl1" "cl_dirs cl2 = cl_dirs cl1" "cl_paths cl2 = cl_paths cl1" by (elim exE conjE)
  have "\<forall>e. Some (blake3 env e, e) \<in> set (r # rs) \<longrightarrow> map_of (cl_chunks cl2) (blake3 env e) \<noteq> None"
    using 1(4) 2(3,4) c(2) by auto
  then show ?case using 1 2 c(2) by (intro exI[of _ cl2]) simp
qed simp

subsection \<open>The whole pull\<close>

lemma holds_mono:
  assumes h: "holds env U st m" and sub: "U \<subseteq> V"
  shows "holds env V st m"
proof -
  have db: "db_inv env U (st_db st)" and fi: "files_inv env U st" and ca: "cache_inv env st"
    using h unfolding holds_def castore_inv_def by blast+
  have "db_inv env V (st_db st)" using db sub unfolding db_inv_def by (meson subset_iff subset_trans)
  moreover have "files_inv env V st" using fi sub unfolding files_inv_def chunk_ok_def by (meson subset_iff)
  moreover have "row_holds env V (st_db st) k q r" if "row_holds env U (st_db st) k q r" for k q r
    using that sub unfolding row_holds_def path_holds_def by (cases q) auto
  ultimately show ?thesis using h ca unfolding holds_def castore_inv_def by blast
qed

text \<open>The client's claim is exact when it is small.\<close>

lemma exact_claim:
  assumes "length (all_chunk_digests cl) \<le> BLOOM_THRESHOLD"
  shows "have_check (chunk_request fl want hv (all_chunk_digests cl)) = Exact (set (all_chunk_digests cl))"
proof -
  have "List.map_filter try_digest (all_chunk_digests cl) = all_chunk_digests cl"
  proof -
    have "List.map_filter try_digest (List.map_filter (try_digest \<circ> fst) t) = List.map_filter (try_digest \<circ> fst) t"
      for t :: "(digest, nat) table" by (induction t) (auto simp: List.map_filter_simps try_digest_def)
    then show ?thesis by (simp add: all_chunk_digests_def)
  qed
  then show ?thesis using assms by (simp add: have_check_def chunk_request_def)
qed

lemma claimed_chunk:
  assumes env: "cas_env_ok env"
  shows "blake3 env c \<in> set (all_chunk_digests cl) \<longleftrightarrow> map_of (cl_chunks cl) (blake3 env c) \<noteq> None"
  by (force simp: all_chunk_digests_def set_map_filter try_digest_def cas_env_okD(1)[OF env] map_of_eq_None_iff)

lemma List_map_filter_member: "x \<in> set xs \<Longrightarrow> f x = Some y \<Longrightarrow> y \<in> set (List.map_filter f xs)"
  by (auto simp: set_map_filter)

text \<open>C2. A pull delivers: a client with any well-formed store of at most a thousand chunks that asks a
  server with any history for some paths, and whose downloads reach the server, ends with the archive
  of every wanted path staged for import byte for byte (its entries sorted), whatever order the
  downloads arrive in, provided the server holds the archive and the path has a manifest entry that
  \<open>verify_nar_hash\<close> accepts for it: one whose hash is the SHA-256 of the archive in hexadecimal, or does
  not start with \<open>sha256:\<close>.  (For Nix's base-32 hashes see \<open>base32_hash_is_never_pulled\<close>.)  Assumed: no
  digest collision, no failing disk write, an import that succeeds.\<close>

theorem cas_pull_delivers:
  assumes env: "cas_env_ok env" and inj: "inj_on (blake3 env) U" and io: "\<forall>p. io p"
    and sub: "history_blobs env as \<subseteq> U" and fits: "\<forall>a \<in> set as. op_fits fuel (snd a)" and "0 < fuel"
    and st: "st = run_store fuel env fl io as (new_castore fl level clock)"
    and cl: "client_inv env U cl" and small: "length (all_chunk_digests cl) \<le> BLOOM_THRESHOLD"
    and req: "length want \<le> MAX_CHUNK_WANT" "length hv \<le> MAX_CHUNK_HAVE"
    and route: "\<forall>x. get (''cas/chunk/'' @ x) = (case get_chunk_handler env (Some st) x of Inr r \<Rightarrow> Some r | Inl _ \<Rightarrow> None)"
    and arrive: "\<forall>xs. set (arrive xs) = set xs" and imp: "\<forall>s. import s"
    and h: "h \<in> set want" "run_spec as h = Some (Some n)"
    and entry: "entry_by_hash available h = Some e" "verify_nar_hash env (write_nar (sort_nar n)) (me_nar_hash e)"
  shows "\<exists>answer accesses st' staged cl'.
    negotiate_chunks fuel env (chunk_request fl want hv (all_chunk_digests cl)) (Some st) = Some (answer, accesses, st') \<and>
    cas_pull fuel env io now answer get arrive import available cl = (Ok True, staged, cl') \<and>
    \<lparr>sp_hash = h, sp_url = me_url e, sp_nar = write_nar (sort_nar n), sp_narinfo = build_narinfo_text e\<rparr> \<in> set staged"
proof -
  let ?m = "run_spec as"
  let ?req = "chunk_request fl want hv (all_chunk_digests cl)"
  let ?have = "Exact (set (all_chunk_digests cl))"
  have inj0: "inj_on (blake3 env) (history_blobs env as)" using inj sub by (rule inj_on_subset)
  have "holds env (history_blobs env as) st ?m" unfolding st by (rule holds_run[OF env inj0 io fits])
  then have hold: "holds env U st ?m" using sub by (rule holds_mono)
  have fuel: "\<forall>k n. ?m k = Some (Some n) \<longrightarrow> nar_fuel n \<le> fuel"
    using spec_fuel[of Map.empty fuel as] fits by (simp add: run_spec_def)
  have files: "files_inv env U st" using hold unfolding holds_def castore_inv_def by blast
  \<comment> \<open>the server's answer\<close>
  have "length (all_chunk_digests cl) \<le> MAX_HAVE_CHUNKS" using small by (simp add: BLOOM_THRESHOLD_def MAX_HAVE_CHUNKS_def)
  then have chk: "check_request ?req = Ok ()" using small req by (simp add: check_request_def chunk_request_def)
  define hs where "hs = filter (\<lambda>k. ?m k \<noteq> None) want"
  define pms where "pms = map (\<lambda>k. \<lparr>pm_store_path_hash = k,
    pm_root_node = Some (case the (?m k) of None \<Rightarrow> CaNode None | Some n \<Rightarrow> root_of env n)\<rparr>) hs"
  have want: "cq_want ?req = want" by (simp add: chunk_request_def Let_def)
  have roots: "collect_roots env st (cq_want ?req) = (pms, filter (\<lambda>k. ?m k = None) want)"
    unfolding want pms_def hs_def by (rule collect_roots_holds[OF env hold])
  have pmh: "map pm_store_path_hash pms = hs" by (simp add: pms_def comp_def)
  from walk_hashes_holds[OF env inj \<open>0 < fuel\<close> fuel hold walk_ok_init, where hv = ?have and hs = hs] obtain w st' where
      w: "walk_hashes fuel env ?have hs (walk_init, st) = Some (Ok (w, st'))" "walk_ok env U (st_db st) ?have {} w"
      "\<forall>k \<in> set hs. \<forall>n. ?m k = Some (Some n) \<longrightarrow> covered w (root_of env n)" by (elim exE conjE)
  define resp where "resp = \<lparr>cr_path_mappings = pms, cr_missing_chunks = map to_download (wk_missing w),
    cr_unavailable = filter (\<lambda>k. ?m k = None) want,
    cr_total_chunk_size = sum_list (map cd_size (map to_download (wk_missing w))),
    cr_directories = map to_directory_data (wk_dirs w), cr_file_chunk_mappings = map to_mapping (wk_files w)\<rparr>"
  have ans: "negotiate_chunks fuel env ?req (Some st) = Some (Ok resp, hs, Some st')"
    using w(1) chk by (simp add: negotiate_chunks_def roots pmh exact_claim[OF small] walk_cas_trees_def resp_def Let_def)
  \<comment> \<open>indexing it\<close>
  have dirs: "\<forall>(g, x) \<in> set (wk_dirs w). g = blake3 env (encode_dir env x) \<and> encode_dir env x \<in> U"
    using w(2) unfolding walk_ok_def dirs_ok_def by blast
  have maps: "\<forall>(f, rows) \<in> set (wk_files w). \<exists>d \<in> U. f = blake3 env d \<and> rows = rows_for env d \<and> cdc env d \<noteq> []"
    using w(2) unfolding walk_ok_def files_ok_def by blast
  define cl1 where "cl1 = fold (index_directory env) (map to_directory_data (wk_dirs w)) cl"
  define cl2 where "cl2 = fold index_mapping (map to_mapping (wk_files w)) cl1"
  have index: "index_response env resp cl = cl2" by (simp add: index_response_def resp_def cl1_def cl2_def)
  note i1 = index_directories[OF env inj cl dirs cl1_def]
  then have inv1: "client_inv env U cl1" by blast
  note i2 = index_mappings[OF env inj inv1 maps cl2_def]
  then have inv2: "client_inv env U cl2" by blast
  \<comment> \<open>the downloads\<close>
  have served: "\<exists>c \<in> U. fetch_chunk env get (to_download m) = Some (blake3 env c, c) \<and> cm_digest m = Some (blake3 env c)"
    if m: "m \<in> set (wk_missing w)" for m
  proof -
    obtain c where c: "c \<in> U" "cm_digest m = Some (blake3 env c)" "map_of (db_chunks (st_db st)) (blake3 env c) \<noteq> None"
      using w(2) m unfolding walk_ok_def missing_ok_def by blast
    have "get_chunk_handler env (Some st) (hex_encode (blake3 env c)) = Ok (200, c)"
      using get_chunk_stored[OF env inj files c(1,3)] by (rule get_chunk_handler_serves) (rule cas_env_okD(1)[OF env])
    then have "fetch_chunk env get (to_download m) = Some (blake3 env c, c)"
      using route c(2) by (simp add: fetch_chunk_def to_download_def chunk_url_def try_digest_def cas_env_okD(1)[OF env])
    then show ?thesis using c by blast
  qed
  define rs where "rs = arrive (map (fetch_chunk env get) (cr_missing_chunks resp))"
  have rs_set: "set rs = (\<lambda>m. fetch_chunk env get (to_download m)) ` set (wk_missing w)"
    using arrive by (simp add: rs_def resp_def image_image)
  have "\<forall>r \<in> set rs. \<exists>c \<in> U. r = Some (blake3 env c, c)" using served unfolding rs_set by blast
  from store_downloads_present[OF io inv2 this, of False] obtain cl3 where
    3: "store_downloads io rs False cl2 = (Ok False, cl3)" "client_inv env U cl3"
      "\<forall>g. map_of (cl_chunks cl2) g \<noteq> None \<longrightarrow> map_of (cl_chunks cl3) g \<noteq> None"
      "\<forall>c. Some (blake3 env c, c) \<in> set rs \<longrightarrow> map_of (cl_chunks cl3) (blake3 env c) \<noteq> None"
      "cl_file_chunks cl3 = cl_file_chunks cl2" "cl_dirs cl3 = cl_dirs cl2" "cl_paths cl3 = cl_paths cl2" by (elim exE conjE)
  have down: "(if cr_missing_chunks resp \<noteq> [] then store_downloads io rs False cl2 else (Ok False, cl2)) = (Ok False, cl3)"
  proof (cases "cr_missing_chunks resp = []")
    case True
    then have "rs = []" using rs_set by (simp add: resp_def)
    then show ?thesis using 3(1) True by simp
  next
    case False
    then show ?thesis using 3(1) by simp
  qed
  \<comment> \<open>the wanted archive\<close>
  have hin: "h \<in> set hs" using h by (simp add: hs_def)
  have U: "blobs_of env n \<subseteq> U" using holds_tree[OF hold h(2)] by blast
  have cov: "covered w (root_of env n)" using w(3) hin h(2) by blast
  note cc = covered_complete(1)[OF env inj w(2) U cov]
  have fs: "file_indexed env cl3 d \<and> (\<forall>c \<in> set (cdc env d). map_of (cl_chunks cl3) (blake3 env c) \<noteq> None)"
    if d: "d \<in> set (files_of n)" for d
  proof (cases "d = []")
    case True
    then show ?thesis using cdc_Nil[OF env, of d] by (simp add: file_indexed_def)
  next
    case False
    have dU: "d \<in> U" "set (cdc env d) \<subseteq> U" using U d by (auto simp: blobs_of_def)
    have row: "(blake3 env d, rows_for env d) \<in> set (wk_files w)" using cc d False by blast
    then have "file_indexed env cl2 d" using i2 dU(1) by blast
    moreover have "map_of (cl_chunks cl3) (blake3 env c) \<noteq> None" if c: "c \<in> set (cdc env d)" for c
    proof -
      have "have_contains ?have (blake3 env c) \<or> (\<exists>m \<in> set (wk_missing w). cm_digest m = Some (blake3 env c))"
        by (rule walk_ok_chunk[OF inj w(2) dU(1) row c])
      then show ?thesis
      proof
        assume "have_contains ?have (blake3 env c)"
        then have "map_of (cl_chunks cl) (blake3 env c) \<noteq> None" using claimed_chunk[OF env] by simp
        then show ?thesis using 3(3) i1 i2 by simp
      next
        assume "\<exists>m \<in> set (wk_missing w). cm_digest m = Some (blake3 env c)"
        then obtain m c' where m: "m \<in> set (wk_missing w)" "c' \<in> U" "blake3 env c' = blake3 env c"
          "fetch_chunk env get (to_download m) = Some (blake3 env c', c')" using served by force
        then have "Some (blake3 env c', c') \<in> set rs" unfolding rs_set by force
        then show ?thesis using 3(4) m(3) by metis
      qed
    qed
    ultimately show ?thesis by (simp add: file_indexed_def 3(5))
  qed
  have ds: "\<forall>x \<in> set (dirs_of env n). map_of (cl_dirs cl3) (blake3 env (encode_dir env x)) = Some (encode_dir env x)"
    using cc i1 i2 3(6) by fastforce
  have "represents (store_reader env cl3) (root_of env n) n"
    using fs ds by (intro client_represents[OF env inj 3(2) U]) blast+
  then have nar: "write_nar_streaming fuel (store_reader env cl3) (root_of env n) = Ok (write_nar (sort_nar n))"
    using fuel h(2) by (intro represents_streaming) blast+
  let ?s = "\<lparr>sp_hash = h, sp_url = me_url e, sp_nar = write_nar (sort_nar n), sp_narinfo = build_narinfo_text e\<rparr>"
  let ?pm = "\<lparr>pm_store_path_hash = h, pm_root_node = Some (root_of env n)\<rparr>"
  have pm: "?pm \<in> set pms" using hin h(2) by (force simp: pms_def)
  have "stage_path fuel env available cl3 ?pm = Some ?s" using nar entry by (simp add: stage_path_def)
  then have s: "?s \<in> set (List.map_filter (stage_path fuel env available cl3) pms)"
    using pm by (intro List_map_filter_member)
  then have ne: "List.map_filter (stage_path fuel env available cl3) pms \<noteq> []" by auto
  have "pms \<noteq> []" using pm by auto
  then have "cas_pull fuel env io now (Ok resp) get arrive import available cl =
    (Ok True, List.map_filter (stage_path fuel env available cl3) pms,
     map_option snd (evict_to_size fuel env io (DEFAULT_MAX_CACHE_BYTES * 4 div 5) (record_paths env now pms cl3)))"
  proof -
    have pmr: "cr_path_mappings resp = pms" by (simp add: resp_def)
    show ?thesis
    proof (cases "cr_missing_chunks resp = []")
      case True
      then show ?thesis using down ne imp \<open>pms \<noteq> []\<close> by (simp add: cas_pull_def index pmr)
    next
      case False
      then have "store_downloads io (arrive (map (fetch_chunk env get) (cr_missing_chunks resp))) False cl2 = (Ok False, cl3)"
        using down unfolding rs_def by simp
      then show ?thesis using False ne imp \<open>pms \<noteq> []\<close> by (simp add: cas_pull_def index pmr)
    qed
  qed
  then show ?thesis using ans s by blast
qed

definition sample_get :: "(string \<Rightarrow> slice_panic + nat \<times> bytes) \<Rightarrow> string \<Rightarrow> (nat \<times> bytes) option" where
  "sample_get handler u = (if take 10 u = ''cas/chunk/'' then (case handler (drop 10 u) of Inr r \<Rightarrow> Some r | Inl _ \<Rightarrow> None) else None)"

definition sample_entry :: manifest_entry where
  "sample_entry = (manifest_entry_of (\<lambda>_. ''k:s'') sample_narinfo)
     \<lparr>me_nar_hash := ''sha256:'' @ show_nat (length (write_nar (sort_nar sample_nar)))\<rparr>"

theorem cas_pull_delivers_witness:
  "let st = run_store 9 sample_env toy_sizes (\<lambda>_. True) [sample_put] (new_castore toy_sizes 3 0);
       get = sample_get (get_chunk_handler sample_env (Some st)) in
   \<exists>answer accesses st' staged cl'.
     negotiate_chunks 9 sample_env (chunk_request toy_sizes [''abc''] [] (all_chunk_digests open_at)) (Some st)
       = Some (answer, accesses, st') \<and>
     cas_pull 9 sample_env (\<lambda>_. True) 7 answer get rev (\<lambda>_. True) [sample_entry] open_at = (Ok True, staged, cl') \<and>
     \<lparr>sp_hash = ''abc'', sp_url = ''nar/abc.nar'', sp_nar = write_nar (sort_nar sample_nar),
      sp_narinfo = build_narinfo_text sample_entry\<rparr> \<in> set staged"
proof -
  let ?st = "run_store 9 sample_env toy_sizes (\<lambda>_. True) [sample_put] (new_castore toy_sizes 3 0)"
  have inj: "inj_on (blake3 sample_env) (history_blobs sample_env [sample_put])"
    using sample_nar_inj by (simp add: sample_history)
  have e: "entry_by_hash [sample_entry] ''abc'' = Some sample_entry"
    by (simp add: entry_by_hash_def sample_entry_def path_hash_def manifest_entry_of_def add_signature_def
        sample_narinfo_def last_segment_def first_segment_def)
  have v: "verify_nar_hash sample_env (write_nar (sort_nar sample_nar)) (me_nar_hash sample_entry)"
    by (simp add: verify_nar_hash_def sample_entry_def sample_env_def)
  have u: "me_url sample_entry = ''nar/abc.nar''"
    by (simp add: sample_entry_def manifest_entry_of_def add_signature_def sample_narinfo_def)
  have "\<forall>x. sample_get (get_chunk_handler sample_env (Some ?st)) (''cas/chunk/'' @ x) =
      (case get_chunk_handler sample_env (Some ?st) x of Inr r \<Rightarrow> Some r | Inl _ \<Rightarrow> None)" by (simp add: sample_get_def)
  from cas_pull_delivers[OF sample_env_ok inj _ subset_refl sample_history(2) _ refl client_inv_open _ _ _ this _ _ _ _ e v,
      where want = "[''abc'']" and hv = "[]" and arrive = rev and import = "\<lambda>_. True" and now = 7]
  show ?thesis unfolding Let_def
    by (simp add: sample_history(3) u all_chunk_digests_def open_at_def BLOOM_THRESHOLD_def MAX_CHUNK_WANT_def MAX_CHUNK_HAVE_def)
qed

subsection \<open>What a pull refuses\<close>

text \<open>A manifest whose hashes are in Nix's base-32 notation (59 characters with the prefix) cannot be
  pulled by chunks: the check compares the hexadecimal digest of 64 characters with it, so no archive
  is ever staged, and the pull falls back after having downloaded every chunk.\<close>

theorem base32_hash_is_never_pulled:
  assumes "\<forall>b. length (sha256_hex env b) = 64"
    and "\<forall>e \<in> set available. take 7 (me_nar_hash e) = ''sha256:'' \<and> length (me_nar_hash e) = 59"
  shows "fst (cas_pull fuel env io now answer get arrive import available cl) \<noteq> Ok True \<and>
    fst (snd (cas_pull fuel env io now answer get arrive import available cl)) = []"
proof -
  have "stage_path fuel env available cl1 pm = None" for cl1 pm
  proof -
    have "\<not> verify_nar_hash env b (me_nar_hash e)" if "entry_by_hash available k = Some e" for b e k
    proof -
      have "e \<in> set available" using map_of_SomeD[OF that[unfolded entry_by_hash_def]] by auto
      then have e: "take 7 (me_nar_hash e) = ''sha256:''" "length (me_nar_hash e) = 59" using assms(2) by blast+
      then have "length (drop 7 (me_nar_hash e)) = 52" by simp
      then have "length (sha256_hex env b) \<noteq> length (drop 7 (me_nar_hash e))" using assms(1) by simp
      then have "sha256_hex env b \<noteq> drop 7 (me_nar_hash e)" by auto
      then show ?thesis using e by (simp add: verify_nar_hash_def)
    qed
    then show ?thesis by (auto simp: stage_path_def split: option.split sum.split)
  qed
  then have "stage_path fuel env available cl1 = (\<lambda>pm. None)" for cl1 by (intro ext) simp
  moreover have "List.map_filter (\<lambda>pm. None) xs = []" for xs :: "ca_path_mapping list"
    by (induction xs) (simp_all add: List.map_filter_simps)
  ultimately show ?thesis
    by (auto simp: cas_pull_def Let_def split: sum.split status.split prod.split bool.split)
qed

theorem base32_hash_is_never_pulled_witness:
  "fst (cas_pull 9 (sample_env\<lparr>sha256_hex := \<lambda>_. replicate 64 (CHR ''0'')\<rparr>) (\<lambda>_. True) 7 (Err Internal) (\<lambda>_. None) rev
     (\<lambda>_. True) [sample_entry\<lparr>me_nar_hash := ''sha256:'' @ replicate 52 (CHR ''1'')\<rparr>] open_at) \<noteq> Ok True"
  using base32_hash_is_never_pulled[of "sample_env\<lparr>sha256_hex := \<lambda>_. replicate 64 (CHR ''0'')\<rparr>"
    "[sample_entry\<lparr>me_nar_hash := ''sha256:'' @ replicate 52 (CHR ''1'')\<rparr>]" 9 "\<lambda>_. True" 7 "Err Internal" "\<lambda>_. None" rev
    "\<lambda>_. True" open_at] by simp

text \<open>The client does not check the directories a server sends against their digests: a wrong
  directory once indexed under a digest stays, and an honest answer indexed later does not replace it,
  so an archive with that directory is never written correctly from this store again.\<close>

theorem index_response_is_poisoned:
  assumes "cas_env_ok env" and "length g = 32" and "x \<noteq> y"
    and "map_of (cl_dirs cl) g = None"
    and "cr_directories bad = [\<lparr>dd_digest = Some g, dd_directory = Some y\<rparr>]" and "cr_file_chunk_mappings bad = []"
    and "g = blake3 env (encode_dir env x)"
    and "cr_directories good = [\<lparr>dd_digest = Some g, dd_directory = Some x\<rparr>]" and "cr_file_chunk_mappings good = []"
  shows "cl_load_directory env (index_response env good (index_response env bad cl)) g = Ok y"
  using assms by (simp add: index_response_def index_directory_def try_digest_def store_directory_def cl_load_directory_def
      table_simps cas_env_okD(5))

theorem index_response_is_poisoned_witness:
  "let g = sample_blake3 (sample_encode_dir sample_dir);
       msg = (\<lambda>x. \<lparr>cr_path_mappings = [], cr_missing_chunks = [], cr_unavailable = [], cr_total_chunk_size = 0,
                   cr_directories = [\<lparr>dd_digest = Some g, dd_directory = Some x\<rparr>], cr_file_chunk_mappings = []\<rparr>)
   in cl_load_directory sample_env (index_response sample_env (msg sample_dir)
        (index_response sample_env (msg (CaDirectory [])) open_at)) g = Ok (CaDirectory [])"
  unfolding Let_def
  by (rule index_response_is_poisoned[OF sample_env_ok, where x = sample_dir])
    (simp_all add: sample_blake3_def sample_dir_def open_at_def)

end
