(* ===== verification/NarStream.thy ===== *)
theory NarStream
  imports Negotiate CasPull
begin

text \<open>
  NAR archives over one stream: the server's \<open>stream_nars\<close> with \<open>TokioChannelWriter\<close> and
  \<open>send_nar_chunks\<close> (\<open>crates/ekapkgs-serve/src/api/negotiate.rs\<close>), and the client's
  \<open>stream_and_import\<close> (\<open>crates/ekapkgs/src/download.rs\<close>).  What a writer receives before a failure
  matters here, so the streaming writer of \<open>CaTree\<close> is given again with the bytes written so far; the
  two agree (\<open>stream_node_agrees\<close>).  The stream is the list of its messages: a receiver that goes
  away is not modelled.
\<close>

subsection \<open>Writing until a failure\<close>

type_synonym written = "bytes \<times> cas_error option"

definition andthen :: "written \<Rightarrow> written \<Rightarrow> written" where
  "andthen m k = (case m of (w, None) \<Rightarrow> (w @ fst k, snd k) | (w, Some e) \<Rightarrow> (w, Some e))"

definition emit :: "bytes \<Rightarrow> written" where
  "emit w = (w, None)"

definition reading :: "cas_error + 'a \<Rightarrow> ('a \<Rightarrow> written) \<Rightarrow> written" where
  "reading r k = (case r of Inl e \<Rightarrow> ([], Some e) | Inr x \<Rightarrow> k x)"

fun stream_chunks :: "cas_env \<Rightarrow> castore \<Rightarrow> digest list \<Rightarrow> written" where
  "stream_chunks env st [] = emit []"
| "stream_chunks env st (g # gs) =
     reading (bindR (get_chunk_by_digest env st g) (\<lambda>r. case r of None \<Rightarrow> Err (MissingChunk g) | Some d \<Rightarrow> Ok d))
       (\<lambda>d. andthen (emit d) (stream_chunks env st gs))"

definition stream_file :: "cas_env \<Rightarrow> castore \<Rightarrow> digest \<Rightarrow> written" where
  "stream_file env st f = stream_chunks env st (List.map_filter (try_digest \<circ> fst) (file_rows st f))"

fun stream_node :: "nat \<Rightarrow> cas_env \<Rightarrow> castore \<Rightarrow> ca_node \<Rightarrow> written"
  and stream_entries :: "nat \<Rightarrow> cas_env \<Rightarrow> castore \<Rightarrow> (string \<times> ca_node option) list \<Rightarrow> written"
where
  "stream_node 0 env st c = ([], Some StreamOutOfFuel)"
| "stream_node (Suc fuel) env st c =
     (case node c of
        None \<Rightarrow> ([], Some NoVariant)
      | Some (CaFileNode dg sz x) \<Rightarrow>
          andthen (emit (write_str ''('' @ write_str ''type'')) (reading (digest_field dg) (\<lambda>d.
            andthen (emit (write_str ''regular'' @ (if x then write_str ''executable'' @ write_str '''' else []) @
              write_str ''contents'' @ u64_to_le_bytes sz))
            (andthen (stream_file env st d) (emit (replicate (pad_len sz) (char_of (0::nat)) @ write_str '')'')))))
      | Some (CaDirectoryNode dg sz) \<Rightarrow>
          andthen (emit (write_str ''('' @ write_str ''type'')) (reading (digest_field dg) (\<lambda>d.
            andthen (emit (write_str ''directory'')) (reading (fst (load_directory env d st)) (\<lambda>dir.
            andthen (stream_entries fuel env st (sort_entries (dir_entries dir))) (emit (write_str '')''))))))
      | Some (CaSymlinkNode t) \<Rightarrow>
          emit (write_str ''('' @ write_str ''type'' @ write_str ''symlink'' @ write_str ''target'' @ write_str t @ write_str '')''))"
| "stream_entries fuel env st [] = emit []"
| "stream_entries 0 env st (e # es) = ([], Some StreamOutOfFuel)"
| "stream_entries (Suc fuel) env st ((name, child) # es) =
     andthen (emit (write_str ''entry'' @ write_str ''('' @ write_str ''name'' @ write_str name @ write_str ''node''))
       (andthen (case child of None \<Rightarrow> emit [] | Some c \<Rightarrow> stream_node fuel env st c)
         (andthen (emit (write_str '')'')) (stream_entries fuel env st es)))"

text \<open>\<open>write_nar_to\<close> of the store: \<open>Ok false\<close> when the path is unknown, \<open>Ok true\<close> when all was written.\<close>

definition write_nar_to :: "nat \<Rightarrow> cas_env \<Rightarrow> string \<Rightarrow> castore \<Rightarrow> bytes \<times> (cas_error + bool)" where
  "write_nar_to fuel env file_path st =
     (case get_root_node env (hash_of_file_path file_path) st of
        Inl e \<Rightarrow> ([], Err e)
      | Inr None \<Rightarrow> ([], Ok False)
      | Inr (Some root) \<Rightarrow>
          (case andthen (emit (write_str ''nix-archive-1'')) (stream_node fuel env st root) of
             (w, None) \<Rightarrow> (w, Ok True)
           | (w, Some e) \<Rightarrow> (w, Err e)))"

subsection \<open>The channel writer\<close>

definition NAR_CHUNK_SIZE :: nat where
  "NAR_CHUNK_SIZE = 65536"

text \<open>The buffer and the blocks sent.\<close>

function channel_write :: "bytes \<Rightarrow> bytes \<times> bytes list \<Rightarrow> bytes \<times> bytes list" where
  "channel_write d (buf, sent) =
     (if d = [] then (buf, sent)
      else let n = min (NAR_CHUNK_SIZE - length buf) (length d);
               buf = buf @ take n d
           in if length buf \<ge> NAR_CHUNK_SIZE then channel_write (drop n d) ([], sent @ [buf])
              else channel_write (drop n d) (buf, sent))"
  by pat_completeness auto
termination
  by (relation "measure (\<lambda>(d, (buf, sent)). 2 * length d + (if length buf \<ge> NAR_CHUNK_SIZE then 1 else 0))")
    (auto simp: NAR_CHUNK_SIZE_def min_def)

declare channel_write.simps [simp del]

definition flush_final :: "bytes \<times> bytes list \<Rightarrow> bytes list" where
  "flush_final s = (case s of (buf, sent) \<Rightarrow> if buf \<noteq> [] then sent @ [buf] else sent)"

subsection \<open>The server's stream\<close>

record nar_chunk =
  nk_path_hash :: string
  nk_data :: bytes
  nk_last :: bool
  nk_file_size :: nat
  nk_is_delta :: bool

function send_from :: "string \<Rightarrow> bytes \<Rightarrow> bool \<Rightarrow> nat \<Rightarrow> bool \<Rightarrow> nar_chunk list" where
  "send_from h d is_delta offset first =
     (if offset < length d
      then let stop = min (offset + NAR_CHUNK_SIZE) (length d)
           in \<lparr>nk_path_hash = h, nk_data = take (stop - offset) (drop offset d), nk_last = (stop = length d),
               nk_file_size = (if first then length d else 0), nk_is_delta = is_delta\<rparr> #
              send_from h d is_delta stop False
      else [])"
  by auto
termination
  by (relation "measure (\<lambda>(h, d, is_delta, offset, first). length d - offset)") (auto simp: NAR_CHUNK_SIZE_def)

declare send_from.simps [simp del]

definition send_nar_chunks :: "string \<Rightarrow> bytes \<Rightarrow> bool \<Rightarrow> nar_chunk list" where
  "send_nar_chunks h d is_delta =
     (if d = [] then [\<lparr>nk_path_hash = h, nk_data = [], nk_last = True, nk_file_size = 0, nk_is_delta = is_delta\<rparr>]
      else send_from h d is_delta 0 True)"

text \<open>The blocks of one path: the buffered rest is sent only when everything was written.\<close>

definition nar_blocks :: "nat \<Rightarrow> cas_env \<Rightarrow> string \<Rightarrow> castore \<Rightarrow> bytes list" where
  "nar_blocks fuel env nar_url st =
     (case write_nar_to fuel env nar_url st of (w, r) \<Rightarrow>
        let s = channel_write w ([], []) in if r = Ok True then flush_final s else snd s)"

definition forward_blocks :: "string \<Rightarrow> nat \<Rightarrow> bytes list \<Rightarrow> nar_chunk list" where
  "forward_blocks h nar_size blocks =
     map (\<lambda>(i, b). \<lparr>nk_path_hash = h, nk_data = b, nk_last = False, nk_file_size = (if i = 0 then nar_size else 0),
                    nk_is_delta = False\<rparr>) (zip [0..<length blocks] blocks) @
     [\<lparr>nk_path_hash = h, nk_data = [], nk_last = True, nk_file_size = 0, nk_is_delta = False\<rparr>]"

definition stream_path :: "nat \<Rightarrow> cas_env \<Rightarrow> string \<Rightarrow> app_state \<Rightarrow> nar_chunk list \<times> app_state" where
  "stream_path fuel env h s =
     (case delta_get_for_target h (as_delta_cache s) of
        Some delta \<Rightarrow> (send_nar_chunks h delta True, record_access h s)
      | None \<Rightarrow>
          (case get_narinfo h (as_storage s) of
             None \<Rightarrow> ([], s)
           | Some ni \<Rightarrow> (forward_blocks h (ni_nar_size ni) (nar_blocks fuel env (ni_url ni) (as_storage s)), record_access h s)))"

fun stream_nars :: "nat \<Rightarrow> cas_env \<Rightarrow> string list \<Rightarrow> app_state \<Rightarrow> nar_chunk list \<times> app_state" where
  "stream_nars fuel env [] s = ([], s)"
| "stream_nars fuel env (h # hs) s =
     (let (chunks, s) = stream_path fuel env h s; (rest, s) = stream_nars fuel env hs s in (chunks @ rest, s))"

subsection \<open>The client\<close>

text \<open>\<open>dump\<close> is \<open>nix-store --dump\<close> of a path, \<open>None\<close> when the command fails.\<close>

definition apply_delta :: "delta_codec \<Rightarrow> (string \<Rightarrow> bytes option) \<Rightarrow> bytes \<Rightarrow> string \<Rightarrow> bytes option" where
  "apply_delta codec dump delta base_hash =
     Option.bind (dump (''/nix/store/'' @ base_hash)) (\<lambda>base_nar. dc_decompress codec delta base_nar)"

record recv_state =
  rv_hash :: string
  rv_buf :: bytes
  rv_is_delta :: bool
  rv_staged :: "staged_path list"

text \<open>The end of a path: its delta is applied, the archive staged; on a failed delta the path is dropped.\<close>

definition recv_finish ::
  "delta_codec \<Rightarrow> (string \<Rightarrow> bytes option) \<Rightarrow> manifest_entry list \<Rightarrow> recv_state \<Rightarrow> recv_state" where
  "recv_finish codec dump available r =
     (case entry_by_hash available (rv_hash r) of
        None \<Rightarrow> r\<lparr>rv_buf := []\<rparr>
      | Some e \<Rightarrow>
          (case (if rv_is_delta r \<and> me_delta_base_hash e \<noteq> []
                 then apply_delta codec dump (rv_buf r) (me_delta_base_hash e) else Some (rv_buf r)) of
             None \<Rightarrow> r\<lparr>rv_buf := []\<rparr>
           | Some nar_data \<Rightarrow>
               r\<lparr>rv_buf := [], rv_staged := rv_staged r @
                   [\<lparr>sp_hash = rv_hash r, sp_url = me_url e, sp_nar = nar_data, sp_narinfo = build_narinfo_text e\<rparr>]\<rparr>))"

definition recv_chunk ::
  "delta_codec \<Rightarrow> (string \<Rightarrow> bytes option) \<Rightarrow> manifest_entry list \<Rightarrow> nar_chunk \<Rightarrow> recv_state \<Rightarrow> recv_state" where
  "recv_chunk codec dump available chunk r =
     (let r = (if nk_path_hash chunk \<noteq> rv_hash r
               then r\<lparr>rv_hash := nk_path_hash chunk, rv_buf := [], rv_is_delta := nk_is_delta chunk\<rparr> else r);
          r = r\<lparr>rv_buf := rv_buf r @ nk_data chunk\<rparr>
      in if nk_last chunk then recv_finish codec dump available r else r)"

definition recv_init :: recv_state where
  "recv_init = \<lparr>rv_hash = [], rv_buf = [], rv_is_delta = False, rv_staged = []\<rparr>"

text \<open>The order in which the client asks for the paths of the answer: the plan, then what it misses.\<close>

definition wanted_order :: "negotiate_response \<Rightarrow> string list" where
  "wanted_order resp =
     (let path_hashes = concat (map db_batch_paths (nr_download_plan resp))
      in path_hashes @ filter (\<lambda>h. h \<notin> set path_hashes) (map (\<lambda>e. path_hash (me_store_path e)) (nr_available resp)))"

text \<open>\<open>serve\<close> is the answer to \<open>stream_nars\<close>: its messages, and whether the stream broke off with an error.\<close>

definition stream_and_import ::
  "delta_codec \<Rightarrow> (string \<Rightarrow> bytes option) \<Rightarrow> (staged_path list \<Rightarrow> bool) \<Rightarrow> (string list \<Rightarrow> nar_chunk list \<times> bool)
   \<Rightarrow> negotiate_response \<Rightarrow> pull_error + staged_path list" where
  "stream_and_import codec dump import serve resp =
     (if nr_available resp = [] then Ok []
      else let (chunks, broken) = serve (wanted_order resp);
               staged = rv_staged (fold (recv_chunk codec dump (nr_available resp)) chunks recv_init)
           in if broken then Err (NegotiateFailed Internal)
              else if staged = [] then Ok []
              else if import staged then Ok staged else Err ImportFailed)"

subsection \<open>The writer agrees with the reference\<close>

definition agrees :: "written \<Rightarrow> cas_error + bytes \<Rightarrow> bool" where
  "agrees m r \<longleftrightarrow> (case m of (w, None) \<Rightarrow> r = Ok w | (w, Some e) \<Rightarrow> r = Err e)"

lemma agrees_emit: "agrees (emit w) (Ok w)"
  by (simp add: agrees_def emit_def)

lemma agrees_andthen:
  "agrees m r \<Longrightarrow> (\<And>w. m = (w, None) \<Longrightarrow> agrees k (q w)) \<Longrightarrow>
   agrees (andthen m k) (bindR r (\<lambda>w. bindR (q w) (\<lambda>v. Ok (w @ v))))"
  by (auto simp: agrees_def andthen_def split: prod.splits option.splits)

lemma agrees_reading: "(\<And>x. r = Ok x \<Longrightarrow> agrees (k x) (q x)) \<Longrightarrow> agrees (reading r k) (bindR r q)"
  by (cases r) (auto simp: agrees_def reading_def)

lemmas written_simps = agrees_def andthen_def emit_def reading_def

lemma stream_chunks_agrees: "agrees (stream_chunks env st gs) (read_chunks env st gs)"
proof (induction gs)
  case (Cons g gs)
  then show ?case
    by (cases "get_chunk_by_digest env st g")
      (auto simp: written_simps split: option.splits prod.splits)
qed (simp add: written_simps)

lemma stream_file_agrees: "agrees (stream_file env st f) (cr_write_file (castore_reader env st) f)"
  using stream_chunks_agrees by (simp add: stream_file_def castore_reader_def write_file_data_to_def)

lemma stream_node_agrees:
  "agrees (stream_node fuel env st c) (write_cas_node_streaming fuel (castore_reader env st) c)"
  "agrees (stream_entries fuel env st es) (write_cas_entries fuel (castore_reader env st) es)"
proof (induction fuel env st c and fuel env st es rule: stream_node_stream_entries.induct)
  case (2 fuel env st c)
  show ?case
  proof (cases "node c")
    case None
    then show ?thesis by (simp add: written_simps)
  next
    case (Some a)
    show ?thesis
    proof (cases a)
      case (CaFileNode dg sz x)
      show ?thesis
      proof (cases "digest_field dg")
        case (Inr d)
        then show ?thesis using stream_file_agrees[of env st d] Some CaFileNode
          by (auto simp: written_simps split: option.splits prod.splits)
      qed (use Some CaFileNode in \<open>simp add: written_simps\<close>)
    next
      case (CaDirectoryNode dg sz)
      show ?thesis
      proof (cases "digest_field dg")
        case (Inr d)
        show ?thesis
        proof (cases "fst (load_directory env d st)")
          case dir: (Inr dir)
          have "agrees (stream_entries fuel env st (sort_entries (dir_entries dir)))
              (write_cas_entries fuel (castore_reader env st) (sort_entries (dir_entries dir)))"
            using "2.IH" Some CaDirectoryNode by blast
          then show ?thesis using Some CaDirectoryNode Inr dir
            by (auto simp: written_simps castore_reader_def split: option.splits prod.splits)
        qed (use Some CaDirectoryNode Inr in \<open>simp add: written_simps castore_reader_def\<close>)
      qed (use Some CaDirectoryNode in \<open>simp add: written_simps\<close>)
    next
      case (CaSymlinkNode t)
      then show ?thesis using Some by (simp add: written_simps)
    qed
  qed
next
  case (5 fuel env st name child es)
  then show ?case
    by (cases child) (auto simp: written_simps bindR_eq_Ok split: option.splits prod.splits)
qed (simp_all add: written_simps)

text \<open>When the reference writes an archive, so does the stream, completely.\<close>

lemma write_nar_to_Ok:
  assumes "get_nar fuel env p st = Ok (Some w)"
  shows "write_nar_to fuel env p st = (w, Ok True)"
proof -
  obtain root where root: "get_root_node env (hash_of_file_path p) st = Ok (Some root)"
    and w: "write_nar_streaming fuel (castore_reader env st) root = Ok w"
    using assms by (auto simp: get_nar_def bindR_eq_Ok split: option.splits)
  obtain v where v: "write_cas_node_streaming fuel (castore_reader env st) root = Ok v" "w = write_str ''nix-archive-1'' @ v"
    using w by (auto simp: write_nar_streaming_def bindR_eq_Ok)
  then have "stream_node fuel env st root = (v, None)"
    using stream_node_agrees(1)[of fuel env st root] by (auto simp: agrees_def split: prod.splits option.splits)
  then show ?thesis by (simp add: write_nar_to_def root v(2) andthen_def emit_def)
qed

subsection \<open>Blocks\<close>

lemma channel_write_Nil: "channel_write [] s = s"
  by (cases s) (simp add: channel_write.simps)

lemma channel_write_step:
  assumes "d \<noteq> []"
  shows "channel_write d (buf, sent) =
    (let n = min (NAR_CHUNK_SIZE - length buf) (length d) in
     if length (buf @ take n d) \<ge> NAR_CHUNK_SIZE then channel_write (drop n d) ([], sent @ [buf @ take n d])
     else channel_write (drop n d) (buf @ take n d, sent))"
  by (subst channel_write.simps) (simp only: Let_def assms if_False)

text \<open>The writer cuts what it is given into full blocks, in whatever pieces it comes.\<close>

lemma channel_write_blocks:
  assumes "channel_write d (buf, sent) = (buf', sent')" and "length buf < NAR_CHUNK_SIZE"
    and "\<forall>b \<in> set sent. length b = NAR_CHUNK_SIZE"
  shows "concat sent' @ buf' = concat sent @ buf @ d \<and> length buf' < NAR_CHUNK_SIZE \<and> (\<forall>b \<in> set sent'. length b = NAR_CHUNK_SIZE)"
  using assms
proof (induction d "(buf, sent)" arbitrary: buf sent rule: channel_write.induct)
  case (1 d buf sent)
  let ?n = "min (NAR_CHUNK_SIZE - length buf) (length d)"
  show ?case
  proof (cases "d = []")
    case True
    then show ?thesis using "1.prems" by (simp add: channel_write_Nil)
  next
    case ne: False
    show ?thesis
    proof (cases "length (buf @ take ?n d) \<ge> NAR_CHUNK_SIZE")
      case True
      then have step: "channel_write d (buf, sent) = channel_write (drop ?n d) ([], sent @ [buf @ take ?n d])"
        unfolding channel_write_step[OF ne] Let_def by (rule if_P)
      have "length (buf @ take ?n d) = NAR_CHUNK_SIZE" using True "1.prems"(2) by auto
      then have full: "\<forall>b \<in> set (sent @ [buf @ take ?n d]). length b = NAR_CHUNK_SIZE" using "1.prems"(3) by auto
      have "concat sent' @ buf' = concat (sent @ [buf @ take ?n d]) @ [] @ drop ?n d \<and>
          length buf' < NAR_CHUNK_SIZE \<and> (\<forall>b \<in> set sent'. length b = NAR_CHUNK_SIZE)"
        by (rule "1.hyps"(1)[OF ne refl refl True "1.prems"(1)[unfolded step] _ full]) (simp add: NAR_CHUNK_SIZE_def)
      then show ?thesis unfolding concat_append concat.simps append_Nil append_Nil2 append_assoc append_take_drop_id .
    next
      case False
      then have step: "channel_write d (buf, sent) = channel_write (drop ?n d) (buf @ take ?n d, sent)"
        unfolding channel_write_step[OF ne] Let_def by (rule if_not_P)
      have "length (buf @ take ?n d) < NAR_CHUNK_SIZE" using False by (simp only: not_le)
      from "1.hyps"(2)[OF ne refl refl False "1.prems"(1)[unfolded step] this "1.prems"(3)]
      show ?thesis unfolding append_assoc append_take_drop_id .
    qed
  qed
qed

lemma concat_nar_blocks:
  assumes "write_nar_to fuel env url st = (w, Ok True)"
  shows "concat (nar_blocks fuel env url st) = w"
proof -
  obtain buf sent where c: "channel_write w ([], []) = (buf, sent)" by (cases "channel_write w ([], [])")
  from channel_write_blocks[OF c] have "concat sent @ buf = w" by (simp add: NAR_CHUNK_SIZE_def)
  then show ?thesis using c by (auto simp: nar_blocks_def assms flush_final_def Let_def)
qed

lemma send_from_data:
  assumes "offset \<le> length d"
  shows "concat (map nk_data (send_from h d is_delta offset first)) = drop offset d"
  using assms
proof (induction h d is_delta offset first rule: send_from.induct)
  case (1 h d is_delta offset first)
  show ?case
  proof (cases "offset < length d")
    case True
    let ?stop = "min (offset + NAR_CHUNK_SIZE) (length d)"
    have "take (?stop - offset) (drop offset d) @ drop ?stop d = drop offset d"
      using True by (metis append_take_drop_id drop_drop le_add_diff_inverse2 le_add1 less_imp_le_nat min.bounded_iff)
    then show ?thesis using 1 True by (subst send_from.simps) (simp add: Let_def)
  next
    case False
    then show ?thesis using 1 by (subst send_from.simps) simp
  qed
qed

subsection \<open>Receiving\<close>

text \<open>The messages of one path: its hash and kind throughout, its bytes in order, the last one marked.\<close>

definition path_chunks :: "string \<Rightarrow> bool \<Rightarrow> bytes \<Rightarrow> nar_chunk list \<Rightarrow> bool" where
  "path_chunks h is_delta d cs \<longleftrightarrow> cs \<noteq> [] \<and> (\<forall>c \<in> set cs. nk_path_hash c = h \<and> nk_is_delta c = is_delta) \<and>
     concat (map nk_data cs) = d \<and> (\<forall>c \<in> set (butlast cs). \<not> nk_last c) \<and> nk_last (last cs)"

definition one_chunk :: "string \<Rightarrow> bool \<Rightarrow> bytes \<Rightarrow> nar_chunk" where
  "one_chunk h is_delta d = \<lparr>nk_path_hash = h, nk_data = d, nk_last = True, nk_file_size = 0, nk_is_delta = is_delta\<rparr>"

lemma recv_last:
  "nk_last c \<Longrightarrow> recv_chunk codec dump av c r = recv_chunk codec dump av (one_chunk (nk_path_hash c) (nk_is_delta c) (nk_data c)) r"
  by (simp add: recv_chunk_def one_chunk_def)

lemma recv_more:
  assumes "\<not> nk_last c" and "rv_hash r = nk_path_hash c \<longrightarrow> rv_is_delta r = nk_is_delta c"
  shows "rv_hash (recv_chunk codec dump av c r) = nk_path_hash c \<and> rv_is_delta (recv_chunk codec dump av c r) = nk_is_delta c \<and>
    recv_chunk codec dump av (one_chunk (nk_path_hash c) (nk_is_delta c) d) (recv_chunk codec dump av c r) =
    recv_chunk codec dump av (one_chunk (nk_path_hash c) (nk_is_delta c) (nk_data c @ d)) r"
  using assms by (cases r) (auto simp: recv_chunk_def one_chunk_def Let_def)

text \<open>However a path is cut into messages, the client ends as if it came in one.\<close>

lemma recv_path:
  assumes "path_chunks h is_delta d cs" and "rv_hash r = h \<longrightarrow> rv_is_delta r = is_delta"
  shows "fold (recv_chunk codec dump av) cs r = recv_chunk codec dump av (one_chunk h is_delta d) r"
  using assms
proof (induction cs arbitrary: d r)
  case (Cons c cs)
  show ?case
  proof (cases "cs = []")
    case True
    then show ?thesis using Cons.prems recv_last[of c codec dump av r] by (simp add: path_chunks_def)
  next
    case False
    let ?d = "concat (map nk_data cs)"
    have c: "nk_path_hash c = h" "nk_is_delta c = is_delta" "\<not> nk_last c" "d = nk_data c @ ?d"
      using Cons.prems(1) False by (auto simp: path_chunks_def)
    have "path_chunks h is_delta ?d cs" using Cons.prems(1) False by (simp add: path_chunks_def)
    then show ?thesis
      using Cons.IH[of ?d "recv_chunk codec dump av c r"] recv_more[of c r codec dump av ?d] c Cons.prems(2) by simp
  qed
qed (simp add: path_chunks_def)

lemma butlast_snoc_chunks: "path_chunks h is_delta d (cs @ [c]) \<longleftrightarrow>
  (\<forall>c \<in> set cs. nk_path_hash c = h \<and> nk_is_delta c = is_delta \<and> \<not> nk_last c) \<and>
  nk_path_hash c = h \<and> nk_is_delta c = is_delta \<and> nk_last c \<and> concat (map nk_data cs) @ nk_data c = d"
  by (auto simp: path_chunks_def)

lemma forward_blocks_path: "path_chunks h False (concat blocks) (forward_blocks h sz blocks)"
proof -
  have "map snd (zip [0..<length blocks] blocks) = blocks" by simp
  moreover have "concat (map (nk_data \<circ> (\<lambda>(i, b). \<lparr>nk_path_hash = h, nk_data = b, nk_last = False,
      nk_file_size = (if i = 0 then sz else 0), nk_is_delta = False\<rparr>)) (zip [0..<length blocks] blocks)) =
      concat (map snd (zip [0..<length blocks] blocks))"
    by (rule arg_cong[where f = concat]) (simp add: split_def comp_def)
  ultimately show ?thesis
    unfolding forward_blocks_def butlast_snoc_chunks by (auto simp del: map_snd_zip)
qed

lemma send_from_path:
  assumes "offset < length d"
  shows "path_chunks h is_delta (drop offset d) (send_from h d is_delta offset first)"
  using assms
proof (induction h d is_delta offset first rule: send_from.induct)
  case (1 h d is_delta offset first)
  let ?stop = "min (offset + NAR_CHUNK_SIZE) (length d)"
  let ?c = "\<lparr>nk_path_hash = h, nk_data = take (?stop - offset) (drop offset d), nk_last = (?stop = length d),
     nk_file_size = (if first then length d else 0), nk_is_delta = is_delta\<rparr>"
  have eq: "send_from h d is_delta offset first = ?c # send_from h d is_delta ?stop False"
    using "1.prems" by (subst send_from.simps) (simp add: Let_def)
  have data: "take (?stop - offset) (drop offset d) @ drop ?stop d = drop offset d"
    using "1.prems" by (metis append_take_drop_id drop_drop le_add_diff_inverse2 le_add1 less_imp_le_nat min.bounded_iff)
  show ?case
  proof (cases "?stop = length d")
    case True
    then have "send_from h d is_delta ?stop False = []" by (subst send_from.simps) simp
    then show ?thesis using True data unfolding eq by (simp add: path_chunks_def)
  next
    case False
    then have "?stop < length d" by auto
    from "1.IH"[OF "1.prems" refl this] show ?thesis
      using False data unfolding eq by (auto simp: path_chunks_def)
  qed
qed

lemma send_nar_chunks_path: "path_chunks h is_delta d (send_nar_chunks h d is_delta)"
  using send_from_path[of 0 d h is_delta True] by (cases d) (auto simp: send_nar_chunks_def path_chunks_def)

subsection \<open>A stream delivers\<close>

lemma stream_path_state:
  "as_storage (snd (stream_path fuel env h s)) = as_storage s"
  "as_delta_cache (snd (stream_path fuel env h s)) = as_delta_cache s"
  by (auto simp: stream_path_def split: option.split)

lemma stream_path_only:
  "as_storage s' = as_storage s \<Longrightarrow> as_delta_cache s' = as_delta_cache s \<Longrightarrow>
   fst (stream_path fuel env h s') = fst (stream_path fuel env h s)"
  by (simp add: stream_path_def split: option.split)

lemma stream_nars_concat:
  "fst (stream_nars fuel env hs s) = concat (map (\<lambda>h. fst (stream_path fuel env h s)) hs)"
proof (induction hs arbitrary: s)
  case (Cons h hs)
  obtain cs s1 where 1: "stream_path fuel env h s = (cs, s1)" by fastforce
  have "fst (stream_path fuel env k s1) = fst (stream_path fuel env k s)" for k
    using stream_path_state[of fuel env h s] 1 by (intro stream_path_only) simp_all
  then show ?case using Cons.IH[of s1] 1 by (simp add: split_def Let_def)
qed simp

definition staged_as :: "manifest_entry list \<Rightarrow> string \<Rightarrow> bytes \<Rightarrow> staged_path" where
  "staged_as available h d =
     (let e = the (entry_by_hash available h)
      in \<lparr>sp_hash = h, sp_url = me_url e, sp_nar = d, sp_narinfo = build_narinfo_text e\<rparr>)"

lemma recv_one:
  assumes "entry_by_hash av h \<noteq> None" and "rv_buf r = []" and "\<not> rv_is_delta r"
  shows "\<exists>r'. recv_chunk codec dump av (one_chunk h False d) r = r' \<and> rv_buf r' = [] \<and> \<not> rv_is_delta r' \<and>
    rv_staged r' = rv_staged r @ [staged_as av h d]"
  using assms by (auto simp: recv_chunk_def recv_finish_def one_chunk_def staged_as_def Let_def)

lemma recv_paths:
  assumes "\<forall>h \<in> set hs. path_chunks h False (nar h) (chunks h) \<and> entry_by_hash av h \<noteq> None"
    and "rv_buf r = []" and "\<not> rv_is_delta r"
  shows "rv_staged (fold (recv_chunk codec dump av) (concat (map chunks hs)) r) =
    rv_staged r @ map (\<lambda>h. staged_as av h (nar h)) hs"
  using assms
proof (induction hs arbitrary: r)
  case (Cons h hs)
  then have "path_chunks h False (nar h) (chunks h)" "entry_by_hash av h \<noteq> None" by simp_all
  moreover obtain r' where r': "recv_chunk codec dump av (one_chunk h False (nar h)) r = r'" "rv_buf r' = []"
      "\<not> rv_is_delta r'" "rv_staged r' = rv_staged r @ [staged_as av h (nar h)]"
    using recv_one[of av h r codec dump "nar h"] calculation(2) Cons.prems(2,3) by blast
  ultimately have "fold (recv_chunk codec dump av) (chunks h) r = r'"
    using recv_path[of h False "nar h" "chunks h" r codec dump av] Cons.prems(3) by simp
  then show ?case using Cons.IH[of r'] Cons.prems(1) r' by simp
qed simp

lemma set_first_segment: "set (first_segment c s) \<subseteq> set s"
  by (auto simp: first_segment_def dest: set_takeWhileD)

lemma path_hash_no_slash: "CHR ''/'' \<notin> set (path_hash p)"
  using set_first_segment[of "CHR ''-''" "last_segment (CHR ''/'') p"] last_segment_notin[of "CHR ''/''" p]
  by (auto simp: path_hash_def)

lemma hash_of_nar_url:
  assumes "CHR ''.'' \<notin> set h" and "CHR ''/'' \<notin> set h"
  shows "hash_of_file_path (''nar/'' @ h @ ''.nar'') = h"
proof -
  have "last_segment (CHR ''/'') ((''nar'' @ CHR ''/'' # (h @ ''.nar''))) = h @ ''.nar''"
    using assms(2) by (intro last_segment_append) simp
  then show ?thesis using first_segment_append[OF assms(1), of "''nar''"] by (simp add: hash_of_file_path_def)
qed

lemma stream_path_holds:
  assumes env: "cas_env_ok env" and inj: "inj_on (blake3 env) U" and h: "holds env U (as_storage s) m"
    and m: "m h = Some (Some n)" "nar_fuel n \<le> fuel" and hash: "CHR ''.'' \<notin> set h" "CHR ''/'' \<notin> set h"
    and none: "delta_get_for_target h (as_delta_cache s) = None"
  shows "path_chunks h False (write_nar (sort_nar n)) (fst (stream_path fuel env h s))"
proof -
  let ?st = "as_storage s"
  have "map_of (db_paths (st_db ?st)) h \<noteq> None" using h m(1) unfolding holds_def by (metis option.distinct(1))
  then obtain row where row: "map_of (db_paths (st_db ?st)) h = Some row" by auto
  let ?ni = "row_to_narinfo h row" and ?url = "''nar/'' @ h @ ''.nar''"
  have ni: "get_narinfo h ?st = Some ?ni" "ni_url ?ni = ?url"
    using row by (simp_all add: get_narinfo_def load_metadata_with_conn_def row_to_narinfo_def)
  have "0 < fuel" using m(2) by (cases n) auto
  have "get_nar fuel env ?url ?st = Ok (Some (write_nar (sort_nar n)))"
    using holds_get_nar[OF env inj h _ \<open>0 < fuel\<close>, of ?url] m hash_of_nar_url[OF hash] by simp
  then have "concat (nar_blocks fuel env ?url ?st) = write_nar (sort_nar n)"
    by (intro concat_nar_blocks write_nar_to_Ok)
  then show ?thesis
    using forward_blocks_path[of h "nar_blocks fuel env ?url ?st" "ni_nar_size ?ni"]
    by (simp add: stream_path_def none ni)
qed

lemma entry_by_hash_Some:
  assumes "h \<in> entry_hash ` set available"
  shows "\<exists>e \<in> set available. entry_by_hash available h = Some e \<and> entry_hash e = h"
proof -
  let ?t = "rev (map (\<lambda>e. (entry_hash e, e)) available)"
  have "h \<in> fst ` set ?t" using assms by (auto simp: image_iff)
  then obtain e where e: "map_of ?t h = Some e" by (metis map_of_eq_None_iff option.exhaust)
  then have "(h, e) \<in> set ?t" by (rule map_of_SomeD)
  then show ?thesis using e by (auto simp: entry_by_hash_def)
qed

lemma wanted_order_plan:
  assumes "mset (concat (map db_batch_paths (nr_download_plan r))) = mset (map entry_hash (nr_available r))"
  shows "wanted_order r = concat (map db_batch_paths (nr_download_plan r))" and "set (wanted_order r) = entry_hash ` set (nr_available r)"
proof -
  have s: "set (concat (map db_batch_paths (nr_download_plan r))) = entry_hash ` set (nr_available r)"
    using assms by (metis set_map set_mset_mset)
  then show w: "wanted_order r = concat (map db_batch_paths (nr_download_plan r))"
    by (auto simp: wanted_order_def Let_def filter_empty_conv)
  show "set (wanted_order r) = entry_hash ` set (nr_available r)" unfolding w by (rule s)
qed

text \<open>C8. From a negotiation to the store: a client without paths of its own that negotiates with a server of
  any history and streams what the answer offers stages, in the order of the download plan, every
  offered path with the archive last put for it, byte for byte (entries sorted), under the URL and with
  the narinfo text of an entry of the answer for it, and imports them; the way the stream is cut into
  messages does not matter.  Assumed: every offered path has an archive on the server, whose delta cache
  holds none for it, no digest collision, and an import that succeeds.\<close>

theorem negotiated_stream_delivers:
  assumes "cas_env_ok env" and "inj_on (blake3 env) (history_blobs env as)" and "\<forall>p. io p"
    and fits: "\<forall>a \<in> set as. op_fits fuel (snd a)"
    and st: "as_storage s = run_store fuel env fl io as (new_castore fl level clock)"
    and req: "length (nq_want req) \<le> MAX_WANT_ENTRIES" "nq_have req = []"
    and answer: "negotiate fuel env codec permit req s = (Ok resp, s')"
    and held: "\<forall>e \<in> set (nr_available resp). run_spec as (entry_hash e) = Some (Some (nar e)) \<and> CHR ''.'' \<notin> set (entry_hash e)"
    and cache: "\<forall>e \<in> set (nr_available resp). delta_get_for_target (entry_hash e) (as_delta_cache s) = None"
    and imp: "\<forall>xs. import xs"
  shows "\<exists>staged. stream_and_import codec dump import (\<lambda>hs. (fst (stream_nars fuel env hs s'), False)) resp = Ok staged \<and>
    map sp_hash staged = concat (map db_batch_paths (nr_download_plan resp)) \<and>
    sp_hash ` set staged = entry_hash ` set (nr_available resp) \<and>
    (\<forall>p \<in> set staged. \<exists>e \<in> set (nr_available resp). sp_hash p = entry_hash e \<and>
      run_spec as (sp_hash p) = Some (Some (nar e)) \<and> sp_nar p = write_nar (sort_nar (nar e)) \<and>
      sp_url p = me_url e \<and> sp_narinfo p = build_narinfo_text e)"
proof -
  let ?U = "history_blobs env as" and ?av = "nr_available resp"
  have h: "holds env ?U (as_storage s) (run_spec as)" unfolding st by (rule holds_run[OF assms(1-4)])
  then have "wf_table (db_paths (st_db (as_storage s)))" by (auto simp: holds_def castore_inv_def db_inv_def)
  from negotiate_facts[OF this req(1) refl, of fuel env codec permit] answer req(2)
  have f: "as_storage s' = as_storage s" "as_delta_cache s' = as_delta_cache s"
      "mset (concat (map db_batch_paths (nr_download_plan resp))) = mset (map entry_hash ?av)"
    by auto
  note w = wanted_order_plan[OF f(3)]
  define contents where "contents k = write_nar (sort_nar (the (the (run_spec as k))))" for k
  have chunks: "path_chunks k False (contents k) (fst (stream_path fuel env k s')) \<and> entry_by_hash ?av k \<noteq> None"
    if k: "k \<in> set (wanted_order resp)" for k
  proof -
    obtain e where e: "e \<in> set ?av" "entry_by_hash ?av k = Some e" "entry_hash e = k"
      using entry_by_hash_Some[of k ?av] k w(2) by auto
    have m: "run_spec as k = Some (Some (nar e))" using held e(1,3) by auto
    have "nar_fuel (nar e) \<le> fuel" using spec_fuel[of Map.empty fuel as k "nar e"] fits m by (simp add: run_spec_def)
    then show ?thesis
      using stream_path_holds[OF assms(1,2), of s' "run_spec as" k "nar e" fuel] h f(1,2) m held cache e path_hash_no_slash
      by (auto simp: contents_def)
  qed
  have staged: "rv_staged (fold (recv_chunk codec dump ?av) (fst (stream_nars fuel env (wanted_order resp) s')) recv_init) =
      map (\<lambda>k. staged_as ?av k (contents k)) (wanted_order resp)"
    unfolding stream_nars_concat
    using recv_paths[of "wanted_order resp" contents "\<lambda>k. fst (stream_path fuel env k s')" ?av recv_init codec dump] chunks
    by (simp add: recv_init_def)
  let ?staged = "map (\<lambda>k. staged_as ?av k (contents k)) (wanted_order resp)"
  have "stream_and_import codec dump import (\<lambda>hs. (fst (stream_nars fuel env hs s'), False)) resp = Ok ?staged"
    using imp w(2) by (auto simp: stream_and_import_def staged Let_def)
  moreover have "map sp_hash ?staged = wanted_order resp" by (simp add: staged_as_def Let_def comp_def)
  moreover have "\<exists>e \<in> set ?av. sp_hash p = entry_hash e \<and> run_spec as (sp_hash p) = Some (Some (nar e)) \<and>
      sp_nar p = write_nar (sort_nar (nar e)) \<and> sp_url p = me_url e \<and> sp_narinfo p = build_narinfo_text e"
    if p: "p \<in> set ?staged" for p
  proof -
    from p obtain k where k: "k \<in> set (wanted_order resp)" "p = staged_as ?av k (contents k)" by auto
    then obtain e where e: "e \<in> set ?av" "entry_by_hash ?av k = Some e" "entry_hash e = k"
      using entry_by_hash_Some[of k ?av] w(2) by auto
    have m: "run_spec as k = Some (Some (nar e))" using held e(1,3) by auto
    then show ?thesis using e by (intro bexI[of _ e]) (simp_all add: k(2) staged_as_def Let_def contents_def)
  qed
  moreover have "sp_hash ` set ?staged = entry_hash ` set ?av" using calculation(2) w(2) by (metis set_map)
  ultimately show ?thesis using w(1) by (intro exI[of _ ?staged] conjI ballI) simp_all
qed

text \<open>A delta another client asked for reaches a client that has nothing to apply it to: once a delta to a
  path is in the cache, whatever its base, the stream sends it to everyone, and a client whose
  manifest names no base stages the delta itself as the path's archive.\<close>

theorem foreign_delta_is_staged:
  assumes "length delta \<le> DELTA_ENTRY_MAX_BYTES" and "h \<noteq> []"
    and "entry_by_hash available h = Some e" and "me_delta_base_hash e = []" and "as_delta_cache s = delta_insert other_base h delta cache"
  shows "rv_staged (fold (recv_chunk codec dump available) (fst (stream_path fuel env h s)) recv_init) =
    [\<lparr>sp_hash = h, sp_url = me_url e, sp_nar = delta, sp_narinfo = build_narinfo_text e\<rparr>]"
proof -
  have "delta_get_for_target h (as_delta_cache s) = Some delta"
    using assms(1) unfolding assms(5) by (rule delta_get_inserted(2))
  then have c: "fst (stream_path fuel env h s) = send_nar_chunks h delta True" by (simp add: stream_path_def)
  show ?thesis
    unfolding c using recv_path[OF send_nar_chunks_path, of recv_init h True codec dump available delta] assms(2-4)
    by (simp add: recv_init_def recv_chunk_def recv_finish_def one_chunk_def)
qed

text \<open>A failed stream looks complete: when the server cannot write the archive of a path (a chunk is missing or
  only the narinfo was uploaded), it still sends the closing message, and the client stages what came
  as the archive: the full blocks of what had been written.\<close>

theorem failed_stream_looks_complete:
  assumes "delta_get_for_target h (as_delta_cache s) = None" and "get_narinfo h (as_storage s) = Some ni"
    and "write_nar_to fuel env (ni_url ni) (as_storage s) = (w, r)" and "r \<noteq> Ok True"
    and "entry_by_hash available h = Some e"
  shows "rv_staged (fold (recv_chunk codec dump available) (fst (stream_path fuel env h s)) recv_init) =
    [\<lparr>sp_hash = h, sp_url = me_url e, sp_nar = take (length w div NAR_CHUNK_SIZE * NAR_CHUNK_SIZE) w,
      sp_narinfo = build_narinfo_text e\<rparr>]"
proof -
  obtain buf sent where c: "channel_write w ([], []) = (buf, sent)" by (cases "channel_write w ([], [])")
  have b: "concat sent @ buf = w" "length buf < NAR_CHUNK_SIZE" "\<forall>b \<in> set sent. length b = NAR_CHUNK_SIZE"
    using channel_write_blocks[OF c] by (simp_all add: NAR_CHUNK_SIZE_def)
  have "length (concat sent) = NAR_CHUNK_SIZE * length sent"
    using b(3) by (induction sent) (simp_all add: algebra_simps)
  moreover from this have lw: "length w = NAR_CHUNK_SIZE * length sent + length buf"
    using arg_cong[OF b(1), of length] by simp
  have "length w div NAR_CHUNK_SIZE = length sent"
    using b(2) unfolding lw by (simp add: NAR_CHUNK_SIZE_def)
  moreover have "concat sent = take (length (concat sent)) w" unfolding b(1)[symmetric] by simp
  ultimately have full: "concat sent = take (length w div NAR_CHUNK_SIZE * NAR_CHUNK_SIZE) w"
    by (simp only: mult.commute)
  have "fst (stream_path fuel env h s) = forward_blocks h (ni_nar_size ni) sent"
    using assms(1-4) c by (simp add: stream_path_def nar_blocks_def Let_def)
  then show ?thesis
    using recv_path[OF forward_blocks_path, of recv_init h codec dump available "ni_nar_size ni" sent] assms(5) full
      recv_one[of available h recv_init codec dump "concat sent"]
    by (auto simp: recv_init_def staged_as_def)
qed

subsection \<open>Witnesses\<close>

lemma sample_path_entry: "entry_by_hash [sample_path ''abc-x'' []] ''abc'' = Some (sample_path ''abc-x'' [])"
  by (simp add: entry_by_hash_def path_hash_def last_segment_def first_segment_def)

definition no_delta :: delta_codec where
  "no_delta = \<lparr>dc_compress = \<lambda>_ _. None, dc_decompress = \<lambda>_ _. None\<rparr>"

theorem failed_stream_looks_complete_witness:
  "map sp_nar (rv_staged (fold (recv_chunk no_delta (\<lambda>_. None) [sample_path ''abc-x'' []])
     (fst (stream_path 9 sample_env ''abc'' sample_app)) recv_init)) = [[]]"
proof -
  let ?ni = "served_info ''abc'' (sample_narinfo\<lparr>ni_references := [''xyz-glibc'', ''abc-hello'']\<rparr>)"
  have st: "as_storage sample_app = sample_state" "as_delta_cache sample_app = delta_cache_new" by (simp_all add: sample_app_def)
  have "get_root_node sample_env ''abc'' sample_state = Ok (Some (CaNode None))"
    using cas_env_okD(6)[OF sample_env_ok] by (simp add: get_root_node_def sample_state_def store_metadata_def
        store_metadata_with_conn_def table_simps)
  moreover have "hash_of_file_path (ni_url ?ni) = ''abc''"
    using hash_of_nar_url[of "''abc''"] by (simp add: served_info_def)
  ultimately have w: "write_nar_to 9 sample_env (ni_url ?ni) sample_state = (write_str ''nix-archive-1'', Err NoVariant)"
    by (simp add: write_nar_to_def andthen_def emit_def numeral_eq_Suc)
  have "length (write_str ''nix-archive-1'') div NAR_CHUNK_SIZE = 0"
    by (simp add: write_str_def write_bytes_def NAR_CHUNK_SIZE_def pad_len_def)
  then show ?thesis
    using failed_stream_looks_complete[of "''abc''" sample_app ?ni 9 sample_env "write_str ''nix-archive-1''" "Err NoVariant"
        "[sample_path ''abc-x'' []]" "sample_path ''abc-x'' []" no_delta "\<lambda>_. None"] w sample_state_narinfo(1) sample_path_entry
    by (simp add: st delta_get_for_target_def delta_cache_new_def)
qed

theorem foreign_delta_is_staged_witness:
  "map sp_nar (rv_staged (fold (recv_chunk no_delta (\<lambda>_. None) [sample_path ''abc-x'' []])
     (fst (stream_path 9 sample_env ''abc'' (sample_app\<lparr>as_delta_cache := delta_insert ''old'' ''abc'' ''patch'' delta_cache_new\<rparr>)))
     recv_init)) = [''patch'']"
  using foreign_delta_is_staged[of "''patch''" "''abc''" "[sample_path ''abc-x'' []]" "sample_path ''abc-x'' []"
      "sample_app\<lparr>as_delta_cache := delta_insert ''old'' ''abc'' ''patch'' delta_cache_new\<rparr>" "''old''" delta_cache_new
      no_delta "\<lambda>_. None" 9 sample_env] sample_path_entry
  by (simp add: DELTA_ENTRY_MAX_BYTES_def sample_path_def manifest_entry_of_def Let_def)

definition sample_history2 :: "(nat \<times> store_op) list" where
  "sample_history2 = [sample_put, (8, PutNarinfo ''abc'' (to_narinfo_string sample_narinfo))]"

definition sample_server :: app_state where
  "sample_server = sample_app\<lparr>as_storage := run_store 9 sample_env toy_sizes (\<lambda>_. True) sample_history2 (new_castore toy_sizes 3 0)\<rparr>"

lemma sample_history2_spec:
  "history_blobs sample_env sample_history2 = blobs_of sample_env sample_nar"
  "\<forall>a \<in> set sample_history2. op_fits 9 (snd a)" "run_spec sample_history2 = [''abc'' \<mapsto> Some sample_nar]"
proof -
  show "history_blobs sample_env sample_history2 = blobs_of sample_env sample_nar"
    using sample_history(1) by (simp add: sample_history2_def history_blobs_def op_blobs_def)
  show "\<forall>a \<in> set sample_history2. op_fits 9 (snd a)"
    using sample_history(2) by (simp add: sample_history2_def op_fits_def)
  show "run_spec sample_history2 = [''abc'' \<mapsto> Some sample_nar]"
    using sample_history(3) by (simp add: sample_history2_def run_spec_def spec_op_def spec_put_narinfo_def sample_narinfo_parses)
qed

lemma sample_server_narinfo:
  "get_narinfo ''abc'' (as_storage sample_server) =
   Some (served_info ''abc'' (sample_narinfo\<lparr>ni_references := [''xyz-glibc'', ''abc-hello'']\<rparr>))"
proof -
  let ?st = "run_store 9 sample_env toy_sizes (\<lambda>_. True) [sample_put] (new_castore toy_sizes 3 0)"
  have inj: "inj_on (blake3 sample_env) (history_blobs sample_env [sample_put])"
    using sample_nar_inj by (simp add: sample_history)
  have h: "holds sample_env (history_blobs sample_env [sample_put]) ?st (run_spec [sample_put])"
    by (rule holds_run[OF sample_env_ok inj _ sample_history(2)]) simp
  have root: "get_root_node sample_env ''abc'' ?st = Ok (Some (root_of sample_env sample_nar))"
    using holds_root[OF sample_env_ok h, of "''abc''"] by (simp add: sample_history(3))
  then have "map_of (db_paths (st_db ?st)) ''abc'' \<noteq> None"
    by (cases "map_of (db_paths (st_db ?st)) ''abc''") (simp_all add: get_root_node_def)
  then have "put_narinfo sample_env 8 ''abc'' (to_narinfo_string sample_narinfo) ?st =
      (Ok True, store_metadata sample_env 8 ''abc'' (sample_narinfo\<lparr>ni_references := [''xyz-glibc'', ''abc-hello'']\<rparr>)
         (root_of sample_env sample_nar) ?st)"
    using root by (auto simp: put_narinfo_def sample_narinfo_parses)
  moreover have "storable (sample_narinfo\<lparr>ni_references := [''xyz-glibc'', ''abc-hello'']\<rparr>)"
    by (simp add: storable_def sample_narinfo_def basename_def last_segment_def)
  ultimately show ?thesis
    using load_stored_metadata
    by (simp add: sample_server_def sample_history2_def run_store_def exec_op_def get_narinfo_def store_metadata_def)
qed

theorem negotiated_stream_delivers_witness:
  "\<exists>resp s' staged. negotiate 9 sample_env no_delta (\<lambda>_. True) (sample_request\<lparr>nq_expand_closure := False\<rparr>) sample_server = (Ok resp, s') \<and>
     stream_and_import no_delta (\<lambda>_. None) (\<lambda>_. True) (\<lambda>hs. (fst (stream_nars 9 sample_env hs s'), False)) resp = Ok staged \<and>
     sp_hash ` set staged = {''abc''} \<and> (\<forall>p \<in> set staged. sp_nar p = write_nar (sort_nar sample_nar))"
proof -
  let ?req = "sample_request\<lparr>nq_expand_closure := False\<rparr>"
  have inj: "inj_on (blake3 sample_env) (history_blobs sample_env sample_history2)"
    using sample_nar_inj by (simp add: sample_history2_spec)
  have st: "as_storage sample_server = run_store 9 sample_env toy_sizes (\<lambda>_. True) sample_history2 (new_castore toy_sizes 3 0)"
      "as_delta_cache sample_server = delta_cache_new"
    by (simp_all add: sample_server_def sample_app_def)
  have req: "length (nq_want ?req) \<le> MAX_WANT_ENTRIES" "nq_have ?req = []"
    by (simp_all add: sample_request_def MAX_WANT_ENTRIES_def)
  have h: "holds sample_env (history_blobs sample_env sample_history2) (as_storage sample_server) (run_spec sample_history2)"
    unfolding st by (rule holds_run[OF sample_env_ok inj _ sample_history2_spec(2)]) simp
  then have "wf_table (db_paths (st_db (as_storage sample_server)))" by (auto simp: holds_def castore_inv_def db_inv_def)
  from negotiate_facts[OF this req(1) refl, of 9 sample_env no_delta "\<lambda>_. True"] req(2)
  obtain resp s' where r: "negotiate 9 sample_env no_delta (\<lambda>_. True) ?req sample_server = (Ok resp, s')"
    "set (nr_available resp) = {manifest_of sample_server ni |h ni. h \<in> {''abc''} \<and> get_narinfo h (as_storage sample_server) = Some ni}"
    by (auto simp: sample_request_def)
  have e: "entry_hash ` set (nr_available resp) = {''abc''}"
    unfolding r(2) using sample_server_narinfo
    by (auto simp: manifest_of_def certify_entry_def manifest_entry_of_def add_signature_def Let_def served_info_def
        sample_narinfo_def path_hash_def last_segment_def first_segment_def)
  then have e': "entry_hash x = ''abc''" if "x \<in> set (nr_available resp)" for x using that by blast
  have io: "\<forall>p. (\<lambda>_. True) p" by simp
  have held: "\<forall>x \<in> set (nr_available resp). run_spec sample_history2 (entry_hash x) = Some (Some ((\<lambda>_. sample_nar) x)) \<and>
      CHR ''.'' \<notin> set (entry_hash x)"
    using e' by (simp add: sample_history2_spec)
  have cache: "\<forall>x \<in> set (nr_available resp). delta_get_for_target (entry_hash x) (as_delta_cache sample_server) = None"
    by (simp add: st delta_get_for_target_def delta_cache_new_def)
  obtain staged where s: "stream_and_import no_delta (\<lambda>_. None) (\<lambda>_. True) (\<lambda>hs. (fst (stream_nars 9 sample_env hs s'), False)) resp = Ok staged"
      "sp_hash ` set staged = entry_hash ` set (nr_available resp)"
      "\<forall>p \<in> set staged. \<exists>e \<in> set (nr_available resp). sp_hash p = entry_hash e \<and>
        run_spec sample_history2 (sp_hash p) = Some (Some sample_nar) \<and> sp_nar p = write_nar (sort_nar sample_nar) \<and>
        sp_url p = me_url e \<and> sp_narinfo p = build_narinfo_text e"
    using negotiated_stream_delivers[OF sample_env_ok inj io sample_history2_spec(2) st(1) req r(1) held cache io, where dump = "\<lambda>_. None"]
    by (elim exE conjE)
  show ?thesis using r(1) s unfolding e by blast
qed

end
