(* ===== verification/HttpApi.thy ===== *)
theory HttpApi
  imports NarStream
begin

text \<open>
  The server's HTTP interface (\<open>upload.rs\<close>, \<open>compat.rs\<close>, \<open>chunks.rs\<close> and \<open>delta.rs\<close> in
  \<open>crates/ekapkgs-serve/src/api\<close>) and the token store of \<open>crates/ekapkgs-serve/src/tokens.rs\<close>, on the
  shared state of \<open>AppState\<close>.  A request is what the router hands to a handler; a handler answers a response
  and the state it leaves.  JSON parsing and printing, the listing of archives, the clock and the random token
  are parameters, collected in \<open>http_env\<close> where they do not change from request to request.
\<close>

subsection \<open>Requests and responses\<close>

type_synonym headers = "(string \<times> string) list"

record response =
  rs_status :: nat
  rs_headers :: headers
  rs_body :: bytes

definition plain :: "nat \<Rightarrow> string \<Rightarrow> response" where
  "plain status body = \<lparr>rs_status = status, rs_headers = [(''content-type'', ''text/plain; charset=utf-8'')], rs_body = body\<rparr>"

definition not_found_response :: response where
  "not_found_response = \<lparr>rs_status = 404,
     rs_headers = [(''cache-control'', ''no-store''), (''content-type'', ''text/plain; charset=utf-8'')], rs_body = ''not found''\<rparr>"

text \<open>A header value as a string: visible ASCII only.\<close>

definition to_str :: "string \<Rightarrow> string option" where
  "to_str v = (if list_all (\<lambda>c. (32 \<le> (of_char c :: nat) \<and> (of_char c :: nat) < 127) \<or> (of_char c :: nat) = 9) v then Some v else None)"

definition header_str :: "string \<Rightarrow> headers \<Rightarrow> string option" where
  "header_str name hs = Option.bind (map_of hs name) to_str"

definition bearer :: "headers \<Rightarrow> string option" where
  "bearer hs = Option.bind (header_str ''authorization'' hs) (strip_prefix ''Bearer '')"

datatype json =
    JNull
  | JBool bool
  | JNat nat
  | JString string
  | JArray "json list"
  | JObject "(string \<times> json) list"

record http_env =
  he_cas :: cas_env
  he_fuel :: nat
  he_io :: "string \<Rightarrow> bool"
  he_json :: "json \<Rightarrow> string"
  he_parse_mint :: "bytes \<Rightarrow> string option option"
  he_listing :: "app_state \<Rightarrow> string \<Rightarrow> response"
  he_store_dir :: string
  he_priority :: nat
  he_public_key :: string
  he_key_name :: string
  he_token_store_path :: string

subsection \<open>Tokens\<close>

datatype token_error = TokenExists string

definition token_create ::
  "string \<Rightarrow> permissions \<Rightarrow> string \<Rightarrow> nat \<Rightarrow> token list \<Rightarrow> token_error + string \<times> token list" where
  "token_create name perms token_value now ts =
     (if list_ex (\<lambda>t. tk_name t = name) ts then Err (TokenExists name)
      else Ok (token_value, ts @ [\<lparr>tk_name = name, tk_token = token_value, tk_permissions = perms, tk_created_at = now\<rparr>]))"

definition token_revoke :: "string \<Rightarrow> token list \<Rightarrow> bool \<times> token list" where
  "token_revoke name ts = (let ts' = filter (\<lambda>t. tk_name t \<noteq> name) ts in (length ts' < length ts, ts'))"

definition token_validate :: "string \<Rightarrow> token list \<Rightarrow> token option" where
  "token_validate token_value ts = List.find (\<lambda>t. tk_token t = token_value) ts"

definition token_write_tokens :: "token list \<Rightarrow> string list" where
  "token_write_tokens ts = map tk_token (filter (\<lambda>t. pm_write (tk_permissions t)) ts)"

text \<open>The tokens of a server that starts: those of the store that may write, then those of its configuration.\<close>

definition startup_tokens :: "token list \<Rightarrow> string list option \<Rightarrow> string list" where
  "startup_tokens ts auth = token_write_tokens ts @ (case auth of None \<Rightarrow> [] | Some config \<Rightarrow> config)"

text \<open>\<open>ekapkgs-serve token revoke\<close> edits the store on disk; a running server does not read it again.\<close>

definition cmd_token_revoke :: "string \<Rightarrow> app_state \<Rightarrow> app_state" where
  "cmd_token_revoke name s =
     (case token_revoke name (as_token_store s) of (found, ts) \<Rightarrow> if found then s\<lparr>as_token_store := ts\<rparr> else s)"

definition check_auth :: "app_state \<Rightarrow> headers \<Rightarrow> response + unit" where
  "check_auth s hs =
     (if as_write_tokens s = [] then Err (plain 403 ''push not enabled'')
      else case bearer hs of
             None \<Rightarrow> Err (plain 401 ''invalid or missing token'')
           | Some t \<Rightarrow> if t \<in> set (as_write_tokens s) then Ok () else Err (plain 401 ''invalid or missing token''))"

text \<open>The token store is part of the state; one that cannot be loaded from its file is not told apart from one that
  cannot be saved, both answer 500 and change nothing.\<close>

definition create_token ::
  "http_env \<Rightarrow> nat \<Rightarrow> string \<Rightarrow> headers \<Rightarrow> bytes \<Rightarrow> app_state \<Rightarrow> response \<times> app_state" where
  "create_token env now fresh hs body s =
     (case as_admin_token s of
        None \<Rightarrow> (plain 403 ''token minting not configured'', s)
      | Some admin \<Rightarrow>
          if bearer hs \<noteq> Some admin then (plain 401 ''invalid or missing admin token'', s)
          else case he_parse_mint env body of
                 None \<Rightarrow> (plain 400 ''invalid JSON body'', s)
               | Some req \<Rightarrow>
                  (let name = (case req of None \<Rightarrow> ''unnamed'' | Some n \<Rightarrow> n) in
                   case token_create name \<lparr>pm_read = True, pm_write = True\<rparr> fresh now (as_token_store s) of
                     Inl _ \<Rightarrow> (plain 500 (''failed to mint token: token with name '' @ [CHR 0x27] @ name @ [CHR 0x27] @ '' already exists''), s)
                   | Inr (token_value, ts) \<Rightarrow>
                       if \<not> he_io env (he_token_store_path env) then (plain 500 ''failed to mint token: io'', s)
                       else (\<lparr>rs_status = 200, rs_headers = [(''content-type'', ''application/json'')],
                              rs_body = he_json env (JObject [(''token'', JString token_value), (''name'', JString name)])\<rparr>,
                             s\<lparr>as_token_store := ts, as_write_tokens := as_write_tokens s @ [token_value]\<rparr>)))"

subsection \<open>Names\<close>

definition is_valid_nix_hash :: "string \<Rightarrow> bool" where
  "is_valid_nix_hash s \<longleftrightarrow> s \<noteq> [] \<and>
     list_all (\<lambda>c. (97 \<le> (of_char c :: nat) \<and> (of_char c :: nat) \<le> 122) \<or> is_ascii_digit c) s"

definition is_valid_nar_filename :: "string \<Rightarrow> bool" where
  "is_valid_nar_filename s =
     (if CHR ''/'' \<in> set s \<or> CHR 0x5C \<in> set s \<or> split_once_str ''..'' s \<noteq> None then False
      else case strip_suffix ''.nar.xz'' s of
             Some h \<Rightarrow> is_valid_nix_hash h
           | None \<Rightarrow> (case strip_suffix ''.nar.zst'' s of
                        Some h \<Rightarrow> is_valid_nix_hash h
                      | None \<Rightarrow> (case strip_suffix ''.nar'' s of Some h \<Rightarrow> is_valid_nix_hash h | None \<Rightarrow> False)))"

definition is_valid_nar_url :: "string \<Rightarrow> bool" where
  "is_valid_nar_url s = (case strip_prefix ''nar/'' s of Some filename \<Rightarrow> is_valid_nar_filename filename | None \<Rightarrow> False)"

definition is_valid_store_hash :: "string \<Rightarrow> bool" where
  "is_valid_store_hash s \<longleftrightarrow> length s = 32 \<and> list_all (\<lambda>c. c \<in> set ''0123456789abcdfghijklmnpqrsvwxyz'') s"

subsection \<open>Uploads\<close>

definition put_narinfo_handler ::
  "http_env \<Rightarrow> nat \<Rightarrow> headers \<Rightarrow> string \<Rightarrow> bytes \<Rightarrow> app_state \<Rightarrow> response \<times> app_state" where
  "put_narinfo_handler env now hs hash_narinfo body s =
     (case check_auth s hs of
        Inl r \<Rightarrow> (r, s)
      | Inr _ \<Rightarrow>
         (let h = (case strip_suffix ''.narinfo'' hash_narinfo of Some h \<Rightarrow> h | None \<Rightarrow> hash_narinfo) in
          if \<not> is_valid_nix_hash h then (plain 400 ''invalid hash'', s)
          else if \<not> utf8_valid body then (plain 400 ''invalid utf-8'', s)
          else case parse_narinfo body of
                 None \<Rightarrow> (plain 400 ''invalid narinfo'', s)
               | Some ni \<Rightarrow>
                   if narinfo_store_path_hash ni \<noteq> Some h then (plain 400 ''narinfo StorePath hash does not match URL'', s)
                   else if \<not> is_valid_nar_url (ni_url ni) then (plain 400 ''invalid narinfo URL field'', s)
                   else let ni = add_signature (as_signer s) ni;
                            (r, st) = put_narinfo (he_cas env) now h (to_narinfo_string ni) (as_storage s);
                            s = s\<lparr>as_storage := st\<rparr>
                        in case r of
                             Inr True \<Rightarrow> (plain 200 ''ok'', record_access h s)
                           | Inr False \<Rightarrow> (plain 405 ''read-only backend'', s)
                           | Inl _ \<Rightarrow> (plain 500 ''internal error'', s)))"

definition put_nar_handler ::
  "http_env \<Rightarrow> nat \<Rightarrow> headers \<Rightarrow> string \<Rightarrow> bytes \<Rightarrow> app_state \<Rightarrow> response \<times> app_state" where
  "put_nar_handler env now hs fname body s =
     (case check_auth s hs of
        Inl r \<Rightarrow> (r, s)
      | Inr _ \<Rightarrow>
         (if \<not> is_valid_nar_filename fname then (plain 400 ''invalid nar filename'', s)
          else let (r, st) = put_nar (he_fuel env) (he_cas env) (he_io env) now (''nar/'' @ fname) body (as_storage s);
                   s = s\<lparr>as_storage := st\<rparr>
               in case r of
                    Inr True \<Rightarrow> (plain 200 ''ok'', record_access (first_segment (CHR ''.'') fname) s)
                  | Inr False \<Rightarrow> (plain 405 ''read-only backend'', s)
                  | Inl _ \<Rightarrow> (plain 500 ''internal error'', s)))"

definition put_chunk_handler ::
  "http_env \<Rightarrow> headers \<Rightarrow> string \<Rightarrow> bytes \<Rightarrow> app_state \<Rightarrow> slice_panic + response \<times> app_state" where
  "put_chunk_handler env hs b3hex body s =
     (case check_auth s hs of
        Inl r \<Rightarrow> Ok (r, s)
      | Inr _ \<Rightarrow>
          bindR (hex_decode b3hex) (\<lambda>d.
            case d of
              None \<Rightarrow> Ok (plain 400 ''invalid digest'', s)
            | Some expected \<Rightarrow>
                if blake3 (he_cas env) body \<noteq> expected then Ok (plain 400 ''digest mismatch'', s)
                else (case store_chunk_external (he_cas env) (he_io env) body (as_storage s) of
                        (Inr _, st) \<Rightarrow> Ok (plain 200 ''ok'', s\<lparr>as_storage := st\<rparr>)
                      | (Inl _, st) \<Rightarrow> Ok (plain 500 ''internal error'', s\<lparr>as_storage := st\<rparr>))))"

subsection \<open>Narinfo downloads\<close>

definition narinfo_to_json :: "narinfo \<Rightarrow> string \<Rightarrow> json" where
  "narinfo_to_json ni store_dir =
     (let opt = (\<lambda>x. case x of None \<Rightarrow> JNull | Some v \<Rightarrow> JString v) in
      JObject [(''version'', JNat 3), (''storeDir'', JString store_dir), (''storePath'', JString (ni_store_path ni)),
        (''url'', JString (ni_url ni)), (''compression'', JString (ni_compression ni)), (''narHash'', JString (ni_nar_hash ni)),
        (''narSize'', JNat (ni_nar_size ni)),
        (''fileHash'', if ni_file_hash ni = [] then JNull else JString (ni_file_hash ni)),
        (''fileSize'', if ni_file_size ni = 0 then JNull else JNat (ni_file_size ni)),
        (''downloadHash'', JNull), (''downloadSize'', JNull),
        (''references'', JArray (map (\<lambda>r. JString (basename r)) (ni_references ni))),
        (''deriver'', opt (ni_deriver ni)), (''registrationTime'', JNull),
        (''signatures'', JArray (map (\<lambda>(k, sig). JObject [(''keyName'', JString k), (''sig'', JString sig)])
           (List.map_filter (split_once (CHR '':'')) (ni_signatures ni)))),
        (''ca'', opt (ni_ca ni)), (''ultimate'', JBool False)])"

definition narinfo_response :: "string \<Rightarrow> string \<Rightarrow> response" where
  "narinfo_response nar_link body = \<lparr>rs_status = 200,
     rs_headers = [(''content-type'', ''text/x-nix-narinfo''), (''cache-control'', ''max-age=86400''), (''nix-link'', nar_link)],
     rs_body = body\<rparr>"

definition cached_link :: "string \<Rightarrow> string" where
  "cached_link txt = (case List.map_filter (strip_prefix ''URL: '') (lines txt) of [] \<Rightarrow> [] | u # _ \<Rightarrow> u)"

definition get_narinfo_handler :: "http_env \<Rightarrow> string \<Rightarrow> bool \<Rightarrow> app_state \<Rightarrow> response \<times> app_state" where
  "get_narinfo_handler env hash_narinfo json_query s =
     (case strip_suffix ''.ls'' hash_narinfo of
        Some h \<Rightarrow> (he_listing env s h, s)
      | None \<Rightarrow>
         (let h = (case strip_suffix ''.narinfo'' hash_narinfo of Some h \<Rightarrow> h | None \<Rightarrow> hash_narinfo) in
          if \<not> is_valid_store_hash h then (not_found_response, s)
          else case (if json_query then None else narinfo_cache_get h (as_narinfo_cache s)) of
                 Some cached_text \<Rightarrow> (narinfo_response (cached_link cached_text) cached_text, record_access h s)
               | None \<Rightarrow>
                  (case get_narinfo h (as_storage s) of
                     None \<Rightarrow> (not_found_response, s)
                   | Some ni \<Rightarrow>
                      (let ni = add_signature (as_signer s) ni; s = record_access h s in
                       if json_query
                       then (\<lparr>rs_status = 200, rs_headers = [(''content-type'', ''application/json''), (''cache-control'', ''max-age=86400'')],
                              rs_body = he_json env (narinfo_to_json ni (he_store_dir env))\<rparr>, s)
                       else let body = to_narinfo_string ni
                            in (narinfo_response (ni_url ni) body,
                                s\<lparr>as_narinfo_cache := narinfo_cache_insert h body (as_narinfo_cache s)\<rparr>)))))"

subsection \<open>Archive downloads\<close>

text \<open>\<open>bytes=first-last\<close>, both included, or \<open>bytes=first-\<close>; anything else is ignored.\<close>

definition parse_range_header :: "string \<Rightarrow> nat \<Rightarrow> (nat \<times> nat) option" where
  "parse_range_header header len =
     Option.bind (strip_prefix ''bytes='' header) (\<lambda>range.
     Option.bind (split_once (CHR ''-'') range) (\<lambda>(start_str, end_str).
     Option.bind (parse_u64 start_str) (\<lambda>first.
     Option.bind (if end_str = [] then Some (len - 1) else parse_u64 end_str) (\<lambda>stop.
       if first \<ge> len \<or> stop \<ge> len \<or> first > stop then None else Some (first, stop)))))"

definition ends_with :: "string \<Rightarrow> string \<Rightarrow> bool" where
  "ends_with s suffix \<longleftrightarrow> strip_suffix suffix s \<noteq> None"

definition nar_content_type :: "string \<Rightarrow> string" where
  "nar_content_type fname =
     (if ends_with fname ''.zst'' then ''application/zstd''
      else if ends_with fname ''.xz'' then ''application/x-xz'' else ''application/x-nix-nar'')"

definition get_nar_buffered :: "http_env \<Rightarrow> headers \<Rightarrow> string \<Rightarrow> app_state \<Rightarrow> response \<times> app_state" where
  "get_nar_buffered env hs fname s =
     (case get_nar (he_fuel env) (he_cas env) (''nar/'' @ fname) (as_storage s) of
        Inl _ \<Rightarrow> (plain 500 ''internal error'', s)
      | Inr None \<Rightarrow> (not_found_response, s)
      | Inr (Some content) \<Rightarrow>
         (let s = record_access (first_segment (CHR ''.'') fname) s;
              len = length content;
              tail = [(''accept-ranges'', ''bytes''), (''cache-control'', ''max-age=31536000'')]
          in case Option.bind (header_str ''range'' hs) (\<lambda>v. parse_range_header v len) of
               Some (first, stop) \<Rightarrow>
                 (let slice = take (Suc stop - first) (drop first content) in
                  (\<lparr>rs_status = 206,
                    rs_headers = [(''content-type'', nar_content_type fname), (''content-length'', show_nat (length slice)),
                      (''content-range'', ''bytes '' @ show_nat first @ ''-'' @ show_nat stop @ ''/'' @ show_nat len)] @ tail,
                    rs_body = slice\<rparr>, s))
             | None \<Rightarrow>
                 (\<lparr>rs_status = 200,
                   rs_headers = [(''content-type'', nar_content_type fname), (''content-length'', show_nat len)] @ tail,
                   rs_body = content\<rparr>, s)))"

text \<open>\<open>has_nar\<close> of the storage trait: whether the path is known.\<close>

definition has_nar :: "cas_env \<Rightarrow> string \<Rightarrow> castore \<Rightarrow> bool" where
  "has_nar env file_path st = has_narinfo env (first_segment (CHR ''.'') (last_segment (CHR ''/'') file_path)) st"

definition get_nar_handler :: "http_env \<Rightarrow> headers \<Rightarrow> string \<Rightarrow> app_state \<Rightarrow> response \<times> app_state" where
  "get_nar_handler env hs fname s =
     (if \<not> is_valid_nar_filename fname then (not_found_response, s)
      else if \<not> has_nar (he_cas env) (''nar/'' @ fname) (as_storage s) then (not_found_response, s)
      else if map_of hs ''range'' \<noteq> None then get_nar_buffered env hs fname s
      else (\<lparr>rs_status = 200, rs_headers = [(''content-type'', nar_content_type fname), (''cache-control'', ''max-age=31536000'')],
             rs_body = concat (nar_blocks (he_fuel env) (he_cas env) (''nar/'' @ fname) (as_storage s))\<rparr>,
            record_access (first_segment (CHR ''.'') fname) s))"

subsection \<open>The other pages\<close>

definition get_delta :: "string \<Rightarrow> string \<Rightarrow> app_state \<Rightarrow> response" where
  "get_delta base_hash target_hash s =
     (case delta_get base_hash target_hash (as_delta_cache s) of
        Some d \<Rightarrow> \<lparr>rs_status = 200, rs_headers = [(''content-type'', ''application/zstd'')], rs_body = d\<rparr>
      | None \<Rightarrow> plain 404 ''delta not found'')"

definition get_chunk_response :: "http_env \<Rightarrow> string \<Rightarrow> app_state \<Rightarrow> slice_panic + response" where
  "get_chunk_response env b3hex s =
     bindR (get_chunk_handler (he_cas env) (Some (as_storage s)) b3hex) (\<lambda>(status, body).
       Ok (if status = 200
           then \<lparr>rs_status = 200, rs_headers = [(''content-type'', ''application/octet-stream'')], rs_body = body\<rparr>
           else plain status body))"

definition health :: response where
  "health = plain 200 (''OK'' @ [NL])"

definition nix_cache_info :: "http_env \<Rightarrow> response" where
  "nix_cache_info env = \<lparr>rs_status = 200, rs_headers = [(''content-type'', ''text/x-nix-cache-info'')],
     rs_body = ''StoreDir: '' @ he_store_dir env @ [NL] @ ''WantMassQuery: 1'' @ [NL] @ ''Priority: '' @ show_nat (he_priority env) @ [NL]\<rparr>"

definition cache_info :: "http_env \<Rightarrow> response" where
  "cache_info env = \<lparr>rs_status = 200, rs_headers = [(''content-type'', ''application/json'')],
     rs_body = he_json env (JObject [(''public_key'', JString (he_public_key env)), (''priority'', JNat (he_priority env)),
       (''store_dir'', JString (he_store_dir env))])\<rparr>"

fun html_escape_char :: "char \<Rightarrow> string" where
  "html_escape_char c =
     (if c = CHR ''&'' then ''&amp;'' else if c = CHR ''<'' then ''&lt;'' else if c = CHR ''>'' then ''&gt;''
      else if c = CHR 0x22 then ''&quot;'' else if c = CHR 0x27 then ''&#x27;'' else [c])"

definition html_escape :: "string \<Rightarrow> string" where
  "html_escape s = concat (map html_escape_char s)"

lemma split_once_str_shorter: "split_once_str pat s = Some (a, b) \<Longrightarrow> pat \<noteq> [] \<Longrightarrow> length b < length s"
proof (induction pat s arbitrary: a rule: split_once_str.induct)
  case (1 pat s)
  show ?case
  proof (cases "take (length pat) s = pat")
    case True
    then have "length pat \<le> length s" by (metis length_take min.cobounded1 min_def)
    moreover have "b = drop (length pat) s" using 1(2) True by (subst (asm) split_once_str.simps) simp
    ultimately show ?thesis using 1(3) by (cases pat) auto
  next
    case False
    then obtain c r where s: "s = c # r" using 1(2) by (cases s) (auto simp: split_once_str.simps[of pat "[]"])
    then obtain a' where "split_once_str pat r = Some (a', b)"
      using 1(2) False by (subst (asm) split_once_str.simps) (auto split: option.splits prod.splits)
    then show ?thesis using 1(1)[OF False s _ 1(3)] s by fastforce
  qed
qed

function render_template :: "string \<Rightarrow> (string \<Rightarrow> string option) \<Rightarrow> string" where
  "render_template rest vars =
     (case split_once_str ''[['' rest of
        None \<Rightarrow> rest
      | Some (pre, after_open) \<Rightarrow>
          pre @
          (case split_once_str '']]'' after_open of
             None \<Rightarrow> ''[['' @ render_template after_open vars
           | Some (key, after) \<Rightarrow>
               (case vars key of Some v \<Rightarrow> v | None \<Rightarrow> ''[['' @ key @ '']]'') @ render_template after vars))"
  by pat_completeness auto

termination
  by (relation "measure (\<lambda>(rest, vars). length rest)") (auto dest!: split_once_str_shorter)

declare render_template.simps [simp del]

definition root_url :: "headers \<Rightarrow> string" where
  "root_url hs =
     (let scheme = (case header_str ''x-forwarded-proto'' hs of
                      Some p \<Rightarrow> if p = ''http'' \<or> p = ''https'' then p else ''http'' | None \<Rightarrow> ''http'');
          host = (case header_str ''host'' hs of Some h \<Rightarrow> h | None \<Rightarrow> ''localhost'')
      in scheme @ ''://'' @ html_escape host)"

definition root_page :: "http_env \<Rightarrow> string \<Rightarrow> headers \<Rightarrow> response" where
  "root_page env page hs = \<lparr>rs_status = 200, rs_headers = [(''content-type'', ''text/html; charset=utf-8'')],
     rs_body = render_template page
       [''url'' \<mapsto> root_url hs, ''public_key'' \<mapsto> he_public_key env, ''key_name'' \<mapsto> he_key_name env]\<rparr>"

subsection \<open>The router\<close>

datatype request =
    Health
  | NixCacheInfo
  | CacheInfo
  | Root headers
  | CreateToken headers bytes
  | GetNarinfo string bool
  | PutNarinfo headers string bytes
  | FetchNar headers string
  | StoreNar headers string bytes
  | GetChunk string
  | PutChunk headers string bytes
  | GetDelta string string

text \<open>One request at a time: its handler with the time and a fresh random token.  A panic drops the connection.\<close>

fun handle :: "http_env \<Rightarrow> string \<Rightarrow> nat \<Rightarrow> string \<Rightarrow> request \<Rightarrow> app_state \<Rightarrow> slice_panic + response \<times> app_state" where
  "handle env page now fresh Health s = Ok (health, s)"
| "handle env page now fresh NixCacheInfo s = Ok (nix_cache_info env, s)"
| "handle env page now fresh CacheInfo s = Ok (cache_info env, s)"
| "handle env page now fresh (Root hs) s = Ok (root_page env page hs, s)"
| "handle env page now fresh (CreateToken hs body) s = Ok (create_token env now fresh hs body s)"
| "handle env page now fresh (GetNarinfo p json_query) s = Ok (get_narinfo_handler env p json_query s)"
| "handle env page now fresh (PutNarinfo hs p body) s = Ok (put_narinfo_handler env now hs p body s)"
| "handle env page now fresh (FetchNar hs f) s = Ok (get_nar_handler env hs f s)"
| "handle env page now fresh (StoreNar hs f body) s = Ok (put_nar_handler env now hs f body s)"
| "handle env page now fresh (GetChunk x) s = bindR (get_chunk_response env x s) (\<lambda>r. Ok (r, s))"
| "handle env page now fresh (PutChunk hs x body) s = put_chunk_handler env hs x body s"
| "handle env page now fresh (GetDelta b t) s = Ok (get_delta b t s, s)"

definition step :: "http_env \<Rightarrow> string \<Rightarrow> nat \<times> string \<times> request \<Rightarrow> app_state \<Rightarrow> app_state" where
  "step env page r s = (case handle env page (fst r) (fst (snd r)) (snd (snd r)) s of Inl _ \<Rightarrow> s | Inr (_, s') \<Rightarrow> s')"

definition run_requests :: "http_env \<Rightarrow> string \<Rightarrow> (nat \<times> string \<times> request) list \<Rightarrow> app_state \<Rightarrow> app_state" where
  "run_requests env page rs s = fold (step env page) rs s"

end
