(* ===== verification/HttpCompression.thy ===== *)
theory HttpCompression
  imports HttpApi
begin

text \<open>
  The compression layer in front of the handlers, \<open>crates/ekapkgs-serve/src/compression.rs\<close>.  The zstd encoder
  is a parameter: from the level, the window size, the long-distance flag and the frames of a body it makes
  the pieces it writes, the last ones when it is finished.  Finishing writes the end of the frame to the
  writer behind the encoder and hands the writer back; nothing in the program flushes it after that.
\<close>

definition MIN_COMPRESS_SIZE :: nat where
  "MIN_COMPRESS_SIZE = 256"

definition LARGE_BODY_THRESHOLD :: nat where
  "LARGE_BODY_THRESHOLD = 4 * 1024 * 1024"

definition LDM_WINDOW_LOG_CAP :: nat where
  "LDM_WINDOW_LOG_CAP = 25"

definition HTTP_WINDOW_LOG_MAX :: nat where
  "HTTP_WINDOW_LOG_MAX = 23"

record compression_config =
  cc_enable :: bool
  cc_level :: int
  cc_long_distance_matching :: bool
  cc_window_log :: nat
  cc_max_ldm_encoders :: nat

text \<open>\<open>trim\<close> and \<open>eq_ignore_ascii_case\<close> on visible ASCII.\<close>

definition trim :: "string \<Rightarrow> string" where
  "trim s = (let blank = (\<lambda>c. c = CHR '' '' \<or> c = CHR 0x09) in rev (dropWhile blank (rev (dropWhile blank s))))"

definition ascii_lower :: "char \<Rightarrow> char" where
  "ascii_lower c = (if 65 \<le> (of_char c :: nat) \<and> (of_char c :: nat) \<le> 90 then char_of ((of_char c :: nat) + 32) else c)"

definition eq_ignore_ascii_case :: "string \<Rightarrow> string \<Rightarrow> bool" where
  "eq_ignore_ascii_case a b \<longleftrightarrow> map ascii_lower a = map ascii_lower b"

subsection \<open>Negotiation\<close>

definition part_accepts :: "string \<Rightarrow> bool option" where
  "part_accepts part =
     (let part = trim part;
          (encoding, params) = (case split_once (CHR '';'') part of Some p \<Rightarrow> p | None \<Rightarrow> (part, []))
      in if eq_ignore_ascii_case (trim encoding) ''zstd''
         then (let params = trim params;
                   q_str = (case strip_prefix ''q='' params of Some q \<Rightarrow> Some q | None \<Rightarrow> strip_prefix ''Q='' params)
               in case q_str of
                    Some q \<Rightarrow> if trim q \<in> {''0'', ''0.0'', ''0.00'', ''0.000''} then Some False else Some True
                  | None \<Rightarrow> Some True)
         else None)"

text \<open>The first part that names zstd decides.\<close>

fun first_answer :: "string list \<Rightarrow> bool" where
  "first_answer [] = False"
| "first_answer (p # ps) = (case part_accepts p of Some b \<Rightarrow> b | None \<Rightarrow> first_answer ps)"

definition should_accept_zstd :: "headers \<Rightarrow> bool" where
  "should_accept_zstd hs =
     (case header_str ''accept-encoding'' hs of None \<Rightarrow> False | Some v \<Rightarrow> first_answer (split_on (CHR '','') v))"

definition should_compress :: "compression_config \<Rightarrow> response \<Rightarrow> bool \<Rightarrow> bool \<Rightarrow> bool" where
  "should_compress config r accepts_zstd is_head =
     (if \<not> cc_enable config then False
      else if is_head then False
      else if \<not> accepts_zstd then False
      else if map_of (rs_headers r) ''content-encoding'' \<noteq> None then False
      else if rs_status r = 206 then False
      else if rs_status r = 204 then False
      else if 300 \<le> rs_status r \<and> rs_status r < 400 then False
      else True)"

definition content_length :: "response \<Rightarrow> nat option" where
  "content_length r = Option.bind (header_str ''content-length'' (rs_headers r)) parse_u64"

definition is_nar_response :: "response \<Rightarrow> bool" where
  "is_nar_response r \<longleftrightarrow> header_str ''content-type'' (rs_headers r) = Some ''application/x-nix-nar''"

text \<open>The window size set on the encoder; for 0 none is set, and the encoder takes what it has for the level.\<close>

definition effective_window_log :: "compression_config \<Rightarrow> response \<Rightarrow> nat" where
  "effective_window_log config r =
     (let is_nar = is_nar_response r;
          cap = (if is_nar then LDM_WINDOW_LOG_CAP else HTTP_WINDOW_LOG_MAX);
          use_ldm = (is_nar \<and> cc_long_distance_matching config)
      in if cc_window_log config = 0 then (if use_ldm then cap else 0) else min (cc_window_log config) cap)"

definition actual_use_ldm :: "compression_config \<Rightarrow> bool \<Rightarrow> response \<Rightarrow> bool" where
  "actual_use_ldm config permit r =
     (if is_nar_response r \<and> cc_long_distance_matching config
      then if (case content_length r of None \<Rightarrow> True | Some len \<Rightarrow> len \<ge> LARGE_BODY_THRESHOLD) then permit else True
      else False)"

subsection \<open>The sender\<close>

text \<open>\<open>BufferedSender::write\<close> fills blocks of \<open>SENDER_BUF_SIZE\<close> bytes and sends each full one; \<open>flush\<close> would send
  what is left.\<close>

definition SENDER_BUF_SIZE :: nat where
  "SENDER_BUF_SIZE = 65536"

function sender_write :: "bytes \<Rightarrow> bytes \<times> bytes list \<Rightarrow> bytes \<times> bytes list" where
  "sender_write d (buf, sent) =
     (if d = [] then (buf, sent)
      else let n = min (SENDER_BUF_SIZE - length buf) (length d);
               buf = buf @ take n d
           in if length buf \<ge> SENDER_BUF_SIZE then sender_write (drop n d) ([], sent @ [buf])
              else sender_write (drop n d) (buf, sent))"
  by pat_completeness auto
termination
  by (relation "measure (\<lambda>(d, (buf, sent)). 2 * length d + (if length buf \<ge> SENDER_BUF_SIZE then 1 else 0))")
    (auto simp: SENDER_BUF_SIZE_def min_def)

declare sender_write.simps [simp del]

definition sender_flush :: "bytes \<times> bytes list \<Rightarrow> bytes \<times> bytes list" where
  "sender_flush s = (case s of (buf, sent) \<Rightarrow> if buf \<noteq> [] then ([], sent @ [buf]) else (buf, sent))"

type_synonym encoder = "int \<Rightarrow> nat \<Rightarrow> bool \<Rightarrow> bytes list \<Rightarrow> bytes list"

definition compressed_body :: "encoder \<Rightarrow> int \<Rightarrow> nat \<Rightarrow> bool \<Rightarrow> bytes list \<Rightarrow> bytes" where
  "compressed_body encode level window_log ldm frames =
     concat (snd (fold sender_write (encode level window_log ldm frames) ([], [])))"

definition set_header :: "string \<Rightarrow> string \<Rightarrow> headers \<Rightarrow> headers" where
  "set_header k v hs = (k, v) # filter (\<lambda>h. fst h \<noteq> k) hs"

definition remove_header :: "string \<Rightarrow> headers \<Rightarrow> headers" where
  "remove_header k hs = filter (\<lambda>h. fst h \<noteq> k) hs"

definition compress_response ::
  "encoder \<Rightarrow> compression_config \<Rightarrow> bool \<Rightarrow> headers \<Rightarrow> bool \<Rightarrow> response \<Rightarrow> response" where
  "compress_response encode config permit request_hs is_head r =
     (if \<not> should_compress config r (should_accept_zstd request_hs) is_head then r
      else if (case content_length r of Some len \<Rightarrow> len < MIN_COMPRESS_SIZE | None \<Rightarrow> False) then r
      else r\<lparr>rs_headers := remove_header ''content-length'' (set_header ''content-encoding'' ''zstd'' (rs_headers r)) @
                              [(''vary'', ''accept-encoding'')],
             rs_body := compressed_body encode (cc_level config) (effective_window_log config r)
                          (actual_use_ldm config permit r) [rs_body r]\<rparr>)"

subsection \<open>What reaches the client\<close>

lemma sender_write_step:
  assumes "d \<noteq> []"
  shows "sender_write d (buf, sent) =
    (let n = min (SENDER_BUF_SIZE - length buf) (length d) in
     if length (buf @ take n d) \<ge> SENDER_BUF_SIZE then sender_write (drop n d) ([], sent @ [buf @ take n d])
     else sender_write (drop n d) (buf @ take n d, sent))"
  by (subst sender_write.simps) (simp only: Let_def assms if_False)

lemma sender_write_blocks:
  assumes "length buf < SENDER_BUF_SIZE" and "\<forall>b \<in> set sent. length b = SENDER_BUF_SIZE"
  shows "case sender_write d (buf, sent) of (buf', sent') \<Rightarrow>
    concat sent' @ buf' = concat sent @ buf @ d \<and> length buf' < SENDER_BUF_SIZE \<and> (\<forall>b \<in> set sent'. length b = SENDER_BUF_SIZE)"
  using assms
proof (induction d "(buf, sent)" arbitrary: buf sent rule: sender_write.induct)
  case (1 d buf sent)
  let ?n = "min (SENDER_BUF_SIZE - length buf) (length d)"
  let ?buf = "buf @ take ?n d"
  show ?case
  proof (cases "d = []")
    case True
    then show ?thesis using 1(3,4) by (simp add: sender_write.simps)
  next
    case False
    show ?thesis
    proof (cases "length ?buf \<ge> SENDER_BUF_SIZE")
      case True
      then have len: "length ?buf = SENDER_BUF_SIZE" using 1(3) by (simp add: min_def split: if_splits)
      have "0 < SENDER_BUF_SIZE" by (simp add: SENDER_BUF_SIZE_def)
      then have "case sender_write (drop ?n d) ([], sent @ [?buf]) of (buf', sent') \<Rightarrow>
          concat sent' @ buf' = concat (sent @ [?buf]) @ [] @ drop ?n d \<and> length buf' < SENDER_BUF_SIZE \<and>
          (\<forall>b \<in> set sent'. length b = SENDER_BUF_SIZE)"
        using 1(4) len by (intro 1(1)[OF False refl refl True]) auto
      moreover have "sender_write d (buf, sent) = sender_write (drop ?n d) ([], sent @ [?buf])"
        unfolding sender_write_step[OF False] Let_def using True by (rule if_P)
      moreover have "concat (sent @ [?buf]) @ [] @ drop ?n d = concat sent @ buf @ d" by simp
      ultimately show ?thesis by (simp only:)
    next
      case short: False
      then have "case sender_write (drop ?n d) (?buf, sent) of (buf', sent') \<Rightarrow>
          concat sent' @ buf' = concat sent @ ?buf @ drop ?n d \<and> length buf' < SENDER_BUF_SIZE \<and>
          (\<forall>b \<in> set sent'. length b = SENDER_BUF_SIZE)"
        using 1(4) by (intro 1(2)[OF False refl refl short]) auto
      moreover have "sender_write d (buf, sent) = sender_write (drop ?n d) (?buf, sent)"
        unfolding sender_write_step[OF False] Let_def using short by (rule if_not_P)
      moreover have "concat sent @ ?buf @ drop ?n d = concat sent @ buf @ d" by simp
      ultimately show ?thesis by (simp only:)
    qed
  qed
qed

lemma sender_writes_blocks:
  assumes "length (fst s) < SENDER_BUF_SIZE" and "\<forall>b \<in> set (snd s). length b = SENDER_BUF_SIZE"
  shows "concat (snd (fold sender_write ws s)) @ fst (fold sender_write ws s) = concat (snd s) @ fst s @ concat ws \<and>
    length (fst (fold sender_write ws s)) < SENDER_BUF_SIZE \<and> (\<forall>b \<in> set (snd (fold sender_write ws s)). length b = SENDER_BUF_SIZE)"
  using assms
proof (induction ws arbitrary: s)
  case (Cons w ws)
  obtain buf sent where s: "s = (buf, sent)" by (cases s)
  obtain buf' sent' where w: "sender_write w (buf, sent) = (buf', sent')" by (metis prod.exhaust)
  have "concat sent' @ buf' = concat sent @ buf @ w \<and> length buf' < SENDER_BUF_SIZE \<and> (\<forall>b \<in> set sent'. length b = SENDER_BUF_SIZE)"
    using sender_write_blocks[of buf sent w] Cons.prems w by (simp add: s)
  then show ?case using Cons.IH[of "(buf', sent')"] by (simp add: s w)
qed simp

lemma length_blocks: "\<forall>b \<in> set bs. length b = k \<Longrightarrow> length (concat bs) = k * length bs"
  by (induction bs) simp_all

text \<open>What is sent: the full blocks.  A flush would have sent the rest.\<close>

lemma compressed_body_eq:
  assumes "c = concat (encode level window_log ldm frames)"
  shows "compressed_body encode level window_log ldm frames = take (length c - length c mod SENDER_BUF_SIZE) c"
    and "concat (snd (sender_flush (fold sender_write (encode level window_log ldm frames) ([], [])))) = c"
proof -
  let ?s = "fold sender_write (encode level window_log ldm frames) ([], [])"
  have pos: "0 < SENDER_BUF_SIZE" by (simp add: SENDER_BUF_SIZE_def)
  have B: "concat (snd ?s) @ fst ?s = c" "length (fst ?s) < SENDER_BUF_SIZE" "\<forall>b \<in> set (snd ?s). length b = SENDER_BUF_SIZE"
    using sender_writes_blocks[of "([], [])"] pos by (simp_all add: assms)
  have len: "length c = SENDER_BUF_SIZE * length (snd ?s) + length (fst ?s)"
    using length_blocks[OF B(3)] by (simp flip: B(1))
  have "length c mod SENDER_BUF_SIZE = length (fst ?s)" unfolding len using B(2) by simp
  then have "length c - length c mod SENDER_BUF_SIZE = length (concat (snd ?s))" using len length_blocks[OF B(3)] by simp
  then show "compressed_body encode level window_log ldm frames = take (length c - length c mod SENDER_BUF_SIZE) c"
    by (simp add: compressed_body_def flip: B(1))
  show "concat (snd (sender_flush ?s)) = c"
    using B(1) by (cases ?s) (auto simp: sender_flush_def)
qed

lemma take_blocks_eq:
  assumes "0 < k"
  shows "take (length c - length c mod k) c = c \<longleftrightarrow> k dvd length c"
proof
  assume "take (length c - length c mod k) c = c"
  then have "length (take (length c - length c mod k) c) = length c" by simp
  then have "length c - length c mod k = length c" by simp
  moreover have "length c mod k \<le> length c" by (rule mod_less_eq_dividend)
  ultimately have "length c mod k = 0" by linarith
  then show "k dvd length c" by auto
qed (auto simp: dvd_def)

text \<open>C25. The end of a compressed response is lost.  A client that does not accept zstd gets every response as
  it is.  When a response is compressed, only the full blocks of 64 KiB of the frame the encoder made are sent,
  under the old status, marked as zstd and without a length: the frame arrives whole exactly when its length is
  a multiple of 65536, and a shorter frame is answered with an empty body.\<close>

theorem compressed_tail_is_lost:
  assumes "c = concat (encode (cc_level config) (effective_window_log config r) (actual_use_ldm config permit r) [rs_body r])"
    and "r' = compress_response encode config permit hs is_head r"
  shows "(\<not> should_accept_zstd hs \<longrightarrow> r' = r) \<and>
    (should_compress config r (should_accept_zstd hs) is_head \<and> (\<forall>len. content_length r = Some len \<longrightarrow> 256 \<le> len) \<longrightarrow>
      rs_body r' = take (length c - length c mod 65536) c \<and> (rs_body r' = c \<longleftrightarrow> 65536 dvd length c) \<and>
      (length c < 65536 \<longrightarrow> rs_body r' = []) \<and> rs_status r' = rs_status r \<and>
      map_of (rs_headers r') ''content-encoding'' = Some ''zstd'' \<and> map_of (rs_headers r') ''content-length'' = None)"
proof (intro conjI impI)
  show "r' = r" if "\<not> should_accept_zstd hs"
    using that unfolding assms(2) compress_response_def by (simp add: should_compress_def)
next
  assume "should_compress config r (should_accept_zstd hs) is_head \<and> (\<forall>len. content_length r = Some len \<longrightarrow> 256 \<le> len)"
  then have go: "should_compress config r (should_accept_zstd hs) is_head"
    and "\<not> (case content_length r of Some len \<Rightarrow> len < MIN_COMPRESS_SIZE | None \<Rightarrow> False)"
    by (auto simp: MIN_COMPRESS_SIZE_def split: option.split)
  then have r': "r' = r\<lparr>rs_headers := remove_header ''content-length'' (set_header ''content-encoding'' ''zstd'' (rs_headers r)) @
                              [(''vary'', ''accept-encoding'')],
             rs_body := compressed_body encode (cc_level config) (effective_window_log config r)
                          (actual_use_ldm config permit r) [rs_body r]\<rparr>"
    unfolding assms(2) compress_response_def by simp
  have body: "rs_body r' = take (length c - length c mod 65536) c"
    by (simp add: r' compressed_body_eq(1)[where encode = encode, OF refl] assms(1) SENDER_BUF_SIZE_def)
  show "rs_body r' = take (length c - length c mod 65536) c" by (rule body)
  show "rs_body r' = c \<longleftrightarrow> 65536 dvd length c" unfolding body by (rule take_blocks_eq) simp
  show "rs_body r' = []" if "length c < 65536" unfolding body using that by simp
  show "rs_status r' = rs_status r" by (simp add: r')
  have "map_of (filter (\<lambda>h. fst h \<noteq> k) hs @ [(''vary'', v)]) k = (if k = ''vary'' then Some v else None)" for k v and hs :: headers
    by (induction hs) auto
  then show "map_of (rs_headers r') ''content-length'' = None" by (simp add: r' remove_header_def)
  show "map_of (rs_headers r') ''content-encoding'' = Some ''zstd''" by (simp add: r' remove_header_def set_header_def)
qed

text \<open>An instance with an encoder that copies, one piece per frame.\<close>

definition sample_page :: response where
  "sample_page = \<lparr>rs_status = 200, rs_headers = [(''content-type'', ''text/html'')], rs_body = ''page''\<rparr>"

definition sample_compression :: compression_config where
  "sample_compression = \<lparr>cc_enable = True, cc_level = 3, cc_long_distance_matching = True, cc_window_log = 0, cc_max_ldm_encoders = 16\<rparr>"

lemma sample_should_compress:
  "should_compress sample_compression sample_page (should_accept_zstd [(''accept-encoding'', ''gzip, zstd;q=0.5'')]) False"
  by code_simp

theorem compressed_tail_is_lost_witness:
  "rs_body (compress_response (\<lambda>_ _ _ fs. fs) sample_compression True [(''accept-encoding'', ''gzip, zstd;q=0.5'')] False sample_page) = []"
proof -
  have "length (concat [rs_body sample_page]) < 65536" "\<forall>len. content_length sample_page = Some len \<longrightarrow> 256 \<le> len"
    by (simp_all add: sample_page_def content_length_def header_str_def)
  then show ?thesis
    using compressed_tail_is_lost[where encode = "\<lambda>_ _ _ fs. fs", OF refl refl] sample_should_compress by blast
qed

end
