(* ===== verification/Gc.thy ===== *)
theory Gc
  imports CastoreFilters
begin

text \<open>
  Garbage collection, \<open>crates/ekapkgs-serve/src/gc.rs\<close>.  For the content-addressed store the background
  task evicts least recently used paths until the chunk bytes are under the target; for a directory of
  narinfo and archive files a database of registered paths and their references is kept, and paths no
  retained path refers to are evicted, oldest first.  An event of the background task is an access
  reported by a handler or a tick of its timer.  Metrics are not modelled, nor failing SQLite statements.
\<close>

subsection \<open>The content-addressed store\<close>

datatype gc_event = Access string | Tick

record gc_config =
  gc_max_size :: nat
  gc_target_size :: nat

fun cas_evict_loop :: "(string \<Rightarrow> bool) \<Rightarrow> nat \<Rightarrow> nat \<Rightarrow> string list \<Rightarrow> nat \<Rightarrow> castore \<Rightarrow> nat \<times> castore" where
  "cas_evict_loop io now to_free [] freed st = (freed, st)"
| "cas_evict_loop io now to_free (h # hs) freed st =
     (if freed \<ge> to_free then (freed, st)
      else let (bytes, st) = evict_path io now h st in cas_evict_loop io now to_free hs (freed + bytes) st)"

definition cas_maybe_run_gc :: "(string \<Rightarrow> bool) \<Rightarrow> nat \<Rightarrow> gc_config \<Rightarrow> castore \<Rightarrow> castore" where
  "cas_maybe_run_gc io now cfg st =
     (let total_bytes = total_chunk_bytes st in
      if total_bytes \<le> gc_max_size cfg then st
      else if \<not> st_path_files_ready st then st
      else let to_free = total_bytes - gc_target_size cfg in
           if to_free = 0 then st
           else snd (cas_evict_loop io now to_free (map fst (paths_by_access_asc st)) 0 st))"

definition cas_gc_step ::
  "(string \<Rightarrow> bool) \<Rightarrow> nat \<Rightarrow> gc_config \<Rightarrow> gc_event \<Rightarrow> string list \<times> castore \<Rightarrow> string list \<times> castore" where
  "cas_gc_step io now cfg ev s = (case s of (pending, st) \<Rightarrow>
     (case ev of
        Access h \<Rightarrow> (let pending = pending @ [h] in
          if length pending \<ge> 500 then ([], update_access now pending st) else (pending, st))
      | Tick \<Rightarrow> ([], cas_maybe_run_gc io now cfg (if pending \<noteq> [] then update_access now pending st else st))))"

subsection \<open>The database of a directory cache\<close>

record gc_row =
  gr_store_path :: string
  gr_nar_url :: string
  gr_file_size :: nat
  gr_narinfo_size :: nat
  gr_last_access :: nat
  gr_added_at :: nat

record gc_state =
  gs_paths :: "(string, gc_row) table"
  gs_refs :: "(string \<times> string, unit) table"
  gs_files :: "(string, bytes) table"

text \<open>An access is written by \<open>UPDATE\<close>, rounded to the hour.\<close>

definition flush_accesses :: "nat \<Rightarrow> string list \<Rightarrow> gc_state \<Rightarrow> gc_state" where
  "flush_accesses now hashes g =
     (let quantized = now - now mod 3600
      in g\<lparr>gs_paths := fold (\<lambda>h. update_key h (\<lambda>r. r\<lparr>gr_last_access := quantized\<rparr>)) (remdups hashes) (gs_paths g)\<rparr>)"

definition row_size :: "gc_row \<Rightarrow> nat" where
  "row_size r = gr_file_size r + gr_narinfo_size r"

definition gc_total :: "gc_state \<Rightarrow> nat" where
  "gc_total g = sum_list (map (row_size \<circ> snd) (gs_paths g))"

subsection \<open>Which paths to evict\<close>

text \<open>A path is pinned by a registered path other than itself that refers to it and is not evicted.\<close>

definition pinned :: "gc_state \<Rightarrow> string set \<Rightarrow> string \<Rightarrow> bool" where
  "pinned g evict_set h \<longleftrightarrow>
     list_ex (\<lambda>(r, _). snd r = h \<and> fst r \<noteq> h \<and> fst r \<in> fst ` set (gs_paths g) \<and> fst r \<notin> evict_set) (gs_refs g)"

text \<open>One sweep over the paths, oldest access first, until enough is freed.\<close>

fun gc_pass :: "gc_state \<Rightarrow> nat \<Rightarrow> (string \<times> gc_row) list \<Rightarrow> string set \<times> nat \<times> bool \<Rightarrow> string set \<times> nat \<times> bool" where
  "gc_pass g to_free [] s = s"
| "gc_pass g to_free ((h, r) # es) (evict_set, freed, evicted_any) =
     (if h \<in> evict_set \<or> pinned g evict_set h then gc_pass g to_free es (evict_set, freed, evicted_any)
      else let s = (insert h evict_set, freed + row_size r, True) in
           if freed + row_size r \<ge> to_free then s else gc_pass g to_free es s)"

definition gc_entries :: "gc_state \<Rightarrow> (string \<times> gc_row) list" where
  "gc_entries g = sort_key (\<lambda>e. gr_last_access (snd e)) (gs_paths g)"

lemma gc_pass_grows:
  "gc_pass g to_free es (E, freed, any) = (E', freed', any') \<Longrightarrow>
   E \<subseteq> E' \<and> E' \<subseteq> E \<union> fst ` set es \<and> (any \<longrightarrow> any') \<and> (any' \<and> \<not> any \<longrightarrow> (\<exists>h \<in> fst ` set es. h \<in> E' \<and> h \<notin> E))"
proof (induction es arbitrary: E freed any)
  case (Cons e es)
  obtain h r where e: "e = (h, r)" by fastforce
  show ?case
  proof (cases "h \<in> E \<or> pinned g E h")
    case True
    then show ?thesis using Cons.IH[of E freed any] Cons.prems e by auto
  next
    case False
    then show ?thesis
    proof (cases "freed + row_size r \<ge> to_free")
      case True
      then show ?thesis using False Cons.prems e by (auto simp: Let_def)
    next
      case more: False
      then show ?thesis using False Cons.IH[of "insert h E" "freed + row_size r" True] Cons.prems e by (auto simp: Let_def)
    qed
  qed
qed simp

function gc_loop :: "gc_state \<Rightarrow> nat \<Rightarrow> string set \<times> nat \<Rightarrow> string set \<times> nat" where
  "gc_loop g to_free (evict_set, freed) =
     (if freed \<ge> to_free then (evict_set, freed)
      else case gc_pass g to_free (gc_entries g) (evict_set, freed, False) of
             (evict_set, freed, evicted_any) \<Rightarrow>
               if evicted_any then gc_loop g to_free (evict_set, freed) else (evict_set, freed))"
  by pat_completeness auto
termination
proof (relation "measure (\<lambda>(g, to_free, (E, freed)). card (fst ` set (gs_paths g) - E))", goal_cases)
  case (2 g to_free E freed E' y freed' any')
  then have any': "any'" and run: "gc_pass g to_free (gc_entries g) (E, freed, False) = (E', freed', any')" by auto
  from gc_pass_grows[OF run] any' obtain h where h: "h \<in> fst ` set (gc_entries g)" "h \<in> E'" "h \<notin> E" "E \<subseteq> E'" by blast
  then have "fst ` set (gs_paths g) - E' \<subset> fst ` set (gs_paths g) - E" by (auto simp: gc_entries_def)
  then show ?case by (simp add: psubset_card_mono)
qed simp

declare gc_loop.simps [simp del]

subsection \<open>Evicting them\<close>

definition narinfo_file :: "string \<Rightarrow> string" where
  "narinfo_file h = h @ ''.narinfo''"

text \<open>\<open>io p\<close> says whether removing \<open>p\<close> succeeds; a failure is logged.\<close>

definition remove_file :: "(string \<Rightarrow> bool) \<Rightarrow> string \<Rightarrow> (string, bytes) table \<Rightarrow> (string, bytes) table" where
  "remove_file io p fs = (if io p then delete_key p fs else fs)"

definition gc_evict :: "(string \<Rightarrow> bool) \<Rightarrow> string \<times> gc_row \<Rightarrow> gc_state \<Rightarrow> gc_state" where
  "gc_evict io e g =
     g\<lparr>gs_files := remove_file io (gr_nar_url (snd e)) (remove_file io (narinfo_file (fst e)) (gs_files g)),
       gs_refs := filter (\<lambda>r. fst (fst r) \<noteq> fst e \<and> snd (fst r) \<noteq> fst e) (gs_refs g),
       gs_paths := delete_key (fst e) (gs_paths g)\<rparr>"

definition run_gc :: "(string \<Rightarrow> bool) \<Rightarrow> nat \<Rightarrow> nat \<Rightarrow> gc_state \<Rightarrow> gc_state" where
  "run_gc io current_size target_bytes g =
     (let to_free = current_size - target_bytes in
      if to_free = 0 then g
      else let (evict_set, freed) = gc_loop g to_free ({}, 0)
           in fold (gc_evict io) (filter (\<lambda>e. fst e \<in> evict_set) (gc_entries g)) g)"

definition maybe_run_gc :: "(string \<Rightarrow> bool) \<Rightarrow> gc_config \<Rightarrow> gc_state \<Rightarrow> gc_state" where
  "maybe_run_gc io cfg g =
     (if gc_total g \<le> gc_max_size cfg then g else run_gc io (gc_total g) (gc_target_size cfg) g)"

definition gc_step :: "(string \<Rightarrow> bool) \<Rightarrow> nat \<Rightarrow> gc_config \<Rightarrow> gc_event \<Rightarrow> string list \<times> gc_state \<Rightarrow> string list \<times> gc_state" where
  "gc_step io now cfg ev s = (case s of (pending, g) \<Rightarrow>
     (case ev of
        Access h \<Rightarrow> (let pending = pending @ [h] in
          if length pending \<ge> 500 then ([], flush_accesses now pending g) else (pending, g))
      | Tick \<Rightarrow> ([], maybe_run_gc io cfg (if pending \<noteq> [] then flush_accesses now pending g else g))))"

subsection \<open>The scan at startup\<close>

definition add_ref :: "string \<Rightarrow> string \<Rightarrow> (string \<times> string, unit) table \<Rightarrow> (string \<times> string, unit) table" where
  "add_ref h r refs = insert_or_ignore (h, first_segment (CHR ''-'') r) () refs"

definition scan_entry :: "nat \<Rightarrow> string \<times> bytes \<Rightarrow> gc_state \<Rightarrow> gc_state" where
  "scan_entry now f g =
     (case (if CHR ''/'' \<in> set (fst f) then None else strip_suffix ''.narinfo'' (fst f)) of
        None \<Rightarrow> g
      | Some h \<Rightarrow>
         if map_of (gs_paths g) h \<noteq> None then g
         else case (if utf8_valid (snd f) then parse_narinfo (snd f) else None) of
                None \<Rightarrow> g
              | Some ni \<Rightarrow>
                 (let file_size = (case map_of (gs_files g) (ni_url ni) of None \<Rightarrow> 0 | Some d \<Rightarrow> length d)
                  in g\<lparr>gs_paths := insert_or_ignore h \<lparr>gr_store_path = ni_store_path ni, gr_nar_url = ni_url ni,
                         gr_file_size = file_size, gr_narinfo_size = length (snd f), gr_last_access = now,
                         gr_added_at = now\<rparr> (gs_paths g),
                       gs_refs := fold (add_ref h) (ni_references ni) (gs_refs g)\<rparr>))"

definition initial_scan :: "nat \<Rightarrow> gc_state \<Rightarrow> gc_state" where
  "initial_scan now g = fold (scan_entry now) (gs_files g) g"

subsection \<open>Collecting a content-addressed store\<close>

definition evict_all :: "(string \<Rightarrow> bool) \<Rightarrow> nat \<Rightarrow> string list \<Rightarrow> castore \<Rightarrow> castore" where
  "evict_all io now hs st = fold (\<lambda>h st. snd (evict_path io now h st)) hs st"

lemma evict_all_simps:
  "evict_all io now [] st = st" "evict_all io now (h # hs) st = evict_all io now hs (snd (evict_path io now h st))"
  by (simp_all add: evict_all_def)

lemma holds_evict_all:
  assumes "\<And>p. io p" "cas_env_ok env" "holds env U st m"
  shows "holds env U (evict_all io now hs st) (\<lambda>k. if k \<in> set hs then None else m k)"
  using assms(3)
proof (induction hs arbitrary: st m)
  case (Cons h hs)
  have 1: "holds env U (snd (evict_path io now h st)) (m(h := None))"
    by (rule holds_evict[where io = io and now = now, OF assms(1,2) Cons.prems prod.collapse[symmetric]])
  have 2: "(\<lambda>k. if k \<in> set hs then None else (m(h := None)) k) = (\<lambda>k. if k \<in> set (h # hs) then None else m k)"
    by (simp add: fun_eq_iff)
  from Cons.IH[OF 1] show ?case unfolding 2 evict_all_simps .
qed (simp add: evict_all_simps)

text \<open>The loop evicts the shortest prefix that frees enough.\<close>

lemma cas_evict_loop_prefix:
  assumes "\<And>p. io p" "cas_env_ok env" "holds env U st m"
    and "cas_evict_loop io now to_free hs freed st = (freed', st')"
  shows "\<exists>as bs. hs = as @ bs \<and> st' = evict_all io now as st \<and>
    total_chunk_bytes st + freed = total_chunk_bytes st' + freed' \<and> (freed' \<ge> to_free \<or> bs = []) \<and>
    (\<forall>xs x ys. as = xs @ x # ys \<longrightarrow> total_chunk_bytes st + freed < total_chunk_bytes (evict_all io now xs st) + to_free)"
  using assms(3,4)
proof (induction hs arbitrary: freed st m)
  case Nil
  then show ?case by (simp add: evict_all_simps)
next
  case (Cons h hs)
  show ?case
  proof (cases "freed \<ge> to_free")
    case True
    then show ?thesis using Cons.prems by (intro exI[of _ "[]"] exI[of _ "h # hs"]) (auto simp: evict_all_simps)
  next
    case False
    obtain b st1 where e: "evict_path io now h st = (b, st1)" by fastforce
    have h1: "holds env U st1 (m(h := None))" by (rule holds_evict[where io = io, OF assms(1,2) Cons.prems(1) e])
    have inv: "castore_inv env U st" using Cons.prems(1) unfolding holds_def by blast
    have total: "total_chunk_bytes st = total_chunk_bytes st1 + b"
      using evict_path_fields(13)[where io = io, OF assms(1) inv assms(2) e] .
    have run: "cas_evict_loop io now to_free hs (freed + b) st1 = (freed', st')" using Cons.prems(2) False e by simp
    obtain as bs where IH: "hs = as @ bs" "st' = evict_all io now as st1"
      "total_chunk_bytes st1 + (freed + b) = total_chunk_bytes st' + freed'" "freed' \<ge> to_free \<or> bs = []"
      "\<forall>xs x ys. as = xs @ x # ys \<longrightarrow>
         total_chunk_bytes st1 + (freed + b) < total_chunk_bytes (evict_all io now xs st1) + to_free"
      using Cons.IH[OF h1 run] by (elim exE conjE)
    have "total_chunk_bytes st + freed < total_chunk_bytes (evict_all io now xs st) + to_free"
      if split: "h # as = xs @ x # ys" for xs x ys
    proof (cases xs)
      case Nil
      then show ?thesis using False by (simp add: evict_all_simps)
    next
      case (Cons z zs)
      then have "z = h" "as = zs @ x # ys" using split by simp_all
      then have "total_chunk_bytes st1 + (freed + b) < total_chunk_bytes (evict_all io now zs st1) + to_free"
        using IH(5) by blast
      then show ?thesis using total Cons \<open>z = h\<close> e by (simp add: evict_all_simps)
    qed
    then show ?thesis using IH(1-4) total e
      by (intro exI[of _ "h # as"] exI[of _ bs]) (simp add: evict_all_simps)
  qed
qed

text \<open>No operation of a history takes back that the file references are complete, nor touches the
  clean-shutdown flag.\<close>

definition kept :: "castore \<Rightarrow> bool \<times> (string, nat) table" where
  "kept st = (st_path_files_ready st, db_meta (st_db st))"

lemma store_chunk_kept: "kept (snd (store_chunk env io c st)) = kept st"
  by (auto simp: kept_def store_chunk_def bindS_def write_chunk_file_def chunk_bloom_insert_def insert_chunk_row_def Let_def
      split: prod.splits sum.splits option.splits if_splits)

lemma ingest_chunks_kept: "kept (snd (ingest_chunks env io cs st)) = kept st"
proof (induction cs arbitrary: st)
  case (Cons c cs)
  obtain r st1 where "store_chunk env io c st = (r, st1)" by fastforce
  then show ?case using Cons[of st1] store_chunk_kept[of env io c st]
    by (cases r) (auto simp: bindS_def returnS_def split: prod.splits sum.splits)
qed (simp add: returnS_def)

lemma ingest_kept:
  "kept (snd (ingest_node env io n st)) = kept st"
  "kept (snd (ingest_entries env io es st)) = kept st"
proof (induction env io n st and env io es st rule: ingest_node_ingest_entries.induct)
  case (1 env io x d st)
  obtain r st1 where "ingest_chunks env io (cdc env d) st = (r, st1)" by fastforce
  then show ?case using ingest_chunks_kept[of env io "cdc env d" st]
    by (cases r) (simp_all add: bindS_def Let_def kept_def)
next
  case (2 env io es st)
  obtain r st1 where "ingest_entries env io es st = (r, st1)" by fastforce
  then show ?case using 2[of st] by (cases r) (simp_all add: bindS_def split_def Let_def kept_def insert_directory_def)
next
  case (5 env io name n es st)
  obtain r st1 where 1: "ingest_node env io n st = (r, st1)" by fastforce
  obtain r2 st2 where 2: "ingest_entries env io es st1 = (r2, st2)" by fastforce
  have a: "kept (snd (ingest_node env io n x)) = kept x" for x by (rule 5(1))
  have b: "kept (snd (ingest_entries env io es x)) = kept x" for x by (rule 5(2))
  show ?case using 1 2 a[of st] b[of st1] by (cases r; cases r2) (simp_all add: bindS_def returnS_def)
qed (simp_all add: returnS_def)

lemma put_nar_kept: "kept (snd (put_nar fuel env io now p d st)) = kept st"
proof -
  have "kept st1 = kept st" if "ingest_node env io n st = (r, st1)" for n r st1
    using ingest_kept(1)[of env io n st] that by simp
  then show ?thesis
    by (auto simp: put_nar_def Let_def rollback_def invalidate_stats_cache_def path_bloom_insert_def kept_def
        insert_path_files store_metadata_with_conn_def split: sum.split prod.split option.split)
qed

lemma drop_files_meta: "db_meta (snd (drop_files fs db check)) = db_meta db"
  by (induction fs db check rule: drop_files.induct) (simp_all add: Let_def)

lemma drop_chunks_kept: "kept (snd (drop_chunks io gs st n)) = kept st"
  by (induction io gs st n rule: drop_chunks.induct) (simp_all add: Let_def kept_def)

lemma evict_path_kept: "kept (snd (evict_path io now h st)) = kept st"
proof -
  obtain check db where df: "drop_files (path_file_digests h (st_db st)) (delete_path_rows h (st_db st)) [] = (check, db)" by fastforce
  have "db_meta db = db_meta (st_db st)"
    using drop_files_meta[of "path_file_digests h (st_db st)" "delete_path_rows h (st_db st)" "[]"] df
    by (simp add: delete_path_rows_def)
  moreover obtain b st2 where dc: "drop_chunks io check (st\<lparr>st_db := db\<rparr>) 0 = (b, st2)" by fastforce
  moreover have "kept st2 = kept (st\<lparr>st_db := db\<rparr>)" using drop_chunks_kept[of io check "st\<lparr>st_db := db\<rparr>" 0] dc by simp
  ultimately show ?thesis
    unfolding evict_path_def Let_def df by (simp add: invalidate_stats_cache_def kept_def delete_path_rows_def)
qed

lemma exec_op_kept: "kept (exec_op fuel env fl io now a st) = kept st"
proof (cases a)
  case (PutNarinfo h content)
  then show ?thesis
    by (simp add: exec_op_def put_narinfo_def store_metadata_def path_bloom_insert_def kept_def store_metadata_with_conn_def
        split: option.split sum.split)
next
  case (LoadDirectory g)
  then show ?thesis
    by (simp add: exec_op_def load_directory_def Let_def kept_def split: option.split prod.split)
qed (simp_all add: exec_op_def put_nar_kept store_chunk_kept evict_path_kept, simp_all add: update_access_def Let_def kept_def)

lemma run_store_kept:
  "st_path_files_ready (run_store fuel env fl io as (new_castore fl level clock))"
  "db_meta (st_db (run_store fuel env fl io as (new_castore fl level clock))) = [(''clean_shutdown'', 0)]"
proof -
  have "kept (fold (\<lambda>(now, a). exec_op fuel env fl io now a) as st) = kept st" for st
    by (induction as arbitrary: st) (simp_all add: exec_op_kept split_def)
  then have "kept (run_store fuel env fl io as (new_castore fl level clock)) = (True, [(''clean_shutdown'', 0)])"
    by (simp add: run_store_def kept_def new_castore_def)
  then show "st_path_files_ready (run_store fuel env fl io as (new_castore fl level clock))"
    "db_meta (st_db (run_store fuel env fl io as (new_castore fl level clock))) = [(''clean_shutdown'', 0)]"
    by (simp_all add: kept_def)
qed

text \<open>C20. Garbage collection of the content-addressed store reaches its target and does no more.  In any
  state a history reaches whose chunks exceed the limit, a collection evicts a prefix of the paths in order
  of their last access: afterwards every other path reads as before, the evicted ones are gone, and either the chunk
  bytes are within the target or no path is left; before its last eviction they were above it.
\<close>

theorem cas_gc_reaches_target:
  assumes "cas_env_ok env" and "inj_on (blake3 env) (history_blobs env as)" and "\<forall>p. io p"
    and "\<forall>a \<in> set as. op_fits fuel (snd a)" and "0 < fuel"
    and "st = run_store fuel env fl io as (new_castore fl level clock)"
    and "gc_max_size cfg < total_chunk_bytes st" and "gc_target_size cfg \<le> gc_max_size cfg"
  shows "\<exists>hs rest. map fst (paths_by_access_asc st) = hs @ rest \<and> cas_maybe_run_gc io now cfg st = evict_all io now hs st \<and>
    (\<forall>p. get_nar fuel env p (cas_maybe_run_gc io now cfg st) =
       (if hash_of_file_path p \<in> set hs then Ok None else get_nar fuel env p st)) \<and>
    (total_chunk_bytes (cas_maybe_run_gc io now cfg st) \<le> gc_target_size cfg \<or> rest = []) \<and>
    (\<forall>xs x. hs = xs @ [x] \<longrightarrow> gc_target_size cfg < total_chunk_bytes (evict_all io now xs st))"
proof -
  have io: "\<And>p. io p" using assms(3) by blast
  have h: "holds env (history_blobs env as) st (run_spec as)" unfolding assms(6) using assms(1-4) by (rule holds_run)
  define to_free where "to_free = total_chunk_bytes st - gc_target_size cfg"
  have pos: "to_free \<noteq> 0" using assms(7,8) by (simp add: to_free_def)
  obtain freed st' where run: "cas_evict_loop io now to_free (map fst (paths_by_access_asc st)) 0 st = (freed, st')"
    by fastforce
  have gc: "cas_maybe_run_gc io now cfg st = st'"
    using assms(7) pos run run_store_kept(1)[of fuel env fl io as level clock]
    by (simp add: cas_maybe_run_gc_def Let_def to_free_def assms(6))
  obtain hs rest where P: "map fst (paths_by_access_asc st) = hs @ rest" "st' = evict_all io now hs st"
    "total_chunk_bytes st + 0 = total_chunk_bytes st' + freed" "freed \<ge> to_free \<or> rest = []"
    "\<forall>xs x ys. hs = xs @ x # ys \<longrightarrow> total_chunk_bytes st + 0 < total_chunk_bytes (evict_all io now xs st) + to_free"
    using cas_evict_loop_prefix[where io = io, OF io assms(1) h run] by (elim exE conjE)
  have h': "holds env (history_blobs env as) st' (\<lambda>k. if k \<in> set hs then None else run_spec as k)"
    unfolding P(2) by (rule holds_evict_all[where io = io, OF io assms(1) h])
  have fuel: "nar_fuel n \<le> fuel" if "run_spec as k = Some (Some n)" for n k
    using spec_fuel[of Map.empty fuel as] assms(4) that by (simp add: run_spec_def)
  have F: "nar_fuel n \<le> fuel" if "(if hash_of_file_path p \<in> set hs then None else run_spec as (hash_of_file_path p)) = Some (Some n)"
    for n p using fuel that by (simp split: if_splits)
  have nar: "get_nar fuel env p st' = (if hash_of_file_path p \<in> set hs then Ok None else get_nar fuel env p st)" for p
    using holds_get_nar[OF assms(1,2) h' F assms(5), of p]
      holds_get_nar[OF assms(1,2) h fuel[of "hash_of_file_path p"] assms(5)] by simp
  have "total_chunk_bytes st' \<le> gc_target_size cfg \<or> rest = []"
    using P(3,4) assms(7,8) unfolding to_free_def by linarith
  moreover have "gc_target_size cfg < total_chunk_bytes (evict_all io now xs st)" if "hs = xs @ [x]" for xs x
    using P(5) that assms(7,8) unfolding to_free_def by fastforce
  ultimately show ?thesis using P(1,2) nar unfolding gc by (intro exI[of _ hs] exI[of _ rest]) simp
qed

lemma sample_stored: "0 < total_chunk_bytes (run_store 9 sample_env toy_sizes (\<lambda>_. True) [sample_put] (new_castore toy_sizes 3 0))"
proof -
  let ?st = "run_store 9 sample_env toy_sizes (\<lambda>_. True) [sample_put] (new_castore toy_sizes 3 0)"
  let ?U = "history_blobs sample_env [sample_put]"
  have inj: "inj_on (blake3 sample_env) ?U" unfolding sample_history(1) by (rule sample_nar_inj)
  have h: "holds sample_env ?U ?st [''abc'' \<mapsto> Some sample_nar]"
    using holds_run[OF sample_env_ok inj _ sample_history(2), of "\<lambda>_. True"] by (simp add: sample_history(3))
  then obtain row where "map_of (db_paths (st_db ?st)) ''abc'' = Some row" unfolding holds_def by (metis fun_upd_same not_Some_eq)
  then have "path_holds sample_env ?U (st_db ?st) ''abc'' sample_nar"
    using h unfolding holds_def row_holds_def by (metis (no_types, lifting) fun_upd_same option.simps(5))
  then have f: "file_stored sample_env (st_db ?st) ''hello''" by (simp add: path_holds_def tree_stored_def sample_nar_def)
  define c where "c = sample_cdc ''hello'' ! 0"
  have "sample_cdc ''hello'' \<noteq> []" using slices_pieces[of 4 "''hello''"] by (auto simp: sample_cdc_def)
  then have c: "c \<in> set (sample_cdc ''hello'')" unfolding c_def by simp
  then have c0: "c \<noteq> []" using slices_pieces[of 4 "''hello''"] by (simp add: sample_cdc_def)
  have "map_of (db_chunks (st_db ?st)) (sample_blake3 c) \<noteq> None" using f c by (simp add: file_stored_def)
  then obtain k where k: "map_of (db_chunks (st_db ?st)) (sample_blake3 c) = Some k" by (meson not_Some_eq)
  have "chunk_ok sample_env ?U (st_files ?st) (sample_blake3 c) k"
    using h k unfolding holds_def castore_inv_def files_inv_def by blast
  then obtain x where "sample_blake3 c = sample_blake3 x" "x \<in> ?U" "ck_size k = length x" unfolding chunk_ok_def by auto
  moreover have "x \<noteq> []"
  proof
    assume "x = []"
    have l: "last (sample_blake3 b) = char_of (length b)" for b by (simp add: sample_blake3_def)
    have "char_of (length c) = (char_of (length x) :: char)"
      using arg_cong[where f = last, OF \<open>sample_blake3 c = sample_blake3 x\<close>] unfolding l .
    from arg_cong[where f = "of_char :: char \<Rightarrow> nat", OF this] have "length c mod 256 = 0"
      unfolding \<open>x = []\<close> by (simp only: of_char_of list.size(3) mod_0)
    moreover have "length c \<le> 4" using c slices_pieces[of 4 "''hello''"] by (simp add: sample_cdc_def)
    ultimately show False using c0 by simp
  qed
  ultimately have "0 < ck_size k" by simp
  moreover have "ck_size k \<le> total_chunk_bytes ?st"
    unfolding total_chunk_bytes_def
    by (rule member_le_sum_list) (use k in \<open>auto simp: image_iff dest!: map_of_SomeD intro: bexI[rotated]\<close>)
  ultimately show ?thesis by linarith
qed

theorem cas_gc_reaches_target_witness:
  "let st = run_store 9 sample_env toy_sizes (\<lambda>_. True) [sample_put] (new_castore toy_sizes 3 0);
       cfg = \<lparr>gc_max_size = 0, gc_target_size = 0\<rparr>
   in \<exists>hs. cas_maybe_run_gc (\<lambda>_. True) 9 cfg st = evict_all (\<lambda>_. True) 9 hs st"
proof -
  let ?st = "run_store 9 sample_env toy_sizes (\<lambda>_. True) [sample_put] (new_castore toy_sizes 3 0)"
  have inj: "inj_on (blake3 sample_env) (history_blobs sample_env [sample_put])"
    unfolding sample_history(1) by (rule sample_nar_inj)
  let ?cfg = "\<lparr>gc_max_size = 0, gc_target_size = 0\<rparr>"
  have "gc_max_size ?cfg < total_chunk_bytes ?st" using sample_stored by simp
  moreover have "\<forall>p :: string. (\<lambda>_. True) p" "0 < (9::nat)" "gc_target_size ?cfg \<le> gc_max_size ?cfg" by simp_all
  ultimately obtain hs where "cas_maybe_run_gc (\<lambda>_. True) 9 ?cfg ?st = evict_all (\<lambda>_. True) 9 hs ?st"
    using cas_gc_reaches_target[OF sample_env_ok inj _ sample_history(2) _ refl] by meson
  then show ?thesis unfolding Let_def by (rule exI)
qed

subsection \<open>Collecting a directory of files\<close>

abbreviation gc_keys :: "gc_state \<Rightarrow> string set" where
  "gc_keys g \<equiv> fst ` set (gs_paths g)"

definition size_of :: "(string, gc_row) table \<Rightarrow> string set \<Rightarrow> nat" where
  "size_of t E = sum_list (map (row_size \<circ> snd) (filter (\<lambda>e. fst e \<in> E) t))"

lemma size_of_insert:
  assumes "wf_table t" "(h, r) \<in> set t" "h \<notin> E"
  shows "size_of t (insert h E) = size_of t E + row_size r"
  using assms
proof (induction t)
  case (Cons e t)
  show ?case
  proof (cases "fst e = h")
    case True
    then have out: "h \<notin> fst ` set t" using Cons.prems(1) by (auto simp: wf_table_def)
    then have "e = (h, r)" using Cons.prems(2) by force
    moreover have "filter (\<lambda>e. fst e \<in> insert h E) t = filter (\<lambda>e. fst e \<in> E) t"
      using out by (intro filter_cong) force+
    ultimately show ?thesis using Cons.prems(3) by (simp add: size_of_def)
  next
    case False
    then have "size_of t (insert h E) = size_of t E + row_size r" using Cons by (auto simp: wf_table_def)
    then show ?thesis using False by (auto simp: size_of_def)
  qed
qed simp

lemma size_of_split: "gc_total g = size_of (gs_paths g) E + size_of (gs_paths g) (- E)"
proof -
  have "sum_list (map f t) = sum_list (map f (filter P t)) + sum_list (map f (filter (\<lambda>x. \<not> P x) t))"
    for f :: "string \<times> gc_row \<Rightarrow> nat" and P t by (induction t) auto
  from this[of _ "gs_paths g" "\<lambda>e. fst e \<in> E"] show ?thesis by (simp add: gc_total_def size_of_def)
qed

lemma pinned_mono: "E \<subseteq> E' \<Longrightarrow> pinned g E' h \<Longrightarrow> pinned g E h"
  unfolding pinned_def list_ex_iff by blast

lemma pinned_iff: "pinned g E h \<longleftrightarrow> (\<exists>a \<in> gc_keys g - E. a \<noteq> h \<and> (a, h) \<in> fst ` set (gs_refs g))"
proof
  assume "pinned g E h"
  then obtain r where "r \<in> set (gs_refs g)" "snd (fst r) = h" "fst (fst r) \<noteq> h" "fst (fst r) \<in> gc_keys g - E"
    unfolding pinned_def list_ex_iff split_def by blast
  moreover from this have "(fst (fst r), h) \<in> fst ` set (gs_refs g)" by (metis image_eqI prod.collapse)
  ultimately show "\<exists>a \<in> gc_keys g - E. a \<noteq> h \<and> (a, h) \<in> fst ` set (gs_refs g)" by blast
next
  assume "\<exists>a \<in> gc_keys g - E. a \<noteq> h \<and> (a, h) \<in> fst ` set (gs_refs g)"
  then obtain a r where "a \<in> gc_keys g" "a \<notin> E" "a \<noteq> h" "r \<in> set (gs_refs g)" "fst r = (a, h)" by (metis DiffE imageE)
  then show "pinned g E h" unfolding pinned_def list_ex_iff by (intro bexI[of _ r]) (auto simp: split_def)
qed

text \<open>What every sweep keeps: the chosen paths are registered, none is pinned, and their size is counted.\<close>

definition evictable :: "gc_state \<Rightarrow> string set \<times> nat \<Rightarrow> bool" where
  "evictable g s \<longleftrightarrow> fst s \<subseteq> gc_keys g \<and> (\<forall>h \<in> fst s. \<not> pinned g (fst s) h) \<and> snd s = size_of (gs_paths g) (fst s)"

lemma evictable_insert:
  assumes "wf_table (gs_paths g)" "evictable g (E, freed)" "(h, r) \<in> set (gs_paths g)" "h \<notin> E" "\<not> pinned g E h"
  shows "evictable g (insert h E, freed + row_size r)"
proof -
  have "\<not> pinned g (insert h E) k" if "k \<in> insert h E" for k
    using assms(2,5) that pinned_mono[of E "insert h E" g k] unfolding evictable_def by auto
  moreover have "h \<in> gc_keys g" using assms(3) by force
  ultimately show ?thesis using assms(2) size_of_insert[OF assms(1,3,4)] unfolding evictable_def by simp
qed

lemma gc_pass_evictable:
  assumes "wf_table (gs_paths g)" "set es \<subseteq> set (gs_paths g)" "evictable g (E, freed)"
    and "gc_pass g to_free es (E, freed, any) = (E', freed', any')"
  shows "evictable g (E', freed')" and "\<not> any' \<Longrightarrow> E' = E \<and> (\<forall>e \<in> set es. fst e \<in> E \<or> pinned g E (fst e))"
  using assms(2-)
proof (induction es arbitrary: E freed any)
  case (Cons e es)
  obtain h r where e: "e = (h, r)" by fastforce
  note ins = evictable_insert[OF assms(1)]
  {
    case 1
    show ?case
    proof (cases "h \<in> E \<or> pinned g E h")
      case True
      then show ?thesis using 1 Cons.IH(1)[of E freed any] e by simp
    next
      case False
      then have "evictable g (insert h E, freed + row_size r)" using 1 e by (intro ins) auto
      then show ?thesis using False 1 Cons.IH(1)[of "insert h E" "freed + row_size r" True] e
        by (cases "freed + row_size r \<ge> to_free") (auto simp: Let_def)
    qed
  next
    case 2
    have stays: "any'" if "gc_pass g to_free es (insert h E, freed + row_size r, True) = (E', freed', any')"
      using gc_pass_grows[OF that] by simp
    show ?case using 2 Cons.IH(2)[of E freed any] stays e by (auto simp: Let_def split: if_splits)
  }
qed auto

lemma gc_loop_evictable:
  assumes wf: "wf_table (gs_paths g)" and s: "evictable g s"
  shows "evictable g (gc_loop g to_free s) \<and>
    (snd (gc_loop g to_free s) \<ge> to_free \<or>
     (\<forall>h \<in> gc_keys g. h \<in> fst (gc_loop g to_free s) \<or> pinned g (fst (gc_loop g to_free s)) h))"
  using wf s
proof (induction g to_free s rule: gc_loop.induct)
  case (1 g to_free E freed)
  obtain E' freed' any' where run: "gc_pass g to_free (gc_entries g) (E, freed, False) = (E', freed', any')"
    by (cases "gc_pass g to_free (gc_entries g) (E, freed, False)")
  have sub: "set (gc_entries g) \<subseteq> set (gs_paths g)" by (simp add: gc_entries_def)
  note P = gc_pass_evictable[OF 1(2) sub 1(3) run]
  show ?case
  proof (cases "freed \<ge> to_free")
    case True
    then show ?thesis using 1(3) by (simp add: gc_loop.simps)
  next
    case more: False
    show ?thesis
    proof (cases any')
      case True
      then have "gc_loop g to_free (E, freed) = gc_loop g to_free (E', freed')"
        using more run by (subst gc_loop.simps) simp
      then show ?thesis using 1(1)[OF more run[symmetric] refl True 1(2) P(1)] by simp
    next
      case False
      then have "gc_loop g to_free (E, freed) = (E', freed')" using more run by (subst gc_loop.simps) simp
      then show ?thesis using P False by (fastforce simp: gc_entries_def)
    qed
  qed
qed

lemma fold_gc_evict:
  "gs_paths (fold (gc_evict io) es g) = filter (\<lambda>e. fst e \<notin> fst ` set es) (gs_paths g)"
  "gs_refs (fold (gc_evict io) es g) = filter (\<lambda>r. fst (fst r) \<notin> fst ` set es \<and> snd (fst r) \<notin> fst ` set es) (gs_refs g)"
  "map_of (gs_files (fold (gc_evict io) es g)) p =
     (if io p \<and> (\<exists>e \<in> set es. p = narinfo_file (fst e) \<or> p = gr_nar_url (snd e)) then None else map_of (gs_files g) p)"
  by (induction es arbitrary: g)
    (auto simp: gc_evict_def remove_file_def delete_key_def[where t = "gs_paths _"] table_simps intro!: filter_cong)

lemma run_gc_result:
  assumes wf: "wf_table (gs_paths g)" and g': "g' = run_gc io current target_bytes g" and more: "target_bytes < current"
  obtains E where "evictable g (E, size_of (gs_paths g) E)"
    "gs_paths g' = filter (\<lambda>e. fst e \<notin> E) (gs_paths g)"
    "gs_refs g' = filter (\<lambda>r. fst (fst r) \<notin> E \<and> snd (fst r) \<notin> E) (gs_refs g)"
    "\<And>p. map_of (gs_files g') p =
       (if io p \<and> (\<exists>e \<in> set (gs_paths g). fst e \<in> E \<and> (p = narinfo_file (fst e) \<or> p = gr_nar_url (snd e)))
        then None else map_of (gs_files g) p)"
    "size_of (gs_paths g) E \<ge> current - target_bytes \<or> (\<forall>h \<in> gc_keys g. h \<in> E \<or> pinned g E h)"
proof -
  obtain E freed where loop: "gc_loop g (current - target_bytes) ({}, 0) = (E, freed)" by fastforce
  have "evictable g ({}, 0)" by (simp add: evictable_def size_of_def)
  from gc_loop_evictable[OF wf this, of "current - target_bytes"]
  have ev: "evictable g (E, freed)"
    and stop: "freed \<ge> current - target_bytes \<or> (\<forall>h \<in> gc_keys g. h \<in> E \<or> pinned g E h)"
    unfolding loop by simp_all
  have E: "fst ` set (filter (\<lambda>e. fst e \<in> E) (gc_entries g)) = E"
    using ev unfolding evictable_def gc_entries_def by auto
  have "g' = fold (gc_evict io) (filter (\<lambda>e. fst e \<in> E) (gc_entries g)) g"
    using g' more loop by (simp add: run_gc_def Let_def)
  note F = fold_gc_evict[of io "filter (\<lambda>e. fst e \<in> E) (gc_entries g)" g, folded this, unfolded E]
  have freed: "freed = size_of (gs_paths g) E" using ev by (simp add: evictable_def)
  show ?thesis
  proof (rule that[of E])
    show "evictable g (E, size_of (gs_paths g) E)" using ev freed by simp
    show "map_of (gs_files g') p =
       (if io p \<and> (\<exists>e \<in> set (gs_paths g). fst e \<in> E \<and> (p = narinfo_file (fst e) \<or> p = gr_nar_url (snd e)))
        then None else map_of (gs_files g) p)" for p
    proof -
      have "(\<exists>e \<in> set (filter (\<lambda>e. fst e \<in> E) (gc_entries g)). Q e) = (\<exists>e \<in> set (gs_paths g). fst e \<in> E \<and> Q e)" for Q
        unfolding gc_entries_def set_filter set_sort by blast
      then show ?thesis unfolding F(3) by (simp only:)
    qed
  qed (use F(1,2) stop freed in simp_all)
qed

text \<open>C21. Garbage collection of a directory respects references: what it leaves of the registered paths is
  unchanged and closed under the recorded references, as far as their targets were registered; and a collection that was
  due leaves a cache within the target, or one where every path is referred to by another that is left.
\<close>

theorem directory_gc_respects_references:
  assumes "wf_table (gs_paths g)" and "gc_target_size cfg \<le> gc_max_size cfg" and "g' = maybe_run_gc io cfg g"
  shows "gs_paths g' = filter (\<lambda>e. fst e \<in> gc_keys g') (gs_paths g) \<and>
    (\<forall>a b. (a, b) \<in> fst ` set (gs_refs g) \<longrightarrow> a \<in> gc_keys g' \<longrightarrow> b \<in> gc_keys g \<longrightarrow> b \<in> gc_keys g') \<and>
    (gc_total g \<le> gc_max_size cfg \<and> g' = g \<or> gc_total g' \<le> gc_target_size cfg \<or>
     (\<forall>b \<in> gc_keys g'. \<exists>a \<in> gc_keys g'. a \<noteq> b \<and> (a, b) \<in> fst ` set (gs_refs g')))"
proof (cases "gc_total g \<le> gc_max_size cfg")
  case True
  then have "g' = g" using assms(3) by (simp add: maybe_run_gc_def)
  moreover have "filter (\<lambda>e. fst e \<in> gc_keys g) (gs_paths g) = gs_paths g" by (auto intro: filter_True)
  ultimately show ?thesis using True by auto
next
  case False
  then have g': "g' = run_gc io (gc_total g) (gc_target_size cfg) g" using assms(3) by (simp add: maybe_run_gc_def)
  obtain E where E: "evictable g (E, size_of (gs_paths g) E)"
    "gs_paths g' = filter (\<lambda>e. fst e \<notin> E) (gs_paths g)"
    "gs_refs g' = filter (\<lambda>r. fst (fst r) \<notin> E \<and> snd (fst r) \<notin> E) (gs_refs g)"
    "size_of (gs_paths g) E \<ge> gc_total g - gc_target_size cfg \<or> (\<forall>h \<in> gc_keys g. h \<in> E \<or> pinned g E h)"
    by (rule run_gc_result[OF assms(1) g']) (use False assms(2) in auto)
  have keys: "gc_keys g' = gc_keys g - E" unfolding E(2) by auto
  have paths: "gs_paths g' = filter (\<lambda>e. fst e \<in> gc_keys g') (gs_paths g)"
    unfolding keys E(2) by (rule filter_cong) auto
  have total: "gc_total g' = size_of (gs_paths g) (- E)" unfolding gc_total_def size_of_def E(2) by simp
  have pin: "pinned g E h \<longleftrightarrow> (\<exists>a \<in> gc_keys g'. a \<noteq> h \<and> (a, h) \<in> fst ` set (gs_refs g))" for h
    unfolding keys by (rule pinned_iff)
  have "b \<in> gc_keys g'" if "(a, b) \<in> fst ` set (gs_refs g)" "a \<in> gc_keys g'" "b \<in> gc_keys g" for a b
  proof (rule ccontr)
    assume no: "b \<notin> gc_keys g'"
    then have "\<not> pinned g E b" using that(3) E(1) unfolding keys evictable_def by auto
    moreover have "a \<noteq> b" using that(2) no by blast
    then have "pinned g E b" unfolding pin using that(1,2) by blast
    ultimately show False by blast
  qed
  moreover have "gc_total g' \<le> gc_target_size cfg \<or> (\<forall>b \<in> gc_keys g'. \<exists>a \<in> gc_keys g'. a \<noteq> b \<and> (a, b) \<in> fst ` set (gs_refs g'))"
    using E(4)
  proof
    assume "size_of (gs_paths g) E \<ge> gc_total g - gc_target_size cfg"
    then show ?thesis using size_of_split[of g E] total by linarith
  next
    assume all: "\<forall>h \<in> gc_keys g. h \<in> E \<or> pinned g E h"
    have "\<exists>a \<in> gc_keys g'. a \<noteq> b \<and> (a, b) \<in> fst ` set (gs_refs g')" if b: "b \<in> gc_keys g'" for b
    proof -
      obtain a where "a \<in> gc_keys g'" "a \<noteq> b" "(a, b) \<in> fst ` set (gs_refs g)"
        using all b unfolding pin keys by (metis DiffE)
      moreover from this have "(a, b) \<in> fst ` set (gs_refs g')" using b unfolding keys E(3) by force
      ultimately show ?thesis by blast
    qed
    then show ?thesis by blast
  qed
  ultimately show ?thesis using paths by blast
qed

definition sample_row :: "string \<Rightarrow> nat \<Rightarrow> nat \<Rightarrow> gc_row" where
  "sample_row url n used = \<lparr>gr_store_path = ''/nix/store/x'', gr_nar_url = url, gr_file_size = n, gr_narinfo_size = 1,
     gr_last_access = used, gr_added_at = 0\<rparr>"

definition sample_dir :: gc_state where
  "sample_dir = \<lparr>gs_paths = [(''app'', sample_row ''nar/1.nar'' 9 1), (''lib'', sample_row ''nar/2.nar'' 9 0)],
     gs_refs = [((''app'', ''lib''), ())],
     gs_files = [(''app.narinfo'', ''i''), (''lib.narinfo'', ''i''), (''nar/1.nar'', ''app''), (''nar/2.nar'', ''lib'')]\<rparr>"

theorem directory_gc_respects_references_witness:
  "let g' = maybe_run_gc (\<lambda>_. True) \<lparr>gc_max_size = 15, gc_target_size = 10\<rparr> sample_dir
   in gc_total g' \<le> 10 \<and> gc_keys g' = {''lib''}"
proof -
  let ?cfg = "\<lparr>gc_max_size = 15, gc_target_size = 10\<rparr>"
  have wf: "wf_table (gs_paths sample_dir)" by (simp add: wf_table_def sample_dir_def)
  have keys: "gc_keys (maybe_run_gc (\<lambda>_. True) ?cfg sample_dir) = {''lib''}" by code_simp
  have "\<not> gc_total sample_dir \<le> gc_max_size ?cfg" by (simp add: sample_dir_def gc_total_def row_size_def sample_row_def)
  then show ?thesis using directory_gc_respects_references[OF wf _ refl, of ?cfg "\<lambda>_. True"] keys by (auto simp: Let_def)
qed

lemma maybe_run_gc_files:
  assumes wf: "wf_table (gs_paths g)" and tgt: "gc_target_size cfg \<le> gc_max_size cfg" and g': "g' = maybe_run_gc io cfg g"
  shows "map_of (gs_files g') p = (if io p \<and> (\<exists>e \<in> set (gs_paths g). fst e \<notin> gc_keys g' \<and>
      (p = narinfo_file (fst e) \<or> p = gr_nar_url (snd e))) then None else map_of (gs_files g) p) \<and>
    gs_paths g' = filter (\<lambda>e. fst e \<in> gc_keys g') (gs_paths g)"
proof (cases "gc_total g \<le> gc_max_size cfg")
  case True
  then show ?thesis using g' by (auto simp: maybe_run_gc_def intro: filter_True[symmetric])
next
  case False
  then have run: "g' = run_gc io (gc_total g) (gc_target_size cfg) g" using g' by (simp add: maybe_run_gc_def)
  obtain E where E: "gs_paths g' = filter (\<lambda>e. fst e \<notin> E) (gs_paths g)"
    "\<And>p. map_of (gs_files g') p =
       (if io p \<and> (\<exists>e \<in> set (gs_paths g). fst e \<in> E \<and> (p = narinfo_file (fst e) \<or> p = gr_nar_url (snd e)))
        then None else map_of (gs_files g) p)"
    by (rule run_gc_result[OF wf run]) (use False tgt in auto)
  have "gc_keys g' = gc_keys g - E" unfolding E(1) by auto
  then have keys: "fst e \<in> E \<longleftrightarrow> fst e \<notin> gc_keys g'" if "e \<in> set (gs_paths g)" for e using that by blast
  have "filter (\<lambda>e. fst e \<notin> E) (gs_paths g) = filter (\<lambda>e. fst e \<in> gc_keys g') (gs_paths g)"
    by (rule filter_cong[OF refl]) (simp only: keys not_not)
  then have "gs_paths g' = filter (\<lambda>e. fst e \<in> gc_keys g') (gs_paths g)" by (rule trans[OF E(1)])
  moreover have "(\<exists>e \<in> set (gs_paths g). fst e \<in> E \<and> Q e) = (\<exists>e \<in> set (gs_paths g). fst e \<notin> gc_keys g' \<and> Q e)" for Q
    using keys by blast
  ultimately show ?thesis unfolding E(2) by (simp only:)
qed

text \<open>An archive two registered paths share, as paths with the same contents do in a cache that names archives
  by their hash, does not survive the eviction of one of them: the path that is kept is left without its archive.\<close>

theorem gc_deletes_shared_archive:
  assumes "wf_table (gs_paths g)" and "gc_target_size cfg \<le> gc_max_size cfg" and "g' = maybe_run_gc io cfg g"
    and "map_of (gs_paths g) h = Some r" and "map_of (gs_paths g) k = Some s" and "gr_nar_url s = gr_nar_url r"
    and "h \<notin> gc_keys g'" and "k \<in> gc_keys g'" and "io (gr_nar_url r)"
  shows "map_of (gs_paths g') k = Some s \<and> map_of (gs_files g') (gr_nar_url s) = None"
proof -
  note M = maybe_run_gc_files[OF assms(1-3)]
  have "map_of (gs_paths g') k = Some s"
    using map_of_filter[OF assms(1), of "\<lambda>e. fst e \<in> gc_keys g'" k] assms(5,8) M by simp
  moreover have "(h, r) \<in> set (gs_paths g)" using assms(4) by (rule map_of_SomeD)
  ultimately show ?thesis using M[of "gr_nar_url s"] assms(6,7,9) by force
qed

definition sample_shared :: gc_state where
  "sample_shared = \<lparr>gs_paths = [(''a'', sample_row ''nar/1.nar'' 9 0), (''b'', sample_row ''nar/1.nar'' 9 1)],
     gs_refs = [], gs_files = [(''a.narinfo'', ''i''), (''b.narinfo'', ''i''), (''nar/1.nar'', ''data'')]\<rparr>"

theorem gc_deletes_shared_archive_witness:
  "let g' = maybe_run_gc (\<lambda>_. True) \<lparr>gc_max_size = 15, gc_target_size = 10\<rparr> sample_shared
   in map_of (gs_paths g') ''b'' = Some (sample_row ''nar/1.nar'' 9 1) \<and> map_of (gs_files g') ''nar/1.nar'' = None"
proof -
  let ?cfg = "\<lparr>gc_max_size = 15, gc_target_size = 10\<rparr>"
  have wf: "wf_table (gs_paths sample_shared)" by (simp add: wf_table_def sample_shared_def)
  have rows: "map_of (gs_paths sample_shared) ''a'' = Some (sample_row ''nar/1.nar'' 9 0)"
    "map_of (gs_paths sample_shared) ''b'' = Some (sample_row ''nar/1.nar'' 9 1)" by (simp_all add: sample_shared_def)
  have keys: "gc_keys (maybe_run_gc (\<lambda>_. True) ?cfg sample_shared) = {''b''}" by code_simp
  have tgt: "gc_target_size ?cfg \<le> gc_max_size ?cfg" by simp
  have url: "gr_nar_url (sample_row u n v) = u" for u n v by (simp add: sample_row_def)
  from gc_deletes_shared_archive[OF wf tgt refl rows, of "\<lambda>_. True"] show ?thesis
    unfolding Let_def keys url by simp
qed

text \<open>Events only ever remove rows.\<close>

definition run_gc_events :: "(string \<Rightarrow> bool) \<Rightarrow> gc_config \<Rightarrow> (nat \<times> gc_event) list \<Rightarrow> string list \<times> gc_state \<Rightarrow> string list \<times> gc_state" where
  "run_gc_events io cfg evs s = fold (\<lambda>(now, ev). gc_step io now cfg ev) evs s"

lemma flush_accesses_keys: "map fst (gs_paths (flush_accesses now hs g)) = map fst (gs_paths g)"
  "gs_files (flush_accesses now hs g) = gs_files g"
  "e \<in> set (gs_paths (flush_accesses now hs g)) \<Longrightarrow> \<exists>r. (fst e, r) \<in> set (gs_paths g) \<and> gr_nar_url r = gr_nar_url (snd e)"
proof -
  have k: "map fst (fold (\<lambda>h. update_key h f) hs t) = map fst t" for f hs and t :: "(string, gc_row) table"
    by (induction hs arbitrary: t) simp_all
  then show "map fst (gs_paths (flush_accesses now hs g)) = map fst (gs_paths g)" "gs_files (flush_accesses now hs g) = gs_files g"
    by (simp_all add: flush_accesses_def Let_def)
  have u: "\<exists>r. (fst e, r) \<in> set t \<and> gr_nar_url r = gr_nar_url (snd e)"
    if "e \<in> set (fold (\<lambda>h. update_key h (\<lambda>r. r\<lparr>gr_last_access := q\<rparr>)) hs t)" for hs t q e
    using that
  proof (induction hs arbitrary: t)
    case (Cons h hs)
    then obtain r where r: "(fst e, r) \<in> set (update_key h (\<lambda>r. r\<lparr>gr_last_access := q\<rparr>) t)" "gr_nar_url r = gr_nar_url (snd e)"
      by fastforce
    then obtain x where x: "x \<in> set t" "(fst e, r) = (if fst x = h then (h, (snd x)\<lparr>gr_last_access := q\<rparr>) else x)"
      unfolding update_key_def by auto
    then show ?case using r(2) by (intro exI[of _ "snd x"]) (cases x, auto split: if_splits)
  qed (metis prod.collapse list.simps fold_simps(1))
  show "e \<in> set (gs_paths (flush_accesses now hs g)) \<Longrightarrow> \<exists>r. (fst e, r) \<in> set (gs_paths g) \<and> gr_nar_url r = gr_nar_url (snd e)"
    unfolding flush_accesses_def Let_def using u by simp
qed

definition names :: "gc_state \<Rightarrow> string set" where
  "names g = narinfo_file ` gc_keys g \<union> (\<lambda>e. gr_nar_url (snd e)) ` set (gs_paths g)"

lemma flush_accesses_names: "names (flush_accesses now hs g) \<subseteq> names g"
proof -
  have "gc_keys (flush_accesses now hs g) = gc_keys g" using flush_accesses_keys(1)[of now hs g] by (metis list.set_map)
  moreover have "gr_nar_url (snd e) \<in> (\<lambda>e. gr_nar_url (snd e)) ` set (gs_paths g)" if e: "e \<in> set (gs_paths (flush_accesses now hs g))" for e
  proof -
    obtain r where "(fst e, r) \<in> set (gs_paths g)" "gr_nar_url r = gr_nar_url (snd e)"
      using flush_accesses_keys(3)[OF e] by blast
    then show ?thesis by (intro image_eqI[of _ _ "(fst e, r)"]) simp_all
  qed
  ultimately show ?thesis unfolding names_def by auto
qed

text \<open>What a step leaves alone: rows only go, and a file no row names stays.\<close>

definition untouched :: "gc_state \<Rightarrow> gc_state \<Rightarrow> bool" where
  "untouched g g' \<longleftrightarrow> wf_table (gs_paths g') \<and> gc_keys g' \<subseteq> gc_keys g \<and> names g' \<subseteq> names g \<and>
     (\<forall>p. p \<notin> names g \<longrightarrow> map_of (gs_files g') p = map_of (gs_files g) p)"

lemma untouched_trans: "untouched g1 g2 \<Longrightarrow> untouched g2 g3 \<Longrightarrow> untouched g1 g3"
  unfolding untouched_def by (intro conjI) (blast, blast, blast, metis subsetD)

lemma untouched_flush: "wf_table (gs_paths g) \<Longrightarrow> untouched g (flush_accesses now hs g)"
  using flush_accesses_names[of now hs g] flush_accesses_keys(1,2)[of now hs g]
  unfolding untouched_def wf_table_def set_map[symmetric] by (intro conjI) simp_all

lemma untouched_gc:
  assumes "wf_table (gs_paths g)" "gc_target_size cfg \<le> gc_max_size cfg"
  shows "untouched g (maybe_run_gc io cfg g)"
proof -
  let ?g' = "maybe_run_gc io cfg g"
  note M = maybe_run_gc_files[OF assms refl, of io]
  have paths: "gs_paths ?g' = filter (\<lambda>e. fst e \<in> gc_keys ?g') (gs_paths g)" using M by blast
  then have sub: "set (gs_paths ?g') \<subseteq> set (gs_paths g)" by (metis filter_is_subset)
  then have "gc_keys ?g' \<subseteq> gc_keys g" "names ?g' \<subseteq> names g" unfolding names_def by blast+
  moreover have "wf_table (gs_paths ?g')" by (subst paths) (rule wf_filter[OF assms(1)])
  moreover have "map_of (gs_files ?g') p = map_of (gs_files g) p" if "p \<notin> names g" for p
  proof -
    have "\<not> (\<exists>e \<in> set (gs_paths g). fst e \<notin> gc_keys ?g' \<and> (p = narinfo_file (fst e) \<or> p = gr_nar_url (snd e)))"
      using that unfolding names_def by auto
    then show ?thesis using M[of p] by argo
  qed
  ultimately show ?thesis unfolding untouched_def by blast
qed

lemma untouched_step:
  assumes "wf_table (gs_paths g)" "gc_target_size cfg \<le> gc_max_size cfg"
  shows "untouched g (snd (gc_step io now cfg ev (pending, g)))"
proof (cases ev)
  case (Access h)
  then show ?thesis using untouched_flush[OF assms(1)] assms(1) by (simp add: gc_step_def Let_def untouched_def)
next
  case Tick
  let ?g1 = "if pending \<noteq> [] then flush_accesses now pending g else g"
  have 1: "untouched g ?g1" using untouched_flush[OF assms(1)] assms(1) by (auto simp: untouched_def)
  then have "wf_table (gs_paths ?g1)" unfolding untouched_def by blast
  from untouched_trans[OF 1 untouched_gc[OF this assms(2)]] show ?thesis using Tick by (simp add: gc_step_def)
qed

text \<open>The collector of a directory never learns of uploads: the comment in the upload handler says an access
  report registers the path, but an access only updates a row that exists.  However many accesses are reported and
  however often the collector runs, a path that was not registered at startup stays unregistered, and its
  files are neither counted nor removed.\<close>

theorem uploads_are_never_collected:
  assumes "wf_table (gs_paths g)" and "gc_target_size cfg \<le> gc_max_size cfg"
    and "h \<notin> gc_keys g" and "p \<notin> names g" and "(pending', g') = run_gc_events io cfg evs (pending, g)"
  shows "h \<notin> gc_keys g' \<and> map_of (gs_files g') p = map_of (gs_files g) p"
proof -
  have "untouched g (snd (fold (\<lambda>(now, ev). gc_step io now cfg ev) evs (pending, g)))"
    using assms(1)
  proof (induction evs arbitrary: pending g)
    case (Cons e evs)
    obtain now ev where e: "e = (now, ev)" by fastforce
    obtain pending1 g1 where 1: "gc_step io now cfg ev (pending, g) = (pending1, g1)" by fastforce
    have u: "untouched g g1" using untouched_step[OF Cons.prems assms(2), of io now ev pending] 1 by simp
    then have "wf_table (gs_paths g1)" unfolding untouched_def by blast
    from untouched_trans[OF u Cons.IH[OF this]] show ?case using e 1 by simp
  qed (simp add: untouched_def)
  then have "untouched g g'" using assms(5) unfolding run_gc_events_def by (metis snd_conv)
  then show ?thesis using assms(3,4) unfolding untouched_def by blast
qed

theorem uploads_are_never_collected_witness:
  "''new'' \<notin> gc_keys (snd (run_gc_events (\<lambda>_. True) \<lparr>gc_max_size = 15, gc_target_size = 10\<rparr>
     [(7200, Access ''new''), (7300, Tick)] ([], sample_dir)))"
proof -
  have wf: "wf_table (gs_paths sample_dir)" by (simp add: wf_table_def sample_dir_def)
  have new: "''new'' \<notin> gc_keys sample_dir" "''new.narinfo'' \<notin> names sample_dir"
    by (simp_all add: sample_dir_def names_def narinfo_file_def sample_row_def)
  from uploads_are_never_collected[OF wf _ new prod.collapse, of "\<lparr>gc_max_size = 15, gc_target_size = 10\<rparr>" "\<lambda>_. True"]
  show ?thesis by simp
qed

end
