(* ===== verification/Lifecycle.thy ===== *)
theory Lifecycle
  imports Gc
begin

text \<open>
  Starting, recovering and upgrading the content-addressed store, \<open>open_db\<close>, \<open>recover_from_corrupt\<close>,
  \<open>spawn_recovery\<close>, \<open>spawn_backfill\<close> and the schema helpers of
  \<open>crates/ekapkgs-serve/src/storage/castore.rs\<close>.  A store that was not shut down cleanly is checked; a
  corrupt database is moved aside, and a new one is filled from what can still be read of it.  What a row
  by row read of a damaged table gives is a parameter: a list of rows, with the columns that can be read, and of
  read errors.  The chunk files survive a restart, the caches do not.
\<close>

subsection \<open>The clean-shutdown flag\<close>

definition mark_clean :: "castore_db \<Rightarrow> castore_db" where
  "mark_clean db = db\<lparr>db_meta := insert_or_replace ''clean_shutdown'' 1 (db_meta db)\<rparr>"

definition mark_dirty :: "castore_db \<Rightarrow> castore_db" where
  "mark_dirty db = db\<lparr>db_meta := insert_or_replace ''clean_shutdown'' 0 (db_meta db)\<rparr>"

definition mark_clean_shutdown :: "castore \<Rightarrow> castore" where
  "mark_clean_shutdown st = st\<lparr>st_db := mark_clean (st_db st)\<rparr>"

text \<open>The table is empty while there are paths: it was written by a version that did not have it.\<close>

definition path_files_needs_backfill :: "castore_db \<Rightarrow> bool" where
  "path_files_needs_backfill db \<longleftrightarrow> length (db_path_files db) = 0 \<and> length (db_paths db) > 0"

subsection \<open>Opening\<close>

record open_db_result =
  od_db :: castore_db
  od_corrupt :: bool
  od_needs_backfill :: bool

text \<open>\<open>integrity\<close> is the answer of \<open>PRAGMA quick_check\<close> to \<open>ok\<close>.\<close>

definition open_db :: "bool \<Rightarrow> castore_db \<Rightarrow> open_db_result" where
  "open_db integrity db =
     (let clean = (map_of (db_meta db) ''clean_shutdown'' = Some 1) in
      if \<not> clean \<and> \<not> integrity
      then \<lparr>od_db = mark_dirty empty_db, od_corrupt = True, od_needs_backfill = False\<rparr>
      else \<lparr>od_db = mark_dirty db, od_corrupt = False, od_needs_backfill = path_files_needs_backfill (mark_dirty db)\<rparr>)"

text \<open>Files of the layout that kept directories on disk, by name.\<close>

definition is_dir_file :: "string \<Rightarrow> bool" where
  "is_dir_file name =
     (case rev (split_on (CHR ''.'') name) of
        ext # stem # rest \<Rightarrow> ext = ''dir'' \<and> (rest \<noteq> [] \<or> stem \<noteq> []) | _ \<Rightarrow> False)"

definition migrate_dirs_to_db :: "cas_env \<Rightarrow> (string \<times> bytes) list \<Rightarrow> castore_db \<Rightarrow> castore_db" where
  "migrate_dirs_to_db env dirs db =
     db\<lparr>db_directories := fold (\<lambda>(_, b). insert_or_ignore (blake3 env b) b)
          (filter (\<lambda>e. is_dir_file (fst e)) dirs) (db_directories db)\<rparr>"

text \<open>\<open>CastoreBackend::new\<close> on a store left on disk: its database, the chunk files, the old directory files.
  The second result says whether a corrupt database was put aside.\<close>

definition open_castore ::
  "cas_env \<Rightarrow> float_sizes \<Rightarrow> int \<Rightarrow> int \<Rightarrow> bool \<Rightarrow> (string \<times> bytes) list \<Rightarrow> castore_db \<Rightarrow> (string, bytes) table
   \<Rightarrow> castore \<times> bool" where
  "open_castore env fl level clock integrity dirs db files =
     (let r = open_db integrity db in
      (\<lparr>st_db = migrate_dirs_to_db env dirs (od_db r), st_files = files,
        st_dir_cache = dir_cache_new DIR_CACHE_CAPACITY, st_chunk_bloom = bloom_new fl 1024,
        st_path_bloom = bloom_new fl 1024, st_stats_cache = (clock, no_stats), st_level = level,
        st_bloom_ready = False, st_path_files_ready = (\<not> od_needs_backfill r)\<rparr>, od_corrupt r))"

subsection \<open>Reading a damaged table\<close>

datatype 'r row_read = Row 'r | Unreadable

definition RECOVER_BATCH_SIZE :: nat where
  "RECOVER_BATCH_SIZE = 5000"

definition MAX_CONSECUTIVE_ERRORS :: nat where
  "MAX_CONSECUTIVE_ERRORS = 100"

text \<open>One batch: its rows, the error counts, and the rows left to read, \<open>None\<close> when the table is done.\<close>

fun read_batch ::
  "('r \<Rightarrow> 'a option) \<Rightarrow> 'r row_read list \<Rightarrow> 'a list \<Rightarrow> nat \<Rightarrow> nat \<Rightarrow> 'a list \<times> nat \<times> nat \<times> 'r row_read list option" where
  "read_batch parse [] buf errors consecutive = (buf, errors, consecutive, if length buf < RECOVER_BATCH_SIZE then None else Some [])"
| "read_batch parse (x # xs) buf errors consecutive =
     (if length buf \<ge> RECOVER_BATCH_SIZE then (buf, errors, consecutive, Some (x # xs))
      else case x of
             Row r \<Rightarrow> (case parse r of
                        None \<Rightarrow> read_batch parse xs buf (errors + 1) 0
                      | Some a \<Rightarrow> read_batch parse xs (buf @ [a]) errors 0)
           | Unreadable \<Rightarrow>
               (if consecutive + 1 \<ge> MAX_CONSECUTIVE_ERRORS then (buf, errors + 1, consecutive + 1, None)
                else read_batch parse xs buf (errors + 1) (consecutive + 1)))"

lemma read_batch_shorter:
  "read_batch parse xs buf errors consecutive = (buf', errors', consecutive', Some ys) \<Longrightarrow>
   length ys + length buf' \<le> length xs + length buf \<and> length buf' \<ge> RECOVER_BATCH_SIZE"
proof (induction parse xs buf errors consecutive rule: read_batch.induct)
  case (2 parse x xs buf errors consecutive)
  then show ?case by (fastforce split: if_splits row_read.splits option.splits)
qed (auto split: if_splits)

text \<open>A whole table, batch by batch: the errors and rows counted, and the state after the inserts.\<close>

function recover_table ::
  "('r \<Rightarrow> 'a option) \<Rightarrow> ('a \<Rightarrow> 's \<Rightarrow> 's) \<Rightarrow> 'r row_read list \<Rightarrow> nat \<Rightarrow> nat \<Rightarrow> nat \<Rightarrow> 's \<Rightarrow> nat \<times> nat \<times> 's" where
  "recover_table parse ins xs consecutive errors count s =
     (case read_batch parse xs [] errors consecutive of
        (buf, errors, consecutive, rest) \<Rightarrow>
          let s = fold ins buf s; count = count + length buf in
          case rest of
            None \<Rightarrow> (errors, count, s)
          | Some xs \<Rightarrow> recover_table parse ins xs consecutive errors count s)"
  by pat_completeness auto
termination
  by (relation "measure (\<lambda>(parse, ins, xs, consecutive, errors, count, s). length xs)")
    (auto simp: RECOVER_BATCH_SIZE_def dest!: read_batch_shorter[OF sym])

declare recover_table.simps [simp del]

text \<open>What is read of a table: the rows up to the first hundred errors in a row.\<close>

fun salvage :: "('r \<Rightarrow> 'a option) \<Rightarrow> 'r row_read list \<Rightarrow> nat \<Rightarrow> 'a list" where
  "salvage parse [] consecutive = []"
| "salvage parse (Row r # xs) consecutive =
     (case parse r of None \<Rightarrow> salvage parse xs 0 | Some a \<Rightarrow> a # salvage parse xs 0)"
| "salvage parse (Unreadable # xs) consecutive =
     (if consecutive + 1 \<ge> MAX_CONSECUTIVE_ERRORS then [] else salvage parse xs (consecutive + 1))"

lemma read_batch_salvage:
  "read_batch parse xs buf errors consecutive = (buf', errors', consecutive', rest) \<Longrightarrow>
   buf @ salvage parse xs consecutive = buf' @ (case rest of None \<Rightarrow> [] | Some ys \<Rightarrow> salvage parse ys consecutive')"
proof (induction parse xs buf errors consecutive rule: read_batch.induct)
  case (2 parse x xs buf errors consecutive)
  then show ?case by (cases x) (fastforce split: if_splits option.splits)+
qed (auto split: if_splits)

lemma recover_table_salvage:
  "recover_table parse ins xs consecutive errors count s = (errors', count', s') \<Longrightarrow>
   s' = fold ins (salvage parse xs consecutive) s \<and> count' = count + length (salvage parse xs consecutive)"
proof (induction parse ins xs consecutive errors count s rule: recover_table.induct)
  case (1 parse ins xs consecutive errors count s)
  obtain buf errors1 consecutive1 rest where b: "read_batch parse xs [] errors consecutive = (buf, errors1, consecutive1, rest)"
    by (metis prod.exhaust)
  note eq = read_batch_salvage[OF b]
  show ?case
  proof (cases rest)
    case None
    then show ?thesis using 1(2) b eq by (subst (asm) recover_table.simps) simp
  next
    case (Some ys)
    then have "recover_table parse ins ys consecutive1 errors1 (count + length buf) (fold ins buf s) = (errors', count', s')"
      using 1(2) b by (subst (asm) recover_table.simps) simp
    from 1(1)[OF b[symmetric] refl refl refl refl Some this] eq Some show ?thesis by simp
  qed
qed

subsection \<open>The rows of the tables\<close>

text \<open>A row as the columns that can be read; \<open>unwrap_or\<close> supplies the rest.\<close>

definition unwrap_or :: "'a \<Rightarrow> 'a option \<Rightarrow> 'a" where
  "unwrap_or d x = (case x of None \<Rightarrow> d | Some a \<Rightarrow> a)"

record raw_chunk =
  rc_digest :: "bytes option"
  rc_size :: "nat option"
  rc_ref_count :: "nat option"
  rc_zstd_level :: "int option option"
  rc_disk_size :: "nat option"
  rc_data :: "bytes option option"

definition parse_chunk :: "raw_chunk \<Rightarrow> (digest \<times> chunk_row) option" where
  "parse_chunk r = map_option (\<lambda>d. (d, \<lparr>ck_size = unwrap_or 0 (rc_size r), ck_ref_count = unwrap_or 1 (rc_ref_count r),
     ck_zstd_level = unwrap_or None (rc_zstd_level r), ck_disk_size = unwrap_or 0 (rc_disk_size r),
     ck_data = unwrap_or None (rc_data r)\<rparr>)) (rc_digest r)"

record raw_file_chunk =
  rf_file_digest :: "bytes option"
  rf_chunk_index :: "nat option"
  rf_chunk_digest :: "bytes option"
  rf_chunk_size :: "nat option"

definition parse_file_chunk :: "raw_file_chunk \<Rightarrow> ((digest \<times> nat) \<times> (digest \<times> nat)) option" where
  "parse_file_chunk r =
     (case (rf_file_digest r, rf_chunk_digest r) of
        (Some f, Some g) \<Rightarrow> Some ((f, unwrap_or 0 (rf_chunk_index r)), (g, unwrap_or 0 (rf_chunk_size r)))
      | _ \<Rightarrow> None)"

type_synonym raw_directory = "bytes option \<times> bytes option"

definition parse_directory_row :: "raw_directory \<Rightarrow> (digest \<times> bytes) option" where
  "parse_directory_row r = (case r of (Some d, Some b) \<Rightarrow> Some (d, b) | _ \<Rightarrow> None)"

record raw_path =
  rp_hash :: "string option"
  rp_store_path :: "string option"
  rp_nar_hash :: "string option"
  rp_nar_size :: "nat option"
  rp_root_node :: "bytes option"
  rp_references :: "string option"
  rp_signatures :: "string option"
  rp_ca :: "string option"
  rp_deriver :: "string option"
  rp_added_at :: "nat option"
  rp_last_access :: "nat option"

definition parse_path :: "raw_path \<Rightarrow> (string \<times> path_row) option" where
  "parse_path r =
     (case (rp_hash r, rp_root_node r) of
        (Some h, Some root) \<Rightarrow>
          Some (h, \<lparr>pr_store_path = unwrap_or [] (rp_store_path r), pr_nar_hash = unwrap_or [] (rp_nar_hash r),
            pr_nar_size = unwrap_or 0 (rp_nar_size r), pr_root_node = root, pr_references = unwrap_or [] (rp_references r),
            pr_signatures = unwrap_or [] (rp_signatures r), pr_ca = unwrap_or [] (rp_ca r), pr_deriver = unwrap_or [] (rp_deriver r),
            pr_added_at = unwrap_or 0 (rp_added_at r), pr_last_access = unwrap_or 0 (rp_last_access r)\<rparr>)
      | _ \<Rightarrow> None)"

record raw_db =
  rd_chunks :: "raw_chunk row_read list"
  rd_file_chunks :: "raw_file_chunk row_read list"
  rd_directories :: "raw_directory row_read list"
  rd_paths :: "raw_path row_read list"

subsection \<open>Recovery\<close>

text \<open>The digests of the files of a tree that can be decoded; \<open>fuel\<close> bounds the walk over directories.\<close>

definition tree_files :: "nat \<Rightarrow> cas_env \<Rightarrow> castore_db \<Rightarrow> bytes \<Rightarrow> digest list" where
  "tree_files fuel env db root =
     (case Option.bind (decode_node env root) (\<lambda>c. collect_file_digests_from_tree fuel env db c []) of
        None \<Rightarrow> [] | Some fds \<Rightarrow> fds)"

definition record_files :: "nat \<Rightarrow> cas_env \<Rightarrow> string \<times> bytes \<Rightarrow> castore_db \<Rightarrow> castore_db" where
  "record_files fuel env p db = fold (insert_path_file (fst p)) (tree_files fuel env db (snd p)) db"

definition insert_chunk :: "digest \<times> chunk_row \<Rightarrow> castore_db \<Rightarrow> castore_db" where
  "insert_chunk r db = db\<lparr>db_chunks := insert_or_ignore (fst r) (snd r) (db_chunks db)\<rparr>"

definition insert_file_chunk :: "(digest \<times> nat) \<times> (digest \<times> nat) \<Rightarrow> castore_db \<Rightarrow> castore_db" where
  "insert_file_chunk r db = db\<lparr>db_file_chunks := insert_or_ignore (fst r) (snd r) (db_file_chunks db)\<rparr>"

definition insert_directory_row :: "digest \<times> bytes \<Rightarrow> castore_db \<Rightarrow> castore_db" where
  "insert_directory_row r db = db\<lparr>db_directories := insert_or_ignore (fst r) (snd r) (db_directories db)\<rparr>"

definition insert_path :: "nat \<Rightarrow> cas_env \<Rightarrow> string \<times> path_row \<Rightarrow> castore_db \<Rightarrow> castore_db" where
  "insert_path fuel env r db =
     record_files fuel env (fst r, pr_root_node (snd r)) (db\<lparr>db_paths := insert_or_ignore (fst r) (snd r) (db_paths db)\<rparr>)"

record recovery_stats =
  rs_paths :: nat
  rs_chunks :: nat
  rs_file_chunks :: nat
  rs_directories :: nat
  rs_errors :: nat

text \<open>Chunks come first, paths last: a path is never recorded before what it needs.\<close>

definition recover_from_corrupt :: "nat \<Rightarrow> cas_env \<Rightarrow> raw_db \<Rightarrow> castore_db \<Rightarrow> recovery_stats \<times> castore_db" where
  "recover_from_corrupt fuel env src db =
     (let (errors, chunks, db) = recover_table parse_chunk insert_chunk (rd_chunks src) 0 0 0 db;
          (errors, file_chunks, db) = recover_table parse_file_chunk insert_file_chunk (rd_file_chunks src) 0 errors 0 db;
          (errors, directories, db) = recover_table parse_directory_row insert_directory_row (rd_directories src) 0 errors 0 db;
          (errors, paths, db) = recover_table parse_path (insert_path fuel env) (rd_paths src) 0 errors 0 db
      in (\<lparr>rs_paths = paths, rs_chunks = chunks, rs_file_chunks = file_chunks, rs_directories = directories, rs_errors = errors\<rparr>, db))"

definition spawn_recovery ::
  "nat \<Rightarrow> cas_env \<Rightarrow> float_sizes \<Rightarrow> int \<Rightarrow> raw_db option \<Rightarrow> castore \<Rightarrow> castore" where
  "spawn_recovery fuel env fl clock corrupt st =
     (case corrupt of
        None \<Rightarrow> st
      | Some src \<Rightarrow>
          (let st = st\<lparr>st_db := snd (recover_from_corrupt fuel env src (st_db st))\<rparr>;
               st = st\<lparr>st_chunk_bloom := build_chunk_bloom fl st\<rparr>;
               st = st\<lparr>st_path_bloom := build_path_bloom env fl st\<rparr>
           in invalidate_stats_cache clock st))"

subsection \<open>Backfill of the file references\<close>

definition BACKFILL_BATCH :: nat where
  "BACKFILL_BATCH = 1000"

definition backfill_batch :: "nat \<Rightarrow> cas_env \<Rightarrow> (string \<times> path_row) list \<Rightarrow> castore_db \<Rightarrow> castore_db" where
  "backfill_batch fuel env rows db = fold (\<lambda>r. record_files fuel env (fst r, pr_root_node (snd r))) rows db"

lemma record_files_paths [simp]: "db_paths (record_files fuel env p db) = db_paths db"
  by (simp add: record_files_def insert_path_files)

lemma backfill_batch_paths [simp]: "db_paths (backfill_batch fuel env rows db) = db_paths db"
  unfolding backfill_batch_def by (induction rows arbitrary: db) simp_all

function backfill_loop :: "nat \<Rightarrow> cas_env \<Rightarrow> nat \<Rightarrow> castore_db \<Rightarrow> castore_db" where
  "backfill_loop fuel env offset db =
     (let batch = take BACKFILL_BATCH (drop offset (db_paths db)) in
      if batch = [] then db
      else let db' = backfill_batch fuel env batch db in
           if length batch < BACKFILL_BATCH then db' else backfill_loop fuel env (offset + length batch) db')"
  by pat_completeness auto
termination
  by (relation "measure (\<lambda>(fuel, env, offset, db). length (db_paths db) - offset)") (auto simp: BACKFILL_BATCH_def)

declare backfill_loop.simps [simp del]

definition spawn_backfill :: "nat \<Rightarrow> cas_env \<Rightarrow> castore \<Rightarrow> castore" where
  "spawn_backfill fuel env st =
     (if st_path_files_ready st then st
      else st\<lparr>st_db := backfill_loop fuel env 0 (st_db st), st_path_files_ready := True\<rparr>)"

subsection \<open>What recovery and backfill leave\<close>

lemma fold_insert_or_ignore: "wf_table (t0 @ t) \<Longrightarrow> fold (\<lambda>r. insert_or_ignore (fst r) (snd r)) t t0 = t0 @ t"
proof (induction t arbitrary: t0)
  case (Cons r t)
  have "map_of t0 (fst r) = None" using Cons.prems by (auto simp: wf_table_def map_of_eq_None_iff)
  then have "insert_or_ignore (fst r) (snd r) t0 = t0 @ [r]" by (simp add: insert_or_ignore_def)
  then show ?case using Cons.IH[of "t0 @ [r]"] Cons.prems by simp
qed simp

lemmas fold_insert_into_empty = fold_insert_or_ignore[of "[]", simplified]

lemma collect_directories:
  assumes "db_directories db = db_directories db'"
  shows "collect_file_digests_from_tree fuel env db c acc = collect_file_digests_from_tree fuel env db' c acc"
    and "collect_entries fuel env db es acc = collect_entries fuel env db' es acc"
  using assms
  by (induction fuel env db c acc and fuel env db es acc rule: collect_file_digests_from_tree_collect_entries.induct)
    (simp_all cong: option.case_cong Option.bind_cong split: option.split ca_variant.split)

lemma tree_files_directories: "db_directories db = db_directories db' \<Longrightarrow> tree_files fuel env db root = tree_files fuel env db' root"
  using collect_directories(1)[of db db' fuel env] by (simp add: tree_files_def)

lemma record_files_fields [simp]:
  "db_chunks (record_files fuel env p db) = db_chunks db"
  "db_file_chunks (record_files fuel env p db) = db_file_chunks db"
  "db_directories (record_files fuel env p db) = db_directories db"
  "db_meta (record_files fuel env p db) = db_meta db"
  by (simp_all add: record_files_def insert_path_files)

text \<open>The rows of \<open>path_files\<close> after the files of some paths were recorded.\<close>

lemma backfill_batch_fields:
  "db_chunks (backfill_batch fuel env rows db) = db_chunks db"
  "db_file_chunks (backfill_batch fuel env rows db) = db_file_chunks db"
  "db_directories (backfill_batch fuel env rows db) = db_directories db"
  "wf_table (db_path_files db) \<Longrightarrow> wf_table (db_path_files (backfill_batch fuel env rows db))"
  "map_of (db_path_files (backfill_batch fuel env rows db)) (k, f) \<noteq> None \<longleftrightarrow>
     map_of (db_path_files db) (k, f) \<noteq> None \<or> (\<exists>r. (k, r) \<in> set rows \<and> f \<in> set (tree_files fuel env db (pr_root_node r)))"
proof -
  have "db_chunks (backfill_batch fuel env rows db) = db_chunks db \<and>
    db_file_chunks (backfill_batch fuel env rows db) = db_file_chunks db \<and>
    db_directories (backfill_batch fuel env rows db) = db_directories db \<and>
    (wf_table (db_path_files db) \<longrightarrow> wf_table (db_path_files (backfill_batch fuel env rows db))) \<and>
    (map_of (db_path_files (backfill_batch fuel env rows db)) (k, f) \<noteq> None \<longleftrightarrow>
     map_of (db_path_files db) (k, f) \<noteq> None \<or> (\<exists>r. (k, r) \<in> set rows \<and> f \<in> set (tree_files fuel env db (pr_root_node r))))"
  proof (induction rows arbitrary: db)
    case (Cons p rows)
    let ?db = "record_files fuel env (fst p, pr_root_node (snd p)) db"
    have t: "tree_files fuel env ?db root = tree_files fuel env db root" for root
      by (rule tree_files_directories) simp
    have one: "map_of (db_path_files ?db) (k, f) \<noteq> None \<longleftrightarrow>
      map_of (db_path_files db) (k, f) \<noteq> None \<or> (k = fst p \<and> f \<in> set (tree_files fuel env db (pr_root_node (snd p))))"
      unfolding record_files_def fst_conv snd_conv by (rule insert_path_files(7))
    have wf: "wf_table (db_path_files db) \<longrightarrow> wf_table (db_path_files ?db)" by (simp add: record_files_def insert_path_files(6))
    have step: "backfill_batch fuel env (p # rows) db = backfill_batch fuel env rows ?db" by (simp add: backfill_batch_def)
    note IH = Cons.IH[of ?db, unfolded one t]
    have "(\<exists>r. (k, r) \<in> set (p # rows) \<and> f \<in> set (tree_files fuel env db (pr_root_node r))) \<longleftrightarrow>
      (k = fst p \<and> f \<in> set (tree_files fuel env db (pr_root_node (snd p)))) \<or>
      (\<exists>r. (k, r) \<in> set rows \<and> f \<in> set (tree_files fuel env db (pr_root_node r)))"
      by (cases p) auto
    then show ?case unfolding step using IH wf by simp
  qed (simp add: backfill_batch_def)
  then show "db_chunks (backfill_batch fuel env rows db) = db_chunks db"
    "db_file_chunks (backfill_batch fuel env rows db) = db_file_chunks db"
    "db_directories (backfill_batch fuel env rows db) = db_directories db"
    "wf_table (db_path_files db) \<Longrightarrow> wf_table (db_path_files (backfill_batch fuel env rows db))"
    "map_of (db_path_files (backfill_batch fuel env rows db)) (k, f) \<noteq> None \<longleftrightarrow>
     map_of (db_path_files db) (k, f) \<noteq> None \<or> (\<exists>r. (k, r) \<in> set rows \<and> f \<in> set (tree_files fuel env db (pr_root_node r)))"
    by blast+
qed

lemma backfill_batch_append: "backfill_batch fuel env (as @ bs) db = backfill_batch fuel env bs (backfill_batch fuel env as db)"
  by (simp add: backfill_batch_def)

text \<open>The loop is one pass over all paths.\<close>

lemma backfill_loop_all: "backfill_loop fuel env offset db = backfill_batch fuel env (drop offset (db_paths db)) db"
proof (induction fuel env offset db rule: backfill_loop.induct)
  case (1 fuel env offset db)
  let ?batch = "take BACKFILL_BATCH (drop offset (db_paths db))"
  have split: "drop offset (db_paths db) = ?batch @ drop (offset + length ?batch) (db_paths db)"
    by (metis add.commute append_take_drop_id drop_all drop_drop length_take min_def nat_le_linear take_all)
  show ?case
  proof (cases "?batch = [] \<or> length ?batch < BACKFILL_BATCH")
    case True
    then have "drop (offset + length ?batch) (db_paths db) = []" by (auto simp: BACKFILL_BATCH_def)
    then show ?thesis using True split
      by (subst backfill_loop.simps) (auto simp: Let_def backfill_batch_def)
  next
    case False
    then have IH: "backfill_loop fuel env (offset + length ?batch) (backfill_batch fuel env ?batch db) =
      backfill_batch fuel env (drop (offset + length ?batch) (db_paths db)) (backfill_batch fuel env ?batch db)"
      using 1[OF refl _ refl] by simp
    have "backfill_loop fuel env offset db = backfill_loop fuel env (offset + length ?batch) (backfill_batch fuel env ?batch db)"
      using False by (subst backfill_loop.simps) (simp add: Let_def)
    also have "\<dots> = backfill_batch fuel env (drop offset (db_paths db)) db"
      unfolding IH by (subst (2) split) (simp add: backfill_batch_append)
    finally show ?thesis .
  qed
qed

subsection \<open>Serving after recovery and backfill\<close>

definition fits :: "nat \<Rightarrow> content \<Rightarrow> bool" where
  "fits fuel m \<longleftrightarrow> (\<forall>k n. m k = Some (Some n) \<longrightarrow> nar_fuel n \<le> fuel)"

lemma fits_serves_get_nar:
  assumes "cas_env_ok env" "inj_on (blake3 env) U" "serves env U st m" "fits fuel m" "0 < fuel"
  shows "get_nar fuel env p st =
    (case m (hash_of_file_path p) of
       None \<Rightarrow> Ok None
     | Some None \<Rightarrow> Err NoVariant
     | Some (Some n) \<Rightarrow> Ok (Some (write_nar (sort_nar n))))"
  using assms(4) by (intro serves_get_nar[OF assms(1-3) _ assms(5)]) (simp add: fits_def)

lemma tree_files_row:
  assumes env: "cas_env_ok env" and h: "serves env U st m" and fuel: "fits fuel m" "0 < fuel"
    and row: "map_of (db_paths (st_db st)) k = Some r" and m: "m k = Some o'"
  shows "set (tree_files fuel env (st_db st) (pr_root_node r)) = (case o' of None \<Rightarrow> {} | Some n \<Rightarrow> blake3 env ` set (files_of n))"
proof -
  have rh: "row_holds env U (st_db st) k o' r" using h row m unfolding serves_def by blast
  show ?thesis
  proof (cases o')
    case None
    obtain f where "fuel = Suc f" using fuel(2) by (cases fuel) auto
    then show ?thesis using rh None cas_env_okD(6)[OF env] by (simp add: row_holds_def tree_files_def)
  next
    case (Some n)
    then have root: "pr_root_node r = encode_node env (root_of env n)" and ph: "path_holds env U (st_db st) k n"
      using rh by (simp_all add: row_holds_def)
    have "\<forall>x \<in> set (dirs_of env n). dir_stored env (st_db st) x" using ph by (simp add: path_holds_def tree_stored_def)
    moreover have "nar_fuel n \<le> fuel" using fuel(1) m Some by (simp add: fits_def)
    ultimately obtain fds where "collect_file_digests_from_tree fuel env (st_db st) (root_of env n) [] = Some fds"
      "set fds = set [] \<union> blake3 env ` set (files_of n)"
      using collect_stored(1)[OF env, of n fuel "st_db st" "[]"] by blast
    then show ?thesis using Some root cas_env_okD(6)[OF env] by (simp add: tree_files_def)
  qed
qed

text \<open>A store with the same rows of chunks, files, directories and paths, and file references that cover the trees.\<close>

lemma serves_with_references:
  assumes env: "cas_env_ok env" and h: "serves env U st m"
    and fuel: "fits fuel m" "0 < fuel"
    and same: "db_chunks (st_db st') = db_chunks (st_db st)" "db_file_chunks (st_db st') = db_file_chunks (st_db st)"
      "db_directories (st_db st') = db_directories (st_db st)" "db_paths (st_db st') = db_paths (st_db st)" "st_files st' = st_files st"
    and cache: "cache_inv env st'"
    and refs: "wf_table (db_path_files (st_db st'))"
      "\<And>k f. map_of (db_path_files (st_db st')) (k, f) \<noteq> None \<longleftrightarrow>
         old (k, f) \<or> (\<exists>r. (k, r) \<in> set (db_paths (st_db st)) \<and> f \<in> set (tree_files fuel env (st_db st) (pr_root_node r)))"
      "\<And>k f. old (k, f) \<Longrightarrow> length f = 32"
  shows "serves env U st' m"
proof -
  have inv: "castore_inv env U st" using h unfolding serves_def by blast
  have wf: "wf_table (db_paths (st_db st))" using castore_invD(1)[OF inv] by (simp add: db_inv_def)
  have row: "set (tree_files fuel env (st_db st) (pr_root_node r)) = (case q of None \<Rightarrow> {} | Some n \<Rightarrow> blake3 env ` set (files_of n))"
    if k: "map_of (db_paths (st_db st)) k = Some r" "m k = Some q" for k r q
    using tree_files_row[OF env h fuel k] .
  have some: "\<exists>o'. m k = Some o'" if "map_of (db_paths (st_db st)) k = Some r" for k r
  proof -
    have "(map_of (db_paths (st_db st)) k = None) = (m k = None)" using h unfolding serves_def by blast
    then show ?thesis using that by simp
  qed
  have len: "length f = 32" if "map_of (db_path_files (st_db st')) (k, f) \<noteq> None" for k f
    using that unfolding refs(2)
  proof (elim disjE exE conjE)
    fix r assume r: "(k, r) \<in> set (db_paths (st_db st))" "f \<in> set (tree_files fuel env (st_db st) (pr_root_node r))"
    then have "map_of (db_paths (st_db st)) k = Some r" by (simp add: wf_map_of[OF wf])
    then show "length f = 32" using row some r(2) cas_env_okD(1)[OF env] by (fastforce split: option.splits)
  qed (rule refs(3))
  have dbi: "db_inv env U (st_db st')"
    by (rule db_inv_paths[OF castore_invD(1)[OF inv] same(1-3) _ refs(1) len]) (simp add: same(4) wf)
  have files: "files_inv env U st'" using castore_invD(2)[OF inv] by (simp add: files_inv_def same)
  have "row_holds env U (st_db st') k q r" if k: "m k = Some q" "map_of (db_paths (st_db st')) k = Some r" for k q r
  proof -
    have r: "map_of (db_paths (st_db st)) k = Some r" using k(2) by (simp add: same(4))
    then have rh: "row_holds env U (st_db st) k q r" using h k(1) unfolding serves_def by blast
    show ?thesis
    proof (cases q)
      case (Some n)
      have ph: "path_holds env U (st_db st) k n" using rh Some by (simp add: row_holds_def)
      have "map_of (db_path_files (st_db st')) (k, blake3 env d) \<noteq> None" if "d \<in> set (files_of n)" for d
        unfolding refs(2) using row[OF r k(1)] Some r that wf_map_of[OF wf] by fastforce
      then have "path_holds env U (st_db st') k n"
        using ph by (simp add: path_holds_def tree_stored_def file_stored_def dir_stored_def same)
      then show ?thesis using rh Some by (simp add: row_holds_def)
    qed (use rh in \<open>simp add: row_holds_def\<close>)
  qed
  moreover have "(map_of (db_paths (st_db st')) k = None) = (m k = None)" for k
    using h unfolding serves_def same(4) by blast
  ultimately show ?thesis unfolding serves_def castore_inv_def using dbi files cache by blast
qed

text \<open>\<open>src\<close> is a damaged copy of \<open>db\<close> of which every row can still be read, whatever else fails in between.\<close>

definition reads_back :: "raw_db \<Rightarrow> castore_db \<Rightarrow> bool" where
  "reads_back src db \<longleftrightarrow>
     salvage parse_chunk (rd_chunks src) 0 = db_chunks db \<and> salvage parse_file_chunk (rd_file_chunks src) 0 = db_file_chunks db \<and>
     salvage parse_directory_row (rd_directories src) 0 = db_directories db \<and> salvage parse_path (rd_paths src) 0 = db_paths db"

lemma recover_table_fold:
  "snd (snd (recover_table parse ins xs 0 errors count s)) = fold ins (salvage parse xs 0) s"
  using recover_table_salvage[of parse ins xs 0 errors count s] by (metis prod.collapse)

lemma recovered_db:
  "snd (recover_from_corrupt fuel env src db) =
     fold (insert_path fuel env) (salvage parse_path (rd_paths src) 0)
       (fold insert_directory_row (salvage parse_directory_row (rd_directories src) 0)
         (fold insert_file_chunk (salvage parse_file_chunk (rd_file_chunks src) 0)
           (fold insert_chunk (salvage parse_chunk (rd_chunks src) 0) db)))"
  by (simp add: recover_from_corrupt_def split_def Let_def recover_table_fold)

lemma fold_insert_rows:
  "fold insert_chunk cs db = db\<lparr>db_chunks := fold (\<lambda>r. insert_or_ignore (fst r) (snd r)) cs (db_chunks db)\<rparr>"
  "fold insert_file_chunk fs db = db\<lparr>db_file_chunks := fold (\<lambda>r. insert_or_ignore (fst r) (snd r)) fs (db_file_chunks db)\<rparr>"
  "fold insert_directory_row ds db = db\<lparr>db_directories := fold (\<lambda>r. insert_or_ignore (fst r) (snd r)) ds (db_directories db)\<rparr>"
proof -
  show "fold insert_chunk cs db = db\<lparr>db_chunks := fold (\<lambda>r. insert_or_ignore (fst r) (snd r)) cs (db_chunks db)\<rparr>"
    by (induction cs arbitrary: db) (simp_all add: insert_chunk_def)
  show "fold insert_file_chunk fs db = db\<lparr>db_file_chunks := fold (\<lambda>r. insert_or_ignore (fst r) (snd r)) fs (db_file_chunks db)\<rparr>"
    by (induction fs arbitrary: db) (simp_all add: insert_file_chunk_def)
  show "fold insert_directory_row ds db = db\<lparr>db_directories := fold (\<lambda>r. insert_or_ignore (fst r) (snd r)) ds (db_directories db)\<rparr>"
    by (induction ds arbitrary: db) (simp_all add: insert_directory_row_def)
qed

text \<open>Recording a path and its files, one path at a time, is recording the paths and then their files.\<close>

lemma fold_insert_path:
  "fold (insert_path fuel env) rows db =
     (backfill_batch fuel env rows db)\<lparr>db_paths := fold (\<lambda>r. insert_or_ignore (fst r) (snd r)) rows (db_paths db)\<rparr>"
proof (induction rows arbitrary: db)
  case (Cons r rows)
  have paths: "record_files fuel env p (db\<lparr>db_paths := t\<rparr>) = (record_files fuel env p db)\<lparr>db_paths := t\<rparr>" for p t db
  proof -
    have "tree_files fuel env (db\<lparr>db_paths := t\<rparr>) (snd p) = tree_files fuel env db (snd p)"
      by (rule tree_files_directories) simp
    moreover have "insert_path_file h fd (db\<lparr>db_paths := t\<rparr>) = (insert_path_file h fd db)\<lparr>db_paths := t\<rparr>" for h fd db
      by (simp add: insert_path_file_def)
    then have "fold (insert_path_file h) fds (db\<lparr>db_paths := t\<rparr>) = (fold (insert_path_file h) fds db)\<lparr>db_paths := t\<rparr>" for h fds
      by (induction fds arbitrary: db) simp_all
    ultimately show ?thesis by (simp add: record_files_def)
  qed
  have batch: "backfill_batch fuel env rows (db\<lparr>db_paths := t\<rparr>) = (backfill_batch fuel env rows db)\<lparr>db_paths := t\<rparr>" for t db
    unfolding backfill_batch_def by (induction rows arbitrary: db) (simp_all add: paths)
  have "fold (insert_path fuel env) (r # rows) db = fold (insert_path fuel env) rows (insert_path fuel env r db)" by simp
  also have "\<dots> = (backfill_batch fuel env (r # rows) db)\<lparr>db_paths := fold (\<lambda>r. insert_or_ignore (fst r) (snd r)) (r # rows) (db_paths db)\<rparr>"
    unfolding Cons.IH by (simp add: insert_path_def paths batch) (simp add: backfill_batch_def)
  finally show ?case .
qed (simp add: backfill_batch_def)

lemma recover_empty:
  assumes "reads_back src db" and wf: "wf_table (db_chunks db)" "wf_table (db_file_chunks db)" "wf_table (db_directories db)"
    "wf_table (db_paths db)" and empty: "db_chunks e = []" "db_file_chunks e = []" "db_directories e = []" "db_paths e = []"
  defines "db0 \<equiv> e\<lparr>db_chunks := db_chunks db, db_file_chunks := db_file_chunks db, db_directories := db_directories db\<rparr>"
  shows "snd (recover_from_corrupt fuel env src e) = (backfill_batch fuel env (db_paths db) db0)\<lparr>db_paths := db_paths db\<rparr>"
  using assms(1) unfolding recovered_db reads_back_def fold_insert_path fold_insert_rows
  by (simp add: empty fold_insert_into_empty wf db0_def)

lemma serves_recovery:
  assumes env: "cas_env_ok env" and h: "serves env U st m"
    and fuel: "fits fuel m" "0 < fuel"
    and src: "reads_back src (st_db st)" and files: "st_files st1 = st_files st"
    and empty: "db_chunks (st_db st1) = []" "db_file_chunks (st_db st1) = []" "db_directories (st_db st1) = []"
      "db_paths (st_db st1) = []" "db_path_files (st_db st1) = []"
    and cache: "st_dir_cache st1 = dir_cache_new DIR_CACHE_CAPACITY"
  shows "serves env U (spawn_recovery fuel env fl clock (Some src) st1) m"
proof -
  let ?db0 = "(st_db st1)\<lparr>db_chunks := db_chunks (st_db st), db_file_chunks := db_file_chunks (st_db st),
    db_directories := db_directories (st_db st)\<rparr>"
  have inv: "castore_inv env U st" using h unfolding serves_def by blast
  then have wf: "wf_table (db_chunks (st_db st))" "wf_table (db_file_chunks (st_db st))" "wf_table (db_directories (st_db st))"
    "wf_table (db_paths (st_db st))" by (simp_all add: castore_inv_def db_inv_def)
  have db: "st_db (spawn_recovery fuel env fl clock (Some src) st1) =
      (backfill_batch fuel env (db_paths (st_db st)) ?db0)\<lparr>db_paths := db_paths (st_db st)\<rparr>"
    using recover_empty[OF src wf empty(1-4), of fuel env]
    by (simp add: spawn_recovery_def invalidate_stats_cache_def Let_def)
  note B = backfill_batch_fields[where fuel = fuel and env = env and rows = "db_paths (st_db st)" and db = ?db0]
  have tree: "tree_files fuel env ?db0 root = tree_files fuel env (st_db st) root" for root
    by (rule tree_files_directories) simp
  show ?thesis
  proof (rule serves_with_references[OF env h fuel, where old = "\<lambda>_. False"])
    show "cache_inv env (spawn_recovery fuel env fl clock (Some src) st1)"
      using dc_wf_new[of DIR_CACHE_CAPACITY]
      by (simp add: cache_inv_def spawn_recovery_def invalidate_stats_cache_def Let_def cache DIR_CACHE_CAPACITY_def)
        (simp add: dir_cache_new_def)
    show "st_files (spawn_recovery fuel env fl clock (Some src) st1) = st_files st"
      by (simp add: spawn_recovery_def invalidate_stats_cache_def Let_def files)
    show "wf_table (db_path_files (st_db (spawn_recovery fuel env fl clock (Some src) st1)))"
      unfolding db using B(4) empty(5) by simp
    show "map_of (db_path_files (st_db (spawn_recovery fuel env fl clock (Some src) st1))) (k, f) \<noteq> None \<longleftrightarrow>
        False \<or> (\<exists>r. (k, r) \<in> set (db_paths (st_db st)) \<and> f \<in> set (tree_files fuel env (st_db st) (pr_root_node r)))" for k f
      unfolding db castore_db.select_convs castore_db.simps using B(5)[where k = k and f = f] empty(5) unfolding tree by simp
  qed (use B(1-3) in \<open>simp_all add: db\<close>)
qed

lemma serves_backfill:
  assumes env: "cas_env_ok env" and h: "serves env U st m"
    and fuel: "fits fuel m" "0 < fuel"
    and same: "db_chunks (st_db st1) = db_chunks (st_db st)" "db_file_chunks (st_db st1) = db_file_chunks (st_db st)"
      "db_directories (st_db st1) = db_directories (st_db st)" "db_paths (st_db st1) = db_paths (st_db st)" "st_files st1 = st_files st"
    and none: "db_path_files (st_db st1) = []" and cache: "st_dir_cache st1 = dir_cache_new DIR_CACHE_CAPACITY"
    and notready: "\<not> st_path_files_ready st1"
  shows "serves env U (spawn_backfill fuel env st1) m"
proof -
  note B = backfill_batch_fields[where fuel = fuel and env = env and rows = "db_paths (st_db st)" and db = "st_db st1"]
  have db: "st_db (spawn_backfill fuel env st1) = backfill_batch fuel env (db_paths (st_db st)) (st_db st1)"
    using notready by (simp add: spawn_backfill_def backfill_loop_all same)
  have tree: "tree_files fuel env (st_db st1) root = tree_files fuel env (st_db st) root" for root
    by (rule tree_files_directories) (rule same)
  show ?thesis
  proof (rule serves_with_references[OF env h fuel, where old = "\<lambda>_. False"])
    show "cache_inv env (spawn_backfill fuel env st1)"
      using dc_wf_new[of DIR_CACHE_CAPACITY]
      by (simp add: cache_inv_def spawn_backfill_def notready cache DIR_CACHE_CAPACITY_def) (simp add: dir_cache_new_def)
    show "st_files (spawn_backfill fuel env st1) = st_files st" by (simp add: spawn_backfill_def notready same)
    show "wf_table (db_path_files (st_db (spawn_backfill fuel env st1)))" unfolding db using B(4) none by simp
    show "map_of (db_path_files (st_db (spawn_backfill fuel env st1))) (k, f) \<noteq> None \<longleftrightarrow>
        False \<or> (\<exists>r. (k, r) \<in> set (db_paths (st_db st)) \<and> f \<in> set (tree_files fuel env (st_db st) (pr_root_node r)))" for k f
      unfolding db using B(5)[where k = k and f = f] none unfolding tree by simp
  qed (use B(1-3) in \<open>simp_all add: db same\<close>)
qed

lemma evict_serves_others:
  assumes "cas_env_ok env" "inj_on (blake3 env) U" "\<And>p. io p" "serves env U st m"
    and fuel: "fits fuel m" "0 < fuel"
  shows "get_nar fuel env p (snd (evict_path io now h st)) =
    (if hash_of_file_path p = h then Ok None else get_nar fuel env p st)"
proof -
  have "serves env U (snd (evict_path io now h st)) (m(h := None))"
    by (rule serves_evict[where io = io and now = now, OF assms(3,1,4) prod.collapse[symmetric]])
  moreover have "fits fuel (m(h := None))" using fuel(1) by (simp add: fits_def)
  ultimately show ?thesis
    using fits_serves_get_nar[OF assms(1,2) _ _ fuel(2), of _ "m(h := None)" p] fits_serves_get_nar[OF assms(1,2,4) fuel, of p]
    by simp
qed

subsection \<open>A crash, a corrupt database, and an upgrade\<close>

lemma fits_history: "\<forall>a \<in> set as. op_fits fuel (snd a) \<Longrightarrow> fits fuel (run_spec as)"
  using spec_fuel[of Map.empty fuel as] by (simp add: run_spec_def fits_def)

text \<open>C27. Recovery restores the archives.  A server that crashed in any state a history reaches and finds its
  database corrupt starts with an empty one, which serves nothing; once recovery has read
  every row back from the damaged copy (whatever else in it cannot be read) every archive is served as before the crash, and evicting a
  path takes nothing from the others.\<close>

theorem recovery_restores_archives:
  assumes "cas_env_ok env" and "inj_on (blake3 env) (history_blobs env as)" and "\<forall>p. io p"
    and "\<forall>a \<in> set as. op_fits fuel (snd a)" and "0 < fuel"
    and "st = run_store fuel env fl io as (new_castore fl level clock)"
    and "(st1, corrupt) = open_castore env fl level clock False [] (st_db st) (st_files st)"
    and "reads_back src (st_db st)"
    and "st2 = spawn_recovery fuel env fl clock (if corrupt then Some src else None) st1"
  shows "get_nar fuel env p st1 = Ok None \<and> get_nar fuel env p st2 = get_nar fuel env p st \<and>
    get_nar fuel env p (snd (evict_path io now h st2)) =
      (if hash_of_file_path p = h then Ok None else get_nar fuel env p st)"
proof -
  have io: "\<And>p. io p" using assms(3) by blast
  have "holds env (history_blobs env as) st (run_spec as)" unfolding assms(6) using assms(1-4) by (rule holds_run)
  then have h: "serves env (history_blobs env as) st (run_spec as)" unfolding holds_iff by blast
  note fuel = fits_history[OF assms(4)]
  have st1: "st_files st1 = st_files st" "st_db st1 = mark_dirty empty_db"
    "st_dir_cache st1 = dir_cache_new DIR_CACHE_CAPACITY" "corrupt"
    using assms(7) run_store_kept(2)[of fuel env fl io as level clock]
    by (simp_all add: open_castore_def open_db_def Let_def assms(6) migrate_dirs_to_db_def)
  have "serves env (history_blobs env as) st2 (run_spec as)"
    using serves_recovery[OF assms(1) h fuel assms(5,8) st1(1), where fl = fl and clock = clock] st1
    by (simp add: assms(9) mark_dirty_def empty_db_def)
  note evict = evict_serves_others[where io = io and h = h and now = now, OF assms(1,2) io this fuel assms(5)]
    and read = fits_serves_get_nar[OF assms(1,2) this fuel assms(5)]
  have "get_nar fuel env p st2 = get_nar fuel env p st"
    using read[of p] fits_serves_get_nar[OF assms(1,2) h fuel assms(5), of p] by simp
  moreover have "get_nar fuel env p st1 = Ok None"
    by (simp add: get_nar_def get_root_node_def st1(2) mark_dirty_def empty_db_def)
  ultimately show ?thesis unfolding evict by simp
qed

text \<open>Reading never looks at the file references.\<close>

lemma get_nar_fields:
  assumes "db_chunks (st_db st') = db_chunks (st_db st)" "db_file_chunks (st_db st') = db_file_chunks (st_db st)"
    "db_directories (st_db st') = db_directories (st_db st)" "db_paths (st_db st') = db_paths (st_db st)"
    "st_files st' = st_files st" "st_dir_cache st' = st_dir_cache st"
  shows "get_nar fuel env p st' = get_nar fuel env p st"
proof -
  have chunk: "get_chunk_by_digest env st' g = get_chunk_by_digest env st g" for g
    unfolding get_chunk_by_digest_def assms ..
  have rows: "read_rows env st' rs = read_rows env st rs" for rs
    by (induction rs) (auto simp: chunk)
  have chunks: "read_chunks env st' gs = read_chunks env st gs" for gs
    by (induction gs) (simp_all add: chunk)
  have dir: "fst (load_directory env d st') = fst (load_directory env d st)" for d
    by (simp add: load_directory_def Let_def assms split: prod.split option.split)
  have "castore_reader env st' = castore_reader env st"
    by (simp add: castore_reader_def read_file_data_def[abs_def] write_file_data_to_def[abs_def] file_rows_def assms rows chunks dir)
  then show ?thesis unfolding get_nar_def get_root_node_def assms by (simp only:)
qed

text \<open>C28. Upgrading a store whose version kept no file references is safe.  Started on such a store, the server
  serves every archive and evicts nothing, however far above its limit, until the references are filled
  in; afterwards it may evict any path without taking anything from the others.\<close>

theorem backfill_makes_eviction_safe:
  assumes "cas_env_ok env" and "inj_on (blake3 env) (history_blobs env as)" and "\<forall>p. io p"
    and "\<forall>a \<in> set as. op_fits fuel (snd a)" and "0 < fuel"
    and "st = run_store fuel env fl io as (new_castore fl level clock)" and "db_paths (st_db st) \<noteq> []"
    and "(st1, corrupt) = open_castore env fl level clock True [] ((st_db st)\<lparr>db_path_files := []\<rparr>) (st_files st)"
    and "st2 = spawn_backfill fuel env st1"
  shows "get_nar fuel env p st1 = get_nar fuel env p st \<and> cas_maybe_run_gc io now cfg st1 = st1 \<and>
    st_path_files_ready st2 \<and> get_nar fuel env p st2 = get_nar fuel env p st \<and>
    get_nar fuel env p (snd (evict_path io now h st2)) =
      (if hash_of_file_path p = h then Ok None else get_nar fuel env p st)"
proof -
  have io: "\<And>p. io p" using assms(3) by blast
  have "holds env (history_blobs env as) st (run_spec as)" unfolding assms(6) using assms(1-4) by (rule holds_run)
  then have h: "serves env (history_blobs env as) st (run_spec as)" unfolding holds_iff by blast
  note fuel = fits_history[OF assms(4)]
  have st1: "st_files st1 = st_files st" "st_db st1 = mark_dirty ((st_db st)\<lparr>db_path_files := []\<rparr>)"
    "st_dir_cache st1 = dir_cache_new DIR_CACHE_CAPACITY" "\<not> st_path_files_ready st1"
    using assms(7,8) by (simp_all add: open_castore_def open_db_def Let_def migrate_dirs_to_db_def
        path_files_needs_backfill_def mark_dirty_def)
  have "serves env (history_blobs env as) st2 (run_spec as)"
    unfolding assms(9)
    by (rule serves_backfill[OF assms(1) h fuel assms(5)]) (simp_all add: st1 mark_dirty_def)
  note evict = evict_serves_others[where io = io and h = h and now = now, OF assms(1,2) io this fuel assms(5)]
    and read = fits_serves_get_nar[OF assms(1,2) this fuel assms(5)]
  have "get_nar fuel env p st2 = get_nar fuel env p st"
    using read[of p] fits_serves_get_nar[OF assms(1,2) h fuel assms(5), of p] by simp
  moreover have "get_nar fuel env p st2 = get_nar fuel env p st1"
    by (rule get_nar_fields) (simp_all add: assms(9) spawn_backfill_def st1(4) backfill_loop_all backfill_batch_fields)
  moreover have "cas_maybe_run_gc io now cfg st1 = st1" using st1(4) by (simp add: cas_maybe_run_gc_def Let_def)
  moreover have "st_path_files_ready st2" by (simp add: assms(9) spawn_backfill_def)
  ultimately show ?thesis unfolding evict by simp
qed

text \<open>A restart keeps the invariant of the tables and files, whatever the file references are.\<close>

lemma cache_inv_new: "st_dir_cache s = dir_cache_new DIR_CACHE_CAPACITY \<Longrightarrow> cache_inv env s"
  using dc_wf_new[of DIR_CACHE_CAPACITY] by (simp add: cache_inv_def DIR_CACHE_CAPACITY_def) (simp add: dir_cache_new_def)

lemma castore_inv_restart:
  assumes inv: "castore_inv env U st"
    and same: "db_chunks (st_db s) = db_chunks (st_db st)" "db_file_chunks (st_db s) = db_file_chunks (st_db st)"
      "db_directories (st_db s) = db_directories (st_db st)" "db_paths (st_db s) = db_paths (st_db st)" "st_files s = st_files st"
    and pf: "db_path_files (st_db s) = [] \<or> db_path_files (st_db s) = db_path_files (st_db st)"
    and cache: "st_dir_cache s = dir_cache_new DIR_CACHE_CAPACITY"
  shows "castore_inv env U s"
proof -
  have db: "db_inv env U (st_db st)" by (rule castore_invD(1)[OF inv])
  have t: "wf_table (db_paths (st_db st))" using db unfolding db_inv_def by blast
  have pft: "wf_table (db_path_files (st_db st))" using db unfolding db_inv_def by blast
  have pfl: "\<forall>h f. map_of (db_path_files (st_db st)) (h, f) \<noteq> None \<longrightarrow> length f = 32"
    using db unfolding db_inv_def by (elim conjE)
  have w: "wf_table (db_paths (st_db s))" using t by (simp only: same)
  have "wf_table (db_path_files (st_db s)) \<and> (\<forall>h f. map_of (db_path_files (st_db s)) (h, f) \<noteq> None \<longrightarrow> length f = 32)"
    using pf
  proof
    assume "db_path_files (st_db s) = []"
    then show ?thesis by (simp add: wf_table_def)
  next
    assume "db_path_files (st_db s) = db_path_files (st_db st)"
    then show ?thesis using pft pfl by (simp only: simp_thms)
  qed
  then have w': "wf_table (db_path_files (st_db s))"
    and l: "\<And>h f. map_of (db_path_files (st_db s)) (h, f) \<noteq> None \<Longrightarrow> length f = 32" by blast+
  have "db_inv env U (st_db s)" by (rule db_inv_paths[OF db same(1-3) w w' l])
  moreover have "files_inv env U s" using castore_invD(2)[OF inv] by (simp add: files_inv_def same)
  ultimately show ?thesis using cache_inv_new[OF cache] by (simp add: castore_inv_def)
qed

text \<open>C29. An interrupted upgrade loses data.  The backfill is due only while the table of file references is
  empty.  If the server stops before the first batch is written but after one archive was uploaded, the next start
  takes the references for complete: evicting the uploaded path then deletes the rows of every file it
  shares with an older path, and reading such a file gives an empty one.\<close>

theorem interrupted_upgrade_loses_files:
  assumes "cas_env_ok env" and "inj_on (blake3 env) (history_blobs env (as @ [(now, PutNar p a)]))" and "\<forall>p. io p"
    and "\<forall>b \<in> set (as @ [(now, PutNar p a)]). op_fits fuel (snd b)"
    and "st = run_store fuel env fl io as (new_castore fl level clock)"
    and "(st0, c0) = open_castore env fl level clock True [] ((st_db st)\<lparr>db_path_files := []\<rparr>) (st_files st)"
    and "parse_nar a = Ok n" and "d \<in> set (files_of n)"
    and "run_spec as k = Some (Some n')" and "d \<in> set (files_of n')" and "k \<noteq> hash_of_file_path p"
    and "st1 = snd (put_nar fuel env io now p a st0)"
    and "(st2, c2) = open_castore env fl level clock True [] (st_db st1) (st_files st1)"
    and "(freed, st3) = evict_path io now' (hash_of_file_path p) st2"
  shows "\<not> st_path_files_ready st0 \<and> st_path_files_ready st2 \<and>
    write_file_data_to env st2 (blake3 env d) = Ok d \<and>
    map_of (db_paths (st_db st3)) k \<noteq> None \<and> write_file_data_to env st3 (blake3 env d) = Ok []"
proof -
  let ?U = "history_blobs env (as @ [(now, PutNar p a)])"
  let ?h = "hash_of_file_path p"
  have io: "\<And>p. io p" using assms(3) by blast
  have n: "blobs_of env n \<subseteq> ?U" "nar_fuel n \<le> fuel"
    using assms(4,7) by (auto simp: history_blobs_def op_blobs_def op_fits_def)
  have "holds env ?U (fold (\<lambda>(now, a). exec_op fuel env fl io now a) as (new_castore fl level clock))
      (fold (\<lambda>(now, a). spec_op a) as Map.empty)"
    by (rule holds_history[where io = io, OF assms(1,2) io holds_new]) (use assms(4) in \<open>auto simp: history_blobs_def\<close>)
  then have h: "holds env ?U st (run_spec as)" by (simp add: assms(5) run_store_def run_spec_def)
  then have inv: "castore_inv env ?U st" "no_orphans st" unfolding holds_def by blast+
  have old: "map_of (db_paths (st_db st)) k \<noteq> None" using h assms(9) unfolding holds_def by (metis option.distinct(1))
  then have nonempty: "db_paths (st_db st) \<noteq> []" by auto
  have st0: "st_files st0 = st_files st" "st_db st0 = mark_dirty ((st_db st)\<lparr>db_path_files := []\<rparr>)"
    "st_dir_cache st0 = dir_cache_new DIR_CACHE_CAPACITY" "\<not> st_path_files_ready st0"
    using assms(6) nonempty by (simp_all add: open_castore_def open_db_def Let_def migrate_dirs_to_db_def
        path_files_needs_backfill_def mark_dirty_def)
  have inv0: "castore_inv env ?U st0" by (rule castore_inv_restart[OF inv(1)]) (simp_all add: st0 mark_dirty_def)
  have orph0: "no_orphans st0" using inv(2) by (simp add: no_orphans_def st0 mark_dirty_def)
  obtain s1 db' row where
    run: "put_nar fuel env io now p a st0 = (Ok True, invalidate_stats_cache (int now) (path_bloom_insert env ?h (s1\<lparr>st_db := db'\<rparr>)))"
    and e: "extends st0 s1" and tree: "tree_stored env (st_db s1) n"
    and db: "db_chunks db' = db_chunks (st_db s1)" "db_file_chunks db' = db_file_chunks (st_db s1)"
      "db_directories db' = db_directories (st_db s1)"
    and paths: "map_of (db_paths db') = (map_of (db_paths (st_db st0)))(?h \<mapsto> row)"
    and pf: "\<And>k f. map_of (db_path_files db') (k, f) \<noteq> None \<longleftrightarrow>
      map_of (db_path_files (st_db st0)) (k, f) \<noteq> None \<or> (k = ?h \<and> f \<in> blake3 env ` set (files_of n))"
    and inv1: "castore_inv env ?U (s1\<lparr>st_db := db'\<rparr>)"
    by (rule put_nar_steps[where io = io and p = p and now = now, OF assms(1,2) io inv0 orph0 assms(7) n refl]) (rule that)
  have st1: "st_db st1 = db'" "st_files st1 = st_files s1"
    using run by (simp_all add: assms(12) invalidate_stats_cache_def path_bloom_insert_def)
  have pf1: "map_of (db_path_files db') (j, blake3 env d) \<noteq> None \<longleftrightarrow> j = ?h" for j
    using assms(8) unfolding pf by (auto simp: st0 mark_dirty_def)
  then have "db_path_files db' \<noteq> []" by (metis map_of.simps(1))
  then have st2: "st_files st2 = st_files s1" "st_db st2 = mark_dirty db'" "st_path_files_ready st2"
    "st_dir_cache st2 = dir_cache_new DIR_CACHE_CAPACITY"
    using assms(13) by (simp_all add: open_castore_def open_db_def Let_def migrate_dirs_to_db_def
        path_files_needs_backfill_def mark_dirty_def st1)
  have inv2: "castore_inv env ?U st2" by (rule castore_inv_restart[OF inv1]) (simp_all add: st2 mark_dirty_def)
  note F = evict_path_fields[where io = io, OF io inv2 assms(1) assms(14)[symmetric]]
  have pf2: "db_path_files (st_db st2) = db_path_files db'" by (simp add: st2 mark_dirty_def)
  have "blake3 env d \<in> dropped_files (st_db st2) ?h"
    unfolding dropped_files_def mem_Collect_eq pf2 using pf1 by blast
  then have "file_rows st3 (blake3 env d) = []" unfolding file_rows_def rows_of_Nil_iff by (simp add: F(5))
  then have gone: "write_file_data_to env st3 (blake3 env d) = Ok []" by (simp add: write_file_data_to_def map_filter_simps)
  have stored: "file_stored env (st_db st2) d"
    using tree assms(8) by (simp add: tree_stored_def st2 mark_dirty_def file_stored_def db)
  have "map_of (db_paths (st_db st3)) k \<noteq> None"
    using old assms(11) by (simp add: F(3) st2 mark_dirty_def paths st0)
  moreover have "d \<in> ?U" "set (cdc env d) \<subseteq> ?U" using n(1) assms(8) by (auto simp: blobs_of_def)
  then have "write_file_data_to env st2 (blake3 env d) = Ok d"
    using stored by (rule file_data_stored(1)[OF assms(1,2) inv2])
  ultimately show ?thesis using gone st0(4) st2(3) by blast
qed

subsection \<open>Instances\<close>

text \<open>A damaged copy of \<open>db\<close>: every row can be read, and an unreadable one follows in each table.\<close>

definition raw_of :: "castore_db \<Rightarrow> raw_db" where
  "raw_of db =
     \<lparr>rd_chunks = map (\<lambda>(d, r). Row \<lparr>rc_digest = Some d, rc_size = Some (ck_size r), rc_ref_count = Some (ck_ref_count r),
        rc_zstd_level = Some (ck_zstd_level r), rc_disk_size = Some (ck_disk_size r), rc_data = Some (ck_data r)\<rparr>)
        (db_chunks db) @ [Unreadable],
      rd_file_chunks = map (\<lambda>((f, i), (g, s)). Row \<lparr>rf_file_digest = Some f, rf_chunk_index = Some i, rf_chunk_digest = Some g,
        rf_chunk_size = Some s\<rparr>) (db_file_chunks db) @ [Unreadable],
      rd_directories = map (\<lambda>(d, b). Row (Some d, Some b)) (db_directories db) @ [Unreadable],
      rd_paths = map (\<lambda>(h, r). Row \<lparr>rp_hash = Some h, rp_store_path = Some (pr_store_path r), rp_nar_hash = Some (pr_nar_hash r),
        rp_nar_size = Some (pr_nar_size r), rp_root_node = Some (pr_root_node r), rp_references = Some (pr_references r),
        rp_signatures = Some (pr_signatures r), rp_ca = Some (pr_ca r), rp_deriver = Some (pr_deriver r),
        rp_added_at = Some (pr_added_at r), rp_last_access = Some (pr_last_access r)\<rparr>) (db_paths db) @ [Unreadable]\<rparr>"

lemma salvage_rows:
  "\<forall>x \<in> set xs. parse (f x) = Some x \<Longrightarrow> salvage parse (map (\<lambda>x. Row (f x)) xs @ [Unreadable]) n = xs"
  by (induction xs arbitrary: n) (simp_all add: MAX_CONSECUTIVE_ERRORS_def)

lemma reads_back_raw_of: "reads_back (raw_of db) db"
  unfolding reads_back_def raw_of_def raw_db.select_convs case_prod_unfold
  by (intro conjI salvage_rows ballI)
    (auto simp: parse_chunk_def parse_file_chunk_def parse_directory_row_def parse_path_def unwrap_or_def)

lemma sample_serves:
  "get_nar 9 sample_env ''nar/abc.nar'' (run_store 9 sample_env fl (\<lambda>_. True) [sample_put] (new_castore fl 3 0)) =
   Ok (Some (write_nar (sort_nar sample_nar)))"
proof -
  have inj: "inj_on (blake3 sample_env) (history_blobs sample_env [sample_put])"
    unfolding sample_history(1) by (rule sample_nar_inj)
  show ?thesis
    using holds_get_nar[OF sample_env_ok inj holds_run[OF sample_env_ok inj _ sample_history(2), of "\<lambda>_. True" fl 3 0],
        where fuel = 9 and p = "''nar/abc.nar''"]
    by (simp add: sample_history(3))
qed

theorem recovery_restores_archives_witness:
  "let st = run_store 9 sample_env toy_sizes (\<lambda>_. True) [sample_put] (new_castore toy_sizes 3 0);
       (st1, corrupt) = open_castore sample_env toy_sizes 3 0 False [] (st_db st) (st_files st);
       st2 = spawn_recovery 9 sample_env toy_sizes 0 (if corrupt then Some (raw_of (st_db st)) else None) st1
   in get_nar 9 sample_env ''nar/abc.nar'' st1 = Ok None \<and>
      get_nar 9 sample_env ''nar/abc.nar'' st2 = Ok (Some (write_nar (sort_nar sample_nar)))"
proof -
  let ?st = "run_store 9 sample_env toy_sizes (\<lambda>_. True) [sample_put] (new_castore toy_sizes 3 0)"
  obtain st1 corrupt where o: "open_castore sample_env toy_sizes 3 0 False [] (st_db ?st) (st_files ?st) = (st1, corrupt)"
    by (metis prod.exhaust)
  have inj: "inj_on (blake3 sample_env) (history_blobs sample_env [sample_put])"
    unfolding sample_history(1) by (rule sample_nar_inj)
  show ?thesis
    using recovery_restores_archives[OF sample_env_ok inj _ sample_history(2) _ refl o[symmetric] reads_back_raw_of refl,
        of "''nar/abc.nar''"] sample_serves
    by (simp add: o Let_def)
qed

theorem backfill_makes_eviction_safe_witness:
  "let st = run_store 9 sample_env toy_sizes (\<lambda>_. True) [sample_put] (new_castore toy_sizes 3 0);
       (st1, corrupt) = open_castore sample_env toy_sizes 3 0 True [] ((st_db st)\<lparr>db_path_files := []\<rparr>) (st_files st);
       st2 = spawn_backfill 9 sample_env st1
   in st_path_files_ready st2 \<and> get_nar 9 sample_env ''nar/abc.nar'' st2 = Ok (Some (write_nar (sort_nar sample_nar))) \<and>
      get_nar 9 sample_env ''nar/abc.nar'' (snd (evict_path (\<lambda>_. True) 8 ''xyz'' st2)) = Ok (Some (write_nar (sort_nar sample_nar)))"
proof -
  let ?st = "run_store 9 sample_env toy_sizes (\<lambda>_. True) [sample_put] (new_castore toy_sizes 3 0)"
  obtain st1 corrupt where o: "open_castore sample_env toy_sizes 3 0 True [] ((st_db ?st)\<lparr>db_path_files := []\<rparr>) (st_files ?st) = (st1, corrupt)"
    by (metis prod.exhaust)
  have inj: "inj_on (blake3 sample_env) (history_blobs sample_env [sample_put])"
    unfolding sample_history(1) by (rule sample_nar_inj)
  have "db_paths (st_db ?st) \<noteq> []"
    using sample_serves[of toy_sizes] by (auto simp: get_nar_def get_root_node_def)
  note A = backfill_makes_eviction_safe[OF sample_env_ok inj _ sample_history(2) _ refl this o[symmetric] refl,
        of "''nar/abc.nar''" 8 undefined "''xyz''"]
  show ?thesis using A sample_serves by (simp add: o Let_def)
qed

theorem interrupted_upgrade_loses_files_witness:
  "let st = run_store 9 sample_env toy_sizes (\<lambda>_. True) [sample_put] (new_castore toy_sizes 3 0);
       (st0, c0) = open_castore sample_env toy_sizes 3 0 True [] ((st_db st)\<lparr>db_path_files := []\<rparr>) (st_files st);
       st1 = snd (put_nar 9 sample_env (\<lambda>_. True) 8 ''nar/xyz.nar'' (write_nar sample_nar) st0);
       (st2, c2) = open_castore sample_env toy_sizes 3 0 True [] (st_db st1) (st_files st1);
       (freed, st3) = evict_path (\<lambda>_. True) 9 ''xyz'' st2
   in write_file_data_to sample_env st2 (sample_blake3 ''hello'') = Ok ''hello'' \<and>
      map_of (db_paths (st_db st3)) ''abc'' \<noteq> None \<and> write_file_data_to sample_env st3 (sample_blake3 ''hello'') = Ok []"
proof -
  let ?st = "run_store 9 sample_env toy_sizes (\<lambda>_. True) [sample_put] (new_castore toy_sizes 3 0)"
  let ?as = "[sample_put] @ [(8, PutNar ''nar/xyz.nar'' (write_nar sample_nar))]"
  have hash: "hash_of_file_path ''nar/xyz.nar'' = ''xyz''"
    by (simp add: hash_of_file_path_def last_segment_def first_segment_def)
  obtain st0 c0 where o0: "open_castore sample_env toy_sizes 3 0 True [] ((st_db ?st)\<lparr>db_path_files := []\<rparr>) (st_files ?st) = (st0, c0)"
    by (metis prod.exhaust)
  define st1 where "st1 = snd (put_nar 9 sample_env (\<lambda>_. True) 8 ''nar/xyz.nar'' (write_nar sample_nar) st0)"
  obtain st2 c2 where o2: "open_castore sample_env toy_sizes 3 0 True [] (st_db st1) (st_files st1) = (st2, c2)"
    by (metis prod.exhaust)
  obtain freed st3 where ev: "evict_path (\<lambda>_. True) 9 (hash_of_file_path ''nar/xyz.nar'') st2 = (freed, st3)"
    by (metis prod.exhaust)
  have "history_blobs sample_env ?as = blobs_of sample_env sample_nar"
    using sample_history(1) by (auto simp: history_blobs_def op_blobs_def sample_put_parses)
  then have inj: "inj_on (blake3 sample_env) (history_blobs sample_env ?as)" using sample_nar_inj by simp
  have fits: "\<forall>b \<in> set ?as. op_fits 9 (snd b)" using sample_history(2) by (simp add: op_fits_def sample_put_parses)
  have hello: "''hello'' \<in> set (files_of sample_nar)" by (simp add: sample_nar_def)
  have spec: "run_spec [sample_put] ''abc'' = Some (Some sample_nar)" by (simp add: sample_history(3))
  note A = interrupted_upgrade_loses_files[OF sample_env_ok inj _ fits refl o0[symmetric] sample_put_parses hello spec hello _
      st1_def o2[symmetric] ev[symmetric]]
  show ?thesis using A ev by (simp add: o0 o2 hash st1_def[symmetric] Let_def)
qed

end
