(* ===== verification/HttpProps.thy ===== *)
theory HttpProps
  imports HttpApi Lifecycle
begin

text \<open>
  Properties of the HTTP interface: what an upload makes available, what the cache of signed narinfo texts
  hides, downloads in parts, and the life of a minted token.
\<close>

subsection \<open>Who may change the store\<close>

definition request_headers :: "request \<Rightarrow> headers" where
  "request_headers r =
     (case r of CreateToken hs _ \<Rightarrow> hs | PutNarinfo hs _ _ \<Rightarrow> hs | StoreNar hs _ _ \<Rightarrow> hs | PutChunk hs _ _ \<Rightarrow> hs | _ \<Rightarrow> [])"

definition carries :: "request \<Rightarrow> string \<Rightarrow> bool" where
  "carries r t \<longleftrightarrow> map_of (request_headers r) ''authorization'' = Some (''Bearer '' @ t)"

lemma bearer_Some: "bearer hs = Some t \<Longrightarrow> map_of hs ''authorization'' = Some (''Bearer '' @ t)"
  unfolding bearer_def header_str_def
  by (cases "map_of hs ''authorization''") (auto simp: strip_prefix_Some to_str_def split: if_splits)

lemma check_auth_Ok: "check_auth s hs = Inr u \<Longrightarrow> \<exists>t \<in> set (as_write_tokens s). bearer hs = Some t"
  by (auto simp: check_auth_def split: if_splits option.splits)

text \<open>C22. Nobody changes the cache without a token.  Through any requests, none of which carries in its authorization header
  a token the server had when they started nor its admin token, the stored archives and metadata, the tokens accepted
  and the token store stay as they are.\<close>

theorem unauthorised_requests_change_nothing:
  assumes "\<forall>r \<in> set rs. \<forall>t \<in> set (as_write_tokens s). \<not> carries (snd (snd r)) t"
    and "\<forall>r \<in> set rs. \<forall>t. as_admin_token s = Some t \<longrightarrow> \<not> carries (snd (snd r)) t"
    and "s' = run_requests env page rs s"
  shows "as_storage s' = as_storage s \<and> as_write_tokens s' = as_write_tokens s \<and> as_token_store s' = as_token_store s"
proof -
  have one: "as_storage (step env page r s0) = as_storage s0 \<and> as_write_tokens (step env page r s0) = as_write_tokens s0 \<and>
      as_token_store (step env page r s0) = as_token_store s0 \<and> as_admin_token (step env page r s0) = as_admin_token s0"
    if t: "\<forall>t \<in> set (as_write_tokens s0). \<not> carries (snd (snd r)) t" "\<forall>t. as_admin_token s0 = Some t \<longrightarrow> \<not> carries (snd (snd r)) t"
    for r s0
  proof -
    obtain now fresh q where r: "r = (now, fresh, q)" by (metis prod.exhaust)
    have auth: "check_auth s0 (request_headers q) = Inr u \<Longrightarrow> False" for u
      using t(1) bearer_Some check_auth_Ok unfolding r carries_def by fastforce
    have admin: "as_admin_token s0 = Some t \<Longrightarrow> bearer (request_headers q) \<noteq> Some t" for t
      using t(2) bearer_Some unfolding r carries_def by fastforce
    show ?thesis
    proof (cases q)
      case (CreateToken hs body)
      then show ?thesis using admin by (auto simp: step_def r create_token_def request_headers_def split: option.split)
    next
      case (PutNarinfo hs p body)
      then show ?thesis using auth
        by (cases "check_auth s0 hs") (auto simp: step_def r put_narinfo_handler_def request_headers_def)
    next
      case (StoreNar hs f body)
      then show ?thesis using auth
        by (cases "check_auth s0 hs") (auto simp: step_def r put_nar_handler_def request_headers_def)
    next
      case (PutChunk hs x body)
      then show ?thesis using auth
        by (cases "check_auth s0 hs") (auto simp: step_def r put_chunk_handler_def request_headers_def)
    next
      case (GetNarinfo p json_query)
      then show ?thesis by (auto simp: step_def r get_narinfo_handler_def Let_def split: option.split if_splits)
    next
      case (FetchNar hs f)
      then show ?thesis
        by (auto simp: step_def r get_nar_handler_def get_nar_buffered_def Let_def split: option.split sum.split prod.split if_splits)
    next
      case (GetChunk x)
      then show ?thesis by (auto simp: step_def r bindR_def split: sum.split)
    qed (simp_all add: step_def r)
  qed
  have "as_storage s' = as_storage s \<and> as_write_tokens s' = as_write_tokens s \<and> as_token_store s' = as_token_store s \<and>
      as_admin_token s' = as_admin_token s"
    using assms(1,2) unfolding assms(3) run_requests_def
  proof (induction rs arbitrary: s)
    case (Cons r rs)
    have "\<forall>t \<in> set (as_write_tokens s). \<not> carries (snd (snd r)) t" "\<forall>t. as_admin_token s = Some t \<longrightarrow> \<not> carries (snd (snd r)) t"
      using Cons.prems by simp_all
    note same = one[OF this]
    show ?case using Cons.IH[of "step env page r s"] Cons.prems same by simp
  qed simp
  then show ?thesis by blast
qed

subsection \<open>Lookups after uploads\<close>

lemma strip_suffix_append [simp]: "strip_suffix p (s @ p) = Some s"
  by (simp add: strip_suffix_def)

lemma strip_suffix_other: "length p \<le> length q \<Longrightarrow> drop (length q - length p) q \<noteq> p \<Longrightarrow> strip_suffix p (s @ q) = None"
  by (simp add: strip_suffix_def)

lemma strip_suffix_last: "p \<noteq> [] \<Longrightarrow> q \<noteq> [] \<Longrightarrow> last p \<noteq> last q \<Longrightarrow> strip_suffix p (s @ q) = None"
proof (rule ccontr)
  assume "p \<noteq> []" "q \<noteq> []" "last p \<noteq> last q" "strip_suffix p (s @ q) \<noteq> None"
  then have "drop (length (s @ q) - length p) (s @ q) = p" by (auto simp: strip_suffix_def split: if_splits)
  then have "last (s @ q) = last p" using \<open>p \<noteq> []\<close> by (metis append_take_drop_id last_appendR)
  then show False using \<open>q \<noteq> []\<close> \<open>last p \<noteq> last q\<close> by simp
qed

lemma narinfo_name: "strip_suffix ''.ls'' (h @ ''.narinfo'') = None"
  by (rule strip_suffix_other) simp_all

lemma get_narinfo_by_name:
  assumes "is_valid_store_hash h"
  shows "get_narinfo_handler env (h @ ''.narinfo'') False s =
    (case narinfo_cache_get h (as_narinfo_cache s) of
       Some cached_text \<Rightarrow> (narinfo_response (cached_link cached_text) cached_text, record_access h s)
     | None \<Rightarrow>
        (case get_narinfo h (as_storage s) of
           None \<Rightarrow> (not_found_response, s)
         | Some ni \<Rightarrow>
            (let ni = add_signature (as_signer s) ni; s = record_access h s; body = to_narinfo_string ni
             in (narinfo_response (ni_url ni) body,
                 s\<lparr>as_narinfo_cache := narinfo_cache_insert h body (as_narinfo_cache s)\<rparr>))))"
  using assms by (simp add: get_narinfo_handler_def narinfo_name Let_def split: option.split)

lemma clean_valid_hash: "is_valid_nix_hash h \<Longrightarrow> clean (''nar/'' @ h @ ''.nar'')"
proof -
  assume "is_valid_nix_hash h"
  then have "\<forall>c \<in> set h. c \<noteq> NL" by (auto simp: is_valid_nix_hash_def list_all_iff is_ascii_digit_def)
  then show "clean (''nar/'' @ h @ ''.nar'')" by (auto simp: clean_def)
qed

lemma add_signature_fields [simp]:
  "ni_store_path (add_signature sign ni) = ni_store_path ni" "ni_nar_hash (add_signature sign ni) = ni_nar_hash ni"
  "ni_nar_size (add_signature sign ni) = ni_nar_size ni" "ni_references (add_signature sign ni) = ni_references ni"
  "ni_deriver (add_signature sign ni) = ni_deriver ni" "ni_ca (add_signature sign ni) = ni_ca ni"
  "ni_url (add_signature sign ni) = ni_url ni" "ni_compression (add_signature sign ni) = ni_compression ni"
  "ni_file_hash (add_signature sign ni) = ni_file_hash ni" "ni_file_size (add_signature sign ni) = ni_file_size ni"
  by (simp_all add: add_signature_def Let_def)

lemma add_signature_signatures:
  "set (ni_signatures (add_signature sign ni)) = insert (sign (fingerprint (ni_store_path ni) (ni_nar_hash ni) (ni_nar_size ni)
     (ni_references ni))) (set (ni_signatures ni))"
  by (auto simp: add_signature_def Let_def)

lemma clean_add_signature: "narinfo_clean ni \<Longrightarrow> (\<And>x. clean (sign x)) \<Longrightarrow> narinfo_clean (add_signature sign ni)"
  by (auto simp: narinfo_clean_def add_signature_signatures)

lemma put_narinfo_ok:
  assumes "(r, s1) = put_narinfo_handler env now hs (h @ ''.narinfo'') body s" and "rs_status r = 200"
    and "parse_narinfo body = Some ni"
  shows "is_valid_nix_hash h" and "\<exists>st. put_narinfo (he_cas env) now h (to_narinfo_string (add_signature (as_signer s) ni)) (as_storage s) = (Ok True, st) \<and>
    s1 = record_access h (s\<lparr>as_storage := st\<rparr>)"
  using assms
  by (auto simp: put_narinfo_handler_def check_auth_def plain_def Let_def
      split: sum.splits if_splits option.splits prod.splits bool.splits)

text \<open>The metadata a server gives out for an uploaded narinfo: its own URL, and its signature.\<close>

definition republished :: "(string \<Rightarrow> string) \<Rightarrow> string \<Rightarrow> narinfo \<Rightarrow> narinfo" where
  "republished sign h ni = add_signature sign (served_info h (add_signature sign ni))"

lemma republished_facts:
  "(republished sign h ni)\<lparr>ni_signatures := []\<rparr> = (served_info h ni)\<lparr>ni_signatures := []\<rparr>"
  "set (ni_signatures ni) \<subseteq> set (ni_signatures (republished sign h ni))"
  "sign (fingerprint (ni_store_path (republished sign h ni)) (ni_nar_hash (republished sign h ni)) (ni_nar_size (republished sign h ni))
     (ni_references (republished sign h ni))) \<in> set (ni_signatures (republished sign h ni))"
proof -
  show "(republished sign h ni)\<lparr>ni_signatures := []\<rparr> = (served_info h ni)\<lparr>ni_signatures := []\<rparr>"
    by (rule narinfo.equality) (simp_all add: republished_def served_info_def)
  show "set (ni_signatures ni) \<subseteq> set (ni_signatures (republished sign h ni))"
    by (auto simp: republished_def add_signature_signatures served_info_def)
  show "sign (fingerprint (ni_store_path (republished sign h ni)) (ni_nar_hash (republished sign h ni)) (ni_nar_size (republished sign h ni))
     (ni_references (republished sign h ni))) \<in> set (ni_signatures (republished sign h ni))"
    unfolding republished_def add_signature_fields add_signature_signatures by simp
qed

lemma accepted_narinfo_served:
  assumes "(r, s1) = put_narinfo_handler env now hs (h @ ''.narinfo'') body s" and "rs_status r = 200"
    and "parse_narinfo body = Some ni" and "narinfo_clean ni" and "storable ni"
    and sign: "\<And>x. clean (as_signer s x)" "\<And>x. as_signer s x \<noteq> []" and "is_valid_store_hash h"
    and "narinfo_cache_get h (as_narinfo_cache s) = None"
  defines "ni2 \<equiv> republished (as_signer s) h ni"
  shows "fst (get_narinfo_handler env (h @ ''.narinfo'') False s1) = narinfo_response (ni_url ni2) (to_narinfo_string ni2)"
    and "parse_narinfo (to_narinfo_string ni2) = Some ni2"
proof -
  let ?sign = "as_signer s"
  let ?ni1 = "(add_signature ?sign ni)\<lparr>ni_references := map basename (ni_references ni)\<rparr>"
  have same: "served_info h ?ni1 = served_info h (add_signature ?sign ni)"
    by (simp add: served_info_def o_def basename_basename)
  obtain st where put: "put_narinfo (he_cas env) now h (to_narinfo_string (add_signature ?sign ni)) (as_storage s) = (Ok True, st)"
    and s1: "s1 = record_access h (s\<lparr>as_storage := st\<rparr>)" and h: "is_valid_nix_hash h"
    using put_narinfo_ok[OF assms(1-3)] by blast
  have c1: "narinfo_clean (add_signature ?sign ni)" using clean_add_signature assms(4) sign by blast
  have parse1: "parse_narinfo (to_narinfo_string (add_signature ?sign ni)) = Some ?ni1"
    using narinfo_roundtrip_lemma[OF c1] by simp
  have st1: "storable ?ni1" using assms(5) sign
    by (auto simp: storable_def add_signature_signatures clean_def basename_basename)
  obtain root where "st = store_metadata (he_cas env) now h ?ni1 root (as_storage s)"
    using put parse1 by (auto simp: put_narinfo_def get_root_node_def split: if_splits sum.splits option.splits)
  then have get: "get_narinfo h (as_storage s1) = Some (served_info h (add_signature ?sign ni))"
    using st1 same by (simp add: s1 get_narinfo_def store_metadata_def load_stored_metadata)
  have "narinfo_clean (served_info h (add_signature ?sign ni))"
    using c1 clean_valid_hash[OF h] by (auto simp: narinfo_clean_def served_info_def basename_basename clean_def)
  then have "narinfo_clean ni2" using clean_add_signature sign unfolding ni2_def republished_def by blast
  then show "parse_narinfo (to_narinfo_string ni2) = Some ni2"
    using narinfo_roundtrip_lemma by (simp add: ni2_def republished_def served_info_def o_def basename_basename)
  show "fst (get_narinfo_handler env (h @ ''.narinfo'') False s1) = narinfo_response (ni_url ni2) (to_narinfo_string ni2)"
    unfolding get_narinfo_by_name[OF assms(8)] get using assms(9) by (simp add: s1 Let_def ni2_def republished_def)
qed

text \<open>C23. An upload is served.  When an upload of a narinfo is accepted, the next request for it answers a text
  that parses to the uploaded metadata under the store's own URL, with all uploaded signatures and the
  server's over its fingerprint, provided no text was cached for the hash.\<close>

theorem uploaded_narinfo_is_served:
  assumes "(r, s1) = put_narinfo_handler env now hs (h @ ''.narinfo'') body s" and "rs_status r = 200"
    and "parse_narinfo body = Some ni" and "narinfo_clean ni" and "storable ni"
    and "\<forall>x. clean (as_signer s x) \<and> as_signer s x \<noteq> []" and "is_valid_store_hash h"
    and "narinfo_cache_get h (as_narinfo_cache s) = None"
  shows "\<exists>r2 s2 ni2. get_narinfo_handler env (h @ ''.narinfo'') False s1 = (r2, s2) \<and> rs_status r2 = 200 \<and>
    parse_narinfo (rs_body r2) = Some ni2 \<and> ni2\<lparr>ni_signatures := []\<rparr> = (served_info h ni)\<lparr>ni_signatures := []\<rparr> \<and>
    set (ni_signatures ni) \<subseteq> set (ni_signatures ni2) \<and>
    as_signer s (fingerprint (ni_store_path ni2) (ni_nar_hash ni2) (ni_nar_size ni2) (ni_references ni2)) \<in> set (ni_signatures ni2)"
proof -
  let ?ni2 = "republished (as_signer s) h ni"
  have sign: "\<And>x. clean (as_signer s x)" "\<And>x. as_signer s x \<noteq> []" using assms(6) by blast+
  note served = accepted_narinfo_served[OF assms(1-5) sign assms(7,8)]
  obtain r2 s2 where r2: "get_narinfo_handler env (h @ ''.narinfo'') False s1 = (r2, s2)" by fastforce
  then have "r2 = narinfo_response (ni_url ?ni2) (to_narinfo_string ?ni2)" using served(1) by simp
  then show ?thesis using r2 served(2) republished_facts[where sign = "as_signer s" and h = h and ni = ni]
    by (intro exI[of _ r2] exI[of _ s2] exI[of _ ?ni2]) (simp add: narinfo_response_def)
qed

subsection \<open>What the text cache hides\<close>

lemma step_keeps_cache:
  assumes "\<forall>p. snd (snd r) \<noteq> GetNarinfo p False"
  shows "as_narinfo_cache (step env page r s) = as_narinfo_cache s"
proof -
  obtain now fresh q where r: "r = (now, fresh, q)" by (metis prod.exhaust)
  have ra: "as_narinfo_cache (record_access h s) = as_narinfo_cache s" for h s by simp
  show ?thesis
  proof (cases q)
    case (CreateToken hs body)
    then show ?thesis by (auto simp: step_def r create_token_def Let_def split: option.split sum.split prod.split if_splits)
  next
    case (PutNarinfo hs p body)
    then show ?thesis
      by (auto simp: step_def r put_narinfo_handler_def Let_def ra split: option.split sum.split prod.split bool.split if_splits)
  next
    case (StoreNar hs f body)
    then show ?thesis by (auto simp: step_def r put_nar_handler_def Let_def ra split: sum.split prod.split bool.split if_splits)
  next
    case (PutChunk hs x body)
    then show ?thesis by (auto simp: step_def r put_chunk_handler_def bindR_def split: sum.split option.split prod.split if_splits)
  next
    case (GetNarinfo p json_query)
    then have json_query using assms r by (cases json_query) simp_all
    then show ?thesis using GetNarinfo
      by (auto simp: step_def r get_narinfo_handler_def Let_def ra split: option.split if_splits)
  next
    case (FetchNar hs f)
    then show ?thesis
      by (auto simp: step_def r get_nar_handler_def get_nar_buffered_def Let_def ra split: option.split sum.split prod.split if_splits)
  next
    case (GetChunk x)
    then show ?thesis by (auto simp: step_def r bindR_def split: sum.split)
  qed (simp_all add: step_def r)
qed

text \<open>C30. A cached narinfo hides later uploads.  Once the text of a path was served, requests that upload the path anew (or
  an eviction of it) do not change what is answered: the old text, with the hash of the old archive, until
  enough lookups of other paths push it out.\<close>

theorem narinfo_cache_hides_uploads:
  assumes "is_valid_store_hash h" and "narinfo_cache_get h (as_narinfo_cache s) = Some old"
    and "\<forall>r \<in> set rs. \<forall>p. snd (snd r) \<noteq> GetNarinfo p False" and "s' = run_requests env page rs s"
  shows "fst (get_narinfo_handler env (h @ ''.narinfo'') False s') = narinfo_response (cached_link old) old"
proof -
  have "as_narinfo_cache s' = as_narinfo_cache s"
    using assms(3) unfolding assms(4) run_requests_def
    by (induction rs arbitrary: s) (simp_all add: step_keeps_cache)
  then show ?thesis unfolding get_narinfo_by_name[OF assms(1)] using assms(2) by simp
qed

subsection \<open>Downloads in parts\<close>

lemma digits_to_str: "list_all is_ascii_digit s \<Longrightarrow> to_str s = Some s"
  by (auto simp: to_str_def list_all_iff is_ascii_digit_def)

lemma to_str_append: "to_str s = Some s \<Longrightarrow> to_str t = Some t \<Longrightarrow> to_str (s @ t) = Some (s @ t)"
  by (auto simp: to_str_def split: if_splits)

lemma to_str_show_nat [simp]: "to_str (show_nat n) = Some (show_nat n)"
  using show_nat_digits digits_to_str by blast

lemma split_once_digits: "list_all is_ascii_digit s \<Longrightarrow> split_once (CHR ''-'') (s @ CHR ''-'' # t) = Some (s, t)"
proof -
  assume "list_all is_ascii_digit s"
  then have "\<forall>c \<in> set s. c \<noteq> CHR ''-''" by (auto simp: list_all_iff is_ascii_digit_def)
  then show ?thesis by (simp add: split_once_def first_segment_def takeWhile_append2 dropWhile_append2)
qed

lemma parse_range:
  assumes "first < 2 ^ 64" and "stop < 2 ^ 64"
  shows "parse_range_header (''bytes='' @ show_nat first @ ''-'' @ show_nat stop) len =
      (if first \<ge> len \<or> stop \<ge> len \<or> first > stop then None else Some (first, stop))"
    and "parse_range_header (''bytes='' @ show_nat first @ ''-'') len =
      (if first \<ge> len then None else Some (first, len - 1))"
proof -
  have d: "list_all is_ascii_digit (show_nat first)" "show_nat stop \<noteq> []" using show_nat_digits by blast+
  note s = split_once_digits[OF d(1)]
  show "parse_range_header (''bytes='' @ show_nat first @ ''-'' @ show_nat stop) len =
      (if first \<ge> len \<or> stop \<ge> len \<or> first > stop then None else Some (first, stop))"
    using s[of "show_nat stop"] d(2) parse_u64_show_nat[OF assms(1)] parse_u64_show_nat[OF assms(2)]
    by (simp add: parse_range_header_def strip_prefix_def)
  show "parse_range_header (''bytes='' @ show_nat first @ ''-'') len =
      (if first \<ge> len then None else Some (first, len - 1))"
    using s[of "[]"] parse_u64_show_nat[OF assms(1)] by (auto simp: parse_range_header_def strip_prefix_def)
qed

lemma range_response:
  assumes "is_valid_nar_filename f" and "has_nar (he_cas env) (''nar/'' @ f) (as_storage s)"
    and "get_nar (he_fuel env) (he_cas env) (''nar/'' @ f) (as_storage s) = Ok (Some content)"
    and "map_of hs ''range'' = Some v" and "to_str v = Some v" and "parse_range_header v (length content) = Some (first, stop)"
    and "r = fst (get_nar_handler env hs f s)"
  shows "rs_status r = 206" and "rs_body r = take (Suc stop - first) (drop first content)"
    and "map_of (rs_headers r) ''content-range'' =
      Some (''bytes '' @ show_nat first @ ''-'' @ show_nat stop @ ''/'' @ show_nat (length content))"
    and "map_of (rs_headers r) ''content-length'' = Some (show_nat (length (rs_body r)))"
  using assms by (simp_all add: get_nar_handler_def get_nar_buffered_def header_str_def Let_def)

text \<open>C24. An interrupted download can be resumed.  The first \<open>k\<close> bytes asked for as one range and the rest as another
  are both answered with status 206 and make up the archive; the headers name the range and its length.\<close>

theorem resumed_download:
  assumes "is_valid_nar_filename f" and "has_nar (he_cas env) (''nar/'' @ f) (as_storage s)"
    and "get_nar (he_fuel env) (he_cas env) (''nar/'' @ f) (as_storage s) = Ok (Some content)"
    and "0 < k" and "k < length content" and "length content < 2 ^ 64"
    and "r1 = fst (get_nar_handler env [(''range'', ''bytes='' @ show_nat 0 @ ''-'' @ show_nat (k - 1))] f s)"
    and "r2 = fst (get_nar_handler env [(''range'', ''bytes='' @ show_nat k @ ''-'')] f s)"
  shows "rs_status r1 = 206 \<and> rs_status r2 = 206 \<and> rs_body r1 @ rs_body r2 = content \<and>
    map_of (rs_headers r1) ''content-length'' = Some (show_nat k) \<and>
    map_of (rs_headers r2) ''content-range'' =
      Some (''bytes '' @ show_nat k @ ''-'' @ show_nat (length content - 1) @ ''/'' @ show_nat (length content))"
proof -
  have b: "to_str ''bytes='' = Some ''bytes=''" "to_str ''-'' = Some ''-''" by (simp_all add: to_str_def)
  have s1: "to_str (''bytes='' @ show_nat 0 @ ''-'' @ show_nat (k - 1)) = Some (''bytes='' @ show_nat 0 @ ''-'' @ show_nat (k - 1))"
    and s2: "to_str (''bytes='' @ show_nat k @ ''-'') = Some (''bytes='' @ show_nat k @ ''-'')"
    by (intro to_str_append b to_str_show_nat)+
  have p1: "parse_range_header (''bytes='' @ show_nat 0 @ ''-'' @ show_nat (k - 1)) (length content) = Some (0, k - 1)"
    using assms(4-6) by (subst parse_range(1)) auto
  have p2: "parse_range_header (''bytes='' @ show_nat k @ ''-'') (length content) = Some (k, length content - 1)"
    using assms(5,6) parse_range(2)[of k 0 "length content"] by simp
  have h: "map_of [(''range'', v)] ''range'' = Some v" for v :: string by simp
  note R1 = range_response[OF assms(1-3) h s1 p1 assms(7)] and R2 = range_response[OF assms(1-3) h s2 p2 assms(8)]
  have "rs_body r1 = take k content" "rs_body r2 = drop k content"
    using R1(2) R2(2) assms(4,5) by simp_all
  then show ?thesis using R1 R2 assms(5) by (simp add: min_def)
qed

subsection \<open>The life of a token\<close>

lemma check_auth_iff: "check_auth s hs = Ok () \<longleftrightarrow> (\<exists>t \<in> set (as_write_tokens s). bearer hs = Some t)"
  by (auto simp: check_auth_def split: option.split)

text \<open>A minted token is accepted at once and after a restart, as all tokens were before it; but revoking it takes
  effect with the next restart only: the running server goes on accepting it.\<close>

theorem revoked_token_still_accepted:
  assumes "(r, s1) = create_token env now fresh hs body s" and "rs_status r = 200" and "he_parse_mint env body = Some (Some name)"
    and "to_str fresh = Some fresh" and "\<forall>t \<in> set (as_token_store s). tk_token t \<noteq> fresh"
    and "s2 = cmd_token_revoke name s1"
  shows "bearer hs = as_admin_token s \<and> check_auth s1 [(''authorization'', ''Bearer '' @ fresh)] = Ok () \<and>
    fresh \<in> set (startup_tokens (as_token_store s1) auth) \<and>
    (\<forall>hs. check_auth s hs = Ok () \<longrightarrow> check_auth s1 hs = Ok ()) \<and>
    as_token_store s2 = as_token_store s \<and> check_auth s2 [(''authorization'', ''Bearer '' @ fresh)] = Ok () \<and>
    (fresh \<in> set (startup_tokens (as_token_store s2) auth) \<longleftrightarrow> (\<exists>config. auth = Some config \<and> fresh \<in> set config))"
proof -
  let ?t = "\<lparr>tk_name = name, tk_token = fresh, tk_permissions = \<lparr>pm_read = True, pm_write = True\<rparr>, tk_created_at = now\<rparr>"
  have "bearer hs = as_admin_token s \<and> \<not> list_ex (\<lambda>t. tk_name t = name) (as_token_store s) \<and>
      s1 = s\<lparr>as_token_store := as_token_store s @ [?t], as_write_tokens := as_write_tokens s @ [fresh]\<rparr>"
    using assms(1-3) by (auto simp: create_token_def token_create_def plain_def Let_def split: option.splits if_splits)
  then have admin: "bearer hs = as_admin_token s" and new: "\<forall>t \<in> set (as_token_store s). tk_name t \<noteq> name"
    and s1: "s1 = s\<lparr>as_token_store := as_token_store s @ [?t], as_write_tokens := as_write_tokens s @ [fresh]\<rparr>"
    by (auto simp: list_ex_iff)
  have "filter (\<lambda>t. tk_name t \<noteq> name) (as_token_store s) = as_token_store s" using new by simp
  then have s2: "s2 = s1\<lparr>as_token_store := as_token_store s\<rparr>"
    unfolding assms(6) by (simp add: cmd_token_revoke_def token_revoke_def s1 Let_def)
  have "to_str (''Bearer '' @ fresh) = Some (''Bearer '' @ fresh)"
    by (intro to_str_append assms(4)) (simp add: to_str_def)
  then have b: "bearer [(''authorization'', ''Bearer '' @ fresh)] = Some fresh"
    by (simp add: bearer_def header_str_def strip_prefix_def)
  show ?thesis
    using admin b assms(5) unfolding check_auth_iff s2 s1
    by (auto simp: startup_tokens_def token_write_tokens_def split: option.split)
qed

subsection \<open>Instances\<close>

definition sample_http :: http_env where
  "sample_http = \<lparr>he_cas = sample_env, he_fuel = 9, he_io = (\<lambda>_. True), he_json = (\<lambda>_. ''json''),
     he_parse_mint = (\<lambda>b. Some (Some b)), he_listing = (\<lambda>_ _. not_found_response), he_store_dir = ''/nix/store'', he_priority = 30,
     he_public_key = ''k:p'', he_key_name = ''k'', he_token_store_path = ''tokens.json''\<rparr>"

definition sample_auth :: headers where
  "sample_auth = [(''authorization'', ''Bearer secret'')]"

definition sample_h32 :: string where
  "sample_h32 = replicate 32 (CHR ''a'')"

definition sample_upload :: narinfo where
  "sample_upload = sample_narinfo\<lparr>ni_store_path := ''/nix/store/'' @ sample_h32 @ ''-hello'',
     ni_url := ''nar/'' @ sample_h32 @ ''.nar'', ni_nar_size := 12, ni_references := [''xyz-glibc'']\<rparr>"

lemma sample_h32_valid: "is_valid_store_hash sample_h32" "is_valid_nix_hash sample_h32"
  by (simp_all add: sample_h32_def is_valid_store_hash_def is_valid_nix_hash_def list_all_iff)

lemma sample_upload_clean: "narinfo_clean sample_upload"
  using sample_narinfo_clean
  by (auto simp: sample_upload_def narinfo_clean_def clean_def sample_h32_def sample_narinfo_def basename_def last_segment_def visible_def)

lemma sample_upload_parses: "parse_narinfo (to_narinfo_string sample_upload) = Some sample_upload"
  using narinfo_roundtrip_lemma[OF sample_upload_clean]
  by (simp add: sample_upload_def basename_def last_segment_def)

lemma sample_upload_utf8: "utf8_valid (to_narinfo_string sample_upload)"
proof -
  have "\<forall>c \<in> set (show_nat n). of_char c < (128::nat)" for n
    using show_nat_digits[of n] by (auto simp: list_all_iff is_ascii_digit_def)
  then have "\<forall>c \<in> set (to_narinfo_string sample_upload). of_char c < (128::nat)"
    by (simp add: to_narinfo_string_def line_def sample_upload_def sample_narinfo_def sample_h32_def basename_def last_segment_def ball_Un)
  then show ?thesis unfolding utf8_valid_def by (intro utf8_ok_ascii) simp
qed

lemma sample_h32_path: "store_path_hash (''/nix/store/'' @ sample_h32 @ ''-hello'') = Some sample_h32"
proof -
  have "last_segment (CHR ''/'') (''/nix/store'' @ CHR ''/'' # (sample_h32 @ ''-hello'')) = sample_h32 @ ''-hello''"
    by (rule last_segment_append) (simp add: sample_h32_def)
  moreover have "takeWhile (\<lambda>x. x \<noteq> CHR ''-'') (sample_h32 @ ''-hello'') = sample_h32 @ takeWhile (\<lambda>x. x \<noteq> CHR ''-'') ''-hello''"
    by (rule takeWhile_append2) (auto simp: sample_h32_def)
  ultimately show ?thesis by (simp add: store_path_hash_def first_segment_def)
qed

lemma sample_upload_accepted:
  assumes "as_write_tokens s = [''secret'']" and "db_paths (st_db (as_storage s)) = []" and "as_signer s = (\<lambda>_. ''k:s'')"
  shows "rs_status (fst (put_narinfo_handler sample_http 5 sample_auth (sample_h32 @ ''.narinfo'') (to_narinfo_string sample_upload) s)) = 200"
proof -
  have auth: "check_auth s sample_auth = Ok ()"
    by (simp add: check_auth_def assms(1) sample_auth_def bearer_def header_str_def to_str_def strip_prefix_def)
  have sph: "narinfo_store_path_hash sample_upload = Some sample_h32"
    using sample_h32_path by (simp add: narinfo_store_path_hash_def sample_upload_def)
  have "split_once_str ''..'' (w @ ''.nar'') = None" if "CHR ''.'' \<notin> set w" for w
    using that by (induction w) (auto simp: split_once_str.simps[of "''..''"])
  then have url: "is_valid_nar_url (ni_url sample_upload)"
    using sample_h32_valid(2)
    by (simp add: is_valid_nar_url_def is_valid_nar_filename_def strip_prefix_def strip_suffix_last sample_upload_def)
      (simp add: sample_h32_def)
  have sig: "add_signature (as_signer s) sample_upload = sample_upload"
    by (simp add: add_signature_def assms(3) sample_upload_def sample_narinfo_def Let_def)
  show ?thesis
    by (simp add: put_narinfo_handler_def auth sample_h32_valid sample_upload_utf8 sample_upload_parses sph url sig Let_def
        put_narinfo_def assms(2) plain_def)
qed

theorem unauthorised_requests_change_nothing_witness:
  "as_storage (run_requests sample_http [] [(5, ''t'', StoreNar [] ''abc.nar'' (write_nar sample_nar)),
     (6, ''t'', PutChunk [(''authorization'', ''Bearer guess'')] ''00'' ''data''), (7, ''t'', GetNarinfo ''abc.narinfo'' False)] sample_app) =
   as_storage sample_app"
proof -
  let ?rs = "[(5, ''t'', StoreNar [] ''abc.nar'' (write_nar sample_nar)),
     (6, ''t'', PutChunk [(''authorization'', ''Bearer guess'')] ''00'' ''data''), (7, ''t'', GetNarinfo ''abc.narinfo'' False)] :: (nat \<times> string \<times> request) list"
  have "\<forall>r \<in> set ?rs. \<forall>t \<in> set (as_write_tokens sample_app). \<not> carries (snd (snd r)) t"
    by (simp add: sample_app_def carries_def request_headers_def)
  moreover have "\<forall>r \<in> set ?rs. \<forall>t. as_admin_token sample_app = Some t \<longrightarrow> \<not> carries (snd (snd r)) t"
    by (simp add: sample_app_def)
  ultimately show ?thesis using unauthorised_requests_change_nothing[OF _ _ refl] by blast
qed

theorem revoked_token_still_accepted_witness:
  "check_auth (cmd_token_revoke ''ci'' (snd (create_token sample_http 5 ''ekap_x'' [(''authorization'', ''Bearer root'')] ''ci''
     (sample_app\<lparr>as_admin_token := Some ''root''\<rparr>)))) [(''authorization'', ''Bearer ekap_x'')] = Ok ()"
proof -
  let ?s = "sample_app\<lparr>as_admin_token := Some ''root''\<rparr>"
  let ?r = "create_token sample_http 5 ''ekap_x'' [(''authorization'', ''Bearer root'')] ''ci'' ?s"
  have "rs_status (fst ?r) = 200"
    by (simp add: create_token_def sample_http_def bearer_def header_str_def to_str_def strip_prefix_def token_create_def sample_app_def Let_def)
  moreover have "he_parse_mint sample_http ''ci'' = Some (Some ''ci'')" by (simp add: sample_http_def)
  moreover have "to_str ''ekap_x'' = Some ''ekap_x''" by (simp add: to_str_def)
  moreover have "\<forall>t \<in> set (as_token_store ?s). tk_token t \<noteq> ''ekap_x''" by (simp add: sample_app_def)
  ultimately show ?thesis using revoked_token_still_accepted[OF prod.collapse _ _ _ _ refl] by fastforce
qed

lemma sample_upload_storable: "storable sample_upload"
  by (simp add: storable_def sample_upload_def sample_narinfo_def basename_def last_segment_def)

definition sample_empty :: app_state where
  "sample_empty = sample_app\<lparr>as_storage := new_castore toy_sizes 3 0\<rparr>"

lemma sample_empty_simps:
  "as_write_tokens sample_empty = [''secret'']" "db_paths (st_db (as_storage sample_empty)) = []" "as_signer sample_empty = (\<lambda>_. ''k:s'')"
  "narinfo_cache_get h (as_narinfo_cache sample_empty) = None"
  by (simp_all add: sample_empty_def sample_app_def new_castore_def empty_db_def narinfo_cache_get_def narinfo_cache_new_def)

theorem uploaded_narinfo_is_served_witness:
  "\<exists>ni2. parse_narinfo (rs_body (fst (get_narinfo_handler sample_http (sample_h32 @ ''.narinfo'') False
     (snd (put_narinfo_handler sample_http 5 sample_auth (sample_h32 @ ''.narinfo'') (to_narinfo_string sample_upload) sample_empty))))) = Some ni2 \<and>
     ni_nar_hash ni2 = ''sha256:1''"
proof -
  note ok = sample_upload_accepted[OF sample_empty_simps(1-3)]
  have "\<forall>x. clean (as_signer sample_empty x) \<and> as_signer sample_empty x \<noteq> []" by (simp add: sample_empty_simps clean_def)
  from uploaded_narinfo_is_served[OF prod.collapse ok sample_upload_parses sample_upload_clean sample_upload_storable this
      sample_h32_valid(1) sample_empty_simps(4)]
  obtain r2 s2 ni2 where r: "get_narinfo_handler sample_http (sample_h32 @ ''.narinfo'') False
     (snd (put_narinfo_handler sample_http 5 sample_auth (sample_h32 @ ''.narinfo'') (to_narinfo_string sample_upload) sample_empty)) = (r2, s2)"
    "parse_narinfo (rs_body r2) = Some ni2" "ni2\<lparr>ni_signatures := []\<rparr> = (served_info sample_h32 sample_upload)\<lparr>ni_signatures := []\<rparr>"
    by blast
  have "ni_nar_hash ni2 = ni_nar_hash (ni2\<lparr>ni_signatures := []\<rparr>)" by simp
  also have "\<dots> = ''sha256:1''" unfolding r(3) by (simp add: served_info_def sample_upload_def sample_narinfo_def)
  finally show ?thesis using r(1,2) by simp
qed

theorem narinfo_cache_hides_uploads_witness:
  "let s = sample_empty\<lparr>as_narinfo_cache := narinfo_cache_insert sample_h32 ''old'' narinfo_cache_new\<rparr>;
       r = PutNarinfo sample_auth (sample_h32 @ ''.narinfo'') (to_narinfo_string sample_upload)
   in rs_status (fst (put_narinfo_handler sample_http 5 sample_auth (sample_h32 @ ''.narinfo'') (to_narinfo_string sample_upload) s)) = 200 \<and>
      rs_body (fst (get_narinfo_handler sample_http (sample_h32 @ ''.narinfo'') False (run_requests sample_http [] [(5, [], r)] s))) = ''old''"
proof -
  let ?s = "sample_empty\<lparr>as_narinfo_cache := narinfo_cache_insert sample_h32 ''old'' narinfo_cache_new\<rparr>"
  let ?r = "PutNarinfo sample_auth (sample_h32 @ ''.narinfo'') (to_narinfo_string sample_upload)"
  have "narinfo_cache_get sample_h32 (as_narinfo_cache ?s) = Some ''old''"
    by (simp add: narinfo_cache_get_def narinfo_cache_insert_def narinfo_cache_new_def NARINFO_CACHE_CAPACITY_def table_simps)
  from narinfo_cache_hides_uploads[where rs = "[(5, [], ?r)]" and env = sample_http and page = "[]", OF sample_h32_valid(1) this _ refl]
  have "rs_body (fst (get_narinfo_handler sample_http (sample_h32 @ ''.narinfo'') False (run_requests sample_http [] [(5, [], ?r)] ?s))) = ''old''"
    by (simp add: narinfo_response_def)
  moreover have "rs_status (fst (put_narinfo_handler sample_http 5 sample_auth (sample_h32 @ ''.narinfo'') (to_narinfo_string sample_upload) ?s)) = 200"
    by (rule sample_upload_accepted) (simp_all add: sample_empty_simps)
  ultimately show ?thesis unfolding Let_def by blast
qed

theorem resumed_download_witness:
  "let s = sample_app\<lparr>as_storage := run_store 9 sample_env toy_sizes (\<lambda>_. True) [sample_put] (new_castore toy_sizes 3 0)\<rparr>
   in rs_body (fst (get_nar_handler sample_http [(''range'', ''bytes=0-0'')] ''abc.nar'' s)) @
      rs_body (fst (get_nar_handler sample_http [(''range'', ''bytes=1-'')] ''abc.nar'' s)) = write_nar (sort_nar sample_nar)"
proof -
  let ?st = "run_store 9 sample_env toy_sizes (\<lambda>_. True) [sample_put] (new_castore toy_sizes 3 0)"
  let ?s = "sample_app\<lparr>as_storage := ?st\<rparr>"
  have name: "is_valid_nar_filename ''abc.nar''" by code_simp
  have get: "get_nar (he_fuel sample_http) (he_cas sample_http) (''nar/'' @ ''abc.nar'') (as_storage ?s) = Ok (Some (write_nar (sort_nar sample_nar)))"
    using sample_serves by (simp add: sample_http_def)
  have paths: "map_of (db_paths (st_db ?st)) ''abc'' \<noteq> None"
  proof
    assume "map_of (db_paths (st_db ?st)) ''abc'' = None"
    then show False using sample_serves[of toy_sizes] by (simp add: get_nar_def get_root_node_def)
  qed
  have inj: "inj_on (blake3 sample_env) (history_blobs sample_env [sample_put])"
    unfolding sample_history(1) by (rule sample_nar_inj)
  have has: "has_nar (he_cas sample_http) (''nar/'' @ ''abc.nar'') (as_storage ?s)"
  proof -
    have "\<not> st_bloom_ready ?st"
      by (simp add: run_store_def sample_put_def exec_op_ready[OF sample_env_ok] is_warmup_def new_castore_def)
    then have "path_bloom_maybe_contains sample_env ?st ''abc''" by (simp add: path_bloom_maybe_contains_def)
    moreover have "first_segment (CHR ''.'') (last_segment (CHR ''/'') (''nar/'' @ ''abc.nar'')) = ''abc''" by code_simp
    ultimately show ?thesis using paths by (simp add: has_nar_def has_narinfo_def sample_http_def)
  qed
  have len: "1 < length (write_nar (sort_nar sample_nar))" "length (write_nar (sort_nar sample_nar)) < 2 ^ 64"
    by (simp_all add: sample_nar_def sort_entries_def write_nar_def write_str_def length_write_bytes pad_len_def)
  have d: "show_nat 0 = ''0''" "show_nat (Suc 0) = ''1''" by code_simp+
  show ?thesis
    using resumed_download[OF name has get _ len refl refl] by (simp add: d Let_def)
qed

end
