(* ===== verification/Push.thy ===== *)
theory Push
  imports HttpProps
begin

text \<open>
  The client's push, \<open>push_single_path\<close> and \<open>try_cas_push\<close> of \<open>crates/ekapkgs/src/commands/cache.rs\<close>, run
  against the server of \<open>HttpApi\<close>.  What \<open>nix path-info\<close> and \<open>nix-store --dump\<close> answer and which requests
  the network loses are parameters.  A store path's hash is taken to need no quoting in a URL.
\<close>

subsection \<open>Requests over a network\<close>

datatype delivery = Delivered | RequestLost | ResponseLost

text \<open>Characters a header value may have; a request with another value is refused by the client library.\<close>

definition header_value_ok :: "string \<Rightarrow> bool" where
  "header_value_ok v = list_all (\<lambda>c. let n = of_char c :: nat in (32 \<le> n \<and> n \<noteq> 127) \<or> n = 9) v"

text \<open>The body limits of the routes.\<close>

definition NARINFO_BODY_LIMIT :: nat where "NARINFO_BODY_LIMIT = 1024 * 1024"
definition NAR_BODY_LIMIT :: nat where "NAR_BODY_LIMIT = 8 * 1024 * 1024 * 1024"
definition CHUNK_BODY_LIMIT :: nat where "CHUNK_BODY_LIMIT = 16 * 1024 * 1024"

definition within_body_limit :: "request \<Rightarrow> bool" where
  "within_body_limit r =
     (case r of PutNarinfo _ _ b \<Rightarrow> length b \<le> NARINFO_BODY_LIMIT | StoreNar _ _ b \<Rightarrow> length b \<le> NAR_BODY_LIMIT
      | PutChunk _ _ b \<Rightarrow> length b \<le> CHUNK_BODY_LIMIT | _ \<Rightarrow> True)"

definition send_request ::
  "http_env \<Rightarrow> nat \<Rightarrow> (request \<Rightarrow> delivery) \<Rightarrow> request \<Rightarrow> app_state \<Rightarrow> response option \<times> app_state" where
  "send_request env now net r s =
     (if \<not> list_all (\<lambda>h. header_value_ok (snd h)) (request_headers r) \<or> net r = RequestLost then (None, s)
      else case (if within_body_limit r then handle env [] now [] r s else Ok (plain 413 ''length limit exceeded'', s)) of
             Inl _ \<Rightarrow> (None, s)
           | Inr (resp, s') \<Rightarrow> (if net r = ResponseLost then None else Some resp, s'))"

definition is_success :: "response \<Rightarrow> bool" where
  "is_success r \<longleftrightarrow> 200 \<le> rs_status r \<and> rs_status r < 300"

subsection \<open>Pushing one path\<close>

record path_info =
  pi_nar_hash :: string
  pi_nar_size :: nat
  pi_references :: "string list"
  pi_signatures :: "string list"
  pi_ca :: "string option"

text \<open>The local store: \<open>nix path-info --json\<close> as the entries of its answer in the order the hash map yields them (\<open>None\<close> when the
  command fails or its output does not parse), \<open>nix-store --dump\<close>, and whether the gRPC service can be reached.\<close>

record push_env =
  pe_path_info :: "string \<Rightarrow> (string \<times> path_info) list option"
  pe_dump :: "string \<Rightarrow> bytes option"
  pe_grpc :: bool

datatype push_result =
    Uploaded (nar_size: nat) (upload_size: nat)
  | AlreadyExists

datatype push_error =
    InvalidStorePath string
  | SendFailed
  | PathInfoFailed
  | NoPathInfo string
  | DumpFailed string
  | NarRejected nat bytes
  | NarinfoRejected nat bytes
  | NarUnreadable nar_error

definition auth_headers :: "string option \<Rightarrow> headers" where
  "auth_headers token = (case token of None \<Rightarrow> [] | Some t \<Rightarrow> [(''authorization'', ''Bearer '' @ t)])"

definition push_narinfo :: "string \<Rightarrow> string \<Rightarrow> path_info \<Rightarrow> nat \<Rightarrow> string" where
  "push_narinfo path h info dump_size =
     line ''StorePath'' path @ line ''URL'' (''nar/'' @ h @ ''.nar'') @ line ''Compression'' ''none'' @
     line ''FileHash'' (pi_nar_hash info) @ line ''FileSize'' (show_nat dump_size) @
     line ''NarHash'' (pi_nar_hash info) @ line ''NarSize'' (show_nat (pi_nar_size info)) @
     (if pi_references info \<noteq> [] then line ''References'' (join '' '' (map basename (pi_references info))) else []) @
     concat (map (line ''Sig'') (pi_signatures info)) @
     (case pi_ca info of None \<Rightarrow> [] | Some c \<Rightarrow> line ''CA'' c)"

text \<open>One round of the loop over the chunks the server lacks; chunks with a malformed or unknown digest are skipped.\<close>

fun upload_missing ::
  "http_env \<Rightarrow> nat \<Rightarrow> (request \<Rightarrow> delivery) \<Rightarrow> headers \<Rightarrow> (digest \<rightharpoonup> bytes) \<Rightarrow> digest list \<Rightarrow> app_state
   \<Rightarrow> (push_error + bool) \<times> app_state" where
  "upload_missing env now net hs chunk_map [] s = (Ok True, s)"
| "upload_missing env now net hs chunk_map (d # ds) s =
     (case Option.bind (try_digest d) chunk_map of
        None \<Rightarrow> upload_missing env now net hs chunk_map ds s
      | Some c \<Rightarrow>
         (case send_request env now net (PutChunk hs (hex_encode d) c) s of
            (None, s) \<Rightarrow> (Err SendFailed, s)
          | (Some resp, s) \<Rightarrow> if is_success resp then upload_missing env now net hs chunk_map ds s else (Ok False, s)))"

definition try_cas_push ::
  "http_env \<Rightarrow> push_env \<Rightarrow> nat \<Rightarrow> (request \<Rightarrow> delivery) \<Rightarrow> string option \<Rightarrow> string \<Rightarrow> bytes \<Rightarrow> string \<Rightarrow> app_state
   \<Rightarrow> (push_error + bool) \<times> app_state" where
  "try_cas_push env pe now net token h nar_data info_text s =
     (case parse_nar nar_data of
        Inl e \<Rightarrow> (Err (NarUnreadable e), s)
      | Inr n \<Rightarrow>
         (let result = decompose_nar (he_cas env) n in
          if \<not> pe_grpc pe then (Ok False, s)
          else case push_negotiate h (dr_file_chunk_mappings result) (he_cas env) (Some (as_storage s)) of
                 Inl _ \<Rightarrow> (Ok False, s)
               | Inr (missing, already_exists) \<Rightarrow>
                  (if already_exists then (Ok True, s)
                   else case upload_missing env now net (auth_headers token) (map_of (rev (dr_chunks result))) missing s of
                          (Inl e, s) \<Rightarrow> (Err e, s)
                        | (Inr False, s) \<Rightarrow> (Ok False, s)
                        | (Inr True, s) \<Rightarrow>
                           (case send_request env now net (StoreNar (auth_headers token) (h @ ''.nar'') nar_data) s of
                              (None, s) \<Rightarrow> (Err SendFailed, s)
                            | (Some resp, s) \<Rightarrow>
                               if \<not> is_success resp then (Ok False, s)
                               else (case send_request env now net (PutNarinfo (auth_headers token) (h @ ''.narinfo'') info_text) s of
                                       (None, s) \<Rightarrow> (Err SendFailed, s)
                                     | (Some resp, s) \<Rightarrow> (Ok (is_success resp), s))))))"

definition full_push ::
  "http_env \<Rightarrow> nat \<Rightarrow> (request \<Rightarrow> delivery) \<Rightarrow> string option \<Rightarrow> string \<Rightarrow> path_info \<Rightarrow> bytes \<Rightarrow> string \<Rightarrow> app_state
   \<Rightarrow> (push_error + push_result) \<times> app_state" where
  "full_push env now net token h info nar_data info_text s =
     (case send_request env now net (StoreNar (auth_headers token) (h @ ''.nar'') nar_data) s of
        (None, s) \<Rightarrow> (Err SendFailed, s)
      | (Some resp, s) \<Rightarrow>
         if \<not> is_success resp then (Err (NarRejected (rs_status resp) (rs_body resp)), s)
         else (case send_request env now net (PutNarinfo (auth_headers token) (h @ ''.narinfo'') info_text) s of
                 (None, s) \<Rightarrow> (Err SendFailed, s)
               | (Some resp, s) \<Rightarrow>
                  if \<not> is_success resp then (Err (NarinfoRejected (rs_status resp) (rs_body resp)), s)
                  else (Ok (Uploaded (pi_nar_size info) (length nar_data)), s)))"

definition push_single_path ::
  "http_env \<Rightarrow> push_env \<Rightarrow> nat \<Rightarrow> (request \<Rightarrow> delivery) \<Rightarrow> string option \<Rightarrow> string \<Rightarrow> app_state
   \<Rightarrow> (push_error + push_result) \<times> app_state" where
  "push_single_path env pe now net token store_path s =
     (case store_path_hash store_path of
        None \<Rightarrow> (Err (InvalidStorePath store_path), s)
      | Some h \<Rightarrow>
         (case send_request env now net (GetNarinfo (h @ ''.narinfo'') False) s of
            (None, s) \<Rightarrow> (Err SendFailed, s)
          | (Some resp, s) \<Rightarrow>
             if is_success resp then (Ok AlreadyExists, s)
             else (case pe_path_info pe store_path of
                     None \<Rightarrow> (Err PathInfoFailed, s)
                   | Some [] \<Rightarrow> (Err (NoPathInfo store_path), s)
                   | Some ((path, info) # _) \<Rightarrow>
                      (case pe_dump pe store_path of
                         None \<Rightarrow> (Err (DumpFailed store_path), s)
                       | Some nar_data \<Rightarrow>
                          (let info_text = push_narinfo path h info (length nar_data) in
                           case try_cas_push env pe now net token h nar_data info_text s of
                             (Inr True, s) \<Rightarrow> (Ok (Uploaded (pi_nar_size info) (length nar_data)), s)
                           | (_, s) \<Rightarrow> full_push env now net token h info nar_data info_text s)))))"

text \<open>The counts \<open>cmd_push\<close> reports over its paths: uploaded, skipped, failed, and the bytes of the uploads.\<close>

fun push_paths ::
  "http_env \<Rightarrow> push_env \<Rightarrow> nat \<Rightarrow> (request \<Rightarrow> delivery) \<Rightarrow> string option \<Rightarrow> string list \<Rightarrow> app_state
   \<Rightarrow> (push_error + push_result) list \<times> app_state" where
  "push_paths env pe now net token [] s = ([], s)"
| "push_paths env pe now net token (p # ps) s =
     (let (r, s) = push_single_path env pe now net token p s; (rs, s) = push_paths env pe now net token ps s in (r # rs, s))"

record push_summary =
  ps_success :: nat
  ps_skipped :: nat
  ps_failed :: nat
  ps_total_nar :: nat
  ps_total_uploaded :: nat

definition count_push :: "push_error + push_result \<Rightarrow> push_summary \<Rightarrow> push_summary" where
  "count_push r c =
     (case r of
        Inr (Uploaded nsize usize) \<Rightarrow> c\<lparr>ps_success := ps_success c + 1, ps_total_nar := ps_total_nar c + nsize,
          ps_total_uploaded := ps_total_uploaded c + usize\<rparr>
      | Inr AlreadyExists \<Rightarrow> c\<lparr>ps_skipped := ps_skipped c + 1\<rparr>
      | Inl _ \<Rightarrow> c\<lparr>ps_failed := ps_failed c + 1\<rparr>)"

definition cmd_push ::
  "http_env \<Rightarrow> push_env \<Rightarrow> nat \<Rightarrow> (request \<Rightarrow> delivery) \<Rightarrow> string option \<Rightarrow> string list \<Rightarrow> app_state
   \<Rightarrow> push_summary \<times> app_state" where
  "cmd_push env pe now net token ps s =
     (case push_paths env pe now net token ps s of
        (rs, s) \<Rightarrow> (fold count_push rs \<lparr>ps_success = 0, ps_skipped = 0, ps_failed = 0, ps_total_nar = 0, ps_total_uploaded = 0\<rparr>, s))"

subsection \<open>Single requests\<close>

definition shell_eq :: "app_state \<Rightarrow> app_state \<Rightarrow> bool" where
  "shell_eq s s' \<longleftrightarrow> as_write_tokens s' = as_write_tokens s \<and> as_signer s' = as_signer s \<and> as_narinfo_cache s' = as_narinfo_cache s"

lemma shell_eq_simps [simp]:
  "shell_eq s s" "shell_eq s (s\<lparr>as_storage := st\<rparr>)" "shell_eq s (record_access h (s\<lparr>as_storage := st\<rparr>))"
  by (simp_all add: shell_eq_def)

lemma shell_eq_trans: "shell_eq s s' \<Longrightarrow> shell_eq s' s'' \<Longrightarrow> shell_eq s s''"
  by (simp add: shell_eq_def)

text \<open>A client whose token the server accepts, and the archives the server holds.\<close>

definition push_ready :: "http_env \<Rightarrow> bytes set \<Rightarrow> string option \<Rightarrow> app_state \<Rightarrow> content \<Rightarrow> bool" where
  "push_ready env U token s m \<longleftrightarrow> holds (he_cas env) U (as_storage s) m \<and>
     (\<exists>t \<in> set (as_write_tokens s). token = Some t \<and> to_str t = Some t)"

lemma ready_auth: "push_ready env U token s m \<Longrightarrow> check_auth s (auth_headers token) = Ok ()"
  by (auto simp: push_ready_def check_auth_iff auth_headers_def bearer_def header_str_def to_str_append to_str_def strip_prefix_def
      split: if_splits)

lemma to_str_header_ok: "to_str v = Some v \<Longrightarrow> header_value_ok v"
  by (auto simp: to_str_def header_value_ok_def list_all_iff Let_def split: if_splits)

lemma ready_headers: "push_ready env U token s m \<Longrightarrow> list_all (\<lambda>h. header_value_ok (snd h)) (auth_headers token)"
  by (auto simp: push_ready_def auth_headers_def header_value_ok_def dest!: to_str_header_ok)

lemma ready_next: "push_ready env U token s m \<Longrightarrow> holds (he_cas env) U (as_storage s') m' \<Longrightarrow> shell_eq s s' \<Longrightarrow>
    push_ready env U token s' m'"
  by (simp add: push_ready_def shell_eq_def)

lemma send_delivered:
  assumes "list_all (\<lambda>h. header_value_ok (snd h)) (request_headers r)" and "net r = Delivered" and "within_body_limit r"
    and "handle env [] now [] r s = Ok (resp, s')"
  shows "send_request env now net r s = (Some resp, s')"
  using assms by (simp add: send_request_def)

lemma send_lost: "net r = RequestLost \<Longrightarrow> send_request env now net r s = (None, s)"
  by (simp add: send_request_def)

lemma head_unknown:
  assumes "is_valid_store_hash h" and "narinfo_cache_get h (as_narinfo_cache s) = None" and "get_narinfo h (as_storage s) = None"
    and "net (GetNarinfo (h @ ''.narinfo'') False) = Delivered"
  shows "send_request env now net (GetNarinfo (h @ ''.narinfo'') False) s = (Some not_found_response, s)"
proof (rule send_delivered)
  have "get_narinfo_handler env (h @ ''.narinfo'') False s = (not_found_response, s)"
    unfolding get_narinfo_by_name[OF assms(1)] by (simp add: assms(2,3))
  then show "handle env [] now [] (GetNarinfo (h @ ''.narinfo'') False) s = Ok (not_found_response, s)" by simp
qed (simp_all add: assms(4) request_headers_def within_body_limit_def)

lemma is_success_simps [simp]: "\<not> is_success not_found_response" "is_success (plain 200 b)" "is_success (narinfo_response u b)"
  by (simp_all add: is_success_def not_found_response_def plain_def narinfo_response_def)

subsection \<open>Uploading chunks\<close>

lemma send_chunk:
  assumes env: "cas_env_ok (he_cas env)" and inj: "inj_on (blake3 (he_cas env)) U" and io: "\<And>p. he_io env p"
    and ready: "push_ready env U token s m" and c: "c \<in> U" "length c \<le> CHUNK_MAX" "blake3 (he_cas env) c = d" "length d = 32"
    and net: "net (PutChunk (auth_headers token) (hex_encode d) c) = Delivered"
  shows "\<exists>s'. send_request env now net (PutChunk (auth_headers token) (hex_encode d) c) s = (Some (plain 200 ''ok''), s') \<and>
    push_ready env U token s' m \<and> shell_eq s s'"
proof -
  have h: "holds (he_cas env) U (as_storage s) m" using ready by (simp add: push_ready_def)
  have inv: "castore_inv (he_cas env) U (as_storage s)" "no_orphans (as_storage s)" using h unfolding holds_def by blast+
  have c2: "length c \<le> CHUNK_MAX * 2" using c(2) by simp
  obtain st where 1: "store_chunk (he_cas env) (he_io env) c (as_storage s) = (Ok (blake3 (he_cas env) c), st)"
    using store_chunk_steps[where io = "he_io env", OF env inj inv c(1) c2 io] by blast
  have st: "holds (he_cas env) U st m"
    using holds_store_chunk[where io = "he_io env", OF env inj io h c(1) c2] unfolding 1 by simp
  let ?s = "s\<lparr>as_storage := st\<rparr>"
  have "put_chunk_handler env (auth_headers token) (hex_encode d) c s = Ok (plain 200 ''ok'', ?s)"
    by (simp add: put_chunk_handler_def ready_auth[OF ready] hex_decode_encode[OF c(4)] bindR_def c(3) store_chunk_external_def 1[unfolded c(3)])
  then have "send_request env now net (PutChunk (auth_headers token) (hex_encode d) c) s = (Some (plain 200 ''ok''), ?s)"
    using c(2) by (intro send_delivered net)
      (simp_all add: request_headers_def ready_headers[OF ready] within_body_limit_def CHUNK_BODY_LIMIT_def CHUNK_MAX_def)
  moreover have "push_ready env U token ?s m" by (rule ready_next[OF ready]) (simp_all add: st)
  ultimately show ?thesis by (intro exI[of _ ?s]) simp
qed

lemma upload_missing_ok:
  assumes env: "cas_env_ok (he_cas env)" and inj: "inj_on (blake3 (he_cas env)) U" and io: "\<And>p. he_io env p"
    and net: "\<And>hs x c. net (PutChunk hs x c) = Delivered"
    and chunks: "\<And>d c. chunk_map d = Some c \<Longrightarrow> c \<in> U \<and> length c \<le> CHUNK_MAX \<and> blake3 (he_cas env) c = d"
  shows "push_ready env U token s m \<Longrightarrow>
    \<exists>s'. upload_missing env now net (auth_headers token) chunk_map ds s = (Ok True, s') \<and> push_ready env U token s' m \<and> shell_eq s s'"
proof (induction ds arbitrary: s)
  case (Cons d ds)
  show ?case
  proof (cases "Option.bind (try_digest d) chunk_map")
    case None
    then show ?thesis using Cons by simp
  next
    case (Some c)
    then have d: "length d = 32" "chunk_map d = Some c" by (auto simp: try_digest_def bind_eq_Some_conv split: if_splits)
    note c = chunks[OF d(2)]
    obtain s1 where 1: "send_request env now net (PutChunk (auth_headers token) (hex_encode d) c) s = (Some (plain 200 ''ok''), s1)"
        "push_ready env U token s1 m" "shell_eq s s1"
      using send_chunk[OF env inj io Cons.prems] c d(1) net by blast
    obtain s2 where "upload_missing env now net (auth_headers token) chunk_map ds s1 = (Ok True, s2)"
        "push_ready env U token s2 m" "shell_eq s1 s2" using Cons.IH[OF 1(2)] by blast
    then show ?thesis using 1 Some shell_eq_trans by fastforce
  qed
qed simp

subsection \<open>Uploading an archive and its narinfo\<close>

lemma valid_store_nix_hash: "is_valid_store_hash h \<Longrightarrow> is_valid_nix_hash h"
proof -
  assume h: "is_valid_store_hash h"
  have "list_all (\<lambda>c. (97 \<le> (of_char c :: nat) \<and> (of_char c :: nat) \<le> 122) \<or> is_ascii_digit c) ''0123456789abcdfghijklmnpqrsvwxyz''"
    by code_simp
  moreover have "h \<noteq> []" "set h \<subseteq> set ''0123456789abcdfghijklmnpqrsvwxyz''"
    using h by (auto simp: is_valid_store_hash_def list_all_iff simp del: set_simps)
  ultimately show ?thesis unfolding is_valid_nix_hash_def list_all_iff by blast
qed

lemma nix_hash_chars: "is_valid_nix_hash h \<Longrightarrow> CHR ''.'' \<notin> set h \<and> CHR ''/'' \<notin> set h \<and> CHR 0x5C \<notin> set h"
  by (auto simp: is_valid_nix_hash_def list_all_iff is_ascii_digit_def)

lemma no_dots: "CHR ''.'' \<notin> set w \<Longrightarrow> split_once_str ''..'' (w @ ''.nar'') = None"
  by (induction w) (auto simp: split_once_str.simps[of "''..''"])

lemma valid_nar_name: "is_valid_nix_hash h \<Longrightarrow> is_valid_nar_filename (h @ ''.nar'')"
  using nix_hash_chars[of h] no_dots[of h] by (simp add: is_valid_nar_filename_def strip_suffix_last)

lemma send_nar:
  assumes env: "cas_env_ok (he_cas env)" and inj: "inj_on (blake3 (he_cas env)) U" and io: "\<And>p. he_io env p"
    and ready: "push_ready env U token s m" and h: "is_valid_nix_hash h"
    and n: "parse_nar nar_data = Ok n" "blobs_of (he_cas env) n \<subseteq> U" "nar_fuel n \<le> he_fuel env" "length nar_data \<le> NAR_BODY_LIMIT"
    and net: "net (StoreNar (auth_headers token) (h @ ''.nar'') nar_data) = Delivered"
  shows "\<exists>s'. send_request env now net (StoreNar (auth_headers token) (h @ ''.nar'') nar_data) s = (Some (plain 200 ''ok''), s') \<and>
    push_ready env U token s' (m(h \<mapsto> Some n)) \<and> shell_eq s s'"
proof -
  have dots: "CHR ''.'' \<notin> set h" "CHR ''/'' \<notin> set h" using nix_hash_chars[OF h] by simp_all
  have url: "hash_of_file_path (''nar/'' @ h @ ''.nar'') = h" using hash_of_nar_url dots by simp
  have holds: "holds (he_cas env) U (as_storage s) m" using ready by (simp add: push_ready_def)
  obtain st where put: "put_nar (he_fuel env) (he_cas env) (he_io env) now (''nar/'' @ h @ ''.nar'') nar_data (as_storage s) = (Ok True, st)"
    and st: "holds (he_cas env) U st (m(h \<mapsto> Some n))"
    using holds_put_nar[where io = "he_io env" and p = "''nar/'' @ h @ ''.nar''", OF env inj io holds n(1-3)] unfolding url by blast
  let ?s = "record_access (first_segment (CHR ''.'') (h @ ''.nar'')) (s\<lparr>as_storage := st\<rparr>)"
  have "put_nar_handler env now (auth_headers token) (h @ ''.nar'') nar_data s = (plain 200 ''ok'', ?s)"
    using put by (simp add: put_nar_handler_def ready_auth[OF ready] valid_nar_name[OF h])
  then have "send_request env now net (StoreNar (auth_headers token) (h @ ''.nar'') nar_data) s = (Some (plain 200 ''ok''), ?s)"
    using n(4) by (intro send_delivered net) (simp_all add: request_headers_def ready_headers[OF ready] within_body_limit_def)
  moreover have "push_ready env U token ?s (m(h \<mapsto> Some n))" by (rule ready_next[OF ready]) (simp_all add: st)
  ultimately show ?thesis by (intro exI[of _ ?s]) simp
qed

lemma send_narinfo:
  assumes env: "cas_env_ok (he_cas env)" and ready: "push_ready env U token s m" and h: "is_valid_nix_hash h" and m: "m h \<noteq> None"
    and info: "parse_narinfo info_text = Some ni" "utf8_valid info_text" "length info_text \<le> NARINFO_BODY_LIMIT" "narinfo_clean ni"
      "narinfo_store_path_hash ni = Some h" "ni_url ni = ''nar/'' @ h @ ''.nar''"
    and sign: "\<And>x. clean (as_signer s x)"
    and net: "net (PutNarinfo (auth_headers token) (h @ ''.narinfo'') info_text) = Delivered"
  shows "\<exists>s'. send_request env now net (PutNarinfo (auth_headers token) (h @ ''.narinfo'') info_text) s = (Some (plain 200 ''ok''), s') \<and>
    (plain 200 ''ok'', s') = put_narinfo_handler env now (auth_headers token) (h @ ''.narinfo'') info_text s \<and>
    push_ready env U token s' m \<and> shell_eq s s'"
proof -
  let ?txt = "to_narinfo_string (add_signature (as_signer s) ni)"
  have holds: "holds (he_cas env) U (as_storage s) m" using ready by (simp add: push_ready_def)
  have parse: "parse_narinfo ?txt \<noteq> None"
    using narinfo_roundtrip_lemma[OF clean_add_signature[OF info(4) sign]] by simp
  obtain root where root: "get_root_node (he_cas env) h (as_storage s) = Ok (Some root)" "map_of (db_paths (st_db (as_storage s))) h \<noteq> None"
    using holds_root[OF env holds, of h] m holds unfolding holds_def by (auto split: option.splits)
  obtain st where put: "put_narinfo (he_cas env) now h ?txt (as_storage s) = (Ok True, st)"
    using parse root by (cases "parse_narinfo ?txt") (auto simp: put_narinfo_def)
  have st: "holds (he_cas env) U st m"
    using holds_put_narinfo[OF env holds, of now h ?txt] m unfolding put by (simp add: spec_put_narinfo_def)
  let ?s = "record_access h (s\<lparr>as_storage := st\<rparr>)"
  have url: "is_valid_nar_url (''nar/'' @ h @ ''.nar'')" using valid_nar_name[OF h] by (simp add: is_valid_nar_url_def strip_prefix_def)
  have run: "put_narinfo_handler env now (auth_headers token) (h @ ''.narinfo'') info_text s = (plain 200 ''ok'', ?s)"
    using put info(1,2,5,6) url by (simp add: put_narinfo_handler_def ready_auth[OF ready] h Let_def)
  then have "send_request env now net (PutNarinfo (auth_headers token) (h @ ''.narinfo'') info_text) s = (Some (plain 200 ''ok''), ?s)"
    using info(3) by (intro send_delivered net) (simp_all add: request_headers_def ready_headers[OF ready] within_body_limit_def)
  moreover have "push_ready env U token ?s m" by (rule ready_next[OF ready]) (simp_all add: st)
  ultimately show ?thesis using run by (intro exI[of _ ?s]) simp
qed

text \<open>The metadata in the text a client pushes.\<close>

definition pushed_info :: "string \<Rightarrow> string \<Rightarrow> path_info \<Rightarrow> nat \<Rightarrow> narinfo" where
  "pushed_info path h info dump_size =
     \<lparr>ni_store_path = path, ni_url = ''nar/'' @ h @ ''.nar'', ni_compression = ''none'', ni_file_hash = pi_nar_hash info,
      ni_file_size = dump_size, ni_nar_hash = pi_nar_hash info, ni_nar_size = pi_nar_size info,
      ni_references = map basename (pi_references info), ni_deriver = None, ni_signatures = pi_signatures info, ni_ca = pi_ca info\<rparr>"

lemma push_narinfo_text:
  "pi_nar_hash info \<noteq> [] \<Longrightarrow> 0 < n \<Longrightarrow> push_narinfo path h info n = to_narinfo_string (pushed_info path h info n)"
  by (simp add: push_narinfo_def to_narinfo_string_def pushed_info_def o_def basename_basename)

lemma push_narinfo_parses:
  assumes "narinfo_clean (pushed_info path h info n)" and "pi_nar_hash info \<noteq> []" and "0 < n"
  shows "parse_narinfo (push_narinfo path h info n) = Some (pushed_info path h info n)"
  using narinfo_roundtrip_lemma[OF assms(1)] push_narinfo_text[OF assms(2,3)]
  by (simp add: pushed_info_def o_def basename_basename)

text \<open>What a push needs: an archive the server can take in and metadata it accepts for the hash \<open>h\<close>.\<close>

definition pushable :: "http_env \<Rightarrow> bytes set \<Rightarrow> string \<Rightarrow> string \<Rightarrow> path_info \<Rightarrow> bytes \<Rightarrow> nar_node \<Rightarrow> bool" where
  "pushable env U h path info nar_data n \<longleftrightarrow>
     parse_nar nar_data = Ok n \<and> blobs_of (he_cas env) n \<subseteq> U \<and> nar_fuel n \<le> he_fuel env \<and> length nar_data \<le> NAR_BODY_LIMIT \<and>
     is_valid_store_hash h \<and> store_path_hash path = Some h \<and> pi_nar_hash info \<noteq> [] \<and>
     narinfo_clean (pushed_info path h info (length nar_data)) \<and> storable (pushed_info path h info (length nar_data)) \<and>
     utf8_valid (push_narinfo path h info (length nar_data)) \<and> length (push_narinfo path h info (length nar_data)) \<le> NARINFO_BODY_LIMIT"

text \<open>A server that can take uploads: intact archives, a working disk and an authentic signer.\<close>

definition server_ok :: "http_env \<Rightarrow> bytes set \<Rightarrow> bool" where
  "server_ok env U \<longleftrightarrow> cas_env_ok (he_cas env) \<and> inj_on (blake3 (he_cas env)) U \<and> (\<forall>p. he_io env p)"

definition signs_cleanly :: "app_state \<Rightarrow> bool" where
  "signs_cleanly s \<longleftrightarrow> (\<forall>x. clean (as_signer s x) \<and> as_signer s x \<noteq> [])"

lemma server_okD: "server_ok env U \<Longrightarrow> cas_env_ok (he_cas env)" "server_ok env U \<Longrightarrow> inj_on (blake3 (he_cas env)) U"
  "server_ok env U \<Longrightarrow> he_io env p"
  by (simp_all add: server_ok_def)

lemma parse_nar_nonempty: "parse_nar d = Ok n \<Longrightarrow> 0 < length d"
  by (auto simp: parse_nar_def bindR_eq_Ok new_reader_def advances_def dest!: expect_str_advances)

lemma pushable_text:
  assumes "pushable env U h path info d n"
  shows "parse_narinfo (push_narinfo path h info (length d)) = Some (pushed_info path h info (length d))"
  by (rule push_narinfo_parses) (use assms parse_nar_nonempty in \<open>auto simp: pushable_def\<close>)

lemma upload_both:
  assumes ok: "server_ok env U" and ready: "push_ready env U token s m" and p: "pushable env U h path info d n"
    and sign: "signs_cleanly s" and net: "\<And>r. net r = Delivered"
  shows "\<exists>s1 s2. send_request env now net (StoreNar (auth_headers token) (h @ ''.nar'') d) s = (Some (plain 200 ''ok''), s1) \<and>
    send_request env now net (PutNarinfo (auth_headers token) (h @ ''.narinfo'') (push_narinfo path h info (length d))) s1 =
      (Some (plain 200 ''ok''), s2) \<and>
    (plain 200 ''ok'', s2) =
      put_narinfo_handler env now (auth_headers token) (h @ ''.narinfo'') (push_narinfo path h info (length d)) s1 \<and>
    push_ready env U token s2 (m(h \<mapsto> Some n)) \<and> shell_eq s s1"
proof -
  note p' = p[unfolded pushable_def]
  have h: "is_valid_nix_hash h" using p' valid_store_nix_hash by blast
  obtain s1 where 1: "send_request env now net (StoreNar (auth_headers token) (h @ ''.nar'') d) s = (Some (plain 200 ''ok''), s1)"
      "push_ready env U token s1 (m(h \<mapsto> Some n))" "shell_eq s s1"
    using send_nar[where net = net and now = now, OF server_okD(1-2)[OF ok] server_okD(3)[OF ok] ready h] p' net by blast
  have sign1: "clean (as_signer s1 x)" for x using sign 1(3) by (simp add: signs_cleanly_def shell_eq_def)
  have f: "narinfo_store_path_hash (pushed_info path h info (length d)) = Some h"
      "ni_url (pushed_info path h info (length d)) = ''nar/'' @ h @ ''.nar''"
    using p' by (simp_all add: narinfo_store_path_hash_def pushed_info_def)
  have mh: "(m(h \<mapsto> Some n)) h \<noteq> None" by simp
  obtain s2 where "send_request env now net (PutNarinfo (auth_headers token) (h @ ''.narinfo'') (push_narinfo path h info (length d))) s1 =
      (Some (plain 200 ''ok''), s2)"
    "(plain 200 ''ok'', s2) =
      put_narinfo_handler env now (auth_headers token) (h @ ''.narinfo'') (push_narinfo path h info (length d)) s1"
    "push_ready env U token s2 (m(h \<mapsto> Some n))"
    using send_narinfo[where net = net and now = now, OF server_okD(1)[OF ok] 1(2) h mh pushable_text[OF p] _ _ _ f sign1] p' net by blast
  then show ?thesis using 1 by blast
qed

lemma decomposed_chunks:
  assumes "cas_env_ok env" and "map_of (rev (dr_chunks (decompose_nar env n))) d = Some c"
  shows "c \<in> blobs_of env n" and "length c \<le> CHUNK_MAX" and "blake3 env c = d"
proof -
  note fs = decompose_nar_fields[OF assms(1), of n] and g = decompose_facts[OF assms(1), where n = n]
  have dc: "(d, c) \<in> set (ds_chunks (snd (decompose_node env n decompose_init)))"
    using map_of_SomeD[OF assms(2)] by (simp add: fs(3))
  then show "blake3 env c = d" using bspec[OF g(1)] by fastforce
  have "c \<in> snd ` set (ds_chunks (snd (decompose_node env n decompose_init)))" using dc by (rule image_eqI[rotated]) simp
  then obtain f where f: "f \<in> set (files_of n)" "c \<in> set (cdc env f)" using g(2) by blast
  show "c \<in> blobs_of env n" using f by (auto simp: blobs_of_def)
  show "length c \<le> CHUNK_MAX" using cas_env_okD(4)[OF assms(1) f(2)] .
qed

lemma try_cas_push_ok:
  assumes ok: "server_ok env U" and ready: "push_ready env U token s m" and p: "pushable env U h path info d n"
    and sign: "signs_cleanly s" and net: "\<And>r. net r = Delivered" and m: "m h = None" and grpc: "pe_grpc pe"
  shows "\<exists>s1 s2. try_cas_push env pe now net token h d (push_narinfo path h info (length d)) s = (Ok True, s2) \<and>
    (plain 200 ''ok'', s2) =
      put_narinfo_handler env now (auth_headers token) (h @ ''.narinfo'') (push_narinfo path h info (length d)) s1 \<and>
    push_ready env U token s2 (m(h \<mapsto> Some n)) \<and> shell_eq s s1"
proof -
  have n: "parse_nar d = Ok n" "blobs_of (he_cas env) n \<subseteq> U" using p by (simp_all add: pushable_def)
  have "map_of (db_paths (st_db (as_storage s))) h = None" using ready m by (simp add: push_ready_def holds_def)
  then have "\<not> has_narinfo (he_cas env) h (as_storage s)" by (simp add: has_narinfo_def)
  then obtain missing where neg:
      "push_negotiate h (dr_file_chunk_mappings (decompose_nar (he_cas env) n)) (he_cas env) (Some (as_storage s)) = Ok (missing, False)"
    unfolding push_negotiate_def Let_def by simp
  have chunks: "c \<in> U \<and> length c \<le> CHUNK_MAX \<and> blake3 (he_cas env) c = g"
    if "map_of (rev (dr_chunks (decompose_nar (he_cas env) n))) g = Some c" for g c
    using decomposed_chunks[OF server_okD(1)[OF ok] that] n(2) by blast
  obtain s0 where 0: "upload_missing env now net (auth_headers token) (map_of (rev (dr_chunks (decompose_nar (he_cas env) n)))) missing s =
      (Ok True, s0)" "push_ready env U token s0 m" "shell_eq s s0"
    using upload_missing_ok[where net = net and now = now, OF server_okD(1,2)[OF ok] server_okD(3)[OF ok] net chunks ready] by blast
  have sign0: "signs_cleanly s0" using sign 0(3) by (simp add: signs_cleanly_def shell_eq_def)
  obtain s1 s2 where 1: "send_request env now net (StoreNar (auth_headers token) (h @ ''.nar'') d) s0 = (Some (plain 200 ''ok''), s1)"
      "send_request env now net (PutNarinfo (auth_headers token) (h @ ''.narinfo'') (push_narinfo path h info (length d))) s1 =
        (Some (plain 200 ''ok''), s2)"
      "(plain 200 ''ok'', s2) =
        put_narinfo_handler env now (auth_headers token) (h @ ''.narinfo'') (push_narinfo path h info (length d)) s1"
      "push_ready env U token s2 (m(h \<mapsto> Some n))" "shell_eq s0 s1"
    using upload_both[where net = net and now = now, OF ok 0(2) p sign0 net] by blast
  have "try_cas_push env pe now net token h d (push_narinfo path h info (length d)) s = (Ok True, s2)"
    by (simp add: try_cas_push_def n(1) grpc neg 0(1) 1(1,2))
  then show ?thesis using 1(3,4) shell_eq_trans[OF 0(3) 1(5)] by blast
qed

lemma full_push_ok:
  assumes ok: "server_ok env U" and ready: "push_ready env U token s m" and p: "pushable env U h path info d n"
    and sign: "signs_cleanly s" and net: "\<And>r. net r = Delivered"
  shows "\<exists>s1 s2. full_push env now net token h info d (push_narinfo path h info (length d)) s =
      (Ok (Uploaded (pi_nar_size info) (length d)), s2) \<and>
    (plain 200 ''ok'', s2) =
      put_narinfo_handler env now (auth_headers token) (h @ ''.narinfo'') (push_narinfo path h info (length d)) s1 \<and>
    push_ready env U token s2 (m(h \<mapsto> Some n)) \<and> shell_eq s s1"
proof -
  obtain s1 s2 where 1: "send_request env now net (StoreNar (auth_headers token) (h @ ''.nar'') d) s = (Some (plain 200 ''ok''), s1)"
      "send_request env now net (PutNarinfo (auth_headers token) (h @ ''.narinfo'') (push_narinfo path h info (length d))) s1 =
        (Some (plain 200 ''ok''), s2)"
      "(plain 200 ''ok'', s2) =
        put_narinfo_handler env now (auth_headers token) (h @ ''.narinfo'') (push_narinfo path h info (length d)) s1"
      "push_ready env U token s2 (m(h \<mapsto> Some n))" "shell_eq s s1"
    using upload_both[where net = net and now = now, OF ok ready p sign net] by blast
  have "full_push env now net token h info d (push_narinfo path h info (length d)) s =
      (Ok (Uploaded (pi_nar_size info) (length d)), s2)"
    by (simp add: full_push_def 1(1,2))
  then show ?thesis using 1(3-5) by blast
qed

text \<open>A path is pushed: what every new path goes through, with or without the gRPC service.\<close>

lemma push_new_path:
  assumes ok: "server_ok env U" and ready: "push_ready env U token s m" and p: "pushable env U h path info d n"
    and sign: "signs_cleanly s" and net: "\<And>r. net r = Delivered" and m: "m h = None"
    and cache: "narinfo_cache_get h (as_narinfo_cache s) = None"
    and client: "store_path_hash store_path = Some h" "pe_path_info pe store_path = Some ((path, info) # others)"
      "pe_dump pe store_path = Some d"
  shows "\<exists>s1 s2. push_single_path env pe now net token store_path s = (Ok (Uploaded (pi_nar_size info) (length d)), s2) \<and>
    (plain 200 ''ok'', s2) =
      put_narinfo_handler env now (auth_headers token) (h @ ''.narinfo'') (push_narinfo path h info (length d)) s1 \<and>
    push_ready env U token s2 (m(h \<mapsto> Some n)) \<and> shell_eq s s1"
proof -
  have "map_of (db_paths (st_db (as_storage s))) h = None" using ready m by (simp add: push_ready_def holds_def)
  then have "get_narinfo h (as_storage s) = None" by (simp add: get_narinfo_def load_metadata_with_conn_def)
  moreover have "is_valid_store_hash h" using p by (simp add: pushable_def)
  ultimately have head: "send_request env now net (GetNarinfo (h @ ''.narinfo'') False) s = (Some not_found_response, s)"
    using head_unknown[where net = net and now = now] cache net by blast
  show ?thesis
  proof (cases "pe_grpc pe")
    case True
    show ?thesis using try_cas_push_ok[where net = net and now = now, OF ok ready p sign net m True] head
      by (auto simp: push_single_path_def client Let_def)
  next
    case False
    have "parse_nar d = Ok n" using p by (simp add: pushable_def)
    then have "try_cas_push env pe now net token h d (push_narinfo path h info (length d)) s = (Ok False, s)"
      by (simp add: try_cas_push_def False)
    then show ?thesis using full_push_ok[where net = net and now = now, OF ok ready p sign net] head
      by (auto simp: push_single_path_def client Let_def)
  qed
qed

subsection \<open>Properties\<close>

lemma head_known:
  assumes "is_valid_store_hash h" and "get_narinfo h (as_storage s) \<noteq> None" and "net (GetNarinfo (h @ ''.narinfo'') False) = Delivered"
  shows "\<exists>resp s'. send_request env now net (GetNarinfo (h @ ''.narinfo'') False) s = (Some resp, s') \<and> is_success resp \<and>
    as_storage s' = as_storage s"
proof -
  obtain resp s' where run: "get_narinfo_handler env (h @ ''.narinfo'') False s = (resp, s')" by fastforce
  have "is_success resp \<and> as_storage s' = as_storage s"
    using run assms(2) unfolding get_narinfo_by_name[OF assms(1)] by (auto simp: Let_def split: option.splits)
  moreover have "send_request env now net (GetNarinfo (h @ ''.narinfo'') False) s = (Some resp, s')"
    by (rule send_delivered) (simp_all add: assms(3) request_headers_def within_body_limit_def run)
  ultimately show ?thesis by blast
qed

lemma push_known_path:
  assumes "is_valid_store_hash h" and "get_narinfo h (as_storage s) \<noteq> None" and "net (GetNarinfo (h @ ''.narinfo'') False) = Delivered"
    and "store_path_hash store_path = Some h"
  shows "\<exists>s'. push_single_path env pe now net token store_path s = (Ok AlreadyExists, s') \<and> as_storage s' = as_storage s"
  using head_known[where env = env and now = now and net = net, OF assms(1-3)] by (auto simp: push_single_path_def assms(4))

text \<open>C9. A pushed path is served.  Pushing a new path over a working network, with or without the gRPC service, reports the sizes
  of the archive; then the server answers the archive with its entries sorted and a narinfo with the path, hash and
  references of the local store, every other archive is as before, and pushing the path again uploads nothing.\<close>

theorem pushed_path_is_served:
  assumes "server_ok env U" and "push_ready env U token s m" and "pushable env U h path info d n" and "signs_cleanly s"
    and "net = (\<lambda>_. Delivered)" and "m h = None" and "narinfo_cache_get h (as_narinfo_cache s) = None"
    and "store_path_hash store_path = Some h" and "pe_path_info pe store_path = Some [(path, info)]" and "pe_dump pe store_path = Some d"
  shows "\<exists>s'. push_single_path env pe now net token store_path s = (Ok (Uploaded (pi_nar_size info) (length d)), s') \<and>
    get_nar (he_fuel env) (he_cas env) (''nar/'' @ h @ ''.nar'') (as_storage s') = Ok (Some (write_nar (sort_nar n))) \<and>
    (\<forall>p k. hash_of_file_path p \<noteq> h \<longrightarrow> m (hash_of_file_path p) = Some (Some k) \<longrightarrow> nar_fuel k \<le> he_fuel env \<longrightarrow>
       get_nar (he_fuel env) (he_cas env) p (as_storage s') = Ok (Some (write_nar (sort_nar k)))) \<and>
    (\<exists>ni. parse_narinfo (rs_body (fst (get_narinfo_handler env (h @ ''.narinfo'') False s'))) = Some ni \<and>
       ni_store_path ni = path \<and> ni_nar_hash ni = pi_nar_hash info \<and> ni_nar_size ni = pi_nar_size info \<and>
       ni_references ni = map basename (pi_references info) \<and> set (pi_signatures info) \<subseteq> set (ni_signatures ni)) \<and>
    fst (push_single_path env pe now net token store_path s') = Ok AlreadyExists"
proof -
  note p = assms(3)[unfolded pushable_def]
  have net: "net r = Delivered" for r by (simp add: assms(5))
  obtain s1 s' where run: "push_single_path env pe now net token store_path s = (Ok (Uploaded (pi_nar_size info) (length d)), s')"
    and put: "(plain 200 ''ok'', s') =
      put_narinfo_handler env now (auth_headers token) (h @ ''.narinfo'') (push_narinfo path h info (length d)) s1"
    and ready: "push_ready env U token s' (m(h \<mapsto> Some n))" and shell: "shell_eq s s1"
    using push_new_path[where net = net and now = now, OF assms(1-4) net assms(6-10)] by blast
  have holds: "holds (he_cas env) U (as_storage s') (m(h \<mapsto> Some n))" using ready by (simp add: push_ready_def)
  note nar = holds_get_nar[OF server_okD(1,2)[OF assms(1)] holds]
  have h: "is_valid_store_hash h" "0 < he_fuel env" using p by (cases n; simp)+
  have url: "hash_of_file_path (''nar/'' @ h @ ''.nar'') = h"
    using hash_of_nar_url nix_hash_chars[OF valid_store_nix_hash[OF h(1)]] by blast
  have own: "get_nar (he_fuel env) (he_cas env) q (as_storage s') = Ok (Some (write_nar (sort_nar n)))"
    if "hash_of_file_path q = h" for q
    using nar[where fuel = "he_fuel env" and p = q] that p h(2) by simp
  have others: "get_nar (he_fuel env) (he_cas env) q (as_storage s') = Ok (Some (write_nar (sort_nar k)))"
    if "hash_of_file_path q \<noteq> h" "m (hash_of_file_path q) = Some (Some k)" "nar_fuel k \<le> he_fuel env" for q k
    using nar[where fuel = "he_fuel env" and p = q] that h(2) by simp
  let ?ni = "pushed_info path h info (length d)"
  have sign: "\<And>x. clean (as_signer s1 x)" "\<And>x. as_signer s1 x \<noteq> []" and cache: "narinfo_cache_get h (as_narinfo_cache s1) = None"
    using assms(4,7) shell by (simp_all add: signs_cleanly_def shell_eq_def)
  have ok: "rs_status (plain 200 ''ok'') = 200" by (simp add: plain_def)
  have clean: "narinfo_clean ?ni" "storable ?ni" using p by blast+
  note served = accepted_narinfo_served[OF put ok pushable_text[OF assms(3)] clean sign h(1) cache]
  define ni where "ni = republished (as_signer s1) h ?ni"
  have fields: "ni_store_path ni = path" "ni_nar_hash ni = pi_nar_hash info" "ni_nar_size ni = pi_nar_size info"
      "ni_references ni = map basename (pi_references info)"
    by (simp_all add: ni_def republished_def served_info_def pushed_info_def o_def basename_basename)
  have sigs: "set (pi_signatures info) \<subseteq> set (ni_signatures ni)"
    using republished_facts(2)[where sign = "as_signer s1" and h = h and ni = ?ni] by (simp add: ni_def pushed_info_def)
  have text_ok: "parse_narinfo (rs_body (fst (get_narinfo_handler env (h @ ''.narinfo'') False s'))) = Some ni"
    unfolding served(1) ni_def using served(2) by (simp add: narinfo_response_def)
  have "map_of (db_paths (st_db (as_storage s'))) h \<noteq> None" using holds unfolding holds_def by simp
  then have "get_narinfo h (as_storage s') \<noteq> None" by (simp add: get_narinfo_def load_metadata_with_conn_def)
  then have "fst (push_single_path env pe now net token store_path s') = Ok AlreadyExists"
    using push_known_path[where net = net and now = now and env = env and pe = pe and token = token and s = s', OF h(1) _ net assms(8)] by auto
  then show ?thesis using run own[OF url] others fields sigs text_ok by blast
qed

text \<open>Metadata of an archive nobody described: the row \<open>put_nar\<close> makes up.\<close>

definition undescribed :: "string \<Rightarrow> castore \<Rightarrow> bool" where
  "undescribed h st \<longleftrightarrow> (\<exists>ni. get_narinfo h st = Some ni \<and> ni_store_path ni = [] \<and> ni_references ni = [] \<and> ni_signatures ni = [] \<and>
     storable ni)"

lemma put_nar_metadata:
  assumes "put_nar fuel env io now p d st = (Ok True, st')"
    and "ni = (case get_narinfo (hash_of_file_path p) st of Some existing \<Rightarrow> existing | None \<Rightarrow> placeholder_info env (hash_of_file_path p) d)"
    and "storable ni"
  shows "get_narinfo (hash_of_file_path p) st' = Some (served_info (hash_of_file_path p) ni)"
proof -
  let ?h = "hash_of_file_path p"
  obtain n root st1 fds where 1: "parse_nar d = Ok n" "ingest_node env io n st = (Ok root, st1)"
      "collect_file_digests_from_tree fuel env (st_db st1) root [] = Some fds"
    using assms(1) by (auto simp: put_nar_def Let_def split: sum.splits prod.splits option.splits)
  let ?db = "fold (insert_path_file ?h) fds (st_db st1)"
  have "db_paths (st_db st1) = db_paths (st_db st)" using ingest_paths(1)[of env io n st] 1(2) by simp
  then have "ni = (case load_metadata_with_conn ?h ?db of Some existing \<Rightarrow> existing | None \<Rightarrow> placeholder_info env ?h d)"
    by (simp add: assms(2) get_narinfo_def load_metadata_with_conn_def insert_path_files)
  then have "st_db st' = store_metadata_with_conn env now ?h ni root ?db"
    using assms(1) 1 by (auto simp: put_nar_def Let_def)
  then show ?thesis using load_stored_metadata[OF assms(3)] by (simp add: get_narinfo_def)
qed

lemma put_nar_undescribed:
  assumes "put_nar fuel env io now p d st = (Ok True, st')" and "get_narinfo (hash_of_file_path p) st = None \<or> undescribed (hash_of_file_path p) st"
  shows "undescribed (hash_of_file_path p) st'"
proof -
  define ni where "ni = (case get_narinfo (hash_of_file_path p) st of Some existing \<Rightarrow> existing
    | None \<Rightarrow> placeholder_info env (hash_of_file_path p) d)"
  have "ni_store_path ni = [] \<and> ni_references ni = [] \<and> ni_signatures ni = [] \<and> storable ni"
    using assms(2) by (auto simp: ni_def undescribed_def placeholder_info_def storable_def)
  then show ?thesis using put_nar_metadata[OF assms(1) ni_def] storable_served
    by (auto simp: undescribed_def served_info_def storable_def)
qed

lemma send_nar_undescribed:
  assumes "send_request env now net (StoreNar hs (h @ ''.nar'') d) s = (Some (plain 200 ''ok''), s')"
    and "is_valid_nix_hash h" and "get_narinfo h (as_storage s) = None \<or> undescribed h (as_storage s)"
  shows "undescribed h (as_storage s')"
proof -
  have url: "hash_of_file_path (''nar/'' @ h @ ''.nar'') = h" using hash_of_nar_url nix_hash_chars[OF assms(2)] by blast
  have "put_nar_handler env now hs (h @ ''.nar'') d s = (plain 200 ''ok'', s')"
    using assms(1) by (cases "put_nar_handler env now hs (h @ ''.nar'') d s") (auto simp: send_request_def within_body_limit_def plain_def split: if_splits)
  then have "put_nar (he_fuel env) (he_cas env) (he_io env) now (''nar/'' @ h @ ''.nar'') d (as_storage s) = (Ok True, as_storage s')"
    by (auto simp: put_nar_handler_def plain_def check_auth_def Let_def split: sum.splits if_splits prod.splits bool.splits option.splits)
  then show ?thesis using put_nar_undescribed[where p = "''nar/'' @ h @ ''.nar''"] assms(3) unfolding url by blast
qed

text \<open>A network that fails when the narinfo is sent.\<close>

definition drops_narinfo :: "request \<Rightarrow> delivery" where
  "drops_narinfo r = (case r of PutNarinfo _ _ _ \<Rightarrow> RequestLost | _ \<Rightarrow> Delivered)"

lemma drops_narinfo_simps [simp]:
  "drops_narinfo (PutChunk hs x c) = Delivered" "drops_narinfo (StoreNar hs f d) = Delivered"
  "drops_narinfo (GetNarinfo f j) = Delivered" "drops_narinfo (PutNarinfo hs f b) = RequestLost"
  by (simp_all add: drops_narinfo_def)

lemma try_cas_interrupted:
  assumes ok: "server_ok env U" and ready: "push_ready env U token s m" and p: "pushable env U h path info d n"
    and m: "m h = None" and grpc: "pe_grpc pe"
  shows "\<exists>s1. try_cas_push env pe now drops_narinfo token h d info_text s = (Err SendFailed, s1) \<and>
    push_ready env U token s1 (m(h \<mapsto> Some n)) \<and> undescribed h (as_storage s1) \<and> shell_eq s s1"
proof -
  note p' = p[unfolded pushable_def]
  have n: "parse_nar d = Ok n" "blobs_of (he_cas env) n \<subseteq> U" using p' by simp_all
  have h: "is_valid_nix_hash h" using p' valid_store_nix_hash by blast
  have "map_of (db_paths (st_db (as_storage s))) h = None" using ready m by (simp add: push_ready_def holds_def)
  then have "\<not> has_narinfo (he_cas env) h (as_storage s)" by (simp add: has_narinfo_def)
  then obtain missing where neg:
      "push_negotiate h (dr_file_chunk_mappings (decompose_nar (he_cas env) n)) (he_cas env) (Some (as_storage s)) = Ok (missing, False)"
    unfolding push_negotiate_def Let_def by simp
  have chunks: "c \<in> U \<and> length c \<le> CHUNK_MAX \<and> blake3 (he_cas env) c = g"
    if "map_of (rev (dr_chunks (decompose_nar (he_cas env) n))) g = Some c" for g c
    using decomposed_chunks[OF server_okD(1)[OF ok] that] n(2) by blast
  obtain s0 where 0: "upload_missing env now drops_narinfo (auth_headers token) (map_of (rev (dr_chunks (decompose_nar (he_cas env) n)))) missing s =
      (Ok True, s0)" "push_ready env U token s0 m" "shell_eq s s0"
    using upload_missing_ok[where net = drops_narinfo and now = now, OF server_okD(1,2)[OF ok] server_okD(3)[OF ok] drops_narinfo_simps(1) chunks ready] by blast
  have "map_of (db_paths (st_db (as_storage s0))) h = None" using 0(2) m by (simp add: push_ready_def holds_def)
  then have none: "get_narinfo h (as_storage s0) = None" by (simp add: get_narinfo_def load_metadata_with_conn_def)
  obtain s1 where 1: "send_request env now drops_narinfo (StoreNar (auth_headers token) (h @ ''.nar'') d) s0 = (Some (plain 200 ''ok''), s1)"
      "push_ready env U token s1 (m(h \<mapsto> Some n))" "shell_eq s0 s1"
    using send_nar[where net = drops_narinfo and now = now, OF server_okD(1-2)[OF ok] server_okD(3)[OF ok] 0(2) h _ _ _ _ drops_narinfo_simps(2)] p' by blast
  have "undescribed h (as_storage s1)" using send_nar_undescribed[OF 1(1) h] none by blast
  moreover have "send_request env now drops_narinfo (PutNarinfo (auth_headers token) (h @ ''.narinfo'') info_text) s1 = (None, s1)"
    by (rule send_lost) simp
  then have "try_cas_push env pe now drops_narinfo token h d info_text s = (Err SendFailed, s1)"
    by (simp add: try_cas_push_def n(1) grpc neg 0(1) 1(1))
  ultimately show ?thesis using 1(2) shell_eq_trans[OF 0(3) 1(3)] by blast
qed

lemma full_push_interrupted:
  assumes ok: "server_ok env U" and ready: "push_ready env U token s m" and p: "pushable env U h path info d n"
    and blank: "get_narinfo h (as_storage s) = None \<or> undescribed h (as_storage s)"
  shows "\<exists>s1. full_push env now drops_narinfo token h info d info_text s = (Err SendFailed, s1) \<and>
    push_ready env U token s1 (m(h \<mapsto> Some n)) \<and> undescribed h (as_storage s1) \<and> shell_eq s s1"
proof -
  note p' = p[unfolded pushable_def]
  have h: "is_valid_nix_hash h" using p' valid_store_nix_hash by blast
  obtain s1 where 1: "send_request env now drops_narinfo (StoreNar (auth_headers token) (h @ ''.nar'') d) s = (Some (plain 200 ''ok''), s1)"
      "push_ready env U token s1 (m(h \<mapsto> Some n))" "shell_eq s s1"
    using send_nar[where net = drops_narinfo and now = now, OF server_okD(1-2)[OF ok] server_okD(3)[OF ok] ready h _ _ _ _ drops_narinfo_simps(2)] p' by blast
  have "send_request env now drops_narinfo (PutNarinfo (auth_headers token) (h @ ''.narinfo'') info_text) s1 = (None, s1)"
    by (rule send_lost) simp
  then have "full_push env now drops_narinfo token h info d info_text s = (Err SendFailed, s1)" by (simp add: full_push_def 1(1))
  then show ?thesis using 1(2,3) send_nar_undescribed[OF 1(1) h blank] by blast
qed

lemma push_again:
  assumes "is_valid_store_hash h" and "store_path_hash store_path = Some h"
  shows "get_narinfo h (as_storage s) \<noteq> None \<Longrightarrow>
    \<exists>s'. push_paths env pe now (\<lambda>_. Delivered) token (replicate k store_path) s = (replicate k (Ok AlreadyExists), s') \<and>
      as_storage s' = as_storage s"
proof (induction k arbitrary: s)
  case (Suc k)
  obtain s1 where 1: "push_single_path env pe now (\<lambda>_. Delivered) token store_path s = (Ok AlreadyExists, s1)" "as_storage s1 = as_storage s"
    using push_known_path[where net = "\<lambda>_. Delivered" and env = env and pe = pe and token = token and s = s and now = now,
        OF assms(1) Suc.prems _ assms(2)] by blast
  obtain s2 where "push_paths env pe now (\<lambda>_. Delivered) token (replicate k store_path) s1 = (replicate k (Ok AlreadyExists), s2)"
      "as_storage s2 = as_storage s1" using Suc.IH[of s1] Suc.prems 1(2) by auto
  then show ?case using 1 by simp
qed simp

text \<open>C10. An interrupted push is never finished.  When the archive was uploaded and sending the narinfo failed, the push is
  reported as failed; every later push of the path over a working network takes it for complete and uploads nothing,
  while the server goes on serving metadata without store path, references and signatures.\<close>

theorem interrupted_push_is_stuck:
  assumes "server_ok env U" and "push_ready env U token s m" and "pushable env U h path info d n"
    and "m h = None" and "narinfo_cache_get h (as_narinfo_cache s) = None"
    and "store_path_hash store_path = Some h" and "pe_path_info pe store_path = Some [(path, info)]" and "pe_dump pe store_path = Some d"
  shows "\<exists>s1. push_single_path env pe now drops_narinfo token store_path s = (Err SendFailed, s1) \<and>
    (\<forall>k. \<exists>s2 ni. push_paths env pe now (\<lambda>_. Delivered) token (replicate k store_path) s1 = (replicate k (Ok AlreadyExists), s2) \<and>
       get_narinfo h (as_storage s2) = Some ni \<and> ni_store_path ni = [] \<and> ni_references ni = [] \<and> ni_signatures ni = [])"
proof -
  note p = assms(3)[unfolded pushable_def]
  have h: "is_valid_store_hash h" and n: "parse_nar d = Ok n" using p by simp_all
  have "map_of (db_paths (st_db (as_storage s))) h = None" using assms(2,4) by (simp add: push_ready_def holds_def)
  then have none: "get_narinfo h (as_storage s) = None" by (simp add: get_narinfo_def load_metadata_with_conn_def)
  note head = head_unknown[where net = drops_narinfo and now = now and env = env, OF h assms(5) none drops_narinfo_simps(3)]
  let ?txt = "push_narinfo path h info (length d)"
  have "\<exists>s0 r. try_cas_push env pe now drops_narinfo token h d ?txt s = (r, s0) \<and> r \<noteq> Ok True \<and>
      (\<exists>m'. push_ready env U token s0 m') \<and> (get_narinfo h (as_storage s0) = None \<or> undescribed h (as_storage s0))"
  proof (cases "pe_grpc pe")
    case True
    then obtain s0 where "try_cas_push env pe now drops_narinfo token h d ?txt s = (Err SendFailed, s0)"
        "push_ready env U token s0 (m(h \<mapsto> Some n))" "undescribed h (as_storage s0)"
      using try_cas_interrupted[where info_text = ?txt and now = now and pe = pe, OF assms(1-4)] by blast
    then show ?thesis by (intro exI[of _ s0] exI[of _ "Err SendFailed"]) auto
  next
    case False
    then have "try_cas_push env pe now drops_narinfo token h d ?txt s = (Ok False, s)" by (simp add: try_cas_push_def n)
    then show ?thesis using assms(2) none by auto
  qed
  then obtain s0 r m' where 0: "try_cas_push env pe now drops_narinfo token h d ?txt s = (r, s0)" "r \<noteq> Ok True"
      "push_ready env U token s0 m'" "get_narinfo h (as_storage s0) = None \<or> undescribed h (as_storage s0)" by blast
  obtain s1 where 1: "full_push env now drops_narinfo token h info d ?txt s0 = (Err SendFailed, s1)" "undescribed h (as_storage s1)"
    using full_push_interrupted[where info_text = ?txt and now = now, OF assms(1) 0(3) assms(3) 0(4)] by blast
  have "push_single_path env pe now drops_narinfo token store_path s = full_push env now drops_narinfo token h info d ?txt s0"
    using 0(2) by (cases r) (auto simp: push_single_path_def assms(6-8) head 0(1) Let_def split: bool.split)
  moreover obtain ni where ni: "get_narinfo h (as_storage s1) = Some ni" "ni_store_path ni = []" "ni_references ni = []" "ni_signatures ni = []"
    using 1(2) unfolding undescribed_def by blast
  then have known: "get_narinfo h (as_storage s1) \<noteq> None" by simp
  have "\<exists>s2. push_paths env pe now (\<lambda>_. Delivered) token (replicate k store_path) s1 = (replicate k (Ok AlreadyExists), s2) \<and>
      as_storage s2 = as_storage s1" for k
    by (rule push_again[OF h assms(6) known])
  then have "\<forall>k. \<exists>s2 ni. push_paths env pe now (\<lambda>_. Delivered) token (replicate k store_path) s1 = (replicate k (Ok AlreadyExists), s2) \<and>
       get_narinfo h (as_storage s2) = Some ni \<and> ni_store_path ni = [] \<and> ni_references ni = [] \<and> ni_signatures ni = []"
    using ni by metis
  ultimately show ?thesis using 1(1) by auto
qed

subsection \<open>Instances\<close>

definition sample_path :: string where
  "sample_path = ''/nix/store/'' @ sample_h32 @ ''-hello''"

definition sample_info :: path_info where
  "sample_info = \<lparr>pi_nar_hash = ''sha256:1'', pi_nar_size = 12, pi_references = [''/nix/store/xyz-glibc''], pi_signatures = [],
     pi_ca = None\<rparr>"

definition sample_client :: push_env where
  "sample_client = \<lparr>pe_path_info = (\<lambda>p. Some [(p, sample_info)]), pe_dump = (\<lambda>p. Some (write_nar sample_nar)), pe_grpc = True\<rparr>"

lemma length_show_nat: "length (show_nat n) \<le> Suc n"
proof (induction n rule: show_nat.induct)
  case (1 n)
  show ?case
  proof (cases "n < 10")
    case False
    then have "length (show_nat (n div 10)) \<le> Suc (n div 10)" by (rule 1)
    moreover have "n div 10 < n" using False by simp
    ultimately show ?thesis using False by (simp add: show_nat.simps[of n])
  qed (simp add: show_nat.simps[of n])
qed

lemma sample_dump_length: "0 < length (write_nar sample_nar)" "length (write_nar sample_nar) \<le> 1000"
  by (simp_all add: sample_nar_def write_nar_def write_str_def length_write_bytes pad_len_def)

lemma sample_pushable:
  "pushable sample_http (blobs_of sample_env sample_nar) sample_h32 sample_path sample_info (write_nar sample_nar) sample_nar"
proof -
  let ?len = "length (write_nar sample_nar)"
  have text_def: "push_narinfo sample_path sample_h32 sample_info n = line ''StorePath'' sample_path @ line ''URL'' (''nar/'' @ sample_h32 @ ''.nar'') @
      line ''Compression'' ''none'' @ line ''FileHash'' ''sha256:1'' @ line ''FileSize'' (show_nat n) @ line ''NarHash'' ''sha256:1'' @
      line ''NarSize'' (show_nat 12) @ line ''References'' ''xyz-glibc''" for n
    by (simp add: push_narinfo_def sample_info_def basename_def last_segment_def)
  have "\<forall>c \<in> set (show_nat n). of_char c < (128::nat)" for n
    using show_nat_digits[of n] by (auto simp: list_all_iff is_ascii_digit_def)
  then have "\<forall>c \<in> set (push_narinfo sample_path sample_h32 sample_info ?len). of_char c < (128::nat)"
    unfolding text_def by (simp add: line_def sample_path_def sample_h32_def ball_Un)
  then have utf8: "utf8_valid (push_narinfo sample_path sample_h32 sample_info ?len)" unfolding utf8_valid_def by (intro utf8_ok_ascii) simp
  have "length (show_nat ?len) \<le> 1001" "length (show_nat 12) \<le> 13"
    using length_show_nat[of ?len] sample_dump_length length_show_nat[of 12] by simp_all
  then have len: "length (push_narinfo sample_path sample_h32 sample_info ?len) \<le> NARINFO_BODY_LIMIT"
    unfolding text_def by (simp add: line_def sample_path_def sample_h32_def NARINFO_BODY_LIMIT_def)
  have "?len < 2 ^ 64" using sample_dump_length(2) by simp
  then have clean: "narinfo_clean (pushed_info sample_path sample_h32 sample_info ?len)"
    by (auto simp: pushed_info_def sample_info_def narinfo_clean_def clean_def sample_path_def sample_h32_def basename_def last_segment_def
        visible_def)
  have store: "storable (pushed_info sample_path sample_h32 sample_info ?len)"
    by (simp add: pushed_info_def sample_info_def storable_def basename_def last_segment_def)
  have "nar_fuel sample_nar \<le> 9" by (simp add: sample_nar_def)
  moreover have "store_path_hash sample_path = Some sample_h32" using sample_h32_path by (simp add: sample_path_def)
  moreover have "?len \<le> NAR_BODY_LIMIT" using sample_dump_length(2) by (simp add: NAR_BODY_LIMIT_def)
  ultimately show ?thesis using clean store utf8 len
    unfolding pushable_def by (simp add: sample_put_parses sample_h32_valid sample_http_def sample_info_def)
qed

lemma sample_server:
  "server_ok sample_http (blobs_of sample_env sample_nar)"
  "push_ready sample_http (blobs_of sample_env sample_nar) (Some ''secret'') sample_empty Map.empty" "signs_cleanly sample_empty"
  "narinfo_cache_get sample_h32 (as_narinfo_cache sample_empty) = None"
proof -
  show "server_ok sample_http (blobs_of sample_env sample_nar)"
    using sample_env_ok sample_nar_inj by (simp add: server_ok_def sample_http_def)
  show "push_ready sample_http (blobs_of sample_env sample_nar) (Some ''secret'') sample_empty Map.empty"
    using holds_new by (simp add: push_ready_def sample_http_def sample_empty_def sample_app_def to_str_def)
  show "signs_cleanly sample_empty" by (simp add: signs_cleanly_def sample_empty_simps clean_def)
  show "narinfo_cache_get sample_h32 (as_narinfo_cache sample_empty) = None"
    by (simp add: sample_empty_def sample_app_def narinfo_cache_get_def narinfo_cache_new_def)
qed

lemma sample_client_simps:
  "store_path_hash sample_path = Some sample_h32" "pe_path_info sample_client sample_path = Some [(sample_path, sample_info)]"
  "pe_dump sample_client sample_path = Some (write_nar sample_nar)"
  using sample_h32_path by (simp_all add: sample_path_def sample_client_def)

theorem pushed_path_is_served_witness:
  "\<exists>s'. push_single_path sample_http sample_client 5 (\<lambda>_. Delivered) (Some ''secret'') sample_path sample_empty =
      (Ok (Uploaded 12 (length (write_nar sample_nar))), s') \<and>
    get_nar 9 sample_env (''nar/'' @ sample_h32 @ ''.nar'') (as_storage s') = Ok (Some (write_nar (sort_nar sample_nar)))"
proof -
  have "pi_nar_size sample_info = 12" "he_fuel sample_http = 9" "he_cas sample_http = sample_env"
    by (simp_all add: sample_info_def sample_http_def)
  then show ?thesis
    using pushed_path_is_served[where now = 5, OF sample_server(1,2) sample_pushable sample_server(3) refl _ sample_server(4) sample_client_simps]
    by auto
qed

theorem interrupted_push_is_stuck_witness:
  "\<exists>s1 s2 ni. push_single_path sample_http sample_client 5 drops_narinfo (Some ''secret'') sample_path sample_empty = (Err SendFailed, s1) \<and>
    push_paths sample_http sample_client 5 (\<lambda>_. Delivered) (Some ''secret'') [sample_path, sample_path] s1 =
      ([Ok AlreadyExists, Ok AlreadyExists], s2) \<and>
    get_narinfo sample_h32 (as_storage s2) = Some ni \<and> ni_store_path ni = []"
proof -
  have two: "replicate 2 sample_path = [sample_path, sample_path]"
      "replicate 2 (Ok AlreadyExists) = [Ok AlreadyExists, Ok AlreadyExists :: push_error + push_result]" by (simp_all add: numeral_2_eq_2)
  obtain s1 where "push_single_path sample_http sample_client 5 drops_narinfo (Some ''secret'') sample_path sample_empty = (Err SendFailed, s1)"
    and later: "\<forall>k. \<exists>s2 ni. push_paths sample_http sample_client 5 (\<lambda>_. Delivered) (Some ''secret'') (replicate k sample_path) s1 =
        (replicate k (Ok AlreadyExists), s2) \<and>
       get_narinfo sample_h32 (as_storage s2) = Some ni \<and> ni_store_path ni = [] \<and> ni_references ni = [] \<and> ni_signatures ni = []"
    using interrupted_push_is_stuck[where now = 5, OF sample_server(1,2) sample_pushable _ sample_server(4) sample_client_simps] by auto
  then show ?thesis using spec[OF later, of 2] unfolding two by blast
qed

end
