(* ===== verification/Recompress.thy ===== *)
theory Recompress
  imports Lifecycle
begin

text \<open>
  Recompressing the chunk files of a store offline, \<open>cmd_compress_chunks\<close> of
  \<open>crates/ekapkgs-serve/src/main.rs\<close>: rows whose chunk is compressed at another level than
  \<open>TARGET_LEVEL\<close> are read back, compressed again, recorded at the new level and, when that is shorter,
  replaced by renaming a temporary file.  The worker threads compute one result per chunk; the results
  of a batch are written to the database first and to the files afterwards.
\<close>

definition TARGET_LEVEL :: int where
  "TARGET_LEVEL = 3"

definition COMPRESS_BATCH :: nat where
  "COMPRESS_BATCH = 1000"

text \<open>A result carries the contents of the temporary file, \<open>None\<close> in a dry run.\<close>

datatype chunk_result =
    Recompressed digest "bytes option" string nat nat
  | AlreadyOptimal digest nat
  | Skipped

definition recompress_chunk :: "cas_env \<Rightarrow> (string \<Rightarrow> bool) \<Rightarrow> bool \<Rightarrow> castore \<Rightarrow> digest \<Rightarrow> chunk_result" where
  "recompress_chunk env io dry_run st dg =
     (let file_path = chunk_path (hex_encode dg) in
      case map_of (st_files st) file_path of
        None \<Rightarrow> Skipped
      | Some compressed_old \<Rightarrow>
          (case zstd_decompress env (256 * 1024 * 2) compressed_old of
             None \<Rightarrow> Skipped
           | Some raw \<Rightarrow>
               (let compressed_new = zstd_compress env TARGET_LEVEL raw;
                    new_size = length compressed_new; old_size = length compressed_old
                in if new_size < old_size
                   then if dry_run then Recompressed dg None file_path new_size old_size
                        else if io file_path then Recompressed dg (Some compressed_new) file_path new_size old_size
                        else Skipped
                   else AlreadyOptimal dg old_size)))"

definition set_level :: "digest \<Rightarrow> nat \<Rightarrow> castore \<Rightarrow> castore" where
  "set_level dg sz st = st\<lparr>st_db := (st_db st)\<lparr>db_chunks :=
     update_key dg (\<lambda>r. r\<lparr>ck_zstd_level := Some TARGET_LEVEL, ck_disk_size := sz\<rparr>) (db_chunks (st_db st))\<rparr>\<rparr>"

fun record_result :: "chunk_result \<Rightarrow> castore \<Rightarrow> castore" where
  "record_result (Recompressed dg tmp path new_size old_size) st = set_level dg new_size st"
| "record_result (AlreadyOptimal dg sz) st = set_level dg sz st"
| "record_result Skipped st = st"

text \<open>\<open>lives\<close> tells which temporary files still exist when they are renamed; the rename of a missing file
  fails, which is ignored.\<close>

fun finalize_result :: "(string \<Rightarrow> bool) \<Rightarrow> chunk_result \<Rightarrow> castore \<Rightarrow> castore" where
  "finalize_result lives (Recompressed dg (Some t) path new_size old_size) st =
     (if lives path then st\<lparr>st_files := insert_or_replace path t (st_files st)\<rparr> else st)"
| "finalize_result lives r st = st"

record recompress_stats =
  rz_recompressed :: nat
  rz_optimal :: nat
  rz_bytes_saved :: nat
  rz_bytes_processed :: nat
  rz_processed :: nat

fun count_result :: "chunk_result \<Rightarrow> recompress_stats \<Rightarrow> recompress_stats" where
  "count_result (Recompressed dg tmp path new_size old_size) s =
     s\<lparr>rz_recompressed := rz_recompressed s + 1, rz_bytes_saved := rz_bytes_saved s + (old_size - new_size),
       rz_bytes_processed := rz_bytes_processed s + old_size, rz_processed := rz_processed s + 1\<rparr>"
| "count_result (AlreadyOptimal dg sz) s =
     s\<lparr>rz_optimal := rz_optimal s + 1, rz_bytes_processed := rz_bytes_processed s + sz, rz_processed := rz_processed s + 1\<rparr>"
| "count_result Skipped s = s\<lparr>rz_processed := rz_processed s + 1\<rparr>"

definition recompress_batch ::
  "cas_env \<Rightarrow> (string \<Rightarrow> bool) \<Rightarrow> (string \<Rightarrow> bool) \<Rightarrow> bool \<Rightarrow> digest list \<Rightarrow> recompress_stats \<times> castore \<Rightarrow> recompress_stats \<times> castore" where
  "recompress_batch env io lives dry_run batch s =
     (let results = map (recompress_chunk env io dry_run (snd s)) batch;
          st = (if dry_run then snd s else fold record_result results (snd s));
          st = (if dry_run then st else fold (finalize_result lives) results st)
      in (fold count_result results (fst s), st))"

function recompress_batches ::
  "cas_env \<Rightarrow> (string \<Rightarrow> bool) \<Rightarrow> (string \<Rightarrow> bool) \<Rightarrow> bool \<Rightarrow> digest list \<Rightarrow> recompress_stats \<times> castore \<Rightarrow> recompress_stats \<times> castore" where
  "recompress_batches env io lives dry_run chunks s =
     (if chunks = [] then s
      else recompress_batches env io lives dry_run (drop COMPRESS_BATCH chunks)
             (recompress_batch env io lives dry_run (take COMPRESS_BATCH chunks) s))"
  by pat_completeness auto
termination
  by (relation "measure (\<lambda>(env, io, lives, dry_run, chunks, s). length chunks)") (auto simp: COMPRESS_BATCH_def)

declare recompress_batches.simps [simp del]

text \<open>The chunks at another level, by descending size.\<close>

definition chunks_to_recompress :: "castore_db \<Rightarrow> digest list" where
  "chunks_to_recompress db =
     filter (\<lambda>dg. length dg = 32)
       (map fst (sort_key (\<lambda>r. - int (ck_size (snd r)))
         (filter (\<lambda>r. ck_zstd_level (snd r) \<noteq> None \<and> ck_zstd_level (snd r) \<noteq> Some TARGET_LEVEL) (db_chunks db))))"

definition cmd_compress_chunks ::
  "cas_env \<Rightarrow> (string \<Rightarrow> bool) \<Rightarrow> (string \<Rightarrow> bool) \<Rightarrow> bool \<Rightarrow> castore \<Rightarrow> recompress_stats \<times> castore" where
  "cmd_compress_chunks env io lives dry_run st =
     recompress_batches env io lives dry_run (chunks_to_recompress (st_db st))
       (\<lparr>rz_recompressed = 0, rz_optimal = 0, rz_bytes_saved = 0, rz_bytes_processed = 0, rz_processed = 0\<rparr>, st)"

subsection \<open>Columns of chunk rows may change\<close>

text \<open>A store whose chunk rows and chunk files changed, and not the set of rows, serves the same archives as long
  as every chunk can be read back.\<close>

lemma serves_chunk_columns:
  assumes h: "serves env U st m" and files: "files_inv env U st'"
    and wf: "wf_table (db_chunks (st_db st'))"
    and keys: "\<And>g. (map_of (db_chunks (st_db st')) g = None) = (map_of (db_chunks (st_db st)) g = None)"
    and same: "db_file_chunks (st_db st') = db_file_chunks (st_db st)" "db_directories (st_db st') = db_directories (st_db st)"
      "db_paths (st_db st') = db_paths (st_db st)" "db_path_files (st_db st') = db_path_files (st_db st)"
      "st_dir_cache st' = st_dir_cache st"
  shows "serves env U st' m"
proof -
  have stored: "file_stored env (st_db st') d = file_stored env (st_db st) d" for d
    by (simp add: file_stored_def same keys)
  have dirs: "dir_stored env (st_db st') x = dir_stored env (st_db st) x" for x
    by (simp add: dir_stored_def same)
  have inv: "castore_inv env U st" using h unfolding serves_def by blast
  have "db_inv env U (st_db st')" using castore_invD(1)[OF inv] wf unfolding db_inv_def same stored by blast
  moreover have "cache_inv env st'" using castore_invD(3)[OF inv] unfolding cache_inv_def same .
  moreover have "row_holds env U (st_db st') k q r = row_holds env U (st_db st) k q r" for k q r
    unfolding row_holds_def path_holds_def tree_stored_def stored dirs same ..
  ultimately show ?thesis using h files unfolding serves_def castore_inv_def same by simp
qed

definition leveled :: "castore \<Rightarrow> digest \<Rightarrow> bool" where
  "leveled st g \<longleftrightarrow> (\<exists>row l. map_of (db_chunks (st_db st)) g = Some row \<and> ck_zstd_level row = Some l)"

lemma serves_set_level:
  assumes h: "serves env U st m" and l: "leveled st g"
  shows "serves env U (set_level g sz st) m" and "leveled (set_level g sz st) k = leveled st k"
proof -
  let ?st = "set_level g sz st"
  have inv: "castore_inv env U st" using h unfolding serves_def by blast
  have row: "map_of (db_chunks (st_db ?st)) = (map_of (db_chunks (st_db st)))(g := map_option
      (\<lambda>r. r\<lparr>ck_zstd_level := Some TARGET_LEVEL, ck_disk_size := sz\<rparr>) (map_of (db_chunks (st_db st)) g))"
    by (simp add: set_level_def table_simps)
  have "chunk_ok env U (st_files st) k r" if "map_of (db_chunks (st_db ?st)) k = Some r" for k r
  proof (cases "k = g")
    case True
    obtain old l0 where old: "map_of (db_chunks (st_db st)) g = Some old" "ck_zstd_level old = Some l0"
      using l unfolding leveled_def by blast
    then have ok: "chunk_ok env U (st_files st) g old" using castore_invD(2)[OF inv] by (simp add: files_inv_def)
    have r: "r = old\<lparr>ck_zstd_level := Some TARGET_LEVEL, ck_disk_size := sz\<rparr>"
      using that unfolding row True by (simp add: old)
    have "chunk_file env (ck_zstd_level r) c f = chunk_file env (ck_zstd_level old) c f" for c f
      by (simp add: r old(2) chunk_file_def)
    moreover have "ck_size r = ck_size old" "ck_data r = ck_data old" by (simp_all add: r)
    ultimately show ?thesis using ok unfolding True chunk_ok_def by (simp only:)
  next
    case False
    then have "map_of (db_chunks (st_db st)) k = Some r" using that unfolding row by simp
    then show ?thesis using castore_invD(2)[OF inv] by (simp add: files_inv_def)
  qed
  then have files: "files_inv env U ?st"
    using castore_invD(2)[OF inv] by (simp add: files_inv_def) (simp add: set_level_def)
  have wf: "wf_table (db_chunks (st_db ?st))"
    using castore_invD(1)[OF inv] by (simp add: db_inv_def set_level_def wf_table_def)
  show "serves env U ?st m"
    by (rule serves_chunk_columns[OF h files wf]) (simp_all add: row, simp_all add: set_level_def)
  show "leveled ?st k = leveled st k"
    using l by (auto simp: leveled_def row)
qed
lemma serves_replace_file:
  assumes env: "cas_env_ok env" and inj: "inj_on (blake3 env) U" and h: "serves env U st m" and l: "leveled st g"
    and t: "\<And>c. c \<in> U \<Longrightarrow> g = blake3 env c \<Longrightarrow> \<not> length c < INLINE_THRESHOLD \<Longrightarrow> t = zstd_compress env l' c"
  shows "serves env U (st\<lparr>st_files := insert_or_replace (cpath g) t (st_files st)\<rparr>) m"
proof -
  let ?st = "st\<lparr>st_files := insert_or_replace (cpath g) t (st_files st)\<rparr>"
  have inv: "castore_inv env U st" using h unfolding serves_def by blast
  have "chunk_ok env U (st_files ?st) k r" if r: "map_of (db_chunks (st_db st)) k = Some r" for k r
  proof -
    have ok: "chunk_ok env U (st_files st) k r" using castore_invD(2)[OF inv] r by (simp add: files_inv_def)
    then obtain c where c: "c \<in> U" "k = blake3 env c" "ck_size r = length c" "length c \<le> CHUNK_MAX * 2"
      "if length c < INLINE_THRESHOLD then ck_data r = Some c
       else ck_data r = None \<and> chunk_file env (ck_zstd_level r) c (map_of (st_files st) (cpath k))"
      unfolding chunk_ok_def by blast
    have "chunk_file env (ck_zstd_level r) c (map_of (st_files ?st) (cpath k))" if "\<not> length c < INLINE_THRESHOLD"
    proof (cases "k = g")
      case True
      obtain l0 where "ck_zstd_level r = Some l0" using l r unfolding True leveled_def by auto
      moreover have "t = zstd_compress env l' c" by (rule t[OF c(1)]) (use True c(2) that in auto)
      ultimately show ?thesis unfolding True by (auto simp: chunk_file_def table_simps)
    next
      case False
      then show ?thesis using c(5) that by (simp add: table_simps)
    qed
    then show ?thesis using c unfolding chunk_ok_def by (intro bexI[of _ c]) (simp_all split: if_splits)
  qed
  moreover have "wf_table (st_files ?st)" using castore_invD(2)[OF inv] by (auto simp: files_inv_def)
  ultimately have files: "files_inv env U ?st" by (simp add: files_inv_def)
  have wf: "wf_table (db_chunks (st_db ?st))" using castore_invD(1)[OF inv] by (simp add: db_inv_def)
  show ?thesis by (rule serves_chunk_columns[OF h files wf]) simp_all
qed

subsection \<open>A run\<close>

text \<open>What a worker puts into a temporary file is the chunk at the target level.\<close>

fun result_ok :: "cas_env \<Rightarrow> bytes set \<Rightarrow> castore \<Rightarrow> chunk_result \<Rightarrow> bool" where
  "result_ok env U st (Recompressed g tmp path new_size old_size) \<longleftrightarrow> leveled st g \<and> path = cpath g \<and>
     (\<forall>t c. tmp = Some t \<longrightarrow> c \<in> U \<longrightarrow> g = blake3 env c \<longrightarrow> \<not> length c < INLINE_THRESHOLD \<longrightarrow> t = zstd_compress env TARGET_LEVEL c)"
| "result_ok env U st (AlreadyOptimal g sz) \<longleftrightarrow> leveled st g"
| "result_ok env U st Skipped \<longleftrightarrow> True"

lemma recompress_chunk_ok:
  assumes env: "cas_env_ok env" and inj: "inj_on (blake3 env) U" and inv: "castore_inv env U st" and l: "leveled st g"
  shows "result_ok env U st (recompress_chunk env io dry_run st g)"
proof -
  obtain row l0 where row: "map_of (db_chunks (st_db st)) g = Some row" "ck_zstd_level row = Some l0"
    using l unfolding leveled_def by blast
  have "raw = c" if f: "map_of (st_files st) (cpath g) = Some f" "zstd_decompress env (256 * 1024 * 2) f = Some raw"
    and c: "c \<in> U" "g = blake3 env c" "\<not> length c < INLINE_THRESHOLD" for f raw c
  proof -
    have "chunk_ok env U (st_files st) g row" using castore_invD(2)[OF inv] row(1) by (simp add: files_inv_def)
    then obtain c' where c': "c' \<in> U" "g = blake3 env c'" "length c' \<le> CHUNK_MAX * 2"
      "if length c' < INLINE_THRESHOLD then ck_data row = Some c'
       else ck_data row = None \<and> chunk_file env (ck_zstd_level row) c' (map_of (st_files st) (cpath g))"
      unfolding chunk_ok_def by blast
    have "c' = c" using inj_onD[OF inj] c c' by metis
    then obtain l1 where "f = zstd_compress env l1 c" using c'(4) c(3) f(1) by (auto simp: row(2) chunk_file_def)
    then show "raw = c" using f(2) cas_env_okD(7)[OF env, of c "256 * 1024 * 2"] c'(3) \<open>c' = c\<close> by (simp add: CHUNK_MAX_def)
  qed
  then show ?thesis using l
    by (auto simp: recompress_chunk_def Let_def cpath_def[symmetric] split: option.split)
qed

lemma serves_record_results:
  assumes "serves env U st m" and "\<forall>r \<in> set rs. result_ok env U st r"
  shows "serves env U (fold record_result rs st) m \<and> (\<forall>g. leveled (fold record_result rs st) g = leveled st g)"
  using assms
proof (induction rs arbitrary: st)
  case (Cons r rs)
  have step: "serves env U (record_result r st) m \<and> (\<forall>g. leveled (record_result r st) g = leveled st g)"
    using Cons.prems by (cases r) (simp_all add: serves_set_level)
  moreover have "result_ok env U (record_result r st) q = result_ok env U st q" for q
    using step by (cases q) simp_all
  ultimately show ?case using Cons.IH[of "record_result r st"] Cons.prems(2) by simp
qed simp

lemma serves_finalize_results:
  assumes env: "cas_env_ok env" and inj: "inj_on (blake3 env) U"
    and "serves env U st m" and "\<forall>r \<in> set rs. result_ok env U st r"
  shows "serves env U (fold (finalize_result lives) rs st) m \<and>
    db_chunks (st_db (fold (finalize_result lives) rs st)) = db_chunks (st_db st)"
  using assms(3,4)
proof (induction rs arbitrary: st)
  case (Cons r rs)
  have db: "st_db (finalize_result lives r st) = st_db st" by (induction lives r st rule: finalize_result.induct) simp_all
  have "serves env U (finalize_result lives r st) m"
    using Cons.prems
  proof (induction lives r st rule: finalize_result.induct)
    case (1 lives g t path new_size old_size st)
    then show ?case using serves_replace_file[OF env inj 1(1), of g t TARGET_LEVEL] by simp
  qed simp_all
  moreover have "result_ok env U (finalize_result lives r st) q = result_ok env U st q" for q
    by (cases q) (simp_all add: leveled_def db)
  ultimately show ?case using Cons.IH[of "finalize_result lives r st"] Cons.prems(2) db by simp
qed simp

lemma serves_batch:
  assumes env: "cas_env_ok env" and inj: "inj_on (blake3 env) U" and h: "serves env U (snd s) m"
    and l: "\<forall>g \<in> set batch. leveled (snd s) g"
  shows "serves env U (snd (recompress_batch env io lives dry_run batch s)) m \<and>
    (\<forall>g. leveled (snd (recompress_batch env io lives dry_run batch s)) g = leveled (snd s) g)"
proof (cases dry_run)
  case False
  let ?rs = "map (recompress_chunk env io dry_run (snd s)) batch"
  have inv: "castore_inv env U (snd s)" using h unfolding serves_def by blast
  have ok: "\<forall>r \<in> set ?rs. result_ok env U (snd s) r" using recompress_chunk_ok[OF env inj inv] l by simp
  note R = serves_record_results[OF h ok]
  have "result_ok env U (fold record_result ?rs (snd s)) q = result_ok env U (snd s) q" for q
    using R by (cases q) simp_all
  then have "\<forall>r \<in> set ?rs. result_ok env U (fold record_result ?rs (snd s)) r" using ok by blast
  from serves_finalize_results[OF env inj conjunct1[OF R] this, of lives] R show ?thesis
    using False by (simp add: recompress_batch_def Let_def leveled_def)
qed (simp add: recompress_batch_def h)

lemma serves_batches:
  "cas_env_ok env \<Longrightarrow> inj_on (blake3 env) U \<Longrightarrow> serves env U (snd s) m \<Longrightarrow> \<forall>g \<in> set chunks. leveled (snd s) g \<Longrightarrow>
   serves env U (snd (recompress_batches env io lives dry_run chunks s)) m"
proof (induction env io lives dry_run chunks s rule: recompress_batches.induct)
  case (1 env io lives dry_run chunks s)
  show ?case
  proof (cases "chunks = []")
    case False
    let ?s = "recompress_batch env io lives dry_run (take COMPRESS_BATCH chunks) s"
    have b: "serves env U (snd ?s) m \<and> (\<forall>g. leveled (snd ?s) g = leveled (snd s) g)"
      by (rule serves_batch[OF 1(2-4)]) (use 1(5) in \<open>auto dest: in_set_takeD\<close>)
    then have "\<forall>g \<in> set (drop COMPRESS_BATCH chunks). leveled (snd ?s) g" using 1(5) by (auto dest: in_set_dropD)
    then show ?thesis using 1(1)[OF False 1(2,3) conjunct1[OF b]] False by (subst recompress_batches.simps) simp
  qed (use 1(4) in \<open>simp add: recompress_batches.simps\<close>)
qed

lemma serves_recompress:
  assumes env: "cas_env_ok env" and inj: "inj_on (blake3 env) U" and h: "serves env U st m"
  shows "serves env U (snd (cmd_compress_chunks env io lives dry_run st)) m"
proof -
  have inv: "castore_inv env U st" using h unfolding serves_def by blast
  then have wf: "wf_table (db_chunks (st_db st))" by (simp add: castore_inv_def db_inv_def)
  have "\<forall>g \<in> set (chunks_to_recompress (st_db st)). leveled st g"
    by (auto simp: chunks_to_recompress_def leveled_def wf_map_of[OF wf])
  then show ?thesis unfolding cmd_compress_chunks_def by (intro serves_batches[OF env inj]) (simp_all add: h)
qed

text \<open>C26. Recompressing a store takes nothing from anyone: whatever temporary files cannot be written and whatever
  renames fail, every archive is served as before, also after a later eviction of another path; a dry run
  changes nothing at all.\<close>

theorem recompress_keeps_archives:
  assumes "cas_env_ok env" and "inj_on (blake3 env) (history_blobs env as)" and "\<forall>p. io p"
    and "\<forall>a \<in> set as. op_fits fuel (snd a)" and "0 < fuel"
    and "st = run_store fuel env fl io as (new_castore fl level clock)"
    and "(stats, st') = cmd_compress_chunks env writes lives dry_run st"
  shows "get_nar fuel env p st' = get_nar fuel env p st \<and>
    get_nar fuel env p (snd (evict_path io now h st')) =
      (if hash_of_file_path p = h then Ok None else get_nar fuel env p st) \<and> (dry_run \<longrightarrow> st' = st)"
proof -
  have io: "\<And>p. io p" using assms(3) by blast
  have "holds env (history_blobs env as) st (run_spec as)" unfolding assms(6) using assms(1-4) by (rule holds_run)
  then have h: "serves env (history_blobs env as) st (run_spec as)" unfolding holds_iff by blast
  note fuel = fits_history[OF assms(4)]
  have st': "st' = snd (cmd_compress_chunks env writes lives dry_run st)" using assms(7) by (metis snd_conv)
  have h': "serves env (history_blobs env as) st' (run_spec as)"
    unfolding st' by (rule serves_recompress[OF assms(1,2) h])
  note evict = evict_serves_others[where io = io and h = h and now = now, OF assms(1,2) io h' fuel assms(5)]
    and read = fits_serves_get_nar[OF assms(1,2) h' fuel assms(5)]
  have "get_nar fuel env p st' = get_nar fuel env p st"
    using read[of p] fits_serves_get_nar[OF assms(1,2) h fuel assms(5), of p] by simp
  moreover have "snd (recompress_batches env writes lives True chunks s) = snd s" for chunks s
    by (induction env writes lives True chunks s rule: recompress_batches.induct)
      (subst recompress_batches.simps, simp add: recompress_batch_def)
  then have "dry_run \<longrightarrow> st' = st" unfolding st' cmd_compress_chunks_def by auto
  ultimately show ?thesis unfolding evict by simp
qed

theorem recompress_keeps_archives_witness:
  "get_nar 9 sample_env ''nar/abc.nar'' (snd (cmd_compress_chunks sample_env (\<lambda>_. True) (\<lambda>_. False) False
     (run_store 9 sample_env toy_sizes (\<lambda>_. True) [sample_put] (new_castore toy_sizes 2 0)))) =
   get_nar 9 sample_env ''nar/abc.nar'' (run_store 9 sample_env toy_sizes (\<lambda>_. True) [sample_put] (new_castore toy_sizes 2 0))"
proof -
  have inj: "inj_on (blake3 sample_env) (history_blobs sample_env [sample_put])"
    unfolding sample_history(1) by (rule sample_nar_inj)
  show ?thesis
    using recompress_keeps_archives[OF sample_env_ok inj _ sample_history(2) _ refl prod.collapse, of "\<lambda>_. True" "''nar/abc.nar''"]
    by simp
qed

subsection \<open>What a run achieves\<close>

lemma record_result_files [simp]: "st_files (record_result r st) = st_files st"
  by (cases r) (simp_all add: set_level_def)

lemma fold_record_files [simp]: "st_files (fold record_result rs st) = st_files st"
  by (induction rs arbitrary: st) simp_all

lemma finalize_none [simp]: "fold (finalize_result (\<lambda>_. False)) rs st = st"
proof (induction rs arbitrary: st)
  case (Cons r rs)
  have "finalize_result (\<lambda>_. False) r st = st" by (cases "(\<lambda>_ :: string. False, r, st)" rule: finalize_result.cases) simp_all
  then show ?case using Cons.IH by simp
qed simp

lemma recompress_chunk_files: "st_files st' = st_files st \<Longrightarrow> recompress_chunk env io dry st' g = recompress_chunk env io dry st g"
  by (simp add: recompress_chunk_def)

text \<open>Without renames a run is the recorded results of all chunks.\<close>

lemma recompress_without_renames:
  "snd (recompress_batches env io (\<lambda>_. False) False chunks s) =
   fold record_result (map (recompress_chunk env io False (snd s)) chunks) (snd s)"
proof (induction env io "\<lambda>_ :: string. False" False chunks s rule: recompress_batches.induct)
  case (1 env io chunks s)
  show ?case
  proof (cases "chunks = []")
    case False
    let ?b = "take COMPRESS_BATCH chunks"
    let ?s = "recompress_batch env io (\<lambda>_. False) False ?b s"
    have s: "snd ?s = fold record_result (map (recompress_chunk env io False (snd s)) ?b) (snd s)"
      by (simp add: recompress_batch_def Let_def)
    have "snd (recompress_batches env io (\<lambda>_. False) False chunks s) =
        fold record_result (map (recompress_chunk env io False (snd ?s)) (drop COMPRESS_BATCH chunks)) (snd ?s)"
      using 1[OF False] False by (subst recompress_batches.simps) simp
    moreover have "recompress_chunk env io False (snd ?s) = recompress_chunk env io False (snd s)"
      by (intro ext recompress_chunk_files) (simp add: s)
    ultimately have "snd (recompress_batches env io (\<lambda>_. False) False chunks s) =
        fold record_result (map (recompress_chunk env io False (snd s)) (?b @ drop COMPRESS_BATCH chunks)) (snd s)"
      unfolding map_append fold_append o_apply by (simp only: s)
    then show ?thesis by simp
  qed (simp add: recompress_batches.simps)
qed

lemma record_result_other:
  "g \<notin> set chunks \<Longrightarrow> map_of (db_chunks (st_db (fold record_result (map (recompress_chunk env io dry st0) chunks) st))) g =
     map_of (db_chunks (st_db st)) g"
proof (induction chunks arbitrary: st)
  case (Cons c chunks)
  have "map_of (db_chunks (st_db (record_result (recompress_chunk env io dry st0 c) st))) g = map_of (db_chunks (st_db st)) g"
    using Cons.prems by (auto simp: recompress_chunk_def Let_def set_level_def table_simps split: option.split)
  then show ?case using Cons by simp
qed simp

lemma record_result_this:
  assumes "distinct chunks" "g \<in> set chunks" "recompress_chunk env io dry st0 g = Recompressed g tmp path new_size old_size"
  shows "map_of (db_chunks (st_db (fold record_result (map (recompress_chunk env io dry st0) chunks) st))) g =
     map_option (\<lambda>r. r\<lparr>ck_zstd_level := Some TARGET_LEVEL, ck_disk_size := new_size\<rparr>) (map_of (db_chunks (st_db st)) g)"
  using assms(1,2)
proof (induction chunks arbitrary: st)
  case (Cons c chunks)
  show ?case
  proof (cases "c = g")
    case True
    then show ?thesis using Cons.prems assms(3)
      by (simp add: record_result_other) (simp add: set_level_def table_simps)
  next
    case False
    have "map_of (db_chunks (st_db (record_result (recompress_chunk env io dry st0 c) st))) g = map_of (db_chunks (st_db st)) g"
      using False by (auto simp: recompress_chunk_def Let_def set_level_def table_simps split: option.split)
    then show ?thesis using Cons.IH[of "record_result (recompress_chunk env io dry st0 c) st"] Cons.prems False by simp
  qed
qed simp

text \<open>Nothing is ever shortened.  The temporary file is deleted as soon as its path was taken from the handle, so no
  rename finds it: the run leaves every chunk file as it was, but records the chunk at the new level with the
  size the file would have had, and later runs do not consider the chunk again.\<close>

theorem recompress_shrinks_nothing:
  assumes "wf_table (db_chunks (st_db st))" and "map_of (db_chunks (st_db st)) g = Some row" and "length g = 32"
    and "ck_zstd_level row = Some l" and "l \<noteq> TARGET_LEVEL"
    and "map_of (st_files st) (chunk_path (hex_encode g)) = Some compressed"
    and "zstd_decompress env (256 * 1024 * 2) compressed = Some raw"
    and "length (zstd_compress env TARGET_LEVEL raw) < length compressed" and "writes (chunk_path (hex_encode g))"
    and "(stats, st') = cmd_compress_chunks env writes (\<lambda>_. False) False st"
  shows "st_files st' = st_files st \<and>
    (\<exists>row'. map_of (db_chunks (st_db st')) g = Some row' \<and> ck_disk_size row' < length compressed) \<and>
    g \<notin> set (chunks_to_recompress (st_db st'))"
proof -
  let ?chunks = "chunks_to_recompress (st_db st)"
  let ?new = "zstd_compress env TARGET_LEVEL raw"
  have st': "st' = fold record_result (map (recompress_chunk env writes False st) ?chunks) st"
    using assms(10) recompress_without_renames[of env writes ?chunks]
    by (simp add: cmd_compress_chunks_def) (metis snd_conv)
  have sorted: "distinct (map fst (sort_key f xs)) = distinct (map fst xs)" for f :: "digest \<times> chunk_row \<Rightarrow> int" and xs
    by (simp add: distinct_map)
  have distinct: "distinct ?chunks"
    unfolding chunks_to_recompress_def using assms(1)
    by (intro distinct_filter) (simp only: sorted wf_table_def distinct_map_filter_fst)
  have mem: "g \<in> set ?chunks"
    using assms(2-5) map_of_SomeD[OF assms(2)] by (force simp: chunks_to_recompress_def)
  have res: "recompress_chunk env writes False st g =
      Recompressed g (Some ?new) (chunk_path (hex_encode g)) (length ?new) (length compressed)"
    using assms(6-9) by (simp add: recompress_chunk_def Let_def)
  have row': "map_of (db_chunks (st_db st')) g = Some (row\<lparr>ck_zstd_level := Some TARGET_LEVEL, ck_disk_size := length ?new\<rparr>)"
    unfolding st' record_result_this[OF distinct mem res] by (simp add: assms(2))
  have keys: "map fst (db_chunks (st_db (record_result r s))) = map fst (db_chunks (st_db s))" for r s
    by (cases r) (simp_all add: set_level_def)
  have "map fst (db_chunks (st_db (fold record_result rs s))) = map fst (db_chunks (st_db s))" for rs s
    by (induction rs arbitrary: s) (simp_all add: keys)
  then have "wf_table (db_chunks (st_db st'))" using assms(1) by (simp add: st' wf_table_def)
  then have "r = row\<lparr>ck_zstd_level := Some TARGET_LEVEL, ck_disk_size := length ?new\<rparr>" if "(g, r) \<in> set (db_chunks (st_db st'))" for r
    using that row' by (simp add: wf_map_of[symmetric])
  then have "ck_zstd_level r = Some TARGET_LEVEL" if "(g, r) \<in> set (db_chunks (st_db st'))" for r
    using that by fastforce
  then have "g \<notin> set (chunks_to_recompress (st_db st'))" by (auto simp: chunks_to_recompress_def)
  then show ?thesis using row' assms(8) by (simp add: st')
qed

text \<open>An instance: one chunk whose file has padding that the sample codec ignores.\<close>

definition sample_loose :: castore where
  "sample_loose = (new_castore toy_sizes 2 0)\<lparr>
     st_db := empty_db\<lparr>db_chunks := [(replicate 32 (CHR ''g''),
       \<lparr>ck_size = 3, ck_ref_count = 1, ck_zstd_level = Some 2, ck_disk_size = 12, ck_data = None\<rparr>)]\<rparr>,
     st_files := [(chunk_path (hex_encode (replicate 32 (CHR ''g''))), ''R'' @ u64_to_le_bytes 3 @ [char_of (0::nat), char_of (0::nat)])]\<rparr>"

theorem recompress_shrinks_nothing_witness:
  "st_files (snd (cmd_compress_chunks sample_env (\<lambda>_. True) (\<lambda>_. False) False sample_loose)) = st_files sample_loose \<and>
   replicate 32 (CHR ''g'') \<notin>
     set (chunks_to_recompress (st_db (snd (cmd_compress_chunks sample_env (\<lambda>_. True) (\<lambda>_. False) False sample_loose))))"
proof -
  let ?g = "replicate 32 (CHR ''g'')"
  let ?f = "''R'' @ u64_to_le_bytes 3 @ [char_of (0::nat), char_of (0::nat)]"
  let ?row = "\<lparr>ck_size = 3, ck_ref_count = 1, ck_zstd_level = Some 2, ck_disk_size = 12, ck_data = None\<rparr>"
  have dec: "zstd_decompress sample_env (256 * 1024 * 2) ?f = Some ''aaa''"
  proof -
    have "from_le (u64_to_le_bytes 3 @ [char_of (0::nat), char_of (0::nat)]) = 3" by code_simp
    then show ?thesis by (simp add: sample_decompress_def Let_def numeral_3_eq_3)
  qed
  have "sample_compress TARGET_LEVEL ''aaa'' = CHR ''R'' # u64_to_le_bytes 3"
    by (simp add: sample_compress_def numeral_3_eq_3)
  then have short: "length (zstd_compress sample_env TARGET_LEVEL ''aaa'') < length ?f" by simp
  have rows: "wf_table (db_chunks (st_db sample_loose))" "map_of (db_chunks (st_db sample_loose)) ?g = Some ?row"
    "map_of (st_files sample_loose) (chunk_path (hex_encode ?g)) = Some ?f"
    by (simp_all add: sample_loose_def wf_table_def)
  have level: "length ?g = 32" "ck_zstd_level ?row = Some 2" "(2::int) \<noteq> TARGET_LEVEL" "(\<lambda>_ :: string. True) p" for p
    by (simp_all add: TARGET_LEVEL_def)
  show ?thesis
    using recompress_shrinks_nothing[OF rows(1,2) level(1-3) rows(3) dec short level(4) prod.collapse] by blast
qed

end
