(* ===== verification/Spec2Isabelle.thy ===== *)
theory Spec2Isabelle
  imports EnvTrust HomeApply HomePackages HttpCompression Push Recompress
begin

text \<open>
  A verification development for ekapkgs-cli, a package manager front end and binary cache for Nix
  store paths.  The program has a client (\<open>crates/ekapkgs\<close>), a cache server
  (\<open>crates/ekapkgs-serve\<close>), libraries they share (\<open>crates/ekapkgs-nix\<close>: archives, chunking,
  Bloom filters; \<open>crates/ekapkgs-protocol\<close>: certificates), a user interface crate and integration
  tests.  A store path is packed as a NAR archive; the server splits it into chunks and directories
  addressed by their BLAKE3 digest and rebuilds the archive on demand; a client that has some chunks
  already asks for the others only.

  Theories, in dependency order, and what they model (files under \<open>src/crates/\<close>):

  \<^item> \<open>Prelude\<close>: results and errors (\<open>bindR\<close>, \<open>foldR\<close>, \<open>bindS\<close>), little-endian integers, UTF-8
    validity, the \<open>str\<close> functions of the standard library the source uses.
  \<^item> \<open>Nar\<close>: \<open>ekapkgs-nix/src/nar.rs\<close>, parser and writer.  A reader is the input with a position; the
    position arithmetic wraps at 64 bits, where the source would panic the model returns \<open>Panic\<close>.  The
    parser is given fuel; \<open>parse_nar_terminates\<close> shows that the length of the input suffices.
  \<^item> \<open>Certs\<close>: \<open>ekapkgs-protocol/src/signing.rs\<close>.  Ed25519 is a record of functions \<open>ed25519\<close>; its law
    (a signature made with a key verifies) is the hypothesis \<open>ed25519_ok\<close>, given a concrete instance.
  \<^item> \<open>NarInfo\<close>: the narinfo text format and the signed fingerprint (\<open>ekapkgs-serve/src/storage/mod.rs\<close>,
    \<open>ekapkgs-serve/src/signing.rs\<close>) and store path names (\<open>ekapkgs-nix/src/store.rs\<close>).
  \<^item> \<open>Bloom\<close>: \<open>ekapkgs-nix/src/bloom.rs\<close> on 64-bit words.  The locale \<open>approx_set\<close> is the contract of an
    approximate set; the filter interprets it.
  \<^item> \<open>CaTree\<close>: the protobuf tree of a stored archive and its streaming writer (\<open>nar.rs\<close>), over a
    \<open>chunk_reader\<close>.  \<open>cas_env\<close> holds what is not in the repository: BLAKE3, the chunker, protobuf and
    zstd; \<open>cas_env_ok\<close> states their documented behaviour and \<open>Samples\<close> gives an instance.
  \<^item> \<open>Table\<close>: SQL tables with a primary key as association lists; \<open>DirCache\<close>: the LRU cache of
    directories; \<open>Decompose\<close>: the client's decomposition of an archive.
  \<^item> \<open>Castore\<close>: the server's store \<open>CastoreBackend\<close> (\<open>ekapkgs-serve/src/storage/castore.rs\<close>), a record of
    the SQLite tables, the chunk files, the caches and the filters, with one definition per method.
    \<open>CastoreInv\<close> is its invariant and what ingestion establishes; \<open>CastoreRefine\<close> relates the store to
    a map from hashes to archives, operation by operation; \<open>CastoreProps\<close> states this for whole
    histories; \<open>CastoreFilters\<close> shows that the Bloom filters agree with the tables.

  Negotiation and transfer:

  \<^item> \<open>TreeWalk\<close>: the walk of stored trees for a client (\<open>walk_cas_trees\<close>) and \<open>reconstruct_node\<close>.
  \<^item> \<open>ChunkNegotiate\<close>: the chunk negotiation, its messages, the server's handlers
    (\<open>ekapkgs-serve/src/api/negotiate.rs\<close>, \<open>api/chunks.rs\<close>) and the client's request.
  \<^item> \<open>ChunkStore\<close>: the client's store (\<open>ekapkgs/src/chunk_store.rs\<close>) with its eviction.
  \<^item> \<open>Manifest\<close>: manifest entries, from the server's narinfo to the client's.
  \<^item> \<open>CasPull\<close>: the client's pull (\<open>ekapkgs/src/cas_pull.rs\<close>) against the server's store:
    \<open>cas_pull_delivers\<close> composes negotiation, downloads, reassembly and import.
  \<^item> \<open>ServerCaches\<close> and \<open>AppState\<close>: the delta and narinfo caches and the state the handlers share
    (\<open>ekapkgs-serve/src/main.rs\<close>).
  \<^item> \<open>Negotiate\<close>: \<open>negotiate\<close> for whole paths: closure, manifest, download plan and deltas.
  \<^item> \<open>NarStream\<close>: the stream of archives, server (\<open>stream_nars\<close>) and client (\<open>stream_and_import\<close> of
    \<open>ekapkgs/src/download.rs\<close>); \<open>negotiated_stream_delivers\<close> composes it with \<open>Negotiate\<close>.

  The server's life and its HTTP interface:

  \<^item> \<open>Gc\<close>: both garbage collectors (\<open>ekapkgs-serve/src/gc.rs\<close>).
  \<^item> \<open>Lifecycle\<close>: opening, recovering and upgrading the store; \<open>Recompress\<close>: \<open>compress-chunks\<close>.
  \<^item> \<open>HttpApi\<close>: tokens, uploads, downloads and lookups (\<open>tokens.rs\<close>, \<open>api/upload.rs\<close>, \<open>api/compat.rs\<close>,
    \<open>api/chunks.rs\<close>, \<open>api/delta.rs\<close>), with \<open>handle\<close> as the router; \<open>HttpProps\<close>: their properties.
  \<^item> \<open>HttpCompression\<close>: the compression layer (\<open>compression.rs\<close>).
  \<^item> \<open>Push\<close>: the client's push (\<open>ekapkgs/src/commands/cache.rs\<close>) against \<open>handle\<close>.

  The client's configuration:

  \<^item> \<open>Strings\<close>: trimming, and escaped characters of a text.
  \<^item> \<open>HomeServices\<close>, \<open>NixExpr\<close>, \<open>HomeApply\<close>: the manifest of user services, the Nix expression made from
    it and its activation in the user's unit directory (\<open>commands/home.rs\<close>, \<open>config.rs\<close>,
    \<open>service_templates.rs\<close>).
  \<^item> \<open>HomePackages\<close>: packages of the home directory and their links (\<open>symlink_dir.rs\<close>,
    \<open>store_path_index.rs\<close>), with activation and rollback of home generations.
  \<^item> \<open>SystemGen\<close>: system generations and the pruning of boot entries (\<open>commands/system.rs\<close>).
  \<^item> \<open>EnvTrust\<close>: directory environments and which of them a shell may enter (\<open>commands/env.rs\<close>).

  What the lemmas show.  The store serves what was put and nothing else, before and after evictions,
  upgrades and recoveries (\<open>castore_refines_map\<close>, \<open>evict_path_exact\<close>, \<open>recovery_restores_archives\<close>);
  pulls, streams and pushes deliver archives byte for byte; caches and filters answer as the tables
  they stand for; requests without a token change nothing; the client's commands leave the files they
  describe.  Theorems named after a defect (\<open>aborted_ingest_corrupts_chunk\<close>, \<open>warmup_hides_chunk\<close>,
  \<open>interrupted_upgrade_loses_files\<close>, \<open>compressed_tail_is_lost\<close> and others) show where the program
  does not do what it means to.

  Conventions.  Bytes and strings are lists of characters (a Rust string is its UTF-8 bytes).  A result is
  \<open>Err e\<close> or \<open>Ok x\<close> of a sum; a method that changes the store returns the result with the state it
  leaves, also when it fails.  A loop or recursion over data that may be cyclic takes fuel, and the
  properties state how much is enough: \<open>op_fits\<close> bounds it by the size of each archive put
  (\<open>nar_fuel\<close>), the parser needs the length of its input.  Code outside the repository is an argument:
  \<open>cas_env\<close> (hashes, chunker, codecs), \<open>ed25519\<close>, records of answers of Nix, systemd and the
  network.  The laws assumed of it are named predicates, and every theorem with hypotheses has a
  witness at a concrete instance.  No such argument stands for the reader of a text the program writes
  for other programs: of these texts only the characters are described.  The order in which a hash
  set or map is walked is an argument where the result depends on it, another one for each run.

  Concurrency.  A handler is one step, a background job one event, so operations that overlap are not
  interleaved inside.  Two exceptions are modelled step by step: the warm-up thread that builds the
  filters (\<open>spawn_warmup\<close>), beside any other operations, and the completion order of the client's
  downloads.  The backfill, which pages through the table in short transactions, is one step;
  \<open>interrupted_upgrade_loses_files\<close> is about a run that is cut off before its first batch.

  Not modelled: metrics, logs and progress output; argument parsing; commands that only run Nix or
  another program and print its answer; package templates; the S3, plain directory and Nix store
  backends; the FUSE mount; failing SQLite statements; the bytes of protobuf, JSON and TOML texts,
  whose libraries are parameters.
\<close>

end
